(* ===== verification/Prelude.thy ===== *)
theory Prelude
  imports "HOL-Library.Word"
begin

unbundle bit_operations_syntax

section \<open>Prelude: machine integers, C commands, byte buffers\<close>

text \<open>
  What every component shares. Machine integers are words of the C type's width. A C
  function that works on a state of type \<open>'s\<close> is a command: it runs from a state and
  either never returns (\<open>None\<close>), or performs an access outside an object, which C leaves
  undefined (\<open>Some (Inl f)\<close>), or returns a value in a new state (\<open>Some (Inr (a, s))\<close>).
  The combinators \<open>ret\<close>, \<open>bnd\<close>, \<open>gets\<close>, \<open>modify\<close> and \<open>abort\<close> build commands; \<open>wp\<close>
  (total) and \<open>wlp\<close> (partial, but free of undefined behaviour) are their weakest
  preconditions, computed by the collection \<open>wp_simps\<close>. The last part holds little-endian
  reads and writes on byte lists and the slice and splice operations behind \<open>memcpy\<close>.
\<close>

type_synonym u8 = "8 word"
type_synonym u16 = "16 word"
type_synonym u32 = "32 word"
type_synonym bytes = "8 word list"

named_theorems wp_simps "weakest preconditions of the command combinators"

subsection \<open>Commands\<close>

datatype fault = Bad_index | Overrun

type_synonym ('s, 'a) cmd = "'s \<Rightarrow> (fault + 'a \<times> 's) option"

datatype ('r, 'x) flow = Return 'r | Go 'x

definition ret :: "'a \<Rightarrow> ('s, 'a) cmd" where
  "ret a = (\<lambda>s. Some (Inr (a, s)))"

definition abort :: "fault \<Rightarrow> ('s, 'a) cmd" where
  "abort f = (\<lambda>s. Some (Inl f))"

definition bnd :: "('s, 'a) cmd \<Rightarrow> ('a \<Rightarrow> ('s, 'b) cmd) \<Rightarrow> ('s, 'b) cmd" where
  "bnd m k = (\<lambda>s. case m s of
      None \<Rightarrow> None
    | Some (Inl f) \<Rightarrow> Some (Inl f)
    | Some (Inr (a, t)) \<Rightarrow> k a t)"

definition gets :: "('s \<Rightarrow> 'a) \<Rightarrow> ('s, 'a) cmd" where
  "gets f = (\<lambda>s. Some (Inr (f s, s)))"

definition modify :: "('s \<Rightarrow> 's) \<Rightarrow> ('s, unit) cmd" where
  "modify f = (\<lambda>s. Some (Inr ((), f s)))"

text \<open>
  Sequencing without a value, and the C idiom \<open>if (!m) return r; k\<close>.
\<close>

abbreviation andthen :: "('s, 'a) cmd \<Rightarrow> ('s, 'b) cmd \<Rightarrow> ('s, 'b) cmd" where
  "andthen m k \<equiv> bnd m (\<lambda>_. k)"

abbreviation or_return :: "('s, bool) cmd \<Rightarrow> 'b \<Rightarrow> ('s, 'b) cmd \<Rightarrow> ('s, 'b) cmd" where
  "or_return m r k \<equiv> bnd m (\<lambda>ok. if ok then k else ret r)"

lemma ret_apply [simp]: "ret a s = Some (Inr (a, s))"
  by (simp add: ret_def)

lemma gets_apply [simp]: "gets f s = Some (Inr (f s, s))"
  by (simp add: gets_def)

lemma modify_apply [simp]: "modify f s = Some (Inr ((), f s))"
  by (simp add: modify_def)

lemma abort_apply [simp]: "abort f s = Some (Inl f)"
  by (simp add: abort_def)

lemma bnd_apply_Inr [simp]: "m s = Some (Inr (a, t)) \<Longrightarrow> bnd m k s = k a t"
  by (simp add: bnd_def)

lemma bnd_apply_Inl [simp]: "m s = Some (Inl f) \<Longrightarrow> bnd m k s = Some (Inl f)"
  by (simp add: bnd_def)

lemma bnd_apply_None [simp]: "m s = None \<Longrightarrow> bnd m k s = None"
  by (simp add: bnd_def)

lemma bnd_ret [simp]: "bnd (ret a) k = k a"
  by (simp add: fun_eq_iff)

lemma bnd_assoc: "bnd (bnd m k) h = bnd m (\<lambda>a. bnd (k a) h)"
  by (simp add: fun_eq_iff bnd_def split: option.splits sum.splits prod.splits)

lemma bnd_eq_Inr:
  "bnd m k s = Some (Inr (b, u)) \<longleftrightarrow> (\<exists>a t. m s = Some (Inr (a, t)) \<and> k a t = Some (Inr (b, u)))"
  by (auto simp: bnd_def split: option.splits sum.splits prod.splits)

text \<open>Monotonicity, so that loops can be defined by \<open>partial_function (option)\<close>.\<close>

lemma bnd_mono [partial_function_mono]:
  fixes B :: "('f \<Rightarrow> 'r option) \<Rightarrow> ('s, 'a) cmd"
    and K :: "('f \<Rightarrow> 'r option) \<Rightarrow> 'a \<Rightarrow> ('s, 'b) cmd"
  assumes B: "\<And>s. mono_option (\<lambda>f. B f s)" and K: "\<And>a s. mono_option (\<lambda>f. K f a s)"
  shows "mono_option (\<lambda>f. bnd (B f) (K f) s)"
proof (rule monotoneI)
  fix f g :: "'f \<Rightarrow> 'r option"
  assume le: "fun_ord option_ord f g"
  have b: "option_ord (B f s) (B g s)"
    using B [of s] le unfolding monotone_on_def by blast
  have k: "option_ord (K f a t) (K g a t)" for a t
    using K [of a t] le unfolding monotone_on_def by blast
  show "option_ord (bnd (B f) (K f) s) (bnd (B g) (K g) s)"
  proof (cases "B f s")
    case None
    then show ?thesis by (simp add: flat_ord_def)
  next
    case (Some r)
    with b have "B g s = Some r" by (simp add: flat_ord_def)
    with Some show ?thesis
    proof (cases r)
      case (Inl e)
      with Some \<open>B g s = Some r\<close> show ?thesis by (simp add: flat_ord_def)
    next
      case (Inr x)
      with Some \<open>B g s = Some r\<close> k [of "fst x" "snd x"] show ?thesis by (cases x) simp
    qed
  qed
qed

lemma if_cmd_mono [partial_function_mono]:
  assumes "mono_option (\<lambda>f. F f s)" and "mono_option (\<lambda>f. G f s)"
  shows "mono_option (\<lambda>f. (if c then F f else G f) s)"
  using assms by (cases c) simp_all

lemma let_cmd_mono [partial_function_mono]:
  assumes "\<And>x. mono_option (\<lambda>f. F f x s)"
  shows "mono_option (\<lambda>f. (let x = v in F f x) s)"
  using assms by (simp add: Let_def)

lemma flow_cmd_mono [partial_function_mono]:
  assumes "\<And>r. mono_option (\<lambda>f. F f r s)" and "\<And>x. mono_option (\<lambda>f. G f x s)"
  shows "mono_option (\<lambda>f. (case w of Return r \<Rightarrow> F f r | Go x \<Rightarrow> G f x) s)"
  using assms by (cases w) simp_all

subsection \<open>Weakest preconditions\<close>

definition wp :: "('s, 'a) cmd \<Rightarrow> ('a \<Rightarrow> 's \<Rightarrow> bool) \<Rightarrow> 's \<Rightarrow> bool" where
  "wp m Q s = (case m s of
      None \<Rightarrow> False
    | Some (Inl f) \<Rightarrow> False
    | Some (Inr (a, t)) \<Rightarrow> Q a t)"

definition wlp :: "('s, 'a) cmd \<Rightarrow> ('a \<Rightarrow> 's \<Rightarrow> bool) \<Rightarrow> 's \<Rightarrow> bool" where
  "wlp m Q s = (case m s of
      None \<Rightarrow> True
    | Some (Inl f) \<Rightarrow> False
    | Some (Inr (a, t)) \<Rightarrow> Q a t)"

lemma wp_iff: "wp m Q s \<longleftrightarrow> (\<exists>a t. m s = Some (Inr (a, t)) \<and> Q a t)"
  by (auto simp: wp_def split: option.splits sum.splits prod.splits)

lemma wlp_iff: "wlp m Q s \<longleftrightarrow> (\<forall>r. m s = Some r \<longrightarrow> (\<exists>a t. r = Inr (a, t) \<and> Q a t))"
  by (auto simp: wlp_def split: option.splits sum.splits prod.splits)

lemma wp_ret [wp_simps]: "wp (ret a) Q s = Q a s"
  by (simp add: wp_def)

lemma wp_bnd [wp_simps]: "wp (bnd m k) Q s = wp m (\<lambda>a. wp (k a) Q) s"
  by (auto simp: wp_def bnd_def split: option.splits sum.splits prod.splits)

lemma wp_gets [wp_simps]: "wp (gets f) Q s = Q (f s) s"
  by (simp add: wp_def)

lemma wp_modify [wp_simps]: "wp (modify f) Q s = Q () (f s)"
  by (simp add: wp_def)

lemma wp_abort [wp_simps]: "wp (abort f) Q s = False"
  by (simp add: wp_def)

lemma wp_if [wp_simps]: "wp (if c then m else n) Q s = (if c then wp m Q s else wp n Q s)"
  by simp

lemma wlp_ret [wp_simps]: "wlp (ret a) Q s = Q a s"
  by (simp add: wlp_def)

lemma wlp_bnd [wp_simps]: "wlp (bnd m k) Q s = wlp m (\<lambda>a. wlp (k a) Q) s"
  by (auto simp: wlp_def bnd_def split: option.splits sum.splits prod.splits)

lemma wlp_gets [wp_simps]: "wlp (gets f) Q s = Q (f s) s"
  by (simp add: wlp_def)

lemma wlp_modify [wp_simps]: "wlp (modify f) Q s = Q () (f s)"
  by (simp add: wlp_def)

lemma wlp_abort [wp_simps]: "wlp (abort f) Q s = False"
  by (simp add: wlp_def)

lemma wlp_if [wp_simps]: "wlp (if c then m else n) Q s = (if c then wlp m Q s else wlp n Q s)"
  by simp

lemma wp_True: "wp m (\<lambda>ok t. ok \<and> R t) s \<Longrightarrow> \<exists>t. m s = Some (Inr (True, t)) \<and> R t"
  unfolding wp_iff by (metis (full_types))

lemma wp_mono: "wp m P s \<Longrightarrow> (\<And>a t. P a t \<Longrightarrow> Q a t) \<Longrightarrow> wp m Q s"
  by (auto simp: wp_iff)

lemma wp_bndI: "wp m P s \<Longrightarrow> (\<And>a t. P a t \<Longrightarrow> wp (k a) Q t) \<Longrightarrow> wp (bnd m k) Q s"
  by (auto simp: wp_bnd elim!: wp_mono)

lemma wlp_mono: "wlp m P s \<Longrightarrow> (\<And>a t. P a t \<Longrightarrow> Q a t) \<Longrightarrow> wlp m Q s"
  by (fastforce simp: wlp_iff)

lemma wlp_bndI: "wlp m P s \<Longrightarrow> (\<And>a t. P a t \<Longrightarrow> wlp (k a) Q t) \<Longrightarrow> wlp (bnd m k) Q s"
  by (auto simp: wlp_bnd elim!: wlp_mono)

lemma wp_wlp: "wp m Q s \<Longrightarrow> wlp m Q s"
  by (auto simp: wp_iff wlp_iff)

lemma wlpD: "wlp m Q s \<Longrightarrow> m s = Some (Inr (a, t)) \<Longrightarrow> Q a t"
  by (simp add: wlp_def)

lemma wpD: "wp m Q s \<Longrightarrow> m s = Some (Inr (a, t)) \<Longrightarrow> Q a t"
  by (simp add: wp_def)

lemma wlp_conj: "wlp m (\<lambda>a t. P a t \<and> Q a t) s \<longleftrightarrow> wlp m P s \<and> wlp m Q s"
  by (auto simp: wlp_def split: option.splits sum.splits prod.splits)

text \<open>
  Partial correctness of a loop defined by \<open>partial_function\<close>: it is enough that one
  unfolding of the loop, over any command that satisfies the claim, satisfies it again.
\<close>

lemma wlp_None [simp]: "m s = None \<Longrightarrow> wlp m Q s"
  by (simp add: wlp_def)

subsection \<open>Commands on a part of the state\<close>

definition zoom :: "('t \<Rightarrow> 's) \<Rightarrow> ('s \<Rightarrow> 't \<Rightarrow> 't) \<Rightarrow> ('s, 'a) cmd \<Rightarrow> ('t, 'a) cmd" where
  "zoom g p m = (\<lambda>t. case m (g t) of
      None \<Rightarrow> None
    | Some (Inl f) \<Rightarrow> Some (Inl f)
    | Some (Inr (a, s)) \<Rightarrow> Some (Inr (a, p s t)))"

lemma wp_zoom [wp_simps]: "wp (zoom g p m) Q t = wp m (\<lambda>a s. Q a (p s t)) (g t)"
  by (simp add: wp_def zoom_def split: option.splits sum.splits prod.splits)

lemma wlp_zoom [wp_simps]: "wlp (zoom g p m) Q t = wlp m (\<lambda>a s. Q a (p s t)) (g t)"
  by (simp add: wlp_def zoom_def split: option.splits sum.splits prod.splits)

lemma zoom_Inr [simp]: "m (g t) = Some (Inr (a, s)) \<Longrightarrow> zoom g p m t = Some (Inr (a, p s t))"
  by (simp add: zoom_def)

lemma zoom_None [simp]: "m (g t) = None \<Longrightarrow> zoom g p m t = None"
  by (simp add: zoom_def)

subsection \<open>Bounds of the machine integers\<close>

lemma unat_u8: "unat (w :: u8) < 256"
  using unsigned_less [of w] by simp

lemma unat_u16: "unat (w :: u16) < 65536"
  using unsigned_less [of w] by simp

lemma unat_u32: "unat (w :: u32) < 4294967296"
  using unsigned_less [of w] by simp

lemma unat_drop: "unat (drop_bit n (w :: 'a :: len word)) = unat w div 2 ^ n"
  by (metis drop_bit_eq_div unsigned_drop_bit_eq unsigned_take_bit_eq take_bit_length_eq)

lemma unat_ucast_mod: "unat (ucast (w :: 'a :: len word) :: 'b :: len word) = unat w mod 2 ^ LENGTH('b)"
  by (simp add: unsigned_ucast_eq take_bit_eq_mod)

lemma unat_of_nat_mod: "unat (of_nat n :: 'a :: len word) = n mod 2 ^ LENGTH('a)"
  by (simp add: unsigned_of_nat take_bit_eq_mod)

lemma ucast_of_nat_unat: "ucast (w :: 'a :: len word) = (of_nat (unat w) :: 'b :: len word)"
  by simp

lemma unat_plus_of_nat:
  "unat (a :: 'a :: len word) + n < 2 ^ LENGTH('a) \<Longrightarrow> unat (a + of_nat n) = unat a + n"
  by (simp add: unat_word_ariths unat_of_nat_mod mod_add_right_eq)

lemma unat_plus_word:
  "unat (a :: 'a :: len word) + unat b < 2 ^ LENGTH('a) \<Longrightarrow> unat (a + b) = unat a + unat b"
  using unat_plus_of_nat [of a "unat b"] by simp

lemma of_nat_eqI: "unat w = n \<Longrightarrow> w = of_nat n"
  by auto

lemma of_nat_word_inj:
  "m < 2 ^ LENGTH('a) \<Longrightarrow> n < 2 ^ LENGTH('a) \<Longrightarrow>
   (of_nat m :: 'a :: len word) = of_nat n \<longleftrightarrow> m = n"
  by (metis mod_less unat_of_nat_mod)

lemma plus_of_nat_inj:
  "m < 2 ^ LENGTH('a) \<Longrightarrow> n < 2 ^ LENGTH('a) \<Longrightarrow>
   (a :: 'a :: len word) + of_nat m = a + of_nat n \<longleftrightarrow> m = n"
  by (metis add_left_cancel mod_less unat_of_nat_mod)

subsection \<open>Little-endian numbers in byte buffers\<close>

definition le16 :: "u16 \<Rightarrow> bytes" where
  "le16 v = [ucast v, ucast (drop_bit 8 v)]"

definition un16 :: "u8 \<Rightarrow> u8 \<Rightarrow> u16" where
  "un16 lo hi = push_bit 8 (ucast hi) OR ucast lo"

definition rd16 :: "bytes \<Rightarrow> nat \<Rightarrow> u16" where
  "rd16 xs i = un16 (xs ! i) (xs ! Suc i)"

definition wr16 :: "bytes \<Rightarrow> nat \<Rightarrow> u16 \<Rightarrow> bytes" where
  "wr16 xs i v = xs[i := ucast v, Suc i := ucast (drop_bit 8 v)]"

definition un32 :: "u16 \<Rightarrow> u16 \<Rightarrow> u32" where
  "un32 lo hi = push_bit 16 (ucast hi) OR ucast lo"

definition rd32 :: "bytes \<Rightarrow> nat \<Rightarrow> u32" where
  "rd32 xs i = un32 (rd16 xs i) (rd16 xs (i + 2))"

definition le32 :: "u32 \<Rightarrow> bytes" where
  "le32 v = le16 (ucast v) @ le16 (ucast (drop_bit 16 v))"

lemma length_le16 [simp]: "length (le16 v) = 2"
  by (simp add: le16_def)

lemma length_le32 [simp]: "length (le32 v) = 4"
  by (simp add: le32_def)

lemma length_wr16 [simp]: "length (wr16 xs i v) = length xs"
  by (simp add: wr16_def)

lemma un16_split [simp]: "un16 (ucast v) (ucast (drop_bit 8 v)) = v"
  by (rule bit_word_eqI)
    (auto simp: un16_def bit_or_iff bit_push_bit_iff bit_ucast_iff bit_drop_bit_eq)

lemma un16_lo [simp]: "ucast (un16 lo hi) = lo"
  by (rule bit_word_eqI)
    (auto simp: un16_def bit_or_iff bit_push_bit_iff bit_ucast_iff bit_drop_bit_eq)

lemma un16_hi [simp]: "ucast (drop_bit 8 (un16 lo hi)) = hi"
  by (rule bit_word_eqI)
    (auto simp: un16_def bit_or_iff bit_push_bit_iff bit_ucast_iff bit_drop_bit_eq dest: bit_imp_le_length)

lemma un32_split [simp]: "un32 (ucast v) (ucast (drop_bit 16 v)) = v"
  by (rule bit_word_eqI)
    (auto simp: un32_def bit_or_iff bit_push_bit_iff bit_ucast_iff bit_drop_bit_eq)

lemma un32_lo [simp]: "ucast (un32 lo hi) = lo"
  by (rule bit_word_eqI)
    (auto simp: un32_def bit_or_iff bit_push_bit_iff bit_ucast_iff bit_drop_bit_eq)

lemma un32_hi [simp]: "ucast (drop_bit 16 (un32 lo hi)) = hi"
  by (rule bit_word_eqI)
    (auto simp: un32_def bit_or_iff bit_push_bit_iff bit_ucast_iff bit_drop_bit_eq dest: bit_imp_le_length)

lemma rd16_wr16 [simp]: "Suc i < length xs \<Longrightarrow> rd16 (wr16 xs i v) i = v"
  by (simp add: rd16_def wr16_def)

lemma rd16_wr16_other:
  "i + 2 \<le> j \<or> j + 2 \<le> i \<Longrightarrow> rd16 (wr16 xs i v) j = rd16 xs j"
  by (auto simp: rd16_def wr16_def nth_list_update)

subsection \<open>Slices and splices of byte buffers\<close>

definition slice_at :: "'a list \<Rightarrow> nat \<Rightarrow> nat \<Rightarrow> 'a list" where
  "slice_at xs i n = take n (drop i xs)"

definition splice_at :: "'a list \<Rightarrow> nat \<Rightarrow> 'a list \<Rightarrow> 'a list" where
  "splice_at xs i ys = take i xs @ ys @ drop (i + length ys) xs"

lemma length_slice [simp]: "i + n \<le> length xs \<Longrightarrow> length (slice_at xs i n) = n"
  by (simp add: slice_at_def)

lemma length_splice_at [simp]: "i + length ys \<le> length xs \<Longrightarrow> length (splice_at xs i ys) = length xs"
  by (simp add: splice_at_def)

lemma splice_nil [simp]: "splice_at xs i [] = xs"
  by (simp add: splice_at_def)

lemma slice_nil [simp]: "slice_at xs i 0 = []"
  by (simp add: slice_at_def)

lemma splice_cons: "i < length xs \<Longrightarrow> splice_at (xs[i := c]) (Suc i) ys = splice_at xs i (c # ys)"
  by (simp add: splice_at_def take_Suc_conv_app_nth drop_update_cancel)

lemma splice_splice:
  "i + length xs + length ys \<le> length zs \<Longrightarrow>
   splice_at (splice_at zs i xs) (i + length xs) ys = splice_at zs i (xs @ ys)"
  by (simp add: splice_at_def ac_simps)

lemma slice_splice_same [simp]:
  "i + length ys \<le> length xs \<Longrightarrow> slice_at (splice_at xs i ys) i (length ys) = ys"
  by (simp add: slice_at_def splice_at_def)

lemma splice_slice_same [simp]: "i + n \<le> length xs \<Longrightarrow> splice_at xs i (slice_at xs i n) = xs"
  by (rule nth_equalityI) (auto simp: splice_at_def slice_at_def nth_append min_def)

lemma nth_splice_at:
  "i + length ys \<le> length xs \<Longrightarrow> j < length xs \<Longrightarrow>
   splice_at xs i ys ! j = (if i \<le> j \<and> j < i + length ys then ys ! (j - i) else xs ! j)"
  by (auto simp: splice_at_def nth_append min_def)

lemma nth_slice [simp]: "j < n \<Longrightarrow> i + j < length xs \<Longrightarrow> slice_at xs i n ! j = xs ! (i + j)"
  by (simp add: slice_at_def)

lemma slice_join: "j = i + m \<Longrightarrow> slice_at xs i m @ slice_at xs j n = slice_at xs i (m + n)"
  by (simp add: slice_at_def take_add add.commute)

lemma slice_join_append:
  "j = i + m \<Longrightarrow> slice_at xs i m @ slice_at xs j n @ ys = slice_at xs i (m + n) @ ys"
  by (simp add: slice_at_def take_add add.commute)

lemmas slice_joins = slice_join slice_join_append

lemma slice_all [simp]: "length xs = n \<Longrightarrow> slice_at xs 0 n = xs"
  by (simp add: slice_at_def)

lemma slice_1: "i < length xs \<Longrightarrow> slice_at xs i (Suc 0) = [xs ! i]"
  by (simp add: slice_at_def take_Suc hd_drop_conv_nth)

lemma slice_2: "Suc i < length xs \<Longrightarrow> slice_at xs i 2 = [xs ! i, xs ! Suc i]"
  using slice_join [of "Suc i" i 1 xs 1] by (simp add: slice_1 numeral_2_eq_2)

lemma le16_rd16: "Suc i < length xs \<Longrightarrow> le16 (rd16 xs i) = slice_at xs i 2"
  by (simp add: le16_def rd16_def slice_2)

lemma le32_rd32: "i + 3 < length xs \<Longrightarrow> le32 (rd32 xs i) = slice_at xs i 4"
  by (simp add: le32_def rd32_def le16_rd16 slice_join)

subsection \<open>Constant tables\<close>

text \<open>Every element of a table, indexed from \<open>i\<close> on, is related to its index; computable by \<open>simp\<close>.\<close>

fun tabulates :: "('w :: len word \<Rightarrow> 'v \<Rightarrow> bool) \<Rightarrow> 'w word \<Rightarrow> 'v list \<Rightarrow> bool" where
  "tabulates P i [] = True"
| "tabulates P i (x # xs) = (P i x \<and> tabulates P (i + 1) xs)"

lemma tabulatesD: "tabulates P i xs \<Longrightarrow> j < length xs \<Longrightarrow> P (i + of_nat j) (xs ! j)"
proof (induction P i xs arbitrary: j rule: tabulates.induct)
  case (2 P i x xs)
  then show ?case by (cases j) (auto simp: ac_simps)
qed simp

lemma tabulates_replicate: "(\<And>j. P j x) \<Longrightarrow> tabulates P i (replicate n x)"
  by (induction n arbitrary: i) simp_all

lemma tabulates_byte: "tabulates P 0 xs \<Longrightarrow> length xs = 256 \<Longrightarrow> P b (xs ! unat (b :: u8))"
  using tabulatesD [of P 0 xs "unat b"] unat_u8 [of b] by simp

end
