(* ===== verification/Card.thy ===== *)
theory Card
  imports Prelude
begin

section \<open>The card driver's interface (include/libsys/card.h)\<close>

text \<open>
  The file system reaches the SD card through three functions of lib/card.asm and the macro
  \<open>CARD_POWER_OFF\<close>. A value of type \<open>'d card_ops\<close> gives these four operations over a
  device state \<open>'d\<close> (the card, the SPI registers, the driver's power switch):
  \<open>op_read b buf d\<close> is \<open>card_read_block\<close> with the contents of the global buffer \<open>cache_block\<close>
  before the call, and returns the result code, the buffer after the call and the device;
  \<open>op_write\<close> sends that buffer. \<open>None\<close> is a driver call that never returns (the busy loops of
  the driver poll the card without a bound). The operations are a parameter of the file system;
  the locales below state what the file system relies on. The buffer keeps its size (\<open>sized_card\<close>);
  that is all the robustness on any volume needs. On a \<open>live_device\<close> the transfers of ready blocks succeed, and
  nothing is said of the other states; \<open>ready\<close> can include that the card is between two commands. A
  \<open>bounded_device\<close> also refuses the blocks behind its end, and goes on working. The driver of lib/card.asm satisfies
  all three (theory CardDriver).
\<close>

abbreviation CARD_BLOCK_SIZE :: nat where "CARD_BLOCK_SIZE \<equiv> 512"
abbreviation CARD_SUCCESS :: u8 where "CARD_SUCCESS \<equiv> 0"
abbreviation CARD_ERROR_NO_CARD :: u8 where "CARD_ERROR_NO_CARD \<equiv> 8"
abbreviation CARD_ERROR_NOT_INITIALIZED :: u8 where "CARD_ERROR_NOT_INITIALIZED \<equiv> 9"
abbreviation CARD_ERROR_TIMEOUT :: u8 where "CARD_ERROR_TIMEOUT \<equiv> 1"
abbreviation CARD_ERROR_RESET_FAILED :: u8 where "CARD_ERROR_RESET_FAILED \<equiv> 2"
abbreviation CARD_ERROR_ACMD_FAILED :: u8 where "CARD_ERROR_ACMD_FAILED \<equiv> 3"
abbreviation CARD_ERROR_ACMD41_FAILED :: u8 where "CARD_ERROR_ACMD41_FAILED \<equiv> 4"
abbreviation CARD_ERROR_BAD_DATA_RESPONSE :: u8 where "CARD_ERROR_BAD_DATA_RESPONSE \<equiv> 5"
abbreviation CARD_ERROR_WRITE_ERROR :: u8 where "CARD_ERROR_WRITE_ERROR \<equiv> 6"
abbreviation CARD_ERROR_CRC_ERROR :: u8 where "CARD_ERROR_CRC_ERROR \<equiv> 7"
abbreviation CARD_ERROR_LOCKED :: u8 where "CARD_ERROR_LOCKED \<equiv> 10"
abbreviation CARD_ERROR_OUT_OF_RANGE :: u8 where "CARD_ERROR_OUT_OF_RANGE \<equiv> 11"
abbreviation CARD_ERROR_BLOCK_CMD_FAILED :: u8 where "CARD_ERROR_BLOCK_CMD_FAILED \<equiv> 12"

record 'd card_ops =
  op_init :: "'d \<Rightarrow> (u8 \<times> 'd) option"
  op_read :: "u32 \<Rightarrow> bytes \<Rightarrow> 'd \<Rightarrow> (u8 \<times> bytes \<times> 'd) option"
  op_write :: "u32 \<Rightarrow> bytes \<Rightarrow> 'd \<Rightarrow> (u8 \<times> 'd) option"
  op_power_off :: "'d \<Rightarrow> 'd"

subsection \<open>The contract\<close>

locale sized_card =
  fixes C :: "'d card_ops"
  assumes read_len:
    "op_read C b buf d = Some (r, buf', d') \<Longrightarrow> length buf = CARD_BLOCK_SIZE \<Longrightarrow>
     length buf' = CARD_BLOCK_SIZE"

locale live_device = sized_card C for C :: "'d card_ops" +
  fixes blocks :: "'d \<Rightarrow> u32 \<Rightarrow> bytes" and ready :: "'d \<Rightarrow> u32 \<Rightarrow> bool"
  assumes ready_read: "ready d b \<Longrightarrow> length buf = CARD_BLOCK_SIZE \<Longrightarrow>
      \<exists>d'. op_read C b buf d = Some (0, blocks d b, d') \<and> blocks d' = blocks d \<and> ready d' = ready d"
    and ready_write: "ready d b \<Longrightarrow> length buf = CARD_BLOCK_SIZE \<Longrightarrow>
      \<exists>d'. op_write C b buf d = Some (0, d') \<and> blocks d' = (blocks d)(b := buf) \<and> ready d' = ready d"
    and block_len: "ready d b \<Longrightarrow> length (blocks d b) = CARD_BLOCK_SIZE"
    and not_the_mark: "\<not> ready d 0xffffffff"

locale bounded_device = live_device C blocks ready
  for C :: "'d card_ops" and blocks :: "'d \<Rightarrow> u32 \<Rightarrow> bytes" and ready :: "'d \<Rightarrow> u32 \<Rightarrow> bool" +
  fixes beyond :: "'d \<Rightarrow> u32 \<Rightarrow> bool"
  assumes beyond_read: "beyond d b \<Longrightarrow> length buf = CARD_BLOCK_SIZE \<Longrightarrow>
      \<exists>d'. op_read C b buf d = Some (CARD_ERROR_OUT_OF_RANGE, buf, d') \<and>
        blocks d' = blocks d \<and> ready d' = ready d \<and> beyond d' = beyond d"
    and read_beyond: "ready d b \<Longrightarrow> length buf = CARD_BLOCK_SIZE \<Longrightarrow> op_read C b buf d = Some (r, buf', d') \<Longrightarrow>
      beyond d' = beyond d"
    and write_beyond: "ready d b \<Longrightarrow> length buf = CARD_BLOCK_SIZE \<Longrightarrow> op_write C b buf d = Some (r, d') \<Longrightarrow>
      beyond d' = beyond d"
    and beyond_not_mark: "\<not> beyond d 0xffffffff"

subsection \<open>A card as its result codes describe it\<close>

text \<open>
  A card that behaves as the driver's result codes say: an absent card answers
  \<open>CARD_ERROR_NO_CARD\<close>, a card that has not been initialised since it was powered
  \<open>CARD_ERROR_NOT_INITIALIZED\<close>, a block past the end \<open>CARD_ERROR_OUT_OF_RANGE\<close>. It shows that
  the contract can be met, and gives the witnesses a device to run on.
\<close>

record sd_card =
  present :: bool
  initialised :: bool
  n_blocks :: u32
  contents :: "u32 \<Rightarrow> bytes"

definition sd_code :: "sd_card \<Rightarrow> u32 \<Rightarrow> u8" where
  "sd_code d b =
     (if \<not> present d then CARD_ERROR_NO_CARD
      else if \<not> initialised d then CARD_ERROR_NOT_INITIALIZED
      else if n_blocks d \<le> b then CARD_ERROR_OUT_OF_RANGE
      else CARD_SUCCESS)"

definition sd_block :: "sd_card \<Rightarrow> u32 \<Rightarrow> bytes" where
  "sd_block d b = take CARD_BLOCK_SIZE (contents d b @ replicate CARD_BLOCK_SIZE 0)"

definition sd_ops :: "sd_card card_ops" where
  "sd_ops = \<lparr>
     op_init = (\<lambda>d. Some (if present d then (CARD_SUCCESS, d\<lparr>initialised := True\<rparr>)
                          else (CARD_ERROR_NO_CARD, d))),
     op_read = (\<lambda>b buf d. Some (if sd_code d b = 0 then (0, sd_block d b, d)
                                else (sd_code d b, buf, d))),
     op_write = (\<lambda>b buf d. Some (if sd_code d b = 0 then (0, d\<lparr>contents := (contents d)(b := buf)\<rparr>)
                                 else (sd_code d b, d))),
     op_power_off = (\<lambda>d. d\<lparr>initialised := False\<rparr>)\<rparr>"

definition sd_ready :: "sd_card \<Rightarrow> u32 \<Rightarrow> bool" where
  "sd_ready d b \<longleftrightarrow> present d \<and> initialised d \<and> b < n_blocks d"

lemma length_sd_block [simp]: "length (sd_block d b) = CARD_BLOCK_SIZE"
  by (simp add: sd_block_def)

lemma sd_code_ready [simp]: "sd_ready d b \<Longrightarrow> sd_code d b = 0"
  by (simp add: sd_ready_def sd_code_def not_le)

lemma sd_block_write: "length buf = CARD_BLOCK_SIZE \<Longrightarrow>
  sd_block (d\<lparr>contents := (contents d)(b := buf)\<rparr>) = (sd_block d)(b := buf)"
  by (simp add: fun_eq_iff sd_block_def)

lemma sd_block_initialised [simp]: "sd_block (d\<lparr>initialised := i\<rparr>) = sd_block d"
  by (simp add: fun_eq_iff sd_block_def)

lemma sd_op_read: "op_read sd_ops b buf d = Some (r, buf', d') \<longleftrightarrow>
    sd_code d b = r \<and> buf' = (if sd_code d b = 0 then sd_block d b else buf) \<and> d' = d"
  by (auto simp: sd_ops_def)

lemma sd_op_write: "op_write sd_ops b buf d = Some (r, d') \<longleftrightarrow>
    sd_code d b = r \<and>
    d' = (if sd_code d b = 0 then d\<lparr>contents := (contents d)(b := buf)\<rparr> else d)"
  by (auto simp: sd_ops_def)

lemma sd_block_contents: "contents d' b = contents d b \<Longrightarrow> sd_block d' b = sd_block d b"
  by (simp add: sd_block_def)

lemma sd_ready_contents [simp]: "sd_ready (d\<lparr>contents := f\<rparr>) = sd_ready d"
  by (simp add: fun_eq_iff sd_ready_def)

lemma sd_ready_not_max: "\<not> sd_ready d 0xffffffff"
proof -
  have "unat (n_blocks d) < 4294967296"
    using unat_u32 [of "n_blocks d"] by simp
  then show ?thesis by (auto simp: sd_ready_def word_less_nat_alt)
qed

interpretation sd: live_device sd_ops sd_block sd_ready
proof unfold_locales
  show "sd_ready d b \<Longrightarrow> length buf = CARD_BLOCK_SIZE \<Longrightarrow>
      \<exists>d'. op_read sd_ops b buf d = Some (0, sd_block d b, d') \<and> sd_block d' = sd_block d \<and> sd_ready d' = sd_ready d" for d b buf
    by (simp add: sd_op_read)
  show "sd_ready d b \<Longrightarrow> length buf = CARD_BLOCK_SIZE \<Longrightarrow>
      \<exists>d'. op_write sd_ops b buf d = Some (0, d') \<and> sd_block d' = (sd_block d)(b := buf) \<and> sd_ready d' = sd_ready d" for d b buf
    by (simp add: sd_op_write sd_block_write)
qed (auto simp: sd_ready_not_max sd_op_read)

definition sd_beyond :: "sd_card \<Rightarrow> u32 \<Rightarrow> bool" where
  "sd_beyond d b \<longleftrightarrow> present d \<and> initialised d \<and> n_blocks d \<le> b \<and> b \<noteq> 0xffffffff"

interpretation sd: bounded_device sd_ops sd_block sd_ready sd_beyond
  by unfold_locales (auto simp: sd_op_read sd_op_write sd_beyond_def sd_code_def fun_eq_iff split: if_splits)

end
