(* ===== verification/CardSpi.thy ===== *)
theory CardSpi
  imports Card
begin

section \<open>The card driver (lib/card.asm)\<close>

text \<open>
  The driver talks to the card over two registers: a store to \<open>SPI_DATA\<close> sends a byte and at the
  same time receives one, which the next load gives; \<open>SPI_CTRL\<close> has the power switch, the chip
  select and the card detection. The registers with what hangs on them are a parameter of type
  \<open>'p spi\<close>. The assembly routines are commands over the bus and the global buffer
  \<open>cache_block\<close>: every store to a register is a step, every conditional jump a branch; processor
  registers and the saved return address are not modelled, and the delay of a millisecond has no effect.
  \<open>spi_ops\<close> gives the driver the interface \<open>card_ops\<close>.
\<close>

record 'p spi =
  spi_put :: "u8 \<Rightarrow> 'p \<Rightarrow> 'p"
  spi_get :: "'p \<Rightarrow> u8"
  ctrl_put :: "u8 \<Rightarrow> 'p \<Rightarrow> 'p"
  ctrl_get :: "'p \<Rightarrow> u8"

record 'p driver =
  bus :: 'p
  block_buf :: bytes

subsection \<open>Registers and buffer\<close>

definition SPI_CTRL_N_CARD_CS :: u8 where "SPI_CTRL_N_CARD_CS = 4"
definition SPI_CTRL_EN_3V3 :: u8 where "SPI_CTRL_EN_3V3 = 8"
definition TIMEOUT_BLOCK :: nat where "TIMEOUT_BLOCK = 20"

definition store_data :: "'p spi \<Rightarrow> u8 \<Rightarrow> ('p driver, unit) cmd" where
  "store_data P v = modify (\<lambda>s. s\<lparr>bus := spi_put P v (bus s)\<rparr>)"

definition load_data :: "'p spi \<Rightarrow> ('p driver, u8) cmd" where
  "load_data P = gets (\<lambda>s. spi_get P (bus s))"

definition store_ctrl :: "'p spi \<Rightarrow> u8 \<Rightarrow> ('p driver, unit) cmd" where
  "store_ctrl P v = modify (\<lambda>s. s\<lparr>bus := ctrl_put P v (bus s)\<rparr>)"

text \<open>\<open>SPI_CTRL_N_CARD_DETECT\<close> is bit 0: the code shifts it into the carry.\<close>

definition no_card :: "'p spi \<Rightarrow> ('p driver, bool) cmd" where
  "no_card P = gets (\<lambda>s. bit (ctrl_get P (bus s)) 0)"

fun put_all :: "'p spi \<Rightarrow> bytes \<Rightarrow> ('p driver, unit) cmd" where
  "put_all P [] = ret ()"
| "put_all P (v # vs) = andthen (store_data P v) (put_all P vs)"

definition command :: "'p spi \<Rightarrow> u8 \<Rightarrow> bytes \<Rightarrow> u8 \<Rightarrow> ('p driver, unit) cmd" where
  "command P n arg crc = put_all P ((0x40 OR n) # arg @ [crc])"

text \<open>At most \<open>n\<close> exchanges, up to the first byte that is not \<open>0xff\<close>.\<close>

fun poll :: "'p spi \<Rightarrow> nat \<Rightarrow> ('p driver, u8 option) cmd" where
  "poll P 0 = ret None"
| "poll P (Suc n) = andthen (store_data P 0xff) (bnd (load_data P) (\<lambda>a.
     if a + 1 \<noteq> 0 then ret (Some a) else poll P n))"

text \<open>\<open>n\<close> bytes of the buffer from \<open>k\<close> on, received or sent.\<close>

fun read_bytes :: "'p spi \<Rightarrow> nat \<Rightarrow> nat \<Rightarrow> ('p driver, unit) cmd" where
  "read_bytes P k 0 = ret ()"
| "read_bytes P k (Suc n) = andthen (store_data P 0xff) (bnd (load_data P) (\<lambda>v.
     bnd (gets block_buf) (\<lambda>buf. if length buf \<le> k then abort Bad_index
     else andthen (modify (\<lambda>s. s\<lparr>block_buf := buf[k := v]\<rparr>)) (read_bytes P (Suc k) n))))"

fun send_bytes :: "'p spi \<Rightarrow> nat \<Rightarrow> nat \<Rightarrow> ('p driver, unit) cmd" where
  "send_bytes P k 0 = ret ()"
| "send_bytes P k (Suc n) =
     bnd (gets block_buf) (\<lambda>buf. if length buf \<le> k then abort Bad_index
     else andthen (store_data P (buf ! k)) (send_bytes P (Suc k) n))"

text \<open>The labels \<open>error\<close>, which switches the card off, and the tail of \<open>cmd17_rsp\<close> and \<open>cmd24_rsp\<close>.\<close>

definition power_off_error :: "'p spi \<Rightarrow> u8 \<Rightarrow> ('p driver, u8) cmd" where
  "power_off_error P r = andthen (store_ctrl P 0) (ret r)"

definition command_error :: "'p spi \<Rightarrow> u8 \<Rightarrow> ('p driver, u8) cmd" where
  "command_error P a = andthen (store_data P 0xff)
     (ret (if bit a 0 then CARD_ERROR_NOT_INITIALIZED else CARD_ERROR_BLOCK_CMD_FAILED))"

definition block_error :: "u8 \<Rightarrow> u8" where
  "block_error a =
     (if a AND 8 \<noteq> 0 then CARD_ERROR_OUT_OF_RANGE
      else if a AND 16 \<noteq> 0 then CARD_ERROR_LOCKED
      else CARD_ERROR_BLOCK_CMD_FAILED)"

text \<open>
  The argument of a block command. The three low bytes of the index are shifted left by one,
  the carry of each goes into the next; with a zero behind them they are the byte address.
\<close>

definition shl8 :: "u8 \<Rightarrow> u8 \<times> u8" where
  "shl8 v = (push_bit 1 v, if bit v 7 then 1 else 0)"

definition block_argument :: "u32 \<Rightarrow> bytes" where
  "block_argument index =
     (let b0 = le32 index ! 0; b1 = le32 index ! 1; b2 = le32 index ! 2
      in [fst (shl8 b2) + snd (shl8 b1), fst (shl8 b1) + snd (shl8 b0), fst (shl8 b0), 0])"

subsection \<open>Initialisation\<close>

text \<open>\<open>cmd55_ready_loop\<close> and \<open>cmd41_ready_loop\<close>: until a byte with the top bit clear.\<close>

partial_function (option) response :: "'p spi \<Rightarrow> ('p driver, u8) cmd" where
  "response D s = (andthen (store_data D 0xff) (bnd (load_data D) (\<lambda>b.
     if bit b 7 then response D else ret b))) s"

partial_function (option) ready_loop :: "'p spi \<Rightarrow> ('p driver, u8) cmd" where
  "ready_loop D s =
     (andthen (command D 55 [0, 0, 0, 0] 0xff)
     (bnd (response D) (\<lambda>b.
      if b AND 0xfe \<noteq> 0 then power_off_error D CARD_ERROR_ACMD_FAILED
      else
        andthen (store_data D 0xff)
        (andthen (command D 41 [0, 0, 0, 0] 0xff)
        (bnd (response D) (\<lambda>b.
         andthen (store_data D 0xff)
         (if b = 0 then ret CARD_SUCCESS
          else if b - 1 \<noteq> 0 then power_off_error D CARD_ERROR_ACMD41_FAILED
          else ready_loop D))))))) s"

definition spi_card_init :: "'p spi \<Rightarrow> ('p driver, u8) cmd" where
  "spi_card_init P =
     bnd (no_card P) (\<lambda>no.
     if no then power_off_error P CARD_ERROR_NO_CARD
     else
       andthen (store_ctrl P (SPI_CTRL_EN_3V3 OR SPI_CTRL_N_CARD_CS))
       (andthen (put_all P (replicate 10 0xff))
       (andthen (store_ctrl P SPI_CTRL_EN_3V3)
       (andthen (command P 0 [0, 0, 0, 0] 0x95)
       (bnd (poll P 4) (\<lambda>r. case r of
          None \<Rightarrow> power_off_error P CARD_ERROR_TIMEOUT
        | Some a \<Rightarrow>
            if a - 1 \<noteq> 0 then power_off_error P CARD_ERROR_RESET_FAILED
            else andthen (store_data P 0xff) (ready_loop P)))))))"

subsection \<open>Reading and writing a block\<close>

definition spi_read_block :: "'p spi \<Rightarrow> u32 \<Rightarrow> ('p driver, u8) cmd" where
  "spi_read_block P index =
     bnd (no_card P) (\<lambda>no.
     if no then power_off_error P CARD_ERROR_NO_CARD
     else
       andthen (command P 17 (block_argument index) 0xff)
       (bnd (poll P 4) (\<lambda>r. case r of
          None \<Rightarrow> ret CARD_ERROR_TIMEOUT
        | Some a \<Rightarrow>
            if a \<noteq> 0 then command_error P a
            else bnd (poll P TIMEOUT_BLOCK) (\<lambda>t. case t of
              None \<Rightarrow> power_off_error P CARD_ERROR_TIMEOUT
            | Some a \<Rightarrow>
                if a + 2 \<noteq> 0 then ret (block_error a)
                else
                  andthen (read_bytes P 0 256)
                  (andthen (read_bytes P 256 256)
                  (andthen (put_all P [0xff, 0xff, 0xff]) (ret CARD_SUCCESS)))))))"

text \<open>The wait for the end of a write, and the data response before it.\<close>

partial_function (option) busy_loop :: "'p spi \<Rightarrow> ('p driver, unit) cmd" where
  "busy_loop D s = (andthen (store_data D 0xff) (bnd (load_data D) (\<lambda>a.
     if a + 1 \<noteq> 0 then busy_loop D else ret ()))) s"

definition write_result :: "u8 \<Rightarrow> u8" where
  "write_result b =
     (let a = b AND 0x1f
      in if a = 0x05 then CARD_SUCCESS
         else if a = 0x0d then CARD_ERROR_WRITE_ERROR
         else if a = 0x0b then CARD_ERROR_CRC_ERROR
         else CARD_ERROR_BAD_DATA_RESPONSE)"

definition spi_write_block :: "'p spi \<Rightarrow> u32 \<Rightarrow> ('p driver, u8) cmd" where
  "spi_write_block P index =
     bnd (no_card P) (\<lambda>no.
     if no then power_off_error P CARD_ERROR_NO_CARD
     else
       andthen (command P 24 (block_argument index) 0xff)
       (bnd (poll P 4) (\<lambda>r. case r of
          None \<Rightarrow> ret CARD_ERROR_TIMEOUT
        | Some a \<Rightarrow>
            if a \<noteq> 0 then command_error P a
            else
              andthen (put_all P [0xff, 0xff, 0xfe])
              (andthen (send_bytes P 0 256)
              (andthen (send_bytes P 256 256)
              (andthen (put_all P [0xff, 0xff, 0xff])
              (bnd (load_data P) (\<lambda>b.
               andthen (busy_loop P) (ret (write_result b))))))))))"

subsection \<open>The interface\<close>

text \<open>A call of the driver from the bus \<open>d\<close>; the macro \<open>CARD_POWER_OFF\<close> stores to \<open>SPI_CTRL\<close>.\<close>

definition call_driver :: "('p driver, u8) cmd \<Rightarrow> bytes \<Rightarrow> 'p \<Rightarrow> (u8 \<times> 'p driver) option" where
  "call_driver m buf d = (case m \<lparr>bus = d, block_buf = buf\<rparr> of Some (Inr x) \<Rightarrow> Some x | _ \<Rightarrow> None)"

definition spi_ops :: "'p spi \<Rightarrow> 'p card_ops" where
  "spi_ops P = \<lparr>
     op_init = (\<lambda>d. map_option (\<lambda>(r, s). (r, bus s)) (call_driver (spi_card_init P) [] d)),
     op_read = (\<lambda>b buf d. map_option (\<lambda>(r, s). (r, block_buf s, bus s)) (call_driver (spi_read_block P b) buf d)),
     op_write = (\<lambda>b buf d. map_option (\<lambda>(r, s). (r, bus s)) (call_driver (spi_write_block P b) buf d)),
     op_power_off = ctrl_put P SPI_CTRL_N_CARD_CS\<rparr>"

end
