(* ===== verification/CardDriver.thy ===== *)
theory CardDriver
  imports CardSpi
begin

section \<open>The card driver is a block device (lib/card.asm)\<close>

text \<open>
  The routines of the driver against the card's side of the protocol. \<open>talk\<close> is a conversation:
  the bytes sent and those received in exchange. The locale \<open>spi_card\<close> states the conversations
  the SD card's SPI mode prescribes for a single block read and a single block write; under it the driver
  satisfies \<open>live_device\<close>, the contract the file system rests on.
\<close>

subsection \<open>Conversations\<close>

fun talk :: "'p spi \<Rightarrow> bytes \<Rightarrow> 'p \<Rightarrow> bytes \<times> 'p" where
  "talk P [] p = ([], p)"
| "talk P (v # vs) p = (let q = spi_put P v p; (rs, r) = talk P vs q in (spi_get P q # rs, r))"

abbreviation clocks :: "nat \<Rightarrow> bytes" where
  "clocks n \<equiv> replicate n 0xff"

lemma talk_append: "talk P (vs @ ws) p =
  (fst (talk P vs p) @ fst (talk P ws (snd (talk P vs p))), snd (talk P ws (snd (talk P vs p))))"
  by (induction vs arbitrary: p) (simp_all add: Let_def split_beta)

lemma length_talk [simp]: "length (fst (talk P vs p)) = length vs"
  by (induction vs arbitrary: p) (simp_all add: Let_def split_beta)

text \<open>A conversation splits where what is sent or what is received splits.\<close>

lemma talk_split:
  assumes "talk P (vs @ ws) p = (rs @ ts, q)" and "length rs = length vs"
  obtains m where "talk P vs p = (rs, m)" and "talk P ws m = (ts, q)"
proof
  have e: "fst (talk P vs p) @ fst (talk P ws (snd (talk P vs p))) = rs @ ts" "snd (talk P ws (snd (talk P vs p))) = q"
    using assms(1) by (simp_all add: talk_append)
  then have "fst (talk P vs p) = rs" "fst (talk P ws (snd (talk P vs p))) = ts"
    using assms(2) by (simp_all add: append_eq_append_conv)
  then show "talk P vs p = (rs, snd (talk P vs p))" "talk P ws (snd (talk P vs p)) = (ts, q)"
    using e(2) by (auto intro: prod_eqI)
qed

lemma talk_last: "talk P vs p = (rs @ [a], q) \<Longrightarrow> spi_get P q = a"
proof (induction vs arbitrary: p rs)
  case (Cons v vs)
  then show ?case by (cases rs) (cases vs; auto simp: Let_def split_beta prod_eq_iff)+
qed simp

lemma put_all_run: "put_all P vs s = Some (Inr ((), s\<lparr>bus := snd (talk P vs (bus s))\<rparr>))"
  by (induction vs arbitrary: s) (simp_all add: store_data_def bnd_def Let_def split_beta)

lemma command_run: "command P n arg crc s =
  Some (Inr ((), s\<lparr>bus := snd (talk P ((0x40 OR n) # arg @ [crc]) (bus s))\<rparr>))"
  by (simp only: command_def put_all_run)

lemma plus_one_zero: "(a :: u8) + 1 = 0 \<longleftrightarrow> a = 0xff"
proof
  assume "a + 1 = 0"
  then have "a = - 1" by (simp add: eq_neg_iff_add_eq_0)
  then show "a = 0xff" by simp
qed simp

lemma poll_run:
  assumes "talk P (clocks (Suc n)) (bus s) = (clocks n @ [a], q)" and "a \<noteq> 0xff" and "n < m"
  shows "poll P m s = Some (Inr (Some a, s\<lparr>bus := q\<rparr>))"
  using assms
proof (induction n arbitrary: s m)
  case 0
  then obtain m' where "m = Suc m'" by (cases m) auto
  then show ?case using 0 plus_one_zero [of a] by (auto simp: store_data_def load_data_def bnd_def Let_def)
next
  case (Suc n)
  then obtain m' where m: "m = Suc m'" "n < m'" by (cases m) auto
  let ?s = "s\<lparr>bus := spi_put P 0xff (bus s)\<rparr>"
  have "spi_get P (bus ?s) = 0xff" and "talk P (clocks (Suc n)) (bus ?s) = (clocks n @ [a], q)"
    using Suc.prems(1) by (auto simp: Let_def split_beta prod_eq_iff)
  then show ?case using Suc.IH [of ?s m'] Suc.prems(2) m by (simp add: store_data_def load_data_def bnd_def)
qed

lemma poll_silent:
  assumes "fst (talk P (clocks n) (bus s)) = clocks n"
  shows "poll P n s = Some (Inr (None, s\<lparr>bus := snd (talk P (clocks n) (bus s))\<rparr>))"
  using assms
  by (induction n arbitrary: s) (simp_all add: store_data_def load_data_def bnd_def Let_def split_beta)

lemma read_bytes_run:
  assumes "k + n \<le> length (block_buf s)"
  shows "read_bytes P k n s = Some (Inr ((), s\<lparr>bus := snd (talk P (clocks n) (bus s)),
    block_buf := splice_at (block_buf s) k (fst (talk P (clocks n) (bus s)))\<rparr>))"
  using assms
proof (induction n arbitrary: k s)
  case (Suc n)
  then show ?case by (simp add: store_data_def load_data_def bnd_def Let_def split_beta splice_cons)
qed (simp add: splice_nil)

lemma send_bytes_run:
  assumes "k + n \<le> length (block_buf s)"
  shows "send_bytes P k n s = Some (Inr ((), s\<lparr>bus := snd (talk P (slice_at (block_buf s) k n) (bus s))\<rparr>))"
  using assms
proof (induction n arbitrary: k s)
  case (Suc n)
  then have "slice_at (block_buf s) k (Suc n) = (block_buf s ! k) # slice_at (block_buf s) (Suc k) n"
    by (simp add: slice_at_def Cons_nth_drop_Suc [symmetric])
  then show ?case using Suc by (simp add: store_data_def bnd_def Let_def split_beta)
qed (simp add: slice_nil)

lemma busy_loop_run:
  assumes "talk P (clocks (Suc (length bs))) (bus s) = (bs @ [0xff], q)" and "0xff \<notin> set bs"
  shows "busy_loop P s = Some (Inr ((), s\<lparr>bus := q\<rparr>))"
  using assms
proof (induction bs arbitrary: s)
  case Nil
  then show ?case by (subst busy_loop.simps) (auto simp: store_data_def load_data_def bnd_def Let_def)
next
  case (Cons b bs)
  let ?s = "s\<lparr>bus := spi_put P 0xff (bus s)\<rparr>"
  have "spi_get P (bus ?s) = b" "talk P (clocks (Suc (length bs))) (bus ?s) = (bs @ [0xff], q)"
    using Cons.prems(1) by (auto simp: Let_def split_beta prod_eq_iff)
  then show ?case using Cons.IH [of ?s] Cons.prems(2) plus_one_zero [of b]
    by (subst busy_loop.simps) (auto simp: store_data_def load_data_def bnd_def)
qed

subsection \<open>The argument\<close>

lemma shl8_carry: "bit (fst (shl8 v) + snd (shl8 w)) n \<longleftrightarrow> n < 8 \<and> (if n = 0 then bit w 7 else bit v (n - 1))"
proof -
  have "fst (shl8 v) + snd (shl8 w) = fst (shl8 v) OR snd (shl8 w)"
    by (rule disjunctive_add) (auto simp: shl8_def bit_push_bit_iff bit_1_iff simp del: push_bit_Suc)
  then show ?thesis by (auto simp: shl8_def bit_or_iff bit_push_bit_iff bit_1_iff simp del: push_bit_Suc)
qed

lemma shl8_bits: "bit (fst (shl8 v)) n \<longleftrightarrow> n < 8 \<and> n \<noteq> 0 \<and> bit v (n - 1)"
  by (auto simp: shl8_def bit_push_bit_iff simp del: push_bit_Suc)

lemma bit_le32: "k < 4 \<Longrightarrow> bit (le32 w ! k) n \<longleftrightarrow> n < 8 \<and> bit w (8 * k + n)"
  by (auto simp: le32_def le16_def less_Suc_eq numeral_eq_Suc bit_ucast_iff bit_drop_bit_eq nth_append dest: bit_imp_le_length)

lemma block_argument_address: "block_argument b = rev (le32 (512 * b))"
proof -
  let ?w = "512 * b"
  have w: "?w = push_bit 9 b" by (simp add: push_bit_eq_mult)
  have l: "le32 ?w = [le32 ?w ! 0, le32 ?w ! 1, le32 ?w ! 2, le32 ?w ! 3]"
    by (simp add: le32_def le16_def)
  have "le32 ?w ! 0 = 0"
    by (rule bit_word_eqI) (simp add: bit_le32 [of 0] w bit_push_bit_iff)
  moreover have "le32 ?w ! 1 = fst (shl8 (le32 b ! 0))"
    by (rule bit_word_eqI) (auto simp: bit_le32 shl8_bits w bit_push_bit_iff)
  moreover have "le32 ?w ! 2 = fst (shl8 (le32 b ! 1)) + snd (shl8 (le32 b ! 0))"
    by (rule bit_word_eqI) (auto simp: bit_le32 shl8_carry w bit_push_bit_iff)
  moreover have "le32 ?w ! 3 = fst (shl8 (le32 b ! 2)) + snd (shl8 (le32 b ! 1))"
    by (rule bit_word_eqI) (auto simp: bit_le32 shl8_carry w bit_push_bit_iff)
  ultimately show ?thesis by (subst l) (simp add: block_argument_def Let_def)
qed

subsection \<open>The card's side\<close>

text \<open>
  What the driver relies on. In a state \<open>idle\<close> the card is present, powered, initialised and waits for a
  command. To a single block read with the byte address of a block it answers, within the number of clocks the
  driver allows, with 0, the data token, the block and three more bytes (two of check sequence, and one clock); to a single block
  write with 0, then it takes the block behind the token, answers that it accepts the data, and is busy
  for a while. Blocks have a byte address of 32 bits.
\<close>

definition reads :: "'p spi \<Rightarrow> u32 \<Rightarrow> bytes \<Rightarrow> 'p \<Rightarrow> 'p \<Rightarrow> bool" where
  "reads P b blk p q \<longleftrightarrow> (\<exists>n k r ts. n < 4 \<and> k < TIMEOUT_BLOCK \<and> length r = 6 \<and> length ts = 3 \<and>
     talk P ((0x51 # rev (le32 (512 * b)) @ [0xff]) @ clocks (Suc n) @ clocks (Suc k) @ clocks 512 @ clocks 3) p =
       (r @ (clocks n @ [0]) @ (clocks k @ [0xfe]) @ blk @ ts, q))"

definition writes :: "'p spi \<Rightarrow> u32 \<Rightarrow> bytes \<Rightarrow> 'p \<Rightarrow> 'p \<Rightarrow> bool" where
  "writes P b blk p q \<longleftrightarrow> (\<exists>n r r1 r2 r3 a busy. n < 4 \<and> length r = 6 \<and> length r1 = 3 \<and> length r2 = 512 \<and> length r3 = 2 \<and>
     a AND 0x1f = 0x05 \<and> 0xff \<notin> set busy \<and>
     talk P ((0x58 # rev (le32 (512 * b)) @ [0xff]) @ clocks (Suc n) @ [0xff, 0xff, 0xfe] @ blk @ clocks 3 @
         clocks (Suc (length busy))) p =
       (r @ (clocks n @ [0]) @ r1 @ r2 @ (r3 @ [a]) @ (busy @ [0xff]), q))"

text \<open>A read that is refused: the token with bit 3 stands for a block behind the end of the card.\<close>

definition refuses :: "'p spi \<Rightarrow> u32 \<Rightarrow> 'p \<Rightarrow> 'p \<Rightarrow> bool" where
  "refuses P b p q \<longleftrightarrow> (\<exists>n k r t. n < 4 \<and> k < TIMEOUT_BLOCK \<and> length r = 6 \<and> bit t 3 \<and> t \<noteq> 0xff \<and> t \<noteq> 0xfe \<and>
     talk P ((0x51 # rev (le32 (512 * b)) @ [0xff]) @ clocks (Suc n) @ clocks (Suc k)) p =
       (r @ (clocks n @ [0]) @ (clocks k @ [t]), q))"

locale spi_card =
  fixes P :: "'p spi" and idle :: "'p \<Rightarrow> bool" and blocks :: "'p \<Rightarrow> u32 \<Rightarrow> bytes" and there :: "'p \<Rightarrow> u32 \<Rightarrow> bool"
  assumes detected: "idle p \<Longrightarrow> \<not> bit (ctrl_get P p) 0"
    and addressable: "there p b \<Longrightarrow> unat b < 2 ^ 23"
    and block_size: "there p b \<Longrightarrow> length (blocks p b) = CARD_BLOCK_SIZE"
    and single_read: "idle p \<Longrightarrow> there p b \<Longrightarrow>
      \<exists>q. reads P b (blocks p b) p q \<and> idle q \<and> blocks q = blocks p \<and> there q = there p"
    and single_write: "idle p \<Longrightarrow> there p b \<Longrightarrow> length blk = CARD_BLOCK_SIZE \<Longrightarrow>
      \<exists>q. writes P b blk p q \<and> idle q \<and> blocks q = (blocks p)(b := blk) \<and> there q = there p"

text \<open>A card that also knows its end.\<close>

locale sized_spi_card = spi_card P idle blocks there
  for P :: "'p spi" and idle :: "'p \<Rightarrow> bool" and blocks :: "'p \<Rightarrow> u32 \<Rightarrow> bytes" and there :: "'p \<Rightarrow> u32 \<Rightarrow> bool" +
  fixes outside :: "'p \<Rightarrow> u32 \<Rightarrow> bool"
  assumes refused: "idle p \<Longrightarrow> outside p b \<Longrightarrow>
      \<exists>q. refuses P b p q \<and> idle q \<and> blocks q = blocks p \<and> there q = there p \<and> outside q = outside p"
    and outside_read: "idle p \<Longrightarrow> there p b \<Longrightarrow> reads P b blk p q \<Longrightarrow> outside q = outside p"
    and outside_write: "idle p \<Longrightarrow> there p b \<Longrightarrow> writes P b blk p q \<Longrightarrow> outside q = outside p"
    and outside_addressable: "outside p b \<Longrightarrow> unat b < 2 ^ 23"

subsection \<open>The routines\<close>

lemma spi_read_block_run:
  assumes "reads P b blk (bus s) q" and "\<not> bit (ctrl_get P (bus s)) 0"
    and len: "length (block_buf s) = CARD_BLOCK_SIZE" "length blk = CARD_BLOCK_SIZE"
  shows "spi_read_block P b s = Some (Inr (0, s\<lparr>bus := q, block_buf := blk\<rparr>))"
proof -
  obtain n k r ts where n: "n < 4" "k < TIMEOUT_BLOCK" "length r = 6" "length ts = 3"
    "talk P ((0x51 # rev (le32 (512 * b)) @ [0xff]) @ clocks (Suc n) @ clocks (Suc k) @ clocks 512 @ clocks 3) (bus s) =
       (r @ (clocks n @ [0]) @ (clocks k @ [0xfe]) @ blk @ ts, q)"
    using assms(1) unfolding reads_def by blast
  obtain p1 where p1: "talk P (0x51 # rev (le32 (512 * b)) @ [0xff]) (bus s) = (r, p1)"
    "talk P (clocks (Suc n) @ clocks (Suc k) @ clocks 512 @ clocks 3) p1 = ((clocks n @ [0]) @ (clocks k @ [0xfe]) @ blk @ ts, q)"
    by (rule talk_split [OF n(5)]) (use n(3) in simp)
  obtain p2 where p2: "talk P (clocks (Suc n)) p1 = (clocks n @ [0], p2)"
    "talk P (clocks (Suc k) @ clocks 512 @ clocks 3) p2 = ((clocks k @ [0xfe]) @ blk @ ts, q)"
    by (rule talk_split [OF p1(2)]) simp
  obtain p3 where p3: "talk P (clocks (Suc k)) p2 = (clocks k @ [0xfe], p3)" "talk P (clocks 512 @ clocks 3) p3 = (blk @ ts, q)"
    by (rule talk_split [OF p2(2)]) simp
  have data: "talk P (clocks 256 @ clocks 256 @ clocks 3) p3 = (take 256 blk @ drop 256 blk @ ts, q)"
    using p3(2) by (simp flip: replicate_add append_assoc)
  obtain p4 where p4: "talk P (clocks 256) p3 = (take 256 blk, p4)" "talk P (clocks 256 @ clocks 3) p4 = (drop 256 blk @ ts, q)"
    by (rule talk_split [OF data]) (use len in simp)
  obtain p5 where p5: "talk P (clocks 256) p4 = (drop 256 blk, p5)" "talk P (clocks 3) p5 = (ts, q)"
    by (rule talk_split [OF p4(2)]) (use len in simp)
  let ?b1 = "splice_at (block_buf s) 0 (take 256 blk)"
  have "command P 17 (block_argument b) 0xff s = Some (Inr ((), s\<lparr>bus := p1\<rparr>))"
    using p1(1) by (simp add: command_run block_argument_address)
  moreover have "poll P 4 (s\<lparr>bus := p1\<rparr>) = Some (Inr (Some 0, s\<lparr>bus := p2\<rparr>))"
    using poll_run [of P n "s\<lparr>bus := p1\<rparr>" 0 p2 4] p2(1) n(1) by simp
  moreover have "poll P TIMEOUT_BLOCK (s\<lparr>bus := p2\<rparr>) = Some (Inr (Some 0xfe, s\<lparr>bus := p3\<rparr>))"
    using poll_run [of P k "s\<lparr>bus := p2\<rparr>" "0xfe" p3 TIMEOUT_BLOCK] p3(1) n(2) by simp
  moreover have "read_bytes P 0 256 (s\<lparr>bus := p3\<rparr>) = Some (Inr ((), s\<lparr>bus := p4, block_buf := ?b1\<rparr>))"
    using read_bytes_run [of 0 256 "s\<lparr>bus := p3\<rparr>" P] p4(1) len(1) by simp
  moreover have "read_bytes P 256 256 (s\<lparr>bus := p4, block_buf := ?b1\<rparr>) = Some (Inr ((), s\<lparr>bus := p5, block_buf := blk\<rparr>))"
  proof -
    have "splice_at ?b1 256 (drop 256 blk) = blk"
      using splice_splice [of 0 "take 256 blk" "drop 256 blk" "block_buf s"] len by (simp add: splice_at_def)
    then show ?thesis using read_bytes_run [of 256 256 "s\<lparr>bus := p4, block_buf := ?b1\<rparr>" P] p5(1) len by simp
  qed
  moreover have "put_all P [0xff, 0xff, 0xff] (s\<lparr>bus := p5, block_buf := blk\<rparr>) = Some (Inr ((), s\<lparr>bus := q, block_buf := blk\<rparr>))"
    using p5(2) by (simp add: put_all_run numeral_3_eq_3 del: put_all.simps)
  ultimately show ?thesis
    using assms(2) by (simp add: spi_read_block_def no_card_def bnd_def del: put_all.simps)
qed

lemma spi_write_block_run:
  assumes "writes P b (block_buf s) (bus s) q" and "\<not> bit (ctrl_get P (bus s)) 0"
    and len: "length (block_buf s) = CARD_BLOCK_SIZE"
  shows "spi_write_block P b s = Some (Inr (0, s\<lparr>bus := q\<rparr>))"
proof -
  let ?buf = "block_buf s"
  obtain n r r1 r2 r3 a busy where n: "n < 4" "length r = 6" "length r1 = 3" "length r2 = 512" "length r3 = 2"
    "a AND 0x1f = 0x05" "0xff \<notin> set busy"
    "talk P ((0x58 # rev (le32 (512 * b)) @ [0xff]) @ clocks (Suc n) @ [0xff, 0xff, 0xfe] @ ?buf @ clocks 3 @
         clocks (Suc (length busy))) (bus s) =
       (r @ (clocks n @ [0]) @ r1 @ r2 @ (r3 @ [a]) @ (busy @ [0xff]), q)"
    using assms(1) unfolding writes_def by blast
  obtain p1 where p1: "talk P (0x58 # rev (le32 (512 * b)) @ [0xff]) (bus s) = (r, p1)"
    "talk P (clocks (Suc n) @ [0xff, 0xff, 0xfe] @ ?buf @ clocks 3 @ clocks (Suc (length busy))) p1 =
       ((clocks n @ [0]) @ r1 @ r2 @ (r3 @ [a]) @ (busy @ [0xff]), q)"
    by (rule talk_split [OF n(8)]) (use n(2) in simp)
  obtain p2 where p2: "talk P (clocks (Suc n)) p1 = (clocks n @ [0], p2)"
    "talk P ([0xff, 0xff, 0xfe] @ ?buf @ clocks 3 @ clocks (Suc (length busy))) p2 = (r1 @ r2 @ (r3 @ [a]) @ (busy @ [0xff]), q)"
    by (rule talk_split [OF p1(2)]) simp
  obtain p3 where p3: "talk P [0xff, 0xff, 0xfe] p2 = (r1, p3)"
    "talk P (?buf @ clocks 3 @ clocks (Suc (length busy))) p3 = (r2 @ (r3 @ [a]) @ (busy @ [0xff]), q)"
    by (rule talk_split [OF p2(2)]) (use n(3) in simp)
  have halves: "slice_at ?buf 0 256 @ slice_at ?buf 256 256 = ?buf" "take 256 r2 @ drop 256 r2 = r2"
    using len by (simp_all add: slice_at_def)
  have data: "talk P (slice_at ?buf 0 256 @ slice_at ?buf 256 256 @ clocks 3 @ clocks (Suc (length busy))) p3 =
      (take 256 r2 @ drop 256 r2 @ (r3 @ [a]) @ (busy @ [0xff]), q)"
    using p3(2) halves by (metis append_assoc)
  obtain p4 where p4: "talk P (slice_at ?buf 0 256) p3 = (take 256 r2, p4)"
    "talk P (slice_at ?buf 256 256 @ clocks 3 @ clocks (Suc (length busy))) p4 = (drop 256 r2 @ (r3 @ [a]) @ (busy @ [0xff]), q)"
    by (rule talk_split [OF data]) (use len n(4) in \<open>simp add: slice_at_def\<close>)
  obtain p5 where p5: "talk P (slice_at ?buf 256 256) p4 = (drop 256 r2, p5)"
    "talk P (clocks 3 @ clocks (Suc (length busy))) p5 = ((r3 @ [a]) @ (busy @ [0xff]), q)"
    by (rule talk_split [OF p4(2)]) (use len n(4) in \<open>simp add: slice_at_def\<close>)
  obtain p6 where p6: "talk P (clocks 3) p5 = (r3 @ [a], p6)" "talk P (clocks (Suc (length busy))) p6 = (busy @ [0xff], q)"
    by (rule talk_split [OF p5(2)]) (use n(5) in simp)
  have last: "spi_get P p6 = a" using talk_last [OF p6(1)] .
  have "command P 24 (block_argument b) 0xff s = Some (Inr ((), s\<lparr>bus := p1\<rparr>))"
    using p1(1) by (simp add: command_run block_argument_address)
  moreover have "poll P 4 (s\<lparr>bus := p1\<rparr>) = Some (Inr (Some 0, s\<lparr>bus := p2\<rparr>))"
    using poll_run [of P n "s\<lparr>bus := p1\<rparr>" 0 p2 4] p2(1) n(1) by simp
  moreover have "put_all P [0xff, 0xff, 0xfe] (s\<lparr>bus := p2\<rparr>) = Some (Inr ((), s\<lparr>bus := p3\<rparr>))"
    using p3(1) by (simp add: put_all_run del: put_all.simps)
  moreover have "send_bytes P 0 256 (s\<lparr>bus := p3\<rparr>) = Some (Inr ((), s\<lparr>bus := p4\<rparr>))"
    using send_bytes_run [of 0 256 "s\<lparr>bus := p3\<rparr>" P] p4(1) len by simp
  moreover have "send_bytes P 256 256 (s\<lparr>bus := p4\<rparr>) = Some (Inr ((), s\<lparr>bus := p5\<rparr>))"
    using send_bytes_run [of 256 256 "s\<lparr>bus := p4\<rparr>" P] p5(1) len by simp
  moreover have "put_all P [0xff, 0xff, 0xff] (s\<lparr>bus := p5\<rparr>) = Some (Inr ((), s\<lparr>bus := p6\<rparr>))"
    using p6(1) by (simp add: put_all_run numeral_3_eq_3 del: put_all.simps)
  moreover have "busy_loop P (s\<lparr>bus := p6\<rparr>) = Some (Inr ((), s\<lparr>bus := q\<rparr>))"
    using busy_loop_run [of P busy "s\<lparr>bus := p6\<rparr>" q] p6(2) n(7) by simp
  ultimately show ?thesis
    using assms(2) last n(6) by (simp add: spi_write_block_def no_card_def bnd_def load_data_def write_result_def Let_def del: put_all.simps)
qed

lemma spi_read_block_refused:
  assumes "refuses P b (bus s) q" and "\<not> bit (ctrl_get P (bus s)) 0"
  shows "spi_read_block P b s = Some (Inr (CARD_ERROR_OUT_OF_RANGE, s\<lparr>bus := q\<rparr>))"
proof -
  obtain n k r t where n: "n < 4" "k < TIMEOUT_BLOCK" "length r = 6" "bit t 3" "t \<noteq> 0xff" "t \<noteq> 0xfe"
    "talk P ((0x51 # rev (le32 (512 * b)) @ [0xff]) @ clocks (Suc n) @ clocks (Suc k)) (bus s) =
       (r @ (clocks n @ [0]) @ (clocks k @ [t]), q)"
    using assms(1) unfolding refuses_def by blast
  obtain p1 where p1: "talk P (0x51 # rev (le32 (512 * b)) @ [0xff]) (bus s) = (r, p1)"
    "talk P (clocks (Suc n) @ clocks (Suc k)) p1 = ((clocks n @ [0]) @ (clocks k @ [t]), q)"
    by (rule talk_split [OF n(7)]) (use n(3) in simp)
  obtain p2 where p2: "talk P (clocks (Suc n)) p1 = (clocks n @ [0], p2)" "talk P (clocks (Suc k)) p2 = (clocks k @ [t], q)"
    by (rule talk_split [OF p1(2)]) simp
  have "command P 17 (block_argument b) 0xff s = Some (Inr ((), s\<lparr>bus := p1\<rparr>))"
    using p1(1) by (simp add: command_run block_argument_address)
  moreover have "poll P 4 (s\<lparr>bus := p1\<rparr>) = Some (Inr (Some 0, s\<lparr>bus := p2\<rparr>))"
    using poll_run [of P n "s\<lparr>bus := p1\<rparr>" 0 p2 4] p2(1) n(1) by simp
  moreover have "poll P TIMEOUT_BLOCK (s\<lparr>bus := p2\<rparr>) = Some (Inr (Some t, s\<lparr>bus := q\<rparr>))"
    using poll_run [of P k "s\<lparr>bus := p2\<rparr>" t q TIMEOUT_BLOCK] p2(2) n(2,5) by simp
  moreover have "t + 2 \<noteq> 0" using n(6) by (auto simp: eq_neg_iff_add_eq_0 [symmetric])
  moreover have "block_error t = CARD_ERROR_OUT_OF_RANGE"
    using n(4) by (simp add: block_error_def bit_iff_and_push_bit_not_eq_0 numeral_eq_Suc)
  ultimately show ?thesis
    using assms(2) by (simp add: spi_read_block_def no_card_def bnd_def)
qed

text \<open>No routine changes the size of the buffer, whatever the card does.\<close>

definition keeps_size :: "('p driver, 'a) cmd \<Rightarrow> bool" where
  "keeps_size m \<longleftrightarrow> (\<forall>s a t. m s = Some (Inr (a, t)) \<longrightarrow> length (block_buf t) = length (block_buf s))"

lemma keeps_size_basic:
  "keeps_size (ret a)" "keeps_size (store_data P v)" "keeps_size (load_data P)" "keeps_size (store_ctrl P v)"
  "keeps_size (no_card P)" "keeps_size (abort f)" "keeps_size (gets g)" "keeps_size (put_all P vs)"
  "keeps_size (command P n arg crc)"
  by (auto simp: keeps_size_def store_data_def load_data_def store_ctrl_def no_card_def put_all_run command_run)

lemma keeps_size_bnd: "keeps_size m \<Longrightarrow> (\<And>a. keeps_size (k a)) \<Longrightarrow> keeps_size (bnd m k)"
  unfolding keeps_size_def bnd_eq_Inr by metis

lemma keeps_size_if: "keeps_size m \<Longrightarrow> keeps_size m' \<Longrightarrow> keeps_size (if c then m else m')"
  by simp

lemma keeps_size_case: "keeps_size m \<Longrightarrow> (\<And>x. keeps_size (k x)) \<Longrightarrow> keeps_size (case r of None \<Rightarrow> m | Some x \<Rightarrow> k x)"
  by (cases r) simp_all

lemmas keeps = keeps_size_basic keeps_size_bnd keeps_size_if keeps_size_case

lemma keeps_size_poll: "keeps_size (poll P n)"
  by (induction n) (simp_all only: poll.simps, (intro keeps | assumption)+)

lemma keeps_size_read_bytes: "keeps_size (read_bytes P k n)"
proof (induction n arbitrary: k)
  case (Suc n)
  have "keeps_size (bnd (gets block_buf) (\<lambda>buf. if length buf \<le> k then abort Bad_index
     else andthen (modify (\<lambda>s. s\<lparr>block_buf := buf[k := v]\<rparr>)) (read_bytes P (Suc k) n)))" for v
    using Suc [of "Suc k"] by (auto simp: keeps_size_def bnd_def)
  then show ?case
    unfolding read_bytes.simps by (rule keeps_size_bnd [OF keeps_size_basic(2) keeps_size_bnd [OF keeps_size_basic(3)]])
qed (simp only: read_bytes.simps keeps_size_basic)

lemma keeps_size_read_block: "keeps_size (spi_read_block P b)"
  unfolding spi_read_block_def power_off_error_def command_error_def
  by (intro keeps keeps_size_poll keeps_size_read_bytes)

text \<open>
  With a buffer of a block no routine faults, so that \<open>None\<close> in \<open>spi_ops\<close> stands for a call that never
  returns and for nothing else.
\<close>

lemma wlp_driver [wp_simps]:
  "wlp (store_data P v) Q s = Q () (s\<lparr>bus := spi_put P v (bus s)\<rparr>)"
  "wlp (load_data P) R s = R (spi_get P (bus s)) s"
  "wlp (store_ctrl P v) Q s = Q () (s\<lparr>bus := ctrl_put P v (bus s)\<rparr>)"
  "wlp (no_card P) T s = T (bit (ctrl_get P (bus s)) 0) s"
  "wlp (put_all P vs) Q s = Q () (s\<lparr>bus := snd (talk P vs (bus s))\<rparr>)"
  "wlp (command P n arg crc) Q s = Q () (s\<lparr>bus := snd (talk P ((0x40 OR n) # arg @ [crc]) (bus s))\<rparr>)"
  by (simp_all add: wlp_def store_data_def load_data_def store_ctrl_def no_card_def put_all_run command_run)

definition has_block :: "'p driver \<Rightarrow> bool" where
  "has_block s \<longleftrightarrow> length (block_buf s) = CARD_BLOCK_SIZE"

lemma has_block_bus [simp]: "has_block (s\<lparr>bus := q\<rparr>) = has_block s"
  by (simp add: has_block_def)

lemma poll_no_fault: "has_block s \<Longrightarrow> wlp (poll P n) (\<lambda>_. has_block) s"
  by (induction n arbitrary: s) (auto simp: wp_simps)

lemma read_bytes_no_fault: "has_block s \<Longrightarrow> k + n \<le> CARD_BLOCK_SIZE \<Longrightarrow> wlp (read_bytes P k n) (\<lambda>_. has_block) s"
  by (induction n arbitrary: k s) (auto simp: wp_simps has_block_def)

lemma send_bytes_no_fault: "has_block s \<Longrightarrow> k + n \<le> CARD_BLOCK_SIZE \<Longrightarrow> wlp (send_bytes P k n) (\<lambda>_. has_block) s"
  by (induction n arbitrary: k s) (auto simp: wp_simps has_block_def)

lemma busy_loop_no_fault: "has_block s \<Longrightarrow> wlp (busy_loop P) (\<lambda>_. has_block) s"
proof -
  have "has_block s \<longrightarrow> (\<exists>a t. r = Inr (a, t) \<and> has_block t)"
    if "busy_loop P s = Some r" for P :: "'p spi" and s r
  proof (rule busy_loop.raw_induct [OF _ that], intro impI)
    fix f :: "'p spi \<Rightarrow> ('p driver, unit) cmd" and D s r
    let ?body = "andthen (store_data D 0xff) (bnd (load_data D) (\<lambda>a. if a + 1 \<noteq> 0 then f D else ret ()))"
    assume IH: "\<And>D s r. f D s = Some r \<Longrightarrow> has_block s \<longrightarrow> (\<exists>a t. r = Inr (a, t) \<and> has_block t)"
      and body: "?body s = Some r" and s: "has_block s"
    have "has_block t \<Longrightarrow> wlp (f D) (\<lambda>_. has_block) t" for t
      using IH unfolding wlp_iff by blast
    then have "wlp ?body (\<lambda>_. has_block) s" using s by (simp add: wp_simps)
    then show "\<exists>a t. r = Inr (a, t) \<and> has_block t" using body unfolding wlp_iff by blast
  qed
  then show "has_block s \<Longrightarrow> wlp (busy_loop P) (\<lambda>_. has_block) s" unfolding wlp_iff by blast
qed

lemma blocks_no_fault:
  assumes "has_block s"
  shows "wlp (spi_read_block P b) (\<lambda>_. has_block) s" and "wlp (spi_write_block P b) (\<lambda>_. has_block) s"
  using assms unfolding spi_read_block_def spi_write_block_def power_off_error_def command_error_def
  by (auto simp: wp_simps split: option.splits
      intro!: wlp_mono [OF poll_no_fault] wlp_mono [OF read_bytes_no_fault] wlp_mono [OF send_bytes_no_fault]
        wlp_mono [OF busy_loop_no_fault])

lemma spi_ops_sized: "sized_card (spi_ops P)"
proof
  fix b buf d r buf' d'
  assume "op_read (spi_ops P) b buf d = Some (r, buf', d')" and "length buf = CARD_BLOCK_SIZE"
  then show "length buf' = CARD_BLOCK_SIZE"
    using keeps_size_read_block [of P b] by (auto simp: spi_ops_def call_driver_def keeps_size_def split: option.splits sum.splits)
qed

sublocale spi_card \<subseteq> driver: live_device "spi_ops P" blocks "\<lambda>p b. idle p \<and> there p b"
proof (intro live_device.intro spi_ops_sized live_device_axioms.intro)
  show "\<exists>d'. op_read (spi_ops P) b buf d = Some (0, blocks d b, d') \<and> blocks d' = blocks d \<and>
      (\<lambda>b. idle d' \<and> there d' b) = (\<lambda>b. idle d \<and> there d b)"
    if d: "idle d \<and> there d b" and buf: "length buf = CARD_BLOCK_SIZE" for d b buf
  proof -
    obtain q where "reads P b (blocks d b) d q" "idle q" "blocks q = blocks d" "there q = there d"
      using single_read [of d b] d by auto
    then show ?thesis
      using spi_read_block_run [of P b "blocks d b" "\<lparr>bus = d, block_buf = buf\<rparr>" q] detected block_size d buf
      by (simp add: spi_ops_def call_driver_def)
  qed
  show "\<exists>d'. op_write (spi_ops P) b buf d = Some (0, d') \<and> blocks d' = (blocks d)(b := buf) \<and>
      (\<lambda>b. idle d' \<and> there d' b) = (\<lambda>b. idle d \<and> there d b)"
    if d: "idle d \<and> there d b" and buf: "length buf = CARD_BLOCK_SIZE" for d b buf
  proof -
    obtain q where "writes P b buf d q" "idle q" "blocks q = (blocks d)(b := buf)" "there q = there d"
      using single_write [of d b buf] d buf by auto
    then show ?thesis
      using spi_write_block_run [of P b "\<lparr>bus = d, block_buf = buf\<rparr>" q] detected d buf
      by (simp add: spi_ops_def call_driver_def)
  qed
qed (use block_size addressable [of _ "0xffffffff"] in auto)

sublocale sized_spi_card \<subseteq> driver: bounded_device "spi_ops P" blocks "\<lambda>p b. idle p \<and> there p b" "\<lambda>p b. idle p \<and> outside p b"
proof
  show "\<exists>d'. op_read (spi_ops P) b buf d = Some (CARD_ERROR_OUT_OF_RANGE, buf, d') \<and> blocks d' = blocks d \<and>
      (\<lambda>b. idle d' \<and> there d' b) = (\<lambda>b. idle d \<and> there d b) \<and> (\<lambda>b. idle d' \<and> outside d' b) = (\<lambda>b. idle d \<and> outside d b)"
    if d: "idle d \<and> outside d b" and "length buf = CARD_BLOCK_SIZE" for d b buf
  proof -
    obtain q where "refuses P b d q" "idle q" "blocks q = blocks d" "there q = there d" "outside q = outside d"
      using refused [of d b] d by auto
    then show ?thesis
      using spi_read_block_refused [of P b "\<lparr>bus = d, block_buf = buf\<rparr>" q] detected d
      by (simp add: spi_ops_def call_driver_def)
  qed
  show "(\<lambda>b. idle d' \<and> outside d' b) = (\<lambda>b. idle d \<and> outside d b)"
    if d: "idle d \<and> there d b" and buf: "length buf = CARD_BLOCK_SIZE"
      and op: "op_read (spi_ops P) b buf d = Some (r, buf', d')" for d b buf r buf' d'
  proof -
    obtain q where q: "reads P b (blocks d b) d q" "idle q"
      using single_read [of d b] d by auto
    then have "d' = q"
      using spi_read_block_run [of P b "blocks d b" "\<lparr>bus = d, block_buf = buf\<rparr>" q] detected block_size d buf op
      by (simp add: spi_ops_def call_driver_def)
    then show ?thesis using outside_read [OF _ _ q(1)] q(2) d by simp
  qed
  show "(\<lambda>b. idle d' \<and> outside d' b) = (\<lambda>b. idle d \<and> outside d b)"
    if d: "idle d \<and> there d b" and buf: "length buf = CARD_BLOCK_SIZE"
      and op: "op_write (spi_ops P) b buf d = Some (r, d')" for d b buf r d'
  proof -
    obtain q where q: "writes P b buf d q" "idle q"
      using single_write [of d b buf] d buf by auto
    then have "d' = q"
      using spi_write_block_run [of P b "\<lparr>bus = d, block_buf = buf\<rparr>" q] detected d buf op
      by (simp add: spi_ops_def call_driver_def)
    then show ?thesis using outside_write [OF _ _ q(1)] q(2) d by simp
  qed
qed (use outside_addressable [of _ "0xffffffff"] in auto)

context spi_card
begin

lemma driver_live: "live_device (spi_ops P) blocks (\<lambda>p b. idle p \<and> there p b)"
  by (rule driver.live_device_axioms)

end

subsection \<open>Initialisation\<close>

text \<open>
  One command with the argument 0, the bytes received up to the first with the top bit clear, and the
  rounds of \<open>CMD55\<close> and \<open>CMD41\<close> until the card is ready.
\<close>

definition replies :: "'p spi \<Rightarrow> u8 \<Rightarrow> 'p \<Rightarrow> u8 \<Rightarrow> 'p \<Rightarrow> bool" where
  "replies P n p a q \<longleftrightarrow> (\<exists>r ws. length r = 6 \<and> (\<forall>w \<in> set ws. bit w 7) \<and> \<not> bit a 7 \<and>
     talk P (((0x40 OR n) # [0, 0, 0, 0] @ [0xff]) @ clocks (Suc (length ws))) p = (r @ ws @ [a], q))"

inductive boots :: "'p spi \<Rightarrow> 'p \<Rightarrow> 'p \<Rightarrow> bool" for P where
  ready: "replies P 55 p a q \<Longrightarrow> a AND 0xfe = 0 \<Longrightarrow> replies P 41 (spi_put P 0xff q) 0 r \<Longrightarrow> boots P p (spi_put P 0xff r)"
| again: "replies P 55 p a q \<Longrightarrow> a AND 0xfe = 0 \<Longrightarrow> replies P 41 (spi_put P 0xff q) 1 r \<Longrightarrow>
    boots P (spi_put P 0xff r) r' \<Longrightarrow> boots P p r'"

lemma response_run:
  assumes "talk P (clocks (Suc (length ws))) (bus s) = (ws @ [a], q)" and "\<forall>w \<in> set ws. bit w 7" and "\<not> bit a 7"
  shows "response P s = Some (Inr (a, s\<lparr>bus := q\<rparr>))"
  using assms
proof (induction ws arbitrary: s)
  case Nil
  then show ?case by (subst response.simps) (auto simp: store_data_def load_data_def bnd_def Let_def)
next
  case (Cons w ws)
  let ?s = "s\<lparr>bus := spi_put P 0xff (bus s)\<rparr>"
  have "spi_get P (bus ?s) = w" "talk P (clocks (Suc (length ws))) (bus ?s) = (ws @ [a], q)"
    using Cons.prems(1) by (auto simp: Let_def split_beta prod_eq_iff)
  then show ?case using Cons.IH [of ?s] Cons.prems(2,3)
    by (subst response.simps) (auto simp: store_data_def load_data_def bnd_def)
qed

lemma command_response:
  assumes "replies P n (bus s) a q"
  shows "bnd (command P n [0, 0, 0, 0] 0xff) (\<lambda>_. bnd (response P) k) s = k a (s\<lparr>bus := q\<rparr>)"
proof -
  obtain r ws where r: "length r = 6" "\<forall>w \<in> set ws. bit w 7" "\<not> bit a 7"
    "talk P (((0x40 OR n) # [0, 0, 0, 0] @ [0xff]) @ clocks (Suc (length ws))) (bus s) = (r @ ws @ [a], q)"
    using assms unfolding replies_def by blast
  obtain m where m: "talk P ((0x40 OR n) # [0, 0, 0, 0] @ [0xff]) (bus s) = (r, m)" "talk P (clocks (Suc (length ws))) m = (ws @ [a], q)"
    by (rule talk_split [OF r(4)]) (use r(1) in simp)
  have "command P n [0, 0, 0, 0] 0xff s = Some (Inr ((), s\<lparr>bus := m\<rparr>))" by (simp only: command_run m(1) snd_conv)
  moreover have "response P (s\<lparr>bus := m\<rparr>) = Some (Inr (a, s\<lparr>bus := q\<rparr>))"
    using response_run [of P ws "s\<lparr>bus := m\<rparr>" a q] m(2) r(2,3) by simp
  ultimately show ?thesis by (simp add: bnd_def)
qed

lemma ready_loop_run: "boots P p q \<Longrightarrow> bus s = p \<Longrightarrow> ready_loop P s = Some (Inr (0, s\<lparr>bus := q\<rparr>))"
proof (induction arbitrary: s rule: boots.induct)
  case (ready p a q r)
  then have 1: "replies P 55 (bus s) a q" and 2: "replies P 41 (bus (s\<lparr>bus := spi_put P 0xff q\<rparr>)) 0 r" by simp_all
  show ?case
    using ready(2) by (subst ready_loop.simps) (simp add: command_response [OF 1] command_response [OF 2] store_data_def)
next
  case (again p a q r r')
  then have 1: "replies P 55 (bus s) a q" and 2: "replies P 41 (bus (s\<lparr>bus := spi_put P 0xff q\<rparr>)) 1 r" by simp_all
  have "ready_loop P (s\<lparr>bus := spi_put P 0xff r\<rparr>) = Some (Inr (0, s\<lparr>bus := r'\<rparr>))"
    using again.IH [of "s\<lparr>bus := spi_put P 0xff r\<rparr>"] by simp
  then show ?case
    using again(2) by (subst ready_loop.simps) (simp add: command_response [OF 1] command_response [OF 2] store_data_def)
qed

text \<open>The reset before: the power is switched on, ten clocks, then \<open>CMD0\<close>.\<close>

definition reset_start :: "'p spi \<Rightarrow> 'p \<Rightarrow> 'p" where
  "reset_start P p = ctrl_put P SPI_CTRL_EN_3V3
     (snd (talk P (clocks 10) (ctrl_put P (SPI_CTRL_EN_3V3 OR SPI_CTRL_N_CARD_CS) p)))"

text \<open>The card answers the reset within four bytes that it is in its idle state.\<close>

definition resets :: "'p spi \<Rightarrow> 'p \<Rightarrow> 'p \<Rightarrow> bool" where
  "resets P p q \<longleftrightarrow> (\<exists>n r. length r = 6 \<and> n < 4 \<and>
     talk P ([0x40, 0, 0, 0, 0, 0x95] @ clocks (Suc n)) (reset_start P p) = (r @ clocks n @ [1], q))"

lemma card_init_reset:
  assumes present: "\<not> bit (ctrl_get P (bus s)) 0" and reset: "resets P (bus s) q"
  shows "spi_card_init P s = ready_loop P (s\<lparr>bus := spi_put P 0xff q\<rparr>)"
proof -
  let ?s = "s\<lparr>bus := reset_start P (bus s)\<rparr>"
  obtain n r where r: "length r = 6" "n < 4"
    "talk P ([0x40, 0, 0, 0, 0, 0x95] @ clocks (Suc n)) (bus ?s) = (r @ clocks n @ [1], q)"
    using reset by (auto simp: resets_def)
  obtain m where m: "talk P [0x40, 0, 0, 0, 0, 0x95] (bus ?s) = (r, m)" "talk P (clocks (Suc n)) m = (clocks n @ [1], q)"
    by (rule talk_split [OF r(3)]) (use r(1) in simp)
  have start: "bnd (store_ctrl P (SPI_CTRL_EN_3V3 OR SPI_CTRL_N_CARD_CS)) (\<lambda>_. bnd (put_all P (clocks 10)) (\<lambda>_.
      bnd (store_ctrl P SPI_CTRL_EN_3V3) (\<lambda>_. k))) s = k ?s" for k :: "('a driver, u8) cmd"
    by (simp add: store_ctrl_def put_all_run reset_start_def)
  have cmd: "command P 0 [0, 0, 0, 0] 0x95 ?s = Some (Inr ((), s\<lparr>bus := m\<rparr>))" using m(1) by (simp add: command_run)
  have poll: "poll P 4 (s\<lparr>bus := m\<rparr>) = Some (Inr (Some 1, s\<lparr>bus := q\<rparr>))"
    using poll_run [of P n "s\<lparr>bus := m\<rparr>" 1 q 4] m(2) r(2) by simp
  show ?thesis
    using present unfolding spi_card_init_def no_card_def by (simp add: start cmd poll store_data_def)
qed

text \<open>Nothing on the bus: every byte received is \<open>0xff\<close>.\<close>

definition silent :: "'p spi \<Rightarrow> ('p \<Rightarrow> bool) \<Rightarrow> bool" where
  "silent P I \<longleftrightarrow> (\<forall>p v. I p \<longrightarrow> I (spi_put P v p) \<and> spi_get P (spi_put P v p) = 0xff)"

lemma response_silent:
  fixes P :: "'p spi"
  shows "silent P I \<Longrightarrow> I (bus s) \<Longrightarrow> response P s = None"
proof (rule ccontr)
  have never: "silent Q I \<longrightarrow> \<not> I (bus s)" if "response Q s = Some r" for Q :: "'p spi" and s r
  proof (rule response.raw_induct [OF _ that], intro impI notI)
    fix f :: "'p spi \<Rightarrow> ('p driver, u8) cmd" and Q s r
    assume IH: "\<And>Q s r. f Q s = Some r \<Longrightarrow> silent Q I \<longrightarrow> \<not> I (bus s)"
      and body: "(andthen (store_data Q 0xff) (bnd (load_data Q) (\<lambda>b. if bit b 7 then f Q else ret b))) s = Some r"
      and p: "silent Q I" "I (bus s)"
    let ?s = "s\<lparr>bus := spi_put Q 0xff (bus s)\<rparr>"
    have I: "I (bus ?s)" "spi_get Q (bus ?s) = 0xff" using p by (simp_all add: silent_def)
    moreover have "f Q ?s = Some r" using body I by (simp add: store_data_def load_data_def)
    ultimately show False using IH [of Q ?s r] p(1) by simp
  qed
  assume "silent P I" "I (bus s)" "response P s \<noteq> None"
  then show False using never by auto
qed

lemma ready_loop_silent:
  assumes "silent P I" and "I (bus s)"
  shows "ready_loop P s = None"
proof -
  have I: "I (snd (talk P vs p))" if "I p" for vs p
    using that assms(1) by (induction vs arbitrary: p) (auto simp: silent_def Let_def split_beta)
  have "response P (s\<lparr>bus := snd (talk P ((0x40 OR 55) # [0, 0, 0, 0] @ [0xff]) (bus s))\<rparr>) = None"
    by (rule response_silent [OF assms(1)]) (use I [OF assms(2)] in \<open>simp del: talk.simps\<close>)
  then show ?thesis
    by (subst ready_loop.simps) (simp add: command_run bnd_def del: talk.simps)
qed

end
