(* ===== verification/CardSim.thy ===== *)
theory CardSim
  imports CardDriver
begin

section \<open>A card that follows the protocol, and what the driver does with it\<close>

text \<open>
  An executable SD card at the other end of the bus: it interprets the locale \<open>spi_card\<close>, and through it the
  contract \<open>live_device\<close>, so that the witnesses of the theorems about the driver run the driver's code. The
  properties of the driver are at the end.
\<close>

subsection \<open>A card\<close>

text \<open>
  An executable card, to show that the protocol can be followed. It has a queue of the bytes it will send
  next, the bytes of the command it is receiving, the block it is to receive, and a number of
  initialisation commands it will answer with "not ready".
\<close>

record sim_card =
  rx :: u8
  queue :: bytes
  frame :: bytes
  incoming :: "(u32 \<times> bytes option) option"
  store :: "u32 \<Rightarrow> bytes"
  count :: u32
  boot :: nat
  inserted :: bool

definition sim_block :: "sim_card \<Rightarrow> u32 \<Rightarrow> bytes" where
  "sim_block c b = take CARD_BLOCK_SIZE (store c b @ replicate CARD_BLOCK_SIZE 0)"

definition frame_block :: "bytes \<Rightarrow> u32" where
  "frame_block f = drop_bit 9 (un32 (un16 (f ! 4) (f ! 3)) (un16 (f ! 2) (f ! 1)))"

definition answer :: "bytes \<Rightarrow> sim_card \<Rightarrow> sim_card" where
  "answer f c =
     (let b = frame_block f; c = c\<lparr>rx := 0xff, frame := []\<rparr> in
      if hd f = 0x40 then c\<lparr>queue := [0xff, 0x01], boot := 2\<rparr>
      else if hd f = 0x77 then c\<lparr>queue := [0xff, if boot c = 0 then 0 else 1]\<rparr>
      else if hd f = 0x69 then c\<lparr>queue := [0xff, if boot c \<le> 1 then 0 else 1], boot := boot c - 1\<rparr>
      else if boot c \<noteq> 0 then c\<lparr>queue := [0xff, 0x05]\<rparr>
      else if hd f = 0x51 then
        c\<lparr>queue := [0xff, 0x00, 0xff] @ (if b < count c then [0xfe] @ sim_block c b @ [0, 0] else [0x08])\<rparr>
      else if hd f = 0x58 then c\<lparr>queue := [0xff, 0x00], incoming := Some (b, None)\<rparr>
      else c\<lparr>queue := [0xff, 0x04]\<rparr>)"

definition sim_put :: "u8 \<Rightarrow> sim_card \<Rightarrow> sim_card" where
  "sim_put v c =
     (if \<not> inserted c then c\<lparr>rx := 0xff\<rparr>
      else if queue c \<noteq> [] then c\<lparr>rx := hd (queue c), queue := tl (queue c)\<rparr>
      else case incoming c of
        Some (b, None) \<Rightarrow> c\<lparr>rx := 0xff, incoming := Some (b, if v = 0xfe then Some [] else None)\<rparr>
      | Some (b, Some xs) \<Rightarrow>
          if length xs < 513 then c\<lparr>rx := 0xff, incoming := Some (b, Some (xs @ [v]))\<rparr>
          else c\<lparr>rx := 0xff, incoming := None, store := (store c)(b := take 512 xs), queue := [0xe5, 0x00]\<rparr>
      | None \<Rightarrow>
          if frame c = [] \<and> v AND 0xc0 \<noteq> 0x40 then c\<lparr>rx := 0xff\<rparr>
          else if length (frame c) < 5 then c\<lparr>rx := 0xff, frame := frame c @ [v]\<rparr>
          else answer (frame c @ [v]) c)"

definition sim :: "sim_card spi" where
  "sim = \<lparr>spi_put = sim_put, spi_get = rx,
     ctrl_put = (\<lambda>v c. if bit v 3 then c else c\<lparr>queue := [], frame := [], incoming := None, boot := 2\<rparr>),
     ctrl_get = (\<lambda>c. if inserted c then 0 else 1)\<rparr>"

definition sim_waits :: "sim_card \<Rightarrow> bool" where
  "sim_waits c \<longleftrightarrow> inserted c \<and> queue c = [] \<and> frame c = [] \<and> incoming c = None"

definition sim_idle :: "sim_card \<Rightarrow> bool" where
  "sim_idle c \<longleftrightarrow> sim_waits c \<and> boot c = 0"

definition sim_there :: "sim_card \<Rightarrow> u32 \<Rightarrow> bool" where
  "sim_there c b \<longleftrightarrow> b < count c \<and> unat b < 2 ^ 23"

lemma sim_simps [simp]: "spi_put sim = sim_put" "spi_get sim = rx"
  by (simp_all add: sim_def)

lemma sim_drain:
  "inserted c \<Longrightarrow> queue c = xs \<Longrightarrow> talk sim (clocks (length xs)) c = (xs, c\<lparr>queue := [], rx := last (rx c # xs)\<rparr>)"
proof (induction xs arbitrary: c)
  case (Cons x xs)
  have "sim_put 0xff c = c\<lparr>rx := x, queue := xs\<rparr>" using Cons.prems by (simp add: sim_put_def)
  then show ?case using Cons.IH [of "c\<lparr>rx := x, queue := xs\<rparr>"] Cons.prems by (simp add: Let_def)
qed simp

lemma sim_collect:
  assumes "inserted c" and "queue c = []" and "incoming c = Some (b, Some xs)" and "length xs + length vs < 514"
  shows "talk sim vs c = (clocks (length vs), c\<lparr>rx := (if vs = [] then rx c else 0xff), incoming := Some (b, Some (xs @ vs))\<rparr>)"
  using assms
proof (induction vs arbitrary: c xs)
  case (Cons v vs)
  have "sim_put v c = c\<lparr>rx := 0xff, incoming := Some (b, Some (xs @ [v]))\<rparr>" using Cons.prems by (simp add: sim_put_def)
  then show ?case using Cons.IH [of "c\<lparr>rx := 0xff, incoming := Some (b, Some (xs @ [v]))\<rparr>" "xs @ [v]"] Cons.prems
    by (simp add: Let_def)
qed simp

lemma sim_frame:
  assumes "inserted c" and "queue c = []" and "incoming c = None" and "frame c \<noteq> []" and "length (frame c) + length vs < 6"
  shows "talk sim vs c = (clocks (length vs), c\<lparr>rx := (if vs = [] then rx c else 0xff), frame := frame c @ vs\<rparr>)"
  using assms
proof (induction vs arbitrary: c)
  case (Cons v vs)
  have "sim_put v c = c\<lparr>rx := 0xff, frame := frame c @ [v]\<rparr>" using Cons.prems by (simp add: sim_put_def)
  then show ?case using Cons.IH [of "c\<lparr>rx := 0xff, frame := frame c @ [v]\<rparr>"] Cons.prems by (simp add: Let_def)
qed simp

text \<open>A command is taken byte by byte, then answered.\<close>

lemma answer_simps: "rx (answer f c) = 0xff" "inserted (answer f c) = inserted c"
  by (simp_all add: answer_def Let_def)

lemma sim_command:
  assumes c: "sim_waits c" and v: "v AND 0xc0 = 0x40" and arg: "length arg = 4"
  shows "talk sim (v # arg @ [w]) c = (clocks 6, answer (v # arg @ [w]) (c\<lparr>rx := 0xff, frame := v # arg\<rparr>))"
proof -
  let ?c1 = "c\<lparr>rx := 0xff, frame := [v]\<rparr>" and ?c2 = "c\<lparr>rx := 0xff, frame := v # arg\<rparr>"
  have 1: "sim_put v c = ?c1" using c v by (simp add: sim_put_def sim_waits_def)
  have 2: "talk sim arg ?c1 = (clocks 4, ?c2)"
    using sim_frame [of ?c1 arg] c arg by (auto simp: sim_waits_def)
  have 3: "sim_put w ?c2 = answer (v # arg @ [w]) ?c2" using c arg by (simp add: sim_put_def sim_waits_def)
  have "talk sim (v # arg @ [w]) c = (0xff # clocks 4 @ [0xff], answer (v # arg @ [w]) ?c2)"
    by (simp add: 1 2 3 talk_append Let_def answer_simps)
  then show ?thesis by (simp add: numeral_eq_Suc)
qed

lemma frame_block_command: "unat b < 2 ^ 23 \<Longrightarrow> frame_block (v # rev (le32 (512 * b)) @ [w]) = b"
proof -
  assume b: "unat b < 2 ^ 23"
  have "frame_block (v # rev (le32 (512 * b)) @ [w]) = drop_bit 9 (512 * b)"
    by (simp add: frame_block_def le32_def le16_def)
  also have "\<dots> = b"
  proof (rule word_unat_eq_iff [THEN iffD2])
    have "unat (512 * b) = 512 * unat b" using b by (simp add: unat_word_ariths)
    then show "unat (drop_bit 9 (512 * b)) = unat b" unfolding unat_drop_bit_eq by (simp add: drop_bit_eq_div)
  qed
  finally show ?thesis .
qed

lemma sim_reads:
  assumes c: "sim_idle c" and b: "sim_there c b"
  shows "\<exists>q. reads sim b (sim_block c b) c q \<and> sim_idle q \<and> sim_block q = sim_block c \<and> sim_there q = sim_there c"
proof -
  let ?f = "0x51 # rev (le32 (512 * b)) @ [0xff]" and ?blk = "sim_block c b"
  let ?c2 = "c\<lparr>rx := 0xff, frame := 0x51 # rev (le32 (512 * b))\<rparr>"
  let ?xs = "([0xff] @ [0]) @ ([0xff] @ [0xfe]) @ ?blk @ [0, 0]"
  let ?q = "c\<lparr>rx := 0xff\<rparr>"
  have 1: "talk sim ?f c = (clocks 6, answer ?f ?c2)" by (rule sim_command) (use c in \<open>simp_all add: sim_idle_def\<close>)
  have 2: "answer ?f ?c2 = c\<lparr>rx := 0xff, queue := ?xs\<rparr>"
    using c b frame_block_command [of b "0x51" "0xff"] by (simp add: answer_def sim_idle_def sim_waits_def sim_there_def Let_def sim_block_def)
  have len: "length ?blk = 512" by (simp add: sim_block_def)
  have n: "clocks (Suc 1) @ clocks (Suc 1) @ clocks 512 @ clocks 3 = clocks (length ?xs) @ [0xff]"
    using len by (simp add: replicate_append_same flip: replicate_add) (simp add: numeral_eq_Suc)
  have drain: "talk sim (clocks (length xs)) (c\<lparr>rx := 0xff, queue := xs\<rparr>) = (xs, c\<lparr>rx := last (0xff # xs)\<rparr>)" for xs
    using c sim_drain [of "c\<lparr>rx := 0xff, queue := xs\<rparr>" xs] by (cases c) (simp add: sim_idle_def sim_waits_def)
  have one: "talk sim [0xff] (c\<lparr>rx := r\<rparr>) = ([0xff], ?q)" for r
    using c by (simp add: sim_put_def sim_idle_def sim_waits_def)
  have 3: "talk sim (clocks (length ?xs) @ [0xff]) (c\<lparr>rx := 0xff, queue := ?xs\<rparr>) = (?xs @ [0xff], ?q)"
    unfolding talk_append drain fst_conv snd_conv one ..
  have "talk sim (?f @ clocks (Suc 1) @ clocks (Suc 1) @ clocks 512 @ clocks 3) c = (clocks 6 @ ?xs @ [0xff], ?q)"
    unfolding talk_append [of _ ?f] n 1 fst_conv snd_conv 2 3 ..
  then have "reads sim b ?blk c ?q"
    unfolding reads_def
    by (intro exI [of _ 1] exI [of _ "clocks 6"] exI [of _ "[0, 0, 0xff]"]) (simp add: TIMEOUT_BLOCK_def)
  then show ?thesis using c by (intro exI [of _ ?q]) (auto simp: sim_idle_def sim_waits_def sim_block_def sim_there_def fun_eq_iff)
qed

lemma sim_writes:
  assumes c: "sim_idle c" and b: "sim_there c b" and blk: "length blk = 512"
  shows "\<exists>q. writes sim b blk c q \<and> sim_idle q \<and> sim_block q = (sim_block c)(b := blk) \<and> sim_there q = sim_there c"
proof -
  let ?f = "0x58 # rev (le32 (512 * b)) @ [0xff]"
  let ?c2 = "c\<lparr>rx := 0xff, frame := 0x58 # rev (le32 (512 * b))\<rparr>"
  let ?q = "c\<lparr>rx := 0xff, store := (store c)(b := blk)\<rparr>"
  have 1: "talk sim ?f c = (clocks 6, answer ?f ?c2)" by (rule sim_command) (use c in \<open>simp_all add: sim_idle_def\<close>)
  have 2: "answer ?f ?c2 = c\<lparr>rx := 0xff, queue := [0xff, 0], incoming := Some (b, None)\<rparr>"
    using c frame_block_command [of b "0x58" "0xff"] b by (simp add: answer_def sim_idle_def sim_waits_def sim_there_def Let_def)
  have 3: "talk sim (clocks (Suc 1)) (c\<lparr>rx := 0xff, queue := [0xff, 0], incoming := Some (b, None)\<rparr>) =
      (clocks 1 @ [0], c\<lparr>rx := 0, incoming := Some (b, None)\<rparr>)"
    using c by (cases c) (simp add: sim_put_def sim_idle_def sim_waits_def)
  have 4: "talk sim [0xff, 0xff, 0xfe] (c\<lparr>rx := 0, incoming := Some (b, None)\<rparr>) =
      (clocks 3, c\<lparr>rx := 0xff, incoming := Some (b, Some [])\<rparr>)"
    using c by (cases c) (simp add: sim_put_def sim_idle_def sim_waits_def numeral_3_eq_3)
  have 5: "talk sim blk (c\<lparr>rx := 0xff, incoming := Some (b, Some [])\<rparr>) =
      (clocks 512, c\<lparr>rx := 0xff, incoming := Some (b, Some blk)\<rparr>)"
    using sim_collect [of "c\<lparr>rx := 0xff, incoming := Some (b, Some [])\<rparr>" b "[]" blk] c blk by (simp add: sim_idle_def sim_waits_def)
  have 6: "talk sim (clocks 3) (c\<lparr>rx := 0xff, incoming := Some (b, Some blk)\<rparr>) =
      (clocks 2 @ [0xe5], c\<lparr>rx := 0xe5, queue := [0], store := (store c)(b := blk)\<rparr>)"
    using c blk by (cases c) (simp add: sim_put_def sim_idle_def sim_waits_def numeral_3_eq_3 numeral_2_eq_2)
  have 7: "talk sim (clocks (Suc 1)) (c\<lparr>rx := 0xe5, queue := [0], store := (store c)(b := blk)\<rparr>) = ([0] @ [0xff], ?q)"
    using c by (cases c) (simp add: sim_put_def sim_idle_def sim_waits_def)
  have "talk sim (?f @ clocks (Suc 1) @ [0xff, 0xff, 0xfe] @ blk @ clocks 3 @ clocks (Suc 1)) c =
      (clocks 6 @ (clocks 1 @ [0]) @ clocks 3 @ clocks 512 @ (clocks 2 @ [0xe5]) @ ([0] @ [0xff]), ?q)"
    unfolding talk_append [of _ ?f] talk_append [of _ "clocks (Suc 1)"] talk_append [of _ "[0xff, 0xff, 0xfe]"]
      talk_append [of _ blk] talk_append [of _ "clocks 3"] 1 fst_conv snd_conv 2 3 4 5 6 7 ..
  then have "writes sim b blk c ?q"
    unfolding writes_def
    by (intro exI [of _ 1] exI [of _ "clocks 6"] exI [of _ "clocks 3"] exI [of _ "clocks 512"] exI [of _ "clocks 2"]
        exI [of _ "0xe5"] exI [of _ "[0]"]) simp
  then show ?thesis using c blk by (intro exI [of _ ?q]) (auto simp: sim_idle_def sim_waits_def sim_block_def sim_there_def fun_eq_iff)
qed

interpretation sim: spi_card sim sim_idle sim_block sim_there
proof
  show "\<exists>q. reads sim b (sim_block p b) p q \<and> sim_idle q \<and> sim_block q = sim_block p \<and> sim_there q = sim_there p"
    if "sim_idle p" "sim_there p b" for p b using sim_reads that .
  show "\<exists>q. writes sim b blk p q \<and> sim_idle q \<and> sim_block q = (sim_block p)(b := blk) \<and> sim_there q = sim_there p"
    if "sim_idle p" "sim_there p b" "length blk = CARD_BLOCK_SIZE" for p b blk using sim_writes that .
qed (auto simp: sim_def sim_idle_def sim_waits_def sim_there_def sim_block_def)

text \<open>The card knows its end, and no conversation moves it.\<close>

definition sim_outside :: "sim_card \<Rightarrow> u32 \<Rightarrow> bool" where
  "sim_outside c b \<longleftrightarrow> count c \<le> b \<and> unat b < 2 ^ 23"

lemma sim_put_count: "count (sim_put v c) = count c"
  by (auto simp: sim_put_def answer_def Let_def split: option.splits)

lemma talk_count: "count (snd (talk sim vs c)) = count c"
  by (induction vs arbitrary: c) (simp_all add: Let_def split_beta sim_put_count)

lemma talk_outside: "talk sim vs c = (rs, q) \<Longrightarrow> sim_outside q = sim_outside c"
  using talk_count [of vs c] by (simp add: fun_eq_iff sim_outside_def)

lemma sim_refuses:
  assumes c: "sim_idle c" and b: "sim_outside c b"
  shows "\<exists>q. refuses sim b c q \<and> sim_idle q \<and> sim_block q = sim_block c \<and> sim_there q = sim_there c \<and>
    sim_outside q = sim_outside c"
proof -
  let ?f = "0x51 # rev (le32 (512 * b)) @ [0xff]" and ?q = "c\<lparr>rx := 0x08\<rparr>"
  let ?c2 = "c\<lparr>rx := 0xff, frame := 0x51 # rev (le32 (512 * b))\<rparr>"
  have 1: "talk sim ?f c = (clocks 6, answer ?f ?c2)" by (rule sim_command) (use c in \<open>simp_all add: sim_idle_def\<close>)
  have 2: "answer ?f ?c2 = c\<lparr>rx := 0xff, queue := [0xff, 0, 0xff, 0x08]\<rparr>"
    using c b frame_block_command [of b "0x51" "0xff"]
    by (simp add: answer_def sim_idle_def sim_waits_def sim_outside_def Let_def not_less [symmetric])
  have 3: "talk sim (clocks (Suc 1)) (c\<lparr>rx := 0xff, queue := [0xff, 0, 0xff, 0x08]\<rparr>) =
      (clocks 1 @ [0], c\<lparr>rx := 0, queue := [0xff, 0x08]\<rparr>)"
    using c by (simp add: sim_put_def sim_idle_def sim_waits_def)
  have 4: "talk sim (clocks (Suc 1)) (c\<lparr>rx := 0, queue := [0xff, 0x08]\<rparr>) = (clocks 1 @ [0x08], ?q)"
    using c by (cases c) (simp add: sim_put_def sim_idle_def sim_waits_def)
  have "talk sim (?f @ clocks (Suc 1) @ clocks (Suc 1)) c = (clocks 6 @ (clocks 1 @ [0]) @ (clocks 1 @ [0x08]), ?q)"
    unfolding talk_append [of _ ?f] talk_append [of _ "clocks (Suc 1)"] 1 fst_conv snd_conv 2 3 4 ..
  then have "refuses sim b c ?q"
    unfolding refuses_def
    by (intro exI [of _ 1] exI [of _ "clocks 6"] exI [of _ "0x08"])
      (simp add: TIMEOUT_BLOCK_def bit_iff_odd del: talk.simps replicate.simps)
  then show ?thesis
    using c by (intro exI [of _ ?q])
      (auto simp: sim_idle_def sim_waits_def sim_block_def sim_there_def sim_outside_def fun_eq_iff)
qed

interpretation sim: sized_spi_card sim sim_idle sim_block sim_there sim_outside
proof
  show "\<exists>q. refuses sim b p q \<and> sim_idle q \<and> sim_block q = sim_block p \<and> sim_there q = sim_there p \<and>
      sim_outside q = sim_outside p" if "sim_idle p" "sim_outside p b" for p b
    using sim_refuses that .
  show "sim_outside q = sim_outside p" if "reads sim b blk p q" for p b blk q
    using that unfolding reads_def by (auto dest: talk_outside simp del: talk.simps)
  show "sim_outside q = sim_outside p" if "writes sim b blk p q" for p b blk q
    using that unfolding writes_def by (auto dest: talk_outside simp del: talk.simps)
qed (simp add: sim_outside_def)

text \<open>The card of the witnesses, just inserted, and a socket from which the card is pulled during the reset.\<close>

definition new_card :: "(u32 \<Rightarrow> bytes) \<Rightarrow> u32 \<Rightarrow> sim_card" where
  "new_card f m = \<lparr>rx = 0, queue = [], frame = [], incoming = None, store = f, count = m, boot = 2, inserted = True\<rparr>"

lemma sim_replies:
  assumes c: "sim_waits c" and v: "(0x40 OR k) AND 0xc0 = (0x40 :: u8)" and a: "\<not> bit a 7"
    and ans: "answer ((0x40 OR k) # [0, 0, 0, 0] @ [0xff]) (c\<lparr>rx := 0xff, frame := (0x40 OR k) # [0, 0, 0, 0]\<rparr>) =
      c\<lparr>rx := 0xff, queue := [0xff, a], boot := n\<rparr>"
  shows "replies sim k c a (c\<lparr>rx := a, boot := n\<rparr>)"
proof -
  let ?f = "(0x40 OR k) # [0, 0, 0, 0] @ [0xff]"
  have 1: "talk sim ?f c = (clocks 6, c\<lparr>rx := 0xff, queue := [0xff, a], boot := n\<rparr>)"
    using sim_command [OF c v, of "[0, 0, 0, 0]" "0xff"] ans by simp
  have 2: "talk sim (clocks (Suc 1)) (c\<lparr>rx := 0xff, queue := [0xff, a], boot := n\<rparr>) = ([0xff] @ [a], c\<lparr>rx := a, boot := n\<rparr>)"
    using c by (cases c) (simp add: sim_put_def sim_waits_def)
  have "talk sim (?f @ clocks (Suc 1)) c = (clocks 6 @ [0xff] @ [a], c\<lparr>rx := a, boot := n\<rparr>)"
    unfolding talk_append [of _ ?f] 1 fst_conv snd_conv 2 ..
  then show ?thesis using a unfolding replies_def by (intro exI [of _ "clocks 6"] exI [of _ "[0xff]"]) simp
qed

lemma new_card_boots: "boots sim ((new_card f m)\<lparr>rx := 0xff\<rparr>) ((new_card f m)\<lparr>rx := 0xff, boot := 0\<rparr>)"
proof -
  have waits: "sim_waits ((new_card f m)\<lparr>rx := x, boot := n\<rparr>)" and put: "spi_put sim 0xff ((new_card f m)\<lparr>rx := x, boot := n\<rparr>) = (new_card f m)\<lparr>rx := 0xff, boot := n\<rparr>" for x n
    by (simp_all add: sim_waits_def new_card_def sim_put_def)
  have r55: "replies sim 55 ((new_card f m)\<lparr>rx := x, boot := n\<rparr>) 1 ((new_card f m)\<lparr>rx := 1, boot := n\<rparr>)" if "n \<noteq> 0" for x n
    using sim_replies [OF waits [of n x], of 55 1 n] that by (simp add: answer_def new_card_def Let_def)
  have r41: "replies sim 41 ((new_card f m)\<lparr>rx := x, boot := n\<rparr>) (if n \<le> 1 then 0 else 1) ((new_card f m)\<lparr>rx := if n \<le> 1 then 0 else 1, boot := n - 1\<rparr>)" for x n
    using sim_replies [OF waits [of n x], of 41 "if n \<le> 1 then 0 else 1" "n - 1"] by (simp add: answer_def new_card_def Let_def)
  have one: "boots sim ((new_card f m)\<lparr>rx := 0xff, boot := 1\<rparr>) ((new_card f m)\<lparr>rx := 0xff, boot := 0\<rparr>)"
    using boots.ready [OF r55 [of 1 "0xff"], of "(new_card f m)\<lparr>rx := 0, boot := 0\<rparr>", unfolded put] r41 [of 1 "0xff"] by simp
  have "boots sim ((new_card f m)\<lparr>rx := 0xff, boot := 2\<rparr>) ((new_card f m)\<lparr>rx := 0xff, boot := 0\<rparr>)"
    using boots.again [OF r55 [of 2 "0xff"], of "(new_card f m)\<lparr>rx := 1, boot := 1\<rparr>", unfolded put, OF _ _ _ one] r41 [of 2 "0xff"] by simp
  then show ?thesis by (simp add: new_card_def)
qed

lemma sim_clocks: "sim_waits c \<Longrightarrow> snd (talk sim (clocks (Suc n)) c) = c\<lparr>rx := 0xff\<rparr>"
proof (induction n arbitrary: c)
  case (Suc n)
  have "sim_waits (c\<lparr>rx := 0xff\<rparr>)" "sim_put 0xff c = c\<lparr>rx := 0xff\<rparr>" using Suc.prems by (simp_all add: sim_put_def sim_waits_def)
  then show ?case using Suc.IH [of "c\<lparr>rx := 0xff\<rparr>"] by (simp add: Let_def split_beta)
qed (simp add: sim_put_def sim_waits_def)

lemma new_card_resets: "resets sim (new_card f m) ((new_card f m)\<lparr>rx := 1\<rparr>)"
proof -
  let ?f = "0x40 # [0, 0, 0, 0] @ [0x95] :: bytes" and ?c = "(new_card f m)\<lparr>rx := 0xff\<rparr>"
  have waits: "sim_waits (new_card f m)" "sim_waits ?c" by (simp_all add: sim_waits_def new_card_def)
  have on: "ctrl_put sim v c = c" if "bit v 3" for v c using that by (simp add: sim_def)
  have bits: "bit (SPI_CTRL_EN_3V3 OR SPI_CTRL_N_CARD_CS) 3" "bit SPI_CTRL_EN_3V3 3"
    by (simp_all add: SPI_CTRL_EN_3V3_def SPI_CTRL_N_CARD_CS_def)
  have start: "reset_start sim (new_card f m) = ?c"
    using sim_clocks [OF waits(1), of 9] unfolding reset_start_def on [OF bits(1)] on [OF bits(2)] by (simp add: numeral_eq_Suc)
  have 1: "talk sim ?f ?c = (clocks 6, ?c\<lparr>queue := [0xff, 1]\<rparr>)"
  proof -
    have "answer ?f (?c\<lparr>rx := 0xff, frame := 0x40 # [0, 0, 0, 0]\<rparr>) = ?c\<lparr>queue := [0xff, 1]\<rparr>"
      by (simp add: answer_def new_card_def Let_def)
    then show ?thesis using sim_command [OF waits(2), of "0x40" "[0, 0, 0, 0]" "0x95"] by (simp del: talk.simps)
  qed
  have 2: "talk sim (clocks (Suc 1)) (?c\<lparr>queue := [0xff, 1]\<rparr>) = (clocks 1 @ [1], (new_card f m)\<lparr>rx := 1\<rparr>)"
    by (simp add: sim_put_def new_card_def)
  have "talk sim (?f @ clocks (Suc 1)) ?c = (clocks 6 @ clocks 1 @ [1], (new_card f m)\<lparr>rx := 1\<rparr>)"
    unfolding talk_append [of _ ?f] 1 fst_conv snd_conv 2 ..
  then show ?thesis unfolding resets_def start by (intro exI [of _ 1] exI [of _ "clocks 6"]) simp
qed

definition pulled :: "nat spi" where
  "pulled = \<lparr>spi_put = (\<lambda>v n. Suc n), spi_get = (\<lambda>n. if n = 17 then 1 else 0xff), ctrl_put = (\<lambda>v n. n), ctrl_get = (\<lambda>n. 0)\<rparr>"

lemma pulled_resets: "resets pulled 0 17"
proof -
  have start: "reset_start pulled 0 = 10" by (simp add: reset_start_def pulled_def numeral_eq_Suc)
  show ?thesis unfolding resets_def start
    by (intro exI [of _ 0] exI [of _ "clocks 6"]) (simp add: pulled_def numeral_eq_Suc)
qed

subsection \<open>The properties\<close>

text \<open>
  C27: On a card that follows the protocol, \<open>card_write_block\<close> of one block and then \<open>card_read_block\<close> of any
  block succeed and leave in the buffer what was written, or, for another block, what the card held; the card
  holds the written block, is between two commands again, and no other block has changed.
\<close>

theorem block_written_is_read:
  assumes card: "spi_card P idle blocks there" and d: "idle d" "there d b" "there d b'"
    and len: "length data = CARD_BLOCK_SIZE" "length buf = CARD_BLOCK_SIZE"
  shows "\<exists>q. bnd (spi_write_block P b) (\<lambda>w. andthen (modify (\<lambda>s. s\<lparr>block_buf := buf\<rparr>))
      (bnd (spi_read_block P b') (\<lambda>r. ret (w, r)))) \<lparr>bus = d, block_buf = data\<rparr> =
      Some (Inr ((0, 0), \<lparr>bus = q, block_buf = (if b' = b then data else blocks d b')\<rparr>)) \<and>
    idle q \<and> blocks q = (blocks d)(b := data) \<and> there q = there d"
proof -
  note laws = spi_card.detected [OF card] spi_card.block_size [OF card]
  obtain p where p: "writes P b data d p" "idle p" "blocks p = (blocks d)(b := data)" "there p = there d"
    using spi_card.single_write [OF card d(1,2) len(1)] by blast
  obtain q where q: "reads P b' (blocks p b') p q" "idle q" "blocks q = blocks p" "there q = there p"
    using spi_card.single_read [OF card p(2), of b'] d(3) p(4) by auto
  have "spi_write_block P b \<lparr>bus = d, block_buf = data\<rparr> = Some (Inr (0, \<lparr>bus = p, block_buf = data\<rparr>))"
    using spi_write_block_run [of P b "\<lparr>bus = d, block_buf = data\<rparr>" p] p(1) laws(1) [OF d(1)] len(1) by simp
  moreover have "spi_read_block P b' \<lparr>bus = p, block_buf = buf\<rparr> = Some (Inr (0, \<lparr>bus = q, block_buf = blocks p b'\<rparr>))"
    using spi_read_block_run [of P b' "blocks p b'" "\<lparr>bus = p, block_buf = buf\<rparr>" q] q(1) laws(1) [OF p(2)] len(2)
      laws(2) [of p b'] d(3) p(4) by simp
  ultimately show ?thesis using q p(3,4) by (intro exI [of _ q]) simp
qed

theorem block_written_is_read_witness:
  "\<exists>q. bnd (spi_write_block sim 7) (\<lambda>w. andthen (modify (\<lambda>s. s\<lparr>block_buf := replicate 512 0\<rparr>))
      (bnd (spi_read_block sim 7) (\<lambda>r. ret (w, r))))
      \<lparr>bus = \<lparr>rx = 0, queue = [], frame = [], incoming = None, store = (\<lambda>_. []), count = 300, boot = 0, inserted = True\<rparr>,
        block_buf = replicate 512 0x61\<rparr> =
      Some (Inr ((0, 0), \<lparr>bus = q, block_buf = replicate 512 0x61\<rparr>))"
  using block_written_is_read [OF sim.spi_card_axioms, of "\<lparr>rx = 0, queue = [], frame = [], incoming = None,
      store = (\<lambda>_. []), count = 300, boot = 0, inserted = True\<rparr>" 7 7 "replicate 512 0x61" "replicate 512 0"]
  by (auto simp: sim_idle_def sim_waits_def sim_there_def)

text \<open>
  C28: The argument of a block command is the byte address of the block, 512 times its index, most significant
  byte first, reduced modulo \<open>2 ^ 32\<close>: blocks get different addresses as long as they
  differ modulo \<open>2 ^ 23\<close>, and the same address otherwise.
\<close>

theorem block_argument_wraps:
  "block_argument b = rev (le32 (512 * b)) \<and>
   (block_argument b = block_argument b' \<longleftrightarrow> unat b mod 2 ^ 23 = unat b' mod 2 ^ 23)"
proof -
  have inj: "x = y" if "le32 x = le32 y" for x y
  proof (rule bit_word_eqI)
    fix n assume "n < LENGTH(32)"
    then have "bit z n = bit (le32 z ! (n div 8)) (n mod 8)" for z by (simp add: bit_le32)
    then show "bit x n = bit y n" using that by metis
  qed
  have "unat (512 * x) = 512 * (unat x mod 2 ^ 23)" for x :: u32
    using mult_mod_right [of 512 "unat x" "2 ^ 23"] by (simp add: unat_word_ariths)
  then have "512 * b = 512 * b' \<longleftrightarrow> unat b mod 2 ^ 23 = unat b' mod 2 ^ 23" by (simp add: word_unat_eq_iff)
  then show ?thesis using inj by (auto simp: block_argument_address)
qed

text \<open>
  C16: When the card accepts a read command but sends no block, \<open>card_read_block\<close> leaves the buffer alone. An
  error token gives the error it stands for: \<open>CARD_ERROR_OUT_OF_RANGE\<close> for bit 3, else \<open>CARD_ERROR_LOCKED\<close> for bit
  4, else \<open>CARD_ERROR_BLOCK_CMD_FAILED\<close>. Twenty bytes without a token give \<open>CARD_ERROR_TIMEOUT\<close> and switch the card
  off.
\<close>

theorem read_block_no_data:
  assumes present: "\<not> bit (ctrl_get P p) 0" and n: "n < 4" "length r = 6"
    and accepted: "talk P ((0x51 # rev (le32 (512 * b)) @ [0xff]) @ clocks (Suc n)) p = (r @ clocks n @ [0], q)"
  shows "(\<forall>k t u. k < 20 \<and> t \<noteq> 0xff \<and> t \<noteq> 0xfe \<and> talk P (clocks (Suc k)) q = (clocks k @ [t], u) \<longrightarrow>
      op_read (spi_ops P) b buf p = Some (if bit t 3 then CARD_ERROR_OUT_OF_RANGE else if bit t 4 then CARD_ERROR_LOCKED
        else CARD_ERROR_BLOCK_CMD_FAILED, buf, u)) \<and>
    (fst (talk P (clocks 20) q) = clocks 20 \<longrightarrow>
      op_read (spi_ops P) b buf p = Some (CARD_ERROR_TIMEOUT, buf, ctrl_put P 0 (snd (talk P (clocks 20) q))))"
proof -
  let ?s = "\<lambda>u. \<lparr>bus = u, block_buf = buf\<rparr>"
  obtain m where m: "talk P (0x51 # rev (le32 (512 * b)) @ [0xff]) p = (r, m)" "talk P (clocks (Suc n)) m = (clocks n @ [0], q)"
    by (rule talk_split [OF accepted]) (use n(2) in simp)
  have start: "command P 17 (block_argument b) 0xff (?s p) = Some (Inr ((), ?s m))" "poll P 4 (?s m) = Some (Inr (Some 0, ?s q))"
    using m poll_run [of P n "?s m" 0 q 4] n(1) by (simp_all add: command_run block_argument_address)
  have run: "spi_read_block P b (?s p) = (case t of
      None \<Rightarrow> power_off_error P CARD_ERROR_TIMEOUT (?s u)
    | Some a \<Rightarrow> ret (block_error a) (?s u))"
    if "poll P TIMEOUT_BLOCK (?s q) = Some (Inr (t, ?s u))" "t \<noteq> Some 0xfe" for t u
  proof -
    have "a + 2 \<noteq> 0" if "a \<noteq> 0xfe" for a :: u8
      using that by (auto simp: eq_neg_iff_add_eq_0 [symmetric])
    then show ?thesis using that present start by (cases t) (auto simp: spi_read_block_def no_card_def)
  qed
  have bits: "block_error t = (if bit t 3 then CARD_ERROR_OUT_OF_RANGE else if bit t 4 then CARD_ERROR_LOCKED
        else CARD_ERROR_BLOCK_CMD_FAILED)" for t
    by (simp add: block_error_def bit_iff_and_push_bit_not_eq_0 numeral_eq_Suc)
  show ?thesis
  proof (intro conjI allI impI, elim conjE)
    fix k t u
    assume k: "k < 20" "t \<noteq> 0xff" "t \<noteq> 0xfe" "talk P (clocks (Suc k)) q = (clocks k @ [t], u)"
    then have "poll P TIMEOUT_BLOCK (?s q) = Some (Inr (Some t, ?s u))"
      using poll_run [of P k "?s q" t u TIMEOUT_BLOCK] by (simp add: TIMEOUT_BLOCK_def)
    from run [OF this] k(3) show "op_read (spi_ops P) b buf p = Some (if bit t 3 then CARD_ERROR_OUT_OF_RANGE else if bit t 4
        then CARD_ERROR_LOCKED else CARD_ERROR_BLOCK_CMD_FAILED, buf, u)"
      by (simp add: spi_ops_def call_driver_def bits)
  next
    assume "fst (talk P (clocks 20) q) = clocks 20"
    then have "poll P TIMEOUT_BLOCK (?s q) = Some (Inr (None, ?s (snd (talk P (clocks 20) q))))"
      using poll_silent [of P TIMEOUT_BLOCK "?s q"] by (simp add: TIMEOUT_BLOCK_def)
    from run [OF this] show "op_read (spi_ops P) b buf p = Some (CARD_ERROR_TIMEOUT, buf, ctrl_put P 0 (snd (talk P (clocks 20) q)))"
      by (simp add: spi_ops_def call_driver_def power_off_error_def store_ctrl_def)
  qed
qed

theorem read_block_no_data_witness:
  "\<exists>u. op_read (spi_ops sim) 300 [1, 2] ((new_card (\<lambda>_. []) 300)\<lparr>boot := 0\<rparr>) = Some (CARD_ERROR_OUT_OF_RANGE, [1, 2], u)"
proof -
  let ?c = "(new_card (\<lambda>_. []) 300)\<lparr>boot := 0\<rparr>" and ?f = "0x51 # rev (le32 (512 * 300)) @ [0xff]"
  let ?q = "?c\<lparr>rx := 0, queue := [0xff, 0x08]\<rparr>"
  have waits: "sim_waits ?c" by (simp add: sim_waits_def new_card_def)
  have "frame_block ?f = 300" using frame_block_command [of 300 "0x51" "0xff"] by simp
  then have "answer ?f (?c\<lparr>rx := 0xff, frame := 0x51 # rev (le32 (512 * 300))\<rparr>) = ?c\<lparr>rx := 0xff, queue := [0xff, 0, 0xff, 0x08]\<rparr>"
    by (simp add: answer_def new_card_def Let_def)
  then have 1: "talk sim ?f ?c = (clocks 6, ?c\<lparr>rx := 0xff, queue := [0xff, 0, 0xff, 0x08]\<rparr>)"
    using sim_command [OF waits, of "0x51" "rev (le32 (512 * 300))" "0xff"] by (simp del: talk.simps)
  have 2: "talk sim (clocks (Suc 1)) (?c\<lparr>rx := 0xff, queue := [0xff, 0, 0xff, 0x08]\<rparr>) = (clocks 1 @ [0], ?q)"
    by (simp add: sim_put_def new_card_def)
  have accepted: "talk sim (?f @ clocks (Suc 1)) ?c = (clocks 6 @ clocks 1 @ [0], ?q)"
    unfolding talk_append [of _ ?f] 1 fst_conv snd_conv 2 ..
  have token: "talk sim (clocks (Suc 1)) ?q = (clocks 1 @ [0x08], ?c\<lparr>rx := 0x08\<rparr>)"
    by (simp add: sim_put_def new_card_def)
  have here: "\<not> bit (ctrl_get sim ?c) 0" by (simp add: sim_def new_card_def)
  have n: "1 < (4 :: nat)" "length (clocks 6) = 6" by simp_all
  have "1 < (20 :: nat) \<and> (8 :: u8) \<noteq> 0xff \<and> (8 :: u8) \<noteq> 0xfe \<and>
      talk sim (clocks (Suc 1)) ?q = (clocks 1 @ [8], ?c\<lparr>rx := 0x08\<rparr>)"
    using token by (simp del: talk.simps replicate.simps)
  from read_block_no_data [OF here n accepted, of "[1, 2]", THEN conjunct1, THEN spec, THEN spec, THEN spec, THEN mp, OF this]
  have "op_read (spi_ops sim) 300 [1, 2] ?c = Some (if bit (8 :: u8) 3 then CARD_ERROR_OUT_OF_RANGE else if bit (8 :: u8) 4
      then CARD_ERROR_LOCKED else CARD_ERROR_BLOCK_CMD_FAILED, [1, 2], ?c\<lparr>rx := 0x08\<rparr>)" .
  then show ?thesis by simp
qed

text \<open>
  C29: Initialisation of a card that answers the reset and, after any number of rounds of \<open>CMD55\<close> and \<open>CMD41\<close>,
  reports to be ready, returns \<open>CARD_SUCCESS\<close> with the card switched on.
\<close>

theorem card_init_succeeds:
  assumes "\<not> bit (ctrl_get P p) 0" and "resets P p q" and "boots P (spi_put P 0xff q) q'"
  shows "op_init (spi_ops P) p = Some (0, q')"
  using card_init_reset [of P "\<lparr>bus = p, block_buf = []\<rparr>" q] ready_loop_run [OF assms(3)] assms(1,2)
  by (simp add: spi_ops_def call_driver_def)

theorem card_init_succeeds_witness: "op_init (spi_ops sim) (new_card (\<lambda>_. []) 300) = Some (0, (new_card (\<lambda>_. []) 300)\<lparr>rx := 0xff, boot := 0\<rparr>)"
  by (rule card_init_succeeds [OF _ new_card_resets]) (use new_card_boots in \<open>simp_all add: sim_def new_card_def sim_put_def\<close>)

text \<open>
  C30: If the card is gone after its answer to the reset, so that every byte received is \<open>0xff\<close>, \<open>card_init\<close> never
  returns: the waits for the answers to \<open>CMD55\<close> and \<open>CMD41\<close> have no time limit.
\<close>

theorem card_init_hangs:
  assumes "\<not> bit (ctrl_get P p) 0" and "resets P p q" and "silent P I" and "I (spi_put P 0xff q)"
  shows "op_init (spi_ops P) p = None"
  using card_init_reset [of P "\<lparr>bus = p, block_buf = []\<rparr>" q] ready_loop_silent [OF assms(3)] assms(1,2,4)
  by (simp add: spi_ops_def call_driver_def)

theorem card_init_hangs_witness: "op_init (spi_ops pulled) 0 = None"
  by (rule card_init_hangs [OF _ pulled_resets, of "\<lambda>n. 17 < n"]) (simp_all add: pulled_def silent_def)


end
