(* ===== verification/FatTypes.thy ===== *)
theory FatTypes
  imports Card
begin

section \<open>The file system's data (include/libsys/fat/fat.h, lib/fat/private.h)\<close>

text \<open>
  The C structures as records, field by field, the layout of the packed ones in a block, and
  the state of the file system: the block cache, the mounted volume's \<open>FatInfo\<close>, the table of
  sixteen file descriptors, \<open>last_error\<close> and the card device. A pointer into
  \<open>fat_private_file_desc\<close> is the index it points to; an access past the table's end is the
  fault \<open>Bad_index\<close>.
\<close>

subsection \<open>Constants\<close>

abbreviation FAT_BAD_DESC :: u8 where "FAT_BAD_DESC \<equiv> 0xFF"
abbreviation FAT_ERROR_OK :: u8 where "FAT_ERROR_OK \<equiv> 0"
abbreviation FAT_ERROR_NO_CARD :: u8 where "FAT_ERROR_NO_CARD \<equiv> 1"
abbreviation FAT_ERROR_UNSUPPORTED_FAT_TYPE :: u8 where "FAT_ERROR_UNSUPPORTED_FAT_TYPE \<equiv> 2"
abbreviation FAT_ERROR_UNSUPPORTED_SECTOR_SIZE :: u8 where "FAT_ERROR_UNSUPPORTED_SECTOR_SIZE \<equiv> 3"
abbreviation FAT_ERROR_TOO_MANY_FATS :: u8 where "FAT_ERROR_TOO_MANY_FATS \<equiv> 4"
abbreviation FAT_ERROR_TOO_MANY_OPEN_FILES :: u8 where "FAT_ERROR_TOO_MANY_OPEN_FILES \<equiv> 5"
abbreviation FAT_ERROR_NOT_A_DIR :: u8 where "FAT_ERROR_NOT_A_DIR \<equiv> 6"
abbreviation FAT_ERROR_CARD_REINSERTED :: u8 where "FAT_ERROR_CARD_REINSERTED \<equiv> 7"
abbreviation FAT_ERROR_CARD :: u8 where "FAT_ERROR_CARD \<equiv> 8"
abbreviation FAT_ERROR_FS_BROKEN :: u8 where "FAT_ERROR_FS_BROKEN \<equiv> 9"
abbreviation FAT_ERROR_NOT_FOUND :: u8 where "FAT_ERROR_NOT_FOUND \<equiv> 10"
abbreviation FAT_ERROR_BAD_DESCRIPTOR :: u8 where "FAT_ERROR_BAD_DESCRIPTOR \<equiv> 11"
abbreviation FAT_EOF :: u8 where "FAT_EOF \<equiv> 12"
abbreviation FAT_ERROR_RELATIVE_PATH :: u8 where "FAT_ERROR_RELATIVE_PATH \<equiv> 13"
abbreviation FAT_ERROR_IS_DIR :: u8 where "FAT_ERROR_IS_DIR \<equiv> 14"
abbreviation FAT_ERROR_STALE_DESCRIPTOR :: u8 where "FAT_ERROR_STALE_DESCRIPTOR \<equiv> 15"
abbreviation FAT_ERROR_FILE_EXISTS :: u8 where "FAT_ERROR_FILE_EXISTS \<equiv> 16"
abbreviation FAT_ERROR_DIR_FULL :: u8 where "FAT_ERROR_DIR_FULL \<equiv> 17"
abbreviation FAT_EXEC_ERROR_WRONG_EXTENSION :: u8 where "FAT_EXEC_ERROR_WRONG_EXTENSION \<equiv> 64"
abbreviation FAT_EXEC_ERROR_FILE_TOO_LARGE :: u8 where "FAT_EXEC_ERROR_FILE_TOO_LARGE \<equiv> 65"
abbreviation O_CREAT :: u8 where "O_CREAT \<equiv> 1"
abbreviation O_EXCL :: u8 where "O_EXCL \<equiv> 2"
abbreviation FAT_FILE_ATTR_DIRECTORY :: u8 where "FAT_FILE_ATTR_DIRECTORY \<equiv> 16"
abbreviation FAT_MIN_LAST_CLUSTER :: u16 where "FAT_MIN_LAST_CLUSTER \<equiv> 0xFFF8"
abbreviation MAX_FILE_DESC :: nat where "MAX_FILE_DESC \<equiv> 16"
abbreviation INVALID_BLOCK_ADDR :: u32 where "INVALID_BLOCK_ADDR \<equiv> 0xffffffff"
abbreviation DIR_ENTRY_SIZE :: nat where "DIR_ENTRY_SIZE \<equiv> 32"

subsection \<open>Directory entries\<close>

record FatDirEntry =
  de_filename :: bytes
  de_attrs :: u8
  de_reserved :: u8
  de_create_dsec :: u8
  de_create_time :: u16
  de_create_date :: u16
  de_access_date :: u16
  de_cluster_hi :: u16
  de_modify_time :: u16
  de_modify_date :: u16
  de_cluster_lo :: u16
  de_size :: u32

text \<open>The packed layout: 11 + 3 * 1 + 7 * 2 + 4 = 32 bytes.\<close>

definition decode_entry :: "bytes \<Rightarrow> FatDirEntry" where
  "decode_entry xs = \<lparr>
     de_filename = take 11 xs,
     de_attrs = xs ! 11,
     de_reserved = xs ! 12,
     de_create_dsec = xs ! 13,
     de_create_time = rd16 xs 14,
     de_create_date = rd16 xs 16,
     de_access_date = rd16 xs 18,
     de_cluster_hi = rd16 xs 20,
     de_modify_time = rd16 xs 22,
     de_modify_date = rd16 xs 24,
     de_cluster_lo = rd16 xs 26,
     de_size = rd32 xs 28\<rparr>"

definition encode_entry :: "FatDirEntry \<Rightarrow> bytes" where
  "encode_entry e =
     de_filename e @ [de_attrs e, de_reserved e, de_create_dsec e]
     @ le16 (de_create_time e) @ le16 (de_create_date e) @ le16 (de_access_date e)
     @ le16 (de_cluster_hi e) @ le16 (de_modify_time e) @ le16 (de_modify_date e)
     @ le16 (de_cluster_lo e) @ le32 (de_size e)"

lemma length_encode_entry [simp]:
  "length (de_filename e) = 11 \<Longrightarrow> length (encode_entry e) = DIR_ENTRY_SIZE"
  by (simp add: encode_entry_def)

lemma decode_encode_entry:
  assumes "length (de_filename e) = 11"
  shows "decode_entry (encode_entry e) = e"
proof -
  have n: "(encode_entry e) ! (11 + i) =
      ([de_attrs e, de_reserved e, de_create_dsec e]
     @ le16 (de_create_time e) @ le16 (de_create_date e) @ le16 (de_access_date e)
     @ le16 (de_cluster_hi e) @ le16 (de_modify_time e) @ le16 (de_modify_date e)
     @ le16 (de_cluster_lo e) @ le32 (de_size e)) ! i" for i
    using assms by (simp add: encode_entry_def nth_append)
  have "take 11 (encode_entry e) = de_filename e"
    using assms by (simp add: encode_entry_def)
  then show ?thesis
    using n [of 0] n [of 1] n [of 2] n [of 3] n [of 4] n [of 5] n [of 6] n [of 7] n [of 8]
      n [of 9] n [of 10] n [of 11] n [of 12] n [of 13] n [of 14] n [of 15] n [of 16] n [of 17]
      n [of 18] n [of 19] n [of 20]
    by (simp add: decode_entry_def le16_def le32_def rd16_def rd32_def)
qed

lemma encode_decode_entry:
  assumes "length xs = DIR_ENTRY_SIZE"
  shows "encode_entry (decode_entry xs) = xs"
proof -
  have "encode_entry (decode_entry xs) = slice_at xs 0 11 @ slice_at xs 11 1 @ slice_at xs 12 1
     @ slice_at xs 13 1 @ slice_at xs 14 2 @ slice_at xs 16 2 @ slice_at xs 18 2 @ slice_at xs 20 2
     @ slice_at xs 22 2 @ slice_at xs 24 2 @ slice_at xs 26 2 @ slice_at xs 28 4"
    using assms by (simp add: encode_entry_def decode_entry_def le16_rd16 le32_rd32 slice_1)
      (simp add: slice_at_def)
  also have "\<dots> = xs" using assms by (simp add: slice_joins del: One_nat_def)
  finally show ?thesis .
qed

subsection \<open>The partition table, the boot sector and the mounted volume\<close>

record Partition =
  part_boot :: u8
  part_start_h :: u8
  part_start_s :: u8
  part_start_c :: u8
  part_sys_id :: u8
  part_end_h :: u8
  part_end_s :: u8
  part_end_c :: u8
  part_rel_sector :: u32
  part_n_sectors :: u32

definition decode_partition :: "bytes \<Rightarrow> nat \<Rightarrow> Partition" where
  "decode_partition xs o' = \<lparr>
     part_boot = xs ! o', part_start_h = xs ! (o' + 1), part_start_s = xs ! (o' + 2),
     part_start_c = xs ! (o' + 3), part_sys_id = xs ! (o' + 4), part_end_h = xs ! (o' + 5),
     part_end_s = xs ! (o' + 6), part_end_c = xs ! (o' + 7),
     part_rel_sector = rd32 xs (o' + 8), part_n_sectors = rd32 xs (o' + 12)\<rparr>"

record BPB =
  bpb_jump :: bytes
  bpb_oem_id :: bytes
  bpb_bytes_per_sector :: u16
  bpb_sectors_per_cluster :: u8
  bpb_n_reserved_sectors :: u16
  bpb_n_fats :: u8
  bpb_n_dir_entries :: u16
  bpb_total_sectors :: u16
  bpb_media_descriptor_type :: u8
  bpb_sectors_per_fat :: u16
  bpb_sectors_per_track :: u16
  bpb_n_heads :: u16
  bpb_n_hidden_sectors :: u32
  bpb_large_sectors :: u32

definition decode_bpb :: "bytes \<Rightarrow> BPB" where
  "decode_bpb xs = \<lparr>
     bpb_jump = take 3 xs, bpb_oem_id = slice_at xs 3 8,
     bpb_bytes_per_sector = rd16 xs 11, bpb_sectors_per_cluster = xs ! 13,
     bpb_n_reserved_sectors = rd16 xs 14, bpb_n_fats = xs ! 16,
     bpb_n_dir_entries = rd16 xs 17, bpb_total_sectors = rd16 xs 19,
     bpb_media_descriptor_type = xs ! 21, bpb_sectors_per_fat = rd16 xs 22,
     bpb_sectors_per_track = rd16 xs 24, bpb_n_heads = rd16 xs 26,
     bpb_n_hidden_sectors = rd32 xs 28, bpb_large_sectors = rd32 xs 32\<rparr>"

record FatInfo =
  fat0_offset :: u32
  fat1_offset :: u32
  root_dir_block :: u32
  data_offset :: u32
  n_dir_entries :: u16
  n_clusters :: u16
  sectors_per_fat :: u16
  log_sectors_per_cluster :: u8
  sectors_per_cluster :: u8

subsection \<open>File descriptors and the state of the file system\<close>

record FileDescriptor =
  is_free :: bool
  is_stale :: bool
  last_cluster_len :: u16
  block_addr :: u32
  block_in_cluster :: u8
  index_in_block :: u16
  next_cluster :: u16
  cur_cluster :: u16
  dir_entry :: FatDirEntry
  dir_entry_block_addr :: u32
  dir_entry_index_in_block :: u16
  is_root :: bool
  dir_entry_modified :: bool
  abs_offset :: u32

record 'd fs =
  cache_block :: bytes
  cache_block_addr :: u32
  fat_info :: FatInfo
  fat_private_file_desc :: "FileDescriptor list"
  last_error :: u8
  dev :: 'd

definition pfd :: "nat \<Rightarrow> ('d fs, FileDescriptor) cmd" where
  "pfd i = (\<lambda>s. if i < length (fat_private_file_desc s)
                  then Some (Inr (fat_private_file_desc s ! i, s)) else Some (Inl Bad_index))"

definition upd_pfd :: "nat \<Rightarrow> (FileDescriptor \<Rightarrow> FileDescriptor) \<Rightarrow> ('d fs, unit) cmd" where
  "upd_pfd i f = (\<lambda>s. if i < length (fat_private_file_desc s)
      then Some (Inr ((), s\<lparr>fat_private_file_desc :=
             (fat_private_file_desc s)[i := f (fat_private_file_desc s ! i)]\<rparr>))
      else Some (Inl Bad_index))"

definition set_last_error :: "u8 \<Rightarrow> ('d fs, unit) cmd" where
  "set_last_error e = modify (\<lambda>s. s\<lparr>last_error := e\<rparr>)"

lemma wp_pfd [wp_simps]:
  "wp (pfd i) Q s \<longleftrightarrow> i < length (fat_private_file_desc s) \<and> Q (fat_private_file_desc s ! i) s"
  by (simp add: wp_def pfd_def)

lemma wlp_pfd [wp_simps]:
  "wlp (pfd i) Q s \<longleftrightarrow> i < length (fat_private_file_desc s) \<and> Q (fat_private_file_desc s ! i) s"
  by (simp add: wlp_def pfd_def)

lemma wp_upd_pfd [wp_simps]:
  "wp (upd_pfd i f) Q s \<longleftrightarrow> i < length (fat_private_file_desc s) \<and>
     Q () (s\<lparr>fat_private_file_desc := (fat_private_file_desc s)[i := f (fat_private_file_desc s ! i)]\<rparr>)"
  by (simp add: wp_def upd_pfd_def)

lemma wlp_upd_pfd [wp_simps]:
  "wlp (upd_pfd i f) Q s \<longleftrightarrow> i < length (fat_private_file_desc s) \<and>
     Q () (s\<lparr>fat_private_file_desc := (fat_private_file_desc s)[i := f (fat_private_file_desc s ! i)]\<rparr>)"
  by (simp add: wlp_def upd_pfd_def)

lemma wp_set_last_error [wp_simps]: "wp (set_last_error e) Q s = Q () (s\<lparr>last_error := e\<rparr>)"
  by (simp add: set_last_error_def wp_simps)

lemma wlp_set_last_error [wp_simps]: "wlp (set_last_error e) Q s = Q () (s\<lparr>last_error := e\<rparr>)"
  by (simp add: set_last_error_def wp_simps)

text \<open>The sizes of the two arrays, which no operation may change.\<close>

definition wf_fs :: "'d fs \<Rightarrow> bool" where
  "wf_fs s \<longleftrightarrow> length (cache_block s) = CARD_BLOCK_SIZE \<and>
     length (fat_private_file_desc s) = MAX_FILE_DESC"

subsection \<open>The properties\<close>

text \<open>
  A directory entry survives the way to the card and back: the 32 packed bytes of an entry
  decode to it, and every 32 bytes read as an entry encode to themselves.
\<close>

theorem dir_entry_roundtrip:
  assumes "length (de_filename e) = 11" and "length xs = DIR_ENTRY_SIZE"
  shows "length (encode_entry e) = DIR_ENTRY_SIZE \<and> decode_entry (encode_entry e) = e \<and>
    encode_entry (decode_entry xs) = xs"
  using assms by (simp add: decode_encode_entry encode_decode_entry)

theorem dir_entry_roundtrip_witness:
  "encode_entry (decode_entry (map of_nat [3..<35])) = map of_nat [3..<35] \<and>
   decode_entry (encode_entry (decode_entry (replicate 32 0xe5))) = decode_entry (replicate 32 0xe5)"
  using dir_entry_roundtrip [of "decode_entry (replicate 32 0xe5)" "map of_nat [3..<35]"]
  by (simp add: decode_entry_def)

end
