(* ===== verification/FatCache.thy ===== *)
theory FatCache
  imports FatTypes
begin

section \<open>The block cache (lib/fat/fat.c)\<close>

text \<open>
  One block of the card is held in \<open>cache_block\<close>, tagged by \<open>cache_block_addr\<close>. \<open>cache\<close> loads a
  block unless it is the one held, \<open>flush_cache\<close> writes the held block back, and
  \<open>set_fat_error\<close> turns a driver code into \<open>last_error\<close>. \<open>coherent\<close> is the cache's invariant: a
  valid tag names the block whose contents the buffer holds.
\<close>

definition card_init :: "'d card_ops \<Rightarrow> ('d fs, u8) cmd" where
  "card_init C = (\<lambda>s. map_option (\<lambda>(r, d). Inr (r, s\<lparr>dev := d\<rparr>)) (op_init C (dev s)))"

definition card_read_block :: "'d card_ops \<Rightarrow> u32 \<Rightarrow> ('d fs, u8) cmd" where
  "card_read_block C b = (\<lambda>s. map_option (\<lambda>(r, buf, d). Inr (r, s\<lparr>cache_block := buf, dev := d\<rparr>))
     (op_read C b (cache_block s) (dev s)))"

definition card_write_block :: "'d card_ops \<Rightarrow> u32 \<Rightarrow> ('d fs, u8) cmd" where
  "card_write_block C b = (\<lambda>s. map_option (\<lambda>(r, d). Inr (r, s\<lparr>dev := d\<rparr>))
     (op_write C b (cache_block s) (dev s)))"

definition CARD_POWER_OFF :: "'d card_ops \<Rightarrow> ('d fs, unit) cmd" where
  "CARD_POWER_OFF C = modify (\<lambda>s. s\<lparr>dev := op_power_off C (dev s)\<rparr>)"

definition set_fat_error :: "'d card_ops \<Rightarrow> u8 \<Rightarrow> ('d fs, unit) cmd" where
  "set_fat_error C card_error =
     (if card_error = CARD_ERROR_NO_CARD then
        andthen (set_last_error FAT_ERROR_NO_CARD) (CARD_POWER_OFF C)
      else if card_error = CARD_ERROR_NOT_INITIALIZED then
        andthen (set_last_error FAT_ERROR_CARD_REINSERTED) (CARD_POWER_OFF C)
      else if card_error = CARD_ERROR_OUT_OF_RANGE then
        set_last_error FAT_ERROR_FS_BROKEN
      else
        andthen (set_last_error FAT_ERROR_CARD) (CARD_POWER_OFF C))"

definition cache :: "'d card_ops \<Rightarrow> u32 \<Rightarrow> ('d fs, bool) cmd" where
  "cache C b =
     bnd (gets cache_block_addr) (\<lambda>tag.
     if tag = b then ret True
     else andthen (modify (\<lambda>s. s\<lparr>cache_block_addr := b\<rparr>))
       (bnd (card_read_block C b) (\<lambda>r.
        if r \<noteq> 0 then
          andthen (modify (\<lambda>s. s\<lparr>cache_block_addr := INVALID_BLOCK_ADDR\<rparr>))
            (andthen (set_fat_error C r) (ret False))
        else ret True)))"

definition flush_cache :: "'d card_ops \<Rightarrow> ('d fs, bool) cmd" where
  "flush_cache C =
     bnd (gets cache_block_addr) (\<lambda>tag.
     if tag \<noteq> INVALID_BLOCK_ADDR then
       bnd (card_write_block C tag) (\<lambda>r.
       if r \<noteq> 0 then andthen (set_fat_error C r) (ret False)
       else ret True)
     else ret True)"

text \<open>
  Accesses to the cached block, as an array of 16-bit words or of bytes; one past its end is the
  fault \<open>Overrun\<close>.
\<close>

definition poke16 :: "nat \<Rightarrow> u16 \<Rightarrow> ('d fs, unit) cmd" where
  "poke16 i v = (\<lambda>s. if 2 * i + 1 < length (cache_block s)
      then Some (Inr ((), s\<lparr>cache_block := wr16 (cache_block s) (2 * i) v\<rparr>)) else Some (Inl Overrun))"

definition peek16 :: "nat \<Rightarrow> ('d fs, u16) cmd" where
  "peek16 i = (\<lambda>s. if 2 * i + 1 < length (cache_block s)
      then Some (Inr (rd16 (cache_block s) (2 * i), s)) else Some (Inl Overrun))"

definition peek_bytes :: "nat \<Rightarrow> nat \<Rightarrow> ('d fs, bytes) cmd" where
  "peek_bytes i n = (\<lambda>s. if i + n \<le> length (cache_block s)
      then Some (Inr (slice_at (cache_block s) i n, s)) else Some (Inl Overrun))"

definition poke_bytes :: "nat \<Rightarrow> bytes \<Rightarrow> ('d fs, unit) cmd" where
  "poke_bytes i xs = (\<lambda>s. if i + length xs \<le> length (cache_block s)
      then Some (Inr ((), s\<lparr>cache_block := splice_at (cache_block s) i xs\<rparr>))
      else Some (Inl Overrun))"

subsection \<open>Weakest preconditions of the primitives\<close>

lemma wlp_card_read_block [wp_simps]:
  "wlp (card_read_block C b) Q s \<longleftrightarrow>
     (\<forall>r buf d. op_read C b (cache_block s) (dev s) = Some (r, buf, d) \<longrightarrow>
        Q r (s\<lparr>cache_block := buf, dev := d\<rparr>))"
  by (auto simp: wlp_def card_read_block_def split: option.splits)

lemma wlp_card_write_block [wp_simps]:
  "wlp (card_write_block C b) Q s \<longleftrightarrow>
     (\<forall>r d. op_write C b (cache_block s) (dev s) = Some (r, d) \<longrightarrow> Q r (s\<lparr>dev := d\<rparr>))"
  by (auto simp: wlp_def card_write_block_def split: option.splits)

lemma wlp_card_init [wp_simps]:
  "wlp (card_init C) Q s \<longleftrightarrow> (\<forall>r d. op_init C (dev s) = Some (r, d) \<longrightarrow> Q r (s\<lparr>dev := d\<rparr>))"
  by (auto simp: wlp_def card_init_def split: option.splits)

lemma wp_card_read_block [wp_simps]:
  "wp (card_read_block C b) Q s \<longleftrightarrow>
     (\<exists>r buf d. op_read C b (cache_block s) (dev s) = Some (r, buf, d) \<and>
        Q r (s\<lparr>cache_block := buf, dev := d\<rparr>))"
  by (auto simp: wp_def card_read_block_def split: option.splits)

lemma wp_card_write_block [wp_simps]:
  "wp (card_write_block C b) Q s \<longleftrightarrow>
     (\<exists>r d. op_write C b (cache_block s) (dev s) = Some (r, d) \<and> Q r (s\<lparr>dev := d\<rparr>))"
  by (auto simp: wp_def card_write_block_def split: option.splits)

lemma wlp_power_off [wp_simps]: "wlp (CARD_POWER_OFF C) Q s = Q () (s\<lparr>dev := op_power_off C (dev s)\<rparr>)"
  by (simp add: CARD_POWER_OFF_def wp_simps)

lemma wp_power_off [wp_simps]: "wp (CARD_POWER_OFF C) Q s = Q () (s\<lparr>dev := op_power_off C (dev s)\<rparr>)"
  by (simp add: CARD_POWER_OFF_def wp_simps)

lemma wlp_poke16 [wp_simps]: "wlp (poke16 i v) Q s \<longleftrightarrow>
    2 * i + 1 < length (cache_block s) \<and> Q () (s\<lparr>cache_block := wr16 (cache_block s) (2 * i) v\<rparr>)"
  by (simp add: wlp_def poke16_def)

lemma wlp_peek16 [wp_simps]: "wlp (peek16 i) Q s \<longleftrightarrow>
    2 * i + 1 < length (cache_block s) \<and> Q (rd16 (cache_block s) (2 * i)) s"
  by (simp add: wlp_def peek16_def)

lemma wlp_peek_bytes [wp_simps]: "wlp (peek_bytes i n) Q s \<longleftrightarrow>
    i + n \<le> length (cache_block s) \<and> Q (slice_at (cache_block s) i n) s"
  by (simp add: wlp_def peek_bytes_def)

lemma wp_peek_bytes [wp_simps]: "wp (peek_bytes i n) Q s \<longleftrightarrow>
    i + n \<le> length (cache_block s) \<and> Q (slice_at (cache_block s) i n) s"
  by (simp add: wp_def peek_bytes_def)

lemma wlp_poke_bytes [wp_simps]: "wlp (poke_bytes i xs) Q s \<longleftrightarrow>
    i + length xs \<le> length (cache_block s) \<and>
    Q () (s\<lparr>cache_block := splice_at (cache_block s) i xs\<rparr>)"
  by (simp add: wlp_def poke_bytes_def)

lemma wp_poke_bytes [wp_simps]: "wp (poke_bytes i xs) Q s \<longleftrightarrow>
    i + length xs \<le> length (cache_block s) \<and>
    Q () (s\<lparr>cache_block := splice_at (cache_block s) i xs\<rparr>)"
  by (simp add: wp_def poke_bytes_def)

subsection \<open>Invariants of the disk layer\<close>

text \<open>
  Everything below the file descriptors works through the primitives above. An invariant that
  the primitives keep is kept by every function built from them, and none of those functions
  accesses memory out of bounds under it.
\<close>

locale disk_invariant =
  fixes C :: "'d card_ops" and I :: "'d fs \<Rightarrow> bool"
  assumes I_size: "I s \<Longrightarrow> length (cache_block s) = CARD_BLOCK_SIZE"
    and I_read: "I s \<Longrightarrow> op_read C b (cache_block s) (dev s) = Some (r, buf, d) \<Longrightarrow>
      I (s\<lparr>cache_block := buf, dev := d\<rparr>)"
    and I_dev: "I s \<Longrightarrow> I (s\<lparr>dev := d\<rparr>)"
    and I_tag: "I s \<Longrightarrow> I (s\<lparr>cache_block_addr := b\<rparr>)"
    and I_error: "I s \<Longrightarrow> I (s\<lparr>last_error := e\<rparr>)"
    and I_buffer: "I s \<Longrightarrow> length buf = CARD_BLOCK_SIZE \<Longrightarrow> I (s\<lparr>cache_block := buf\<rparr>)"
begin

lemmas I_rules = I_size I_read I_dev I_tag I_error I_buffer

lemma keeps_set_fat_error: "I s \<Longrightarrow> wlp (set_fat_error C r) (\<lambda>_. I) s"
  by (simp add: set_fat_error_def wp_simps I_rules)

lemma I_read_tag: "I s \<Longrightarrow> op_read C b (cache_block s) (dev s) = Some (r, buf, d) \<Longrightarrow>
    I (s\<lparr>cache_block_addr := a, cache_block := buf, dev := d\<rparr>)"
  using I_read [OF I_tag, of s b a r buf d] by simp

lemma keeps_cache: "I s \<Longrightarrow> wlp (cache C b) (\<lambda>_. I) s"
  by (auto simp: cache_def wp_simps I_read_tag dest: I_read
      intro!: wlp_mono [OF keeps_set_fat_error] I_tag)

lemma keeps_flush_cache: "I s \<Longrightarrow> wlp (flush_cache C) (\<lambda>_. I) s"
  by (auto simp: flush_cache_def wp_simps intro!: wlp_mono [OF keeps_set_fat_error] I_dev)

end

text \<open>
  Two invariants: the sizes of the arrays, and (with the sizes) that the descriptor table and
  the mounted volume are untouched.
\<close>

definition layer_frame :: "FileDescriptor list \<Rightarrow> FatInfo \<Rightarrow> 'd fs \<Rightarrow> bool" where
  "layer_frame ds fi s \<longleftrightarrow> length (cache_block s) = CARD_BLOCK_SIZE \<and>
     fat_private_file_desc s = ds \<and> fat_info s = fi"

sublocale sized_card \<subseteq> sizes: disk_invariant C wf_fs
  by unfold_locales (auto simp: wf_fs_def dest: read_len)

sublocale sized_card \<subseteq> frame: disk_invariant C "layer_frame ds fi" for ds fi
  by unfold_locales (auto simp: layer_frame_def dest: read_len)

subsection \<open>Coherence of the cache\<close>

definition coherent :: "('d \<Rightarrow> u32 \<Rightarrow> bytes) \<Rightarrow> 'd fs \<Rightarrow> bool" where
  "coherent blocks s \<longleftrightarrow> (cache_block_addr s \<noteq> INVALID_BLOCK_ADDR \<longrightarrow>
     cache_block s = blocks (dev s) (cache_block_addr s))"

definition good :: "('d \<Rightarrow> u32 \<Rightarrow> bytes) \<Rightarrow> 'd fs \<Rightarrow> bool" where
  "good blocks s \<longleftrightarrow> wf_fs s \<and> coherent blocks s"

text \<open>
  \<open>at_disk blocks ready s B t\<close>: the state \<open>t\<close> differs from \<open>s\<close> in the cache and the device only,
  and its card holds the blocks \<open>B\<close>.
\<close>

definition at_disk :: "('d \<Rightarrow> u32 \<Rightarrow> bytes) \<Rightarrow> ('d \<Rightarrow> u32 \<Rightarrow> bool) \<Rightarrow> 'd fs \<Rightarrow> (u32 \<Rightarrow> bytes) \<Rightarrow>
    'd fs \<Rightarrow> bool" where
  "at_disk blocks ready s B t \<longleftrightarrow> good blocks t \<and>
     fat_private_file_desc t = fat_private_file_desc s \<and> fat_info t = fat_info s \<and>
     last_error t = last_error s \<and> blocks (dev t) = B \<and> ready (dev t) = ready (dev s)"

lemma at_disk_refl: "good blocks s \<Longrightarrow> at_disk blocks ready s (blocks (dev s)) s"
  by (simp add: at_disk_def)

lemma at_disk_trans:
  "at_disk blocks ready s B t \<Longrightarrow> at_disk blocks ready t B' u \<Longrightarrow> at_disk blocks ready s B' u"
  by (simp add: at_disk_def)

lemma at_disk_good: "at_disk blocks ready s B t \<Longrightarrow> good blocks t"
  by (simp add: at_disk_def)

lemma at_disk_simps:
  assumes "at_disk blocks ready s B t"
  shows "fat_private_file_desc t = fat_private_file_desc s" and "fat_info t = fat_info s"
    and "last_error t = last_error s" and "blocks (dev t) = B" and "ready (dev t) = ready (dev s)"
  using assms by (simp_all add: at_disk_def)

context live_device
begin

lemma cache_wp:
  assumes "good blocks s" and "ready (dev s) b"
  shows "wp (cache C b) (\<lambda>ok t. ok \<and> at_disk blocks ready s (blocks (dev s)) t \<and>
     cache_block_addr t = b \<and> cache_block t = blocks (dev s) b) s"
proof -
  obtain d where d: "op_read C b (cache_block s) (dev s) = Some (0, blocks (dev s) b, d)"
    "blocks d = blocks (dev s)" "ready d = ready (dev s)"
    using ready_read [OF assms(2)] assms(1) by (auto simp: good_def wf_fs_def)
  with block_len [OF assms(2)] show ?thesis
    using assms not_the_mark by (auto simp: cache_def wp_simps at_disk_def good_def coherent_def wf_fs_def)
qed

lemma flush_cache_wp:
  assumes "wf_fs s" and "ready (dev s) (cache_block_addr s)"
  shows "wp (flush_cache C) (\<lambda>ok t. ok \<and>
     at_disk blocks ready s ((blocks (dev s))(cache_block_addr s := cache_block s)) t \<and>
     cache_block_addr t = cache_block_addr s \<and> cache_block t = cache_block s) s"
proof -
  obtain d where d: "op_write C (cache_block_addr s) (cache_block s) (dev s) = Some (0, d)"
    "blocks d = (blocks (dev s))(cache_block_addr s := cache_block s)" "ready d = ready (dev s)"
    using ready_write [OF assms(2)] assms(1) by (auto simp: wf_fs_def)
  have "cache_block_addr s \<noteq> INVALID_BLOCK_ADDR"
    using assms(2) not_the_mark by auto
  with d show ?thesis
    using assms by (auto simp: flush_cache_def wp_simps at_disk_def good_def coherent_def wf_fs_def)
qed

lemma cache_run:
  assumes "good blocks s" and "ready (dev s) b"
  obtains t where "cache C b s = Some (Inr (True, t))" "at_disk blocks ready s (blocks (dev s)) t"
    "cache_block_addr t = b" "cache_block t = blocks (dev s) b"
  using wp_True [OF cache_wp [OF assms]] by blast

text \<open>A block is changed in the buffer and written to the address in the tag.\<close>

lemma store_run:
  assumes "good blocks s" and "ready (dev s) b" and "length Y = CARD_BLOCK_SIZE"
  obtains t where
    "flush_cache C (s\<lparr>cache_block := Y, cache_block_addr := b\<rparr>) = Some (Inr (True, t))"
    "at_disk blocks ready s ((blocks (dev s))(b := Y)) t"
    "cache_block_addr t = b" "cache_block t = Y"
proof -
  let ?u = "s\<lparr>cache_block := Y, cache_block_addr := b\<rparr>"
  have "wf_fs ?u" and "ready (dev ?u) (cache_block_addr ?u)"
    using assms by (simp_all add: good_def wf_fs_def)
  from wp_True [OF flush_cache_wp [OF this]]
  obtain t where t: "flush_cache C ?u = Some (Inr (True, t))"
    "at_disk blocks ready ?u ((blocks (dev s))(b := Y)) t" "cache_block_addr t = b" "cache_block t = Y"
    by fastforce
  from t(2) have "at_disk blocks ready s ((blocks (dev s))(b := Y)) t"
    unfolding at_disk_def by simp
  with t that show ?thesis by blast
qed

lemma store_here_run:
  assumes "good blocks s" and "ready (dev s) (cache_block_addr s)" and "length Y = CARD_BLOCK_SIZE"
  obtains t where
    "flush_cache C (s\<lparr>cache_block := Y\<rparr>) = Some (Inr (True, t))"
    "at_disk blocks ready s ((blocks (dev s))(cache_block_addr s := Y)) t"
    "cache_block_addr t = cache_block_addr s" "cache_block t = Y"
proof -
  have "s\<lparr>cache_block := Y, cache_block_addr := cache_block_addr s\<rparr> = s\<lparr>cache_block := Y\<rparr>"
    by simp
  with store_run [OF assms] that show ?thesis by metis
qed

end

subsection \<open>A small volume\<close>

text \<open>
  A card of 300 blocks for the examples: the copies of the FAT in blocks 1 and 2, a root
  directory of one block in block 3 with one entry, the data from block 4 on, clusters of one
  block. The file \<open>A.TXT\<close> has 600 bytes in the clusters 2 and 3; the clusters from 4 on are free.
\<close>

definition small_info :: FatInfo where
  "small_info = \<lparr>fat0_offset = 1, fat1_offset = 2, root_dir_block = 3, data_offset = 4,
     n_dir_entries = 16, n_clusters = 200, sectors_per_fat = 1, log_sectors_per_cluster = 0,
     sectors_per_cluster = 1\<rparr>"

definition small_entry :: FatDirEntry where
  "small_entry = \<lparr>de_filename = [0x41] @ replicate 7 0x20 @ [0x54, 0x58, 0x54], de_attrs = 0,
     de_reserved = 0, de_create_dsec = 0, de_create_time = 0, de_create_date = 0,
     de_access_date = 0, de_cluster_hi = 0, de_modify_time = 0, de_modify_date = 0,
     de_cluster_lo = 2, de_size = 600\<rparr>"

definition small_fat :: bytes where
  "small_fat = [0xf8, 0xff, 0xff, 0xff, 0x03, 0x00, 0xff, 0xff] @ replicate 504 0"

definition small_card :: sd_card where
  "small_card = \<lparr>present = True, initialised = True, n_blocks = 300, contents = (\<lambda>b.
     if b = 1 \<or> b = 2 then small_fat
     else if b = 3 then encode_entry small_entry @ replicate 480 0
     else if b = 4 then replicate 512 0x61 else if b = 5 then replicate 512 0x62 else [])\<rparr>"

definition free_desc :: FileDescriptor where
  "free_desc = \<lparr>is_free = True, is_stale = False, last_cluster_len = 0, block_addr = 0,
     block_in_cluster = 0, index_in_block = 0, next_cluster = 0, cur_cluster = 0,
     dir_entry = small_entry, dir_entry_block_addr = 3, dir_entry_index_in_block = 0,
     is_root = False, dir_entry_modified = False, abs_offset = 0\<rparr>"

definition small_fs :: "sd_card fs" where
  "small_fs = \<lparr>cache_block = replicate 512 0, cache_block_addr = INVALID_BLOCK_ADDR,
     fat_info = small_info, fat_private_file_desc = replicate 16 free_desc, last_error = 0,
     dev = small_card\<rparr>"

lemma small_fs_good: "good sd_block small_fs"
  by (simp add: good_def wf_fs_def coherent_def small_fs_def)

lemma small_ready: "sd_ready small_card b \<longleftrightarrow> b < 300"
  by (simp add: sd_ready_def small_card_def)

lemma small_fs_simps:
  "fat_info small_fs = small_info" "dev small_fs = small_card" "last_error small_fs = 0"
  by (simp_all add: small_fs_def)

subsection \<open>Requests for blocks\<close>

text \<open>
  How the rest of the file system uses the cache: a block is fetched and looked at, or fetched,
  changed in the buffer and flushed. The answer is the bytes looked at, or the empty list for a
  change, or \<open>None\<close> for a request that failed. \<open>serve\<close> goes through the cache, \<open>direct\<close> works on the
  blocks themselves, of which those in \<open>A\<close> exist.
\<close>

datatype request = Fetch (block: u32) | Change (block: u32) (place: nat) (bytes_put: bytes)

fun request_fits :: "request \<Rightarrow> bool" where
  "request_fits (Fetch b) = True"
| "request_fits (Change b i xs) = (i + length xs \<le> CARD_BLOCK_SIZE)"

definition serve1 :: "'d card_ops \<Rightarrow> request \<Rightarrow> ('d fs, bytes option) cmd" where
  "serve1 C r =
     or_return (cache C (block r)) None
     (case r of
        Fetch b \<Rightarrow> bnd (peek_bytes 0 CARD_BLOCK_SIZE) (\<lambda>xs. ret (Some xs))
      | Change b i xs \<Rightarrow> andthen (poke_bytes i xs) (or_return (flush_cache C) None (ret (Some []))))"

fun serve :: "'d card_ops \<Rightarrow> request list \<Rightarrow> ('d fs, bytes option list) cmd" where
  "serve C [] = ret []"
| "serve C (r # rs) = bnd (serve1 C r) (\<lambda>a. bnd (serve C rs) (\<lambda>as. ret (a # as)))"

fun direct1 :: "request \<Rightarrow> (u32 \<Rightarrow> bytes) \<Rightarrow> bytes \<times> (u32 \<Rightarrow> bytes)" where
  "direct1 (Fetch b) B = (B b, B)"
| "direct1 (Change b i xs) B = ([], B(b := splice_at (B b) i xs))"

fun direct :: "(u32 \<Rightarrow> bool) \<Rightarrow> request list \<Rightarrow> (u32 \<Rightarrow> bytes) \<Rightarrow> bytes option list \<times> (u32 \<Rightarrow> bytes)" where
  "direct A [] B = ([], B)"
| "direct A (r # rs) B =
     (if A (block r) then
        (let (x, B') = direct1 r B; (as, B'') = direct A rs B' in (Some x # as, B''))
      else (let (as, B') = direct A rs B in (None # as, B')))"

text \<open>What requests leave alone.\<close>

definition same_volume :: "'d fs \<Rightarrow> 'd fs \<Rightarrow> bool" where
  "same_volume s t \<longleftrightarrow> fat_private_file_desc t = fat_private_file_desc s \<and> fat_info t = fat_info s"

context bounded_device
begin

text \<open>The requests after one that has left the state \<open>t\<close>.\<close>

definition served :: "'d fs \<Rightarrow> (u32 \<Rightarrow> bytes) \<Rightarrow> 'd fs \<Rightarrow> bool" where
  "served s B t \<longleftrightarrow> good blocks t \<and> same_volume s t \<and> blocks (dev t) = B \<and>
     ready (dev t) = ready (dev s) \<and> beyond (dev t) = beyond (dev s)"

lemma served_trans: "served s B t \<Longrightarrow> served t B' u \<Longrightarrow> served s B' u"
  by (simp add: served_def same_volume_def)

lemma cache_served:
  assumes g: "good blocks s" and r: "ready (dev s) b"
  obtains t where "cache C b s = Some (Inr (True, t))" "served s (blocks (dev s)) t"
    "cache_block_addr t = b" "cache_block t = blocks (dev s) b" "last_error t = last_error s"
proof -
  have len: "length (cache_block s) = CARD_BLOCK_SIZE" using g by (simp add: good_def wf_fs_def)
  obtain t where t: "cache C b s = Some (Inr (True, t))" "at_disk blocks ready s (blocks (dev s)) t"
    "cache_block_addr t = b" "cache_block t = blocks (dev s) b"
    using cache_run [OF g r] .
  have "beyond (dev t) = beyond (dev s)"
  proof (cases "cache_block_addr s = b")
    case True
    then show ?thesis using t(1) by (auto simp: cache_def)
  next
    case False
    obtain d where d: "op_read C b (cache_block s) (dev s) = Some (0, blocks (dev s) b, d)"
      using ready_read [OF r len] by blast
    then have "dev t = d" using t(1) False by (auto simp: cache_def card_read_block_def bnd_def)
    then show ?thesis using read_beyond [OF r len d] by simp
  qed
  with t show thesis by (intro that [of t]) (simp_all add: served_def at_disk_def same_volume_def)
qed

lemma store_served:
  assumes g: "good blocks s" and r: "ready (dev s) (cache_block_addr s)" and Y: "length Y = CARD_BLOCK_SIZE"
  obtains t where "flush_cache C (s\<lparr>cache_block := Y\<rparr>) = Some (Inr (True, t))"
    "served s ((blocks (dev s))(cache_block_addr s := Y)) t"
    "cache_block_addr t = cache_block_addr s" "last_error t = last_error s"
proof -
  obtain t where t: "flush_cache C (s\<lparr>cache_block := Y\<rparr>) = Some (Inr (True, t))"
    "at_disk blocks ready s ((blocks (dev s))(cache_block_addr s := Y)) t" "cache_block_addr t = cache_block_addr s"
    using store_here_run [OF g r Y] by metis
  obtain d where d: "op_write C (cache_block_addr s) Y (dev s) = Some (0, d)" using ready_write [OF r Y] by blast
  have "cache_block_addr s \<noteq> INVALID_BLOCK_ADDR" using r not_the_mark by auto
  then have "dev t = d" using t(1) d by (auto simp: flush_cache_def card_write_block_def bnd_def)
  then have "beyond (dev t) = beyond (dev s)" using write_beyond [OF r Y d] by simp
  with t show thesis by (intro that [of t]) (simp_all add: served_def at_disk_def same_volume_def)
qed

lemma serve1_ready:
  assumes g: "good blocks s" and r: "ready (dev s) (block q)" and fits: "request_fits q"
  shows "\<exists>t. serve1 C q s = Some (Inr (Some (fst (direct1 q (blocks (dev s)))), t)) \<and>
    served s (snd (direct1 q (blocks (dev s)))) t \<and> cache_block_addr t = block q \<and> last_error t = last_error s"
proof -
  obtain t where t: "cache C (block q) s = Some (Inr (True, t))" "served s (blocks (dev s)) t"
    "cache_block_addr t = block q" "cache_block t = blocks (dev s) (block q)" "last_error t = last_error s"
    using cache_served [OF g r] .
  have g': "good blocks t" and B: "blocks (dev t) = blocks (dev s)" and r': "ready (dev t) (cache_block_addr t)"
    using t r by (simp_all add: served_def)
  have len: "length (cache_block t) = CARD_BLOCK_SIZE" using g' by (simp add: good_def wf_fs_def)
  show ?thesis
  proof (cases q)
    case (Fetch b)
    then show ?thesis using t len by (simp add: serve1_def peek_bytes_def slice_at_def bnd_def)
  next
    case (Change b i xs)
    let ?Y = "splice_at (cache_block t) i xs"
    have Y: "length ?Y = CARD_BLOCK_SIZE" using fits Change len by simp
    obtain u where u: "flush_cache C (t\<lparr>cache_block := ?Y\<rparr>) = Some (Inr (True, u))"
      "served t ((blocks (dev t))(cache_block_addr t := ?Y)) u" "cache_block_addr u = cache_block_addr t"
      "last_error u = last_error t"
      using store_served [OF g' r' Y] .
    then show ?thesis
      using t(1,3-5) served_trans [OF t(2) u(2)] Change fits len B
      by (intro exI [of _ u]) (simp add: serve1_def poke_bytes_def bnd_def)
  qed
qed

lemma serve1_beyond:
  assumes g: "good blocks s" and b: "beyond (dev s) (block q)"
    and tag: "cache_block_addr s \<noteq> block q"
  shows "\<exists>t. serve1 C q s = Some (Inr (None, t)) \<and> served s (blocks (dev s)) t \<and>
    cache_block_addr t = INVALID_BLOCK_ADDR \<and> last_error t = FAT_ERROR_FS_BROKEN"
proof -
  have "length (cache_block s) = CARD_BLOCK_SIZE" using g by (simp add: good_def wf_fs_def)
  from beyond_read [OF b this] obtain d where
    d: "op_read C (block q) (cache_block s) (dev s) = Some (CARD_ERROR_OUT_OF_RANGE, cache_block s, d)"
    "blocks d = blocks (dev s)" "ready d = ready (dev s)" "beyond d = beyond (dev s)"
    by blast
  then show ?thesis
    using g tag
    by (simp add: serve1_def cache_def card_read_block_def set_fat_error_def set_last_error_def bnd_def
        served_def good_def wf_fs_def coherent_def same_volume_def)
qed

lemma ready_not_beyond: "ready d b \<Longrightarrow> \<not> beyond d b"
  using ready_read [of d b "replicate CARD_BLOCK_SIZE 0"] beyond_read [of d b "replicate CARD_BLOCK_SIZE 0"] by auto

lemma serve_run:
  assumes "good blocks s" and "\<not> beyond (dev s) (cache_block_addr s)"
    and "\<forall>r \<in> set rs. request_fits r \<and> (ready (dev s) (block r) \<or> beyond (dev s) (block r))"
  shows "\<exists>t. serve C rs s = Some (Inr (fst (direct (ready (dev s)) rs (blocks (dev s))), t)) \<and>
    served s (snd (direct (ready (dev s)) rs (blocks (dev s)))) t \<and>
    last_error t = (if \<forall>r \<in> set rs. ready (dev s) (block r) then last_error s else FAT_ERROR_FS_BROKEN)"
  using assms
proof (induction rs arbitrary: s)
  case Nil
  then show ?case by (simp add: ret_def served_def same_volume_def)
next
  case (Cons q rs)
  let ?B = "blocks (dev s)"
  have rest: "\<forall>r \<in> set rs. request_fits r \<and> (ready (dev s) (block r) \<or> beyond (dev s) (block r))"
    using Cons.prems(3) by simp
  show ?case
  proof (cases "ready (dev s) (block q)")
    case True
    obtain t where t: "serve1 C q s = Some (Inr (Some (fst (direct1 q ?B)), t))"
      "served s (snd (direct1 q ?B)) t" "cache_block_addr t = block q" "last_error t = last_error s"
      using serve1_ready [OF Cons.prems(1) True] Cons.prems(3) by auto
    then have "good blocks t" "\<not> beyond (dev t) (cache_block_addr t)"
      "\<forall>r \<in> set rs. request_fits r \<and> (ready (dev t) (block r) \<or> beyond (dev t) (block r))"
      using rest ready_not_beyond [OF True] by (simp_all add: served_def)
    from Cons.IH [OF this] t(2) obtain u where
      "serve C rs t = Some (Inr (fst (direct (ready (dev s)) rs (snd (direct1 q ?B))), u))"
      "served t (snd (direct (ready (dev s)) rs (snd (direct1 q ?B)))) u"
      "last_error u = (if \<forall>r \<in> set rs. ready (dev s) (block r) then last_error t else FAT_ERROR_FS_BROKEN)"
      by (auto simp: served_def)
    then show ?thesis
      using t served_trans [OF t(2)] True by (intro exI [of _ u]) (simp add: bnd_def split_beta)
  next
    case False
    then have b: "beyond (dev s) (block q)" using Cons.prems(3) by simp
    then have "cache_block_addr s \<noteq> block q" using Cons.prems(2) by auto
    from serve1_beyond [OF Cons.prems(1) b this] obtain t where t: "serve1 C q s = Some (Inr (None, t))"
      "served s ?B t" "cache_block_addr t = INVALID_BLOCK_ADDR" "last_error t = FAT_ERROR_FS_BROKEN"
      by blast
    then have "good blocks t" "\<not> beyond (dev t) (cache_block_addr t)"
      "\<forall>r \<in> set rs. request_fits r \<and> (ready (dev t) (block r) \<or> beyond (dev t) (block r))"
      using rest beyond_not_mark by (simp_all add: served_def)
    from Cons.IH [OF this] t(2) obtain u where
      "serve C rs t = Some (Inr (fst (direct (ready (dev s)) rs ?B), u))"
      "served t (snd (direct (ready (dev s)) rs ?B)) u"
      "last_error u = (if \<forall>r \<in> set rs. ready (dev s) (block r) then last_error t else FAT_ERROR_FS_BROKEN)"
      by (auto simp: served_def)
    then show ?thesis
      using t served_trans [OF t(2)] False by (intro exI [of _ u]) (simp add: bnd_def split_beta)
  qed
qed

end

subsection \<open>The properties\<close>

text \<open>
  C31: The cache is transparent. On a card that serves the blocks it has and refuses those behind its
  end, any sequence of requests - fetch a block, or fetch it, change bytes of it and flush - gives the answers
  and leaves the blocks of the same requests made on the blocks directly. A refused request answers
  nothing, sets \<open>FAT_ERROR_FS_BROKEN\<close> and has no effect on those that follow, even for the same block. Descriptors
  and volume do not change.
\<close>

theorem cache_transparent:
  assumes "bounded_device C blocks ready beyond" and "good blocks s" and "\<not> beyond (dev s) (cache_block_addr s)"
    and "\<forall>r \<in> set rs. request_fits r \<and> (ready (dev s) (block r) \<or> beyond (dev s) (block r))"
  shows "\<exists>t. serve C rs s = Some (Inr (fst (direct (ready (dev s)) rs (blocks (dev s))), t)) \<and>
    good blocks t \<and> same_volume s t \<and> blocks (dev t) = snd (direct (ready (dev s)) rs (blocks (dev s))) \<and>
    last_error t = (if \<forall>r \<in> set rs. ready (dev s) (block r) then last_error s else FAT_ERROR_FS_BROKEN)"
  using bounded_device.serve_run [OF assms] bounded_device.served_def [OF assms(1)] by fastforce

theorem cache_transparent_witness:
  "\<exists>t. serve sd_ops [Fetch 999, Change 4 0 [0x7a], Fetch 5, Fetch 4, Fetch 999] small_fs =
     Some (Inr ([None, Some [], Some (replicate 512 0x62), Some (0x7a # replicate 511 0x61), None], t)) \<and>
     last_error t = FAT_ERROR_FS_BROKEN"
proof -
  have r: "sd_ready small_card = (\<lambda>b. b < 300)" using small_ready by auto
  have b: "sd_beyond small_card b \<longleftrightarrow> 300 \<le> b \<and> b \<noteq> 0xffffffff" for b
    by (simp add: sd_beyond_def small_card_def)
  have "sd_block small_card 4 = replicate 512 0x61" "sd_block small_card 5 = replicate 512 0x62"
    by (simp_all add: sd_block_def small_card_def)
  then have d: "fst (direct (sd_ready small_card) [Fetch 999, Change 4 0 [0x7a], Fetch 5, Fetch 4, Fetch 999] (sd_block small_card)) =
      [None, Some [], Some (replicate 512 0x62), Some (0x7a # replicate 511 0x61), None]"
    by (simp add: r splice_at_def)
  show ?thesis
    using cache_transparent [OF sd.bounded_device_axioms small_fs_good,
        of "[Fetch 999, Change 4 0 [0x7a], Fetch 5, Fetch 4, Fetch 999]", unfolded small_fs_simps d]
    by (auto simp: b r small_fs_def)
qed

text \<open>
  After a flush that failed the buffer keeps the bytes that are not on the card together with its tag:
  the next request for the block is answered from the buffer, with success.
\<close>

theorem failed_flush_stays_cached:
  assumes "op_write C (cache_block_addr s) (cache_block s) (dev s) = Some (r, d)" and "r \<noteq> 0"
    and "cache_block_addr s \<noteq> INVALID_BLOCK_ADDR"
  shows "\<exists>t. flush_cache C s = Some (Inr (False, t)) \<and> cache_block t = cache_block s \<and>
    cache C (cache_block_addr s) t = Some (Inr (True, t))"
  using assms
  by (simp add: flush_cache_def card_write_block_def cache_def set_fat_error_def set_last_error_def
      CARD_POWER_OFF_def bnd_def)

end
