(* ===== verification/FatTable.thy ===== *)
theory FatTable
  imports FatCache
begin

section \<open>The file allocation table (lib/fat/fat.c)\<close>

text \<open>
  Reading and writing entries of the two copies of the FAT, allocating a cluster, finding a
  cluster's parent in a chain and freeing a chain. \<open>fat_entry\<close> is the table as a function of
  the card's blocks; the specifications say what each operation does to it.
\<close>

subsection \<open>Operations\<close>

definition fat_sector :: "u16 \<Rightarrow> u32" where
  "fat_sector index = ucast (ucast (drop_bit 8 index) :: u8)"

definition fat_slot :: "u16 \<Rightarrow> nat" where
  "fat_slot index = unat (ucast index :: u8)"

definition read_fat_entry :: "'d card_ops \<Rightarrow> u16 \<Rightarrow> ('d fs, u16) cmd" where
  "read_fat_entry C index =
     bnd (gets fat_info) (\<lambda>fi.
     or_return (cache C (fat0_offset fi + fat_sector index)) 0
       (peek16 (fat_slot index)))"

definition write_fat_entry :: "'d card_ops \<Rightarrow> u16 \<Rightarrow> u16 \<Rightarrow> ('d fs, bool) cmd" where
  "write_fat_entry C index value =
     bnd (gets fat_info) (\<lambda>fi.
     or_return (cache C (fat0_offset fi + fat_sector index)) False
     (andthen (poke16 (fat_slot index) value)
     (or_return (flush_cache C) False
     (or_return (cache C (fat1_offset fi + fat_sector index)) False
     (andthen (poke16 (fat_slot index) value)
     (flush_cache C))))))"

text \<open>\<open>alloc_cluster\<close>: the part that runs once a free entry has been found at index \<open>i\<close>.\<close>

definition alloc_take :: "'d card_ops \<Rightarrow> u16 \<Rightarrow> u32 \<Rightarrow> u16 \<Rightarrow> nat \<Rightarrow> ('d fs, u16) cmd" where
  "alloc_take C last' b result i =
     bnd (gets fat_info) (\<lambda>fi.
     andthen (poke16 i 0xffff)
     (or_return (flush_cache C) 0xffff
     (andthen (modify (\<lambda>s. s\<lparr>cache_block_addr := b + fat1_offset fi - fat0_offset fi\<rparr>))
     (or_return (flush_cache C) 0xffff
     (if last' \<noteq> 0 then
        (let b1 = fat1_offset fi + ucast (drop_bit 8 last') in
         or_return (cache C b1) 0xffff
         (andthen (poke16 (fat_slot last') result)
         (or_return (flush_cache C) 0xffff
         (andthen (modify (\<lambda>s. s\<lparr>cache_block_addr := b1 + fat0_offset fi - fat1_offset fi\<rparr>))
         (or_return (flush_cache C) 0xffff
         (ret result))))))
      else ret result)))))"

text \<open>The loop over the 256 entries of the cached block; the last argument counts down.\<close>

fun alloc_scan :: "'d card_ops \<Rightarrow> u16 \<Rightarrow> u32 \<Rightarrow> u16 \<Rightarrow> nat \<Rightarrow> nat \<Rightarrow> ('d fs, (u16, unit) flow) cmd" where
  "alloc_scan C last' b result i 0 = ret (Go ())"
| "alloc_scan C last' b result i (Suc n) =
     bnd (peek16 i) (\<lambda>entry.
     if entry = 0 then bnd (alloc_take C last' b (result + of_nat i) i) (\<lambda>r. ret (Return r))
     else alloc_scan C last' b result (Suc i) n)"

text \<open>The loop over the sectors of the FAT.\<close>

fun alloc_sectors :: "'d card_ops \<Rightarrow> u16 \<Rightarrow> u32 \<Rightarrow> u16 \<Rightarrow> nat \<Rightarrow> ('d fs, u16) cmd" where
  "alloc_sectors C last' b result 0 = ret 0xffff"
| "alloc_sectors C last' b result (Suc n) =
     or_return (cache C b) 0xffff
     (bnd (alloc_scan C last' b result 0 (CARD_BLOCK_SIZE div 2)) (\<lambda>w.
      case w of Return r \<Rightarrow> ret r
      | Go _ \<Rightarrow> alloc_sectors C last' (b + 1) (result + 256) n))"

definition alloc_cluster :: "'d card_ops \<Rightarrow> u16 \<Rightarrow> ('d fs, u16) cmd" where
  "alloc_cluster C last' =
     bnd (gets fat_info) (\<lambda>fi.
     alloc_sectors C last' (fat0_offset fi) 0 (unat (sectors_per_fat fi)))"

partial_function (option) find_parent_cluster :: "'d card_ops \<Rightarrow> u16 \<Rightarrow> u16 \<Rightarrow> ('d fs, u16) cmd" where
  "find_parent_cluster C head cur s =
     (if head < FAT_MIN_LAST_CLUSTER then
        bnd (read_fat_entry C head) (\<lambda>nxt.
        if nxt = 0 then ret 0
        else if nxt = cur then ret head
        else find_parent_cluster C nxt cur) s
      else andthen (set_last_error FAT_ERROR_FS_BROKEN) (ret 0) s)"

partial_function (option) free_cluster_chain :: "'d card_ops \<Rightarrow> u16 \<Rightarrow> ('d fs, bool) cmd" where
  "free_cluster_chain C from' s =
     (if from' < FAT_MIN_LAST_CLUSTER then
        bnd (read_fat_entry C from') (\<lambda>next_cluster.
        if next_cluster = 0 then ret False
        else or_return (write_fat_entry C from' 0) False
          (free_cluster_chain C next_cluster)) s
      else ret True s)"

subsection \<open>Invariants\<close>

lemma find_parent_cluster_unfold: "find_parent_cluster C head cur =
     (if head < FAT_MIN_LAST_CLUSTER then
        bnd (read_fat_entry C head) (\<lambda>nxt.
        if nxt = 0 then ret 0
        else if nxt = cur then ret head
        else find_parent_cluster C nxt cur)
      else andthen (set_last_error FAT_ERROR_FS_BROKEN) (ret 0))"
  by (rule ext) (subst find_parent_cluster.simps, simp)

lemma free_cluster_chain_unfold: "free_cluster_chain C from' =
     (if from' < FAT_MIN_LAST_CLUSTER then
        bnd (read_fat_entry C from') (\<lambda>next_cluster.
        if next_cluster = 0 then ret False
        else or_return (write_fat_entry C from' 0) False
          (free_cluster_chain C next_cluster))
      else ret True)"
  by (rule ext) (subst free_cluster_chain.simps, simp)

text \<open>The index in a sector has eight bits, so it stays within the 256 entries of a block.\<close>

lemma fat_slot_room [simp]: "2 * fat_slot c < 511"
  using unat_u8 [of "ucast c :: u8"] by (simp add: fat_slot_def)

context disk_invariant
begin

lemma keeps_read_fat_entry: "I s \<Longrightarrow> wlp (read_fat_entry C c) (\<lambda>_. I) s"
  by (auto simp: read_fat_entry_def wp_simps I_size intro!: wlp_mono [OF keeps_cache])

lemma keeps_write_fat_entry: "I s \<Longrightarrow> wlp (write_fat_entry C c v) (\<lambda>_. I) s"
  by (auto simp: write_fat_entry_def wp_simps I_rules
      intro!: wlp_mono [OF keeps_cache] wlp_mono [OF keeps_flush_cache] keeps_flush_cache)

lemma keeps_alloc_take: "I s \<Longrightarrow> i < 256 \<Longrightarrow> wlp (alloc_take C l b r i) (\<lambda>_. I) s"
  by (auto simp: alloc_take_def wp_simps I_rules Let_def
      intro!: wlp_mono [OF keeps_cache] wlp_mono [OF keeps_flush_cache])

lemma keeps_alloc_scan: "I s \<Longrightarrow> i + n \<le> 256 \<Longrightarrow> wlp (alloc_scan C l b r i n) (\<lambda>_. I) s"
  by (induction n arbitrary: i) (auto simp: wp_simps I_size intro!: wlp_mono [OF keeps_alloc_take])

lemma keeps_alloc_sectors: "I s \<Longrightarrow> wlp (alloc_sectors C l b r n) (\<lambda>_. I) s"
  by (induction n arbitrary: b r s)
    (auto simp: wp_simps split: flow.splits
      intro!: wlp_mono [OF keeps_cache] wlp_mono [OF keeps_alloc_scan])

lemma keeps_alloc_cluster: "I s \<Longrightarrow> wlp (alloc_cluster C l) (\<lambda>_. I) s"
  by (simp add: alloc_cluster_def wp_simps keeps_alloc_sectors)

lemma keeps_find_parent_cluster: "I s \<Longrightarrow> wlp (find_parent_cluster C h c) (\<lambda>_. I) s"
proof -
  have "D = C \<longrightarrow> I s \<longrightarrow> (\<exists>a t. r = Inr (a, t) \<and> I t)"
    if "find_parent_cluster D h c s = Some r" for D :: "'d card_ops" and h c s r
  proof (rule find_parent_cluster.raw_induct [OF _ that], intro impI)
    fix f :: "'d card_ops \<Rightarrow> u16 \<Rightarrow> u16 \<Rightarrow> ('d fs, u16) cmd" and D h c s r
    assume IH: "\<And>D h c s r. f D h c s = Some r \<Longrightarrow> D = C \<longrightarrow> I s \<longrightarrow> (\<exists>a t. r = Inr (a, t) \<and> I t)"
      and body: "(if h < FAT_MIN_LAST_CLUSTER then
        bnd (read_fat_entry D h) (\<lambda>nxt. if nxt = 0 then ret 0 else if nxt = c then ret h else f D nxt c) s
        else andthen (set_last_error FAT_ERROR_FS_BROKEN) (ret 0) s) = Some r"
      and D: "D = C" and s: "I s"
    have f: "I t \<Longrightarrow> wlp (f C h c) (\<lambda>_. I) t" for h c t
      using IH unfolding wlp_iff by blast
    have "wlp (if h < FAT_MIN_LAST_CLUSTER then
        bnd (read_fat_entry C h) (\<lambda>nxt. if nxt = 0 then ret 0 else if nxt = c then ret h else f C nxt c)
        else andthen (set_last_error FAT_ERROR_FS_BROKEN) (ret 0)) (\<lambda>_. I) s"
      using s by (auto simp: wp_simps I_rules f intro!: wlp_mono [OF keeps_read_fat_entry])
    with body D show "\<exists>a t. r = Inr (a, t) \<and> I t"
      unfolding wlp_iff by (auto split: if_splits)
  qed
  then show "I s \<Longrightarrow> wlp (find_parent_cluster C h c) (\<lambda>_. I) s"
    unfolding wlp_iff by blast
qed

lemma keeps_free_cluster_chain: "I s \<Longrightarrow> wlp (free_cluster_chain C c) (\<lambda>_. I) s"
proof -
  have "D = C \<longrightarrow> I s \<longrightarrow> (\<exists>a t. r = Inr (a, t) \<and> I t)"
    if "free_cluster_chain D c s = Some r" for D :: "'d card_ops" and c s r
  proof (rule free_cluster_chain.raw_induct [OF _ that], intro impI)
    fix f :: "'d card_ops \<Rightarrow> u16 \<Rightarrow> ('d fs, bool) cmd" and D c s r
    assume IH: "\<And>D c s r. f D c s = Some r \<Longrightarrow> D = C \<longrightarrow> I s \<longrightarrow> (\<exists>a t. r = Inr (a, t) \<and> I t)"
      and body: "(if c < FAT_MIN_LAST_CLUSTER then
        bnd (read_fat_entry D c) (\<lambda>n. if n = 0 then ret False
          else or_return (write_fat_entry D c 0) False (f D n)) s
        else ret True s) = Some r"
      and D: "D = C" and s: "I s"
    have f: "I t \<Longrightarrow> wlp (f C c) (\<lambda>_. I) t" for c t
      using IH unfolding wlp_iff by blast
    have "wlp (if c < FAT_MIN_LAST_CLUSTER then
        bnd (read_fat_entry C c) (\<lambda>n. if n = 0 then ret False
          else or_return (write_fat_entry C c 0) False (f C n))
        else ret True) (\<lambda>_. I) s"
      using s by (auto simp: wp_simps I_rules f
          intro!: wlp_mono [OF keeps_read_fat_entry] wlp_mono [OF keeps_write_fat_entry])
    with body D show "\<exists>a t. r = Inr (a, t) \<and> I t"
      unfolding wlp_iff by (auto split: if_splits)
  qed
  then show "I s \<Longrightarrow> wlp (free_cluster_chain C c) (\<lambda>_. I) s"
    unfolding wlp_iff by blast
qed

end

subsection \<open>The table as a function\<close>

definition fat_entry :: "FatInfo \<Rightarrow> (u32 \<Rightarrow> bytes) \<Rightarrow> u16 \<Rightarrow> u16" where
  "fat_entry fi B c = rd16 (B (fat0_offset fi + fat_sector c)) (2 * fat_slot c)"

definition in_fat :: "FatInfo \<Rightarrow> u16 \<Rightarrow> bool" where
  "in_fat fi c \<longleftrightarrow> unat (drop_bit 8 c) < unat (sectors_per_fat fi)"

text \<open>Storing an entry in both copies.\<close>

definition fat_store :: "FatInfo \<Rightarrow> u16 \<Rightarrow> u16 \<Rightarrow> (u32 \<Rightarrow> bytes) \<Rightarrow> (u32 \<Rightarrow> bytes)" where
  "fat_store fi c v B =
     (let Y = wr16 (B (fat0_offset fi + fat_sector c)) (2 * fat_slot c) v
      in B(fat0_offset fi + fat_sector c := Y, fat1_offset fi + fat_sector c := Y))"

text \<open>
  The two copies lie behind each other on the card, before the data, in blocks the device can
  transfer; a 16-bit cluster number addresses at most 256 sectors.
\<close>

definition fat_layout :: "FatInfo \<Rightarrow> (u32 \<Rightarrow> bool) \<Rightarrow> bool" where
  "fat_layout fi rdy \<longleftrightarrow> unat (sectors_per_fat fi) \<le> 256 \<and>
     unat (fat0_offset fi) + unat (sectors_per_fat fi) \<le> unat (fat1_offset fi) \<and>
     unat (fat1_offset fi) + unat (sectors_per_fat fi) \<le> unat (data_offset fi) \<and>
     (\<forall>i < unat (sectors_per_fat fi). rdy (fat0_offset fi + of_nat i) \<and> rdy (fat1_offset fi + of_nat i))"

definition mirrored :: "FatInfo \<Rightarrow> (u32 \<Rightarrow> bytes) \<Rightarrow> bool" where
  "mirrored fi B \<longleftrightarrow>
     (\<forall>i < unat (sectors_per_fat fi). B (fat1_offset fi + of_nat i) = B (fat0_offset fi + of_nat i))"

definition fat_region :: "FatInfo \<Rightarrow> u32 set" where
  "fat_region fi = (\<lambda>i. fat0_offset fi + of_nat i) ` {..<unat (sectors_per_fat fi)} \<union>
     (\<lambda>i. fat1_offset fi + of_nat i) ` {..<unat (sectors_per_fat fi)}"

text \<open>An entry's sector and its slot determine it.\<close>

definition fat_sec :: "u16 \<Rightarrow> nat" where
  "fat_sec c = unat c div 256"

lemma fat_sec_less: "fat_sec c < 256"
  using unat_u16 [of c] by (simp add: fat_sec_def less_mult_imp_div_less)

lemma fat_sector_eq: "fat_sector c = of_nat (fat_sec c)"
proof -
  have "unat (ucast (drop_bit 8 c) :: u8) = fat_sec c"
    using fat_sec_less [of c] by (simp add: unat_ucast_mod unat_drop fat_sec_def)
  then show ?thesis unfolding fat_sector_def by (metis ucast_of_nat_unat)
qed

lemma fat_sector_ucast: "ucast (drop_bit 8 c) = fat_sector c"
  using ucast_of_nat_unat [of "drop_bit 8 c"] unfolding fat_sector_eq fat_sec_def unat_drop by simp

lemma fat_slot_eq: "fat_slot c = unat c mod 256"
  by (simp add: fat_slot_def unat_ucast_mod)

lemma fat_slot_less [simp]: "fat_slot c < 256"
  by (simp add: fat_slot_eq)

lemma fat_index_inj: "fat_sec c = fat_sec c' \<Longrightarrow> fat_slot c = fat_slot c' \<Longrightarrow> c = c'"
  by (simp add: fat_sec_def fat_slot_eq) (metis mod_mult_div_eq word_unat_eq_iff)

lemma in_fat_sec: "in_fat fi c \<longleftrightarrow> fat_sec c < unat (sectors_per_fat fi)"
  by (simp add: in_fat_def unat_drop fat_sec_def)

lemma fat_copies_apart:
  assumes "fat_layout fi rdy" and "i < unat (sectors_per_fat fi)" and "j < unat (sectors_per_fat fi)"
  shows "fat0_offset fi + of_nat i \<noteq> fat1_offset fi + of_nat j"
proof -
  have "unat (fat0_offset fi + of_nat i) = unat (fat0_offset fi) + i"
    and "unat (fat1_offset fi + of_nat j) = unat (fat1_offset fi) + j"
    using assms unat_u32 [of "fat1_offset fi"] unat_u32 [of "data_offset fi"]
    by (simp_all add: fat_layout_def unat_plus_of_nat)
  with assms show ?thesis by (fastforce simp: fat_layout_def)
qed

lemma fat_sector_apart:
  assumes "fat_layout fi rdy" and "in_fat fi c" and "in_fat fi c'"
  shows "fat0_offset fi + fat_sector c \<noteq> fat1_offset fi + fat_sector c'"
    and "fat1_offset fi + fat_sector c \<noteq> fat0_offset fi + fat_sector c'"
  using fat_copies_apart [OF assms(1)] assms(2,3) by (metis fat_sector_eq in_fat_sec)+

lemma fat_sector_inj: "fat_sector c = fat_sector c' \<longleftrightarrow> fat_sec c = fat_sec c'"
  using fat_sec_less [of c] fat_sec_less [of c']
  by (simp add: fat_sector_eq of_nat_word_inj)

lemma fat_ready:
  "fat_layout fi rdy \<Longrightarrow> in_fat fi c \<Longrightarrow>
   rdy (fat0_offset fi + fat_sector c) \<and> rdy (fat1_offset fi + fat_sector c)"
  by (simp add: fat_layout_def fat_sector_eq in_fat_sec)

lemma mirroredD: "mirrored fi B \<Longrightarrow> in_fat fi c \<Longrightarrow>
    B (fat1_offset fi + fat_sector c) = B (fat0_offset fi + fat_sector c)"
  by (simp add: mirrored_def fat_sector_eq in_fat_sec)

lemma fat_entry_store:
  assumes "fat_layout fi rdy" and "in_fat fi c" and "in_fat fi c'"
    and len: "length (B (fat0_offset fi + fat_sector c)) = CARD_BLOCK_SIZE"
  shows "fat_entry fi (fat_store fi c v B) c' = (if c' = c then v else fat_entry fi B c')"
proof (cases "fat_sec c' = fat_sec c")
  case True
  then have same: "fat_sector c' = fat_sector c" by (simp add: fat_sector_inj)
  have "Suc (2 * fat_slot c) < CARD_BLOCK_SIZE"
    using fat_slot_less [of c] by linarith
  moreover have "c' \<noteq> c \<Longrightarrow> 2 * fat_slot c + 2 \<le> 2 * fat_slot c' \<or> 2 * fat_slot c' + 2 \<le> 2 * fat_slot c"
    using True fat_index_inj [of c' c] by (metis Suc_leI add_2_eq_Suc' linorder_neqE_nat mult_Suc_right mult_le_mono2 add.commute)
  ultimately show ?thesis
    using len same fat_sector_apart [OF assms(1-3)] fat_sector_apart(1) [OF assms(1,2,2)]
    by (auto simp: fat_entry_def fat_store_def Let_def rd16_wr16_other)
next
  case False
  then have "fat0_offset fi + fat_sector c' \<noteq> fat0_offset fi + fat_sector c"
    by (simp add: fat_sector_inj)
  with False fat_sector_apart(2) [OF assms(1-3)] show ?thesis
    by (auto simp: fat_entry_def fat_store_def Let_def)
qed

lemma mirrored_store:
  assumes "fat_layout fi rdy" and "in_fat fi c" and "mirrored fi B"
  shows "mirrored fi (fat_store fi c v B)"
proof -
  have c: "fat_sec c < unat (sectors_per_fat fi)" and n: "unat (sectors_per_fat fi) \<le> 256"
    using assms by (simp_all add: in_fat_sec fat_layout_def)
  have "fat_store fi c v B (fat1_offset fi + of_nat i) = fat_store fi c v B (fat0_offset fi + of_nat i)"
    if i: "i < unat (sectors_per_fat fi)" for i
    using assms(3) i n fat_copies_apart [OF assms(1) i c] fat_copies_apart [OF assms(1) c i]
    by (auto simp: fat_store_def Let_def fat_sector_eq mirrored_def)
  then show ?thesis by (simp add: mirrored_def)
qed

lemma fat_store_elsewhere:
  assumes "in_fat fi c" and "b \<notin> fat_region fi"
  shows "fat_store fi c v B b = B b"
  using assms by (auto simp: fat_store_def Let_def fat_region_def fat_sector_eq in_fat_sec)

lemma length_fat_store:
  "length (B b) = CARD_BLOCK_SIZE \<Longrightarrow> length (B (fat0_offset fi + fat_sector c)) = CARD_BLOCK_SIZE \<Longrightarrow>
   length (fat_store fi c v B b) = CARD_BLOCK_SIZE"
  by (simp add: fat_store_def Let_def)

subsection \<open>Cluster chains\<close>

text \<open>
  A chain is the list of the clusters of a file: each entry names the next cluster, the last
  one is an end mark. The table determines the chain, so a chain has no repetition.
\<close>

definition data_cluster :: "FatInfo \<Rightarrow> u16 \<Rightarrow> bool" where
  "data_cluster fi c \<longleftrightarrow> in_fat fi c \<and> 2 \<le> c \<and> c < FAT_MIN_LAST_CLUSTER"

fun chain :: "FatInfo \<Rightarrow> (u32 \<Rightarrow> bytes) \<Rightarrow> u16 list \<Rightarrow> bool" where
  "chain fi B [] = False"
| "chain fi B [c] = (data_cluster fi c \<and> FAT_MIN_LAST_CLUSTER \<le> fat_entry fi B c)"
| "chain fi B (c # d # cs) = (data_cluster fi c \<and> fat_entry fi B c = d \<and> chain fi B (d # cs))"

lemma chain_data: "chain fi B cs \<Longrightarrow> c \<in> set cs \<Longrightarrow> data_cluster fi c"
  by (induction fi B cs rule: chain.induct) auto

lemma chain_nonempty: "chain fi B cs \<Longrightarrow> cs \<noteq> []"
  by (cases cs) auto

lemma chain_head: "chain fi B (c # cs) \<Longrightarrow> 2 \<le> c \<and> c < FAT_MIN_LAST_CLUSTER \<and> in_fat fi c"
  using chain_data [of fi B "c # cs" c] by (simp add: data_cluster_def)

lemma chain_tl: "chain fi B (c # d # cs) \<Longrightarrow> chain fi B (d # cs)"
  by simp

lemma chain_suffix: "chain fi B (xs @ ys) \<Longrightarrow> ys \<noteq> [] \<Longrightarrow> chain fi B ys"
proof (induction xs)
  case (Cons x xs)
  then show ?case by (cases "xs @ ys") auto
qed simp

lemma chain_entry_nonzero: "chain fi B (c # cs) \<Longrightarrow> fat_entry fi B c \<noteq> 0"
  by (cases cs) (auto dest: chain_head)

lemma chain_unique: "chain fi B (c # xs) \<Longrightarrow> chain fi B (c # ys) \<Longrightarrow> xs = ys"
proof (induction xs arbitrary: c ys)
  case Nil
  then show ?case by (cases ys) (auto dest!: chain_head)
next
  case (Cons x xs)
  then show ?case by (cases ys) (auto dest: chain_head)
qed

lemma chain_distinct: "chain fi B cs \<Longrightarrow> distinct cs"
proof (induction cs)
  case (Cons c cs)
  show ?case
  proof (cases cs)
    case (Cons d ds)
    with Cons.prems Cons.IH have "distinct cs" by simp
    moreover have "c \<notin> set cs"
    proof
      assume "c \<in> set cs"
      then obtain xs ys where cs: "cs = xs @ c # ys" by (metis split_list)
      with Cons.prems have "chain fi B (c # ys)"
        using chain_suffix [of fi B "c # xs" "c # ys"] by simp
      with Cons.prems have "cs = ys" by (rule chain_unique)
      with cs show False by simp
    qed
    ultimately show ?thesis by simp
  qed simp
qed simp

lemma chain_cong:
  "chain fi B cs \<Longrightarrow> (\<And>c. c \<in> set cs \<Longrightarrow> fat_entry fi B' c = fat_entry fi B c) \<Longrightarrow> chain fi B' cs"
  by (induction fi B cs rule: chain.induct) auto

subsection \<open>What the operations do on a working card\<close>

definition fat_state :: "('d \<Rightarrow> u32 \<Rightarrow> bytes) \<Rightarrow> ('d \<Rightarrow> u32 \<Rightarrow> bool) \<Rightarrow> 'd fs \<Rightarrow> bool" where
  "fat_state blocks ready s \<longleftrightarrow> good blocks s \<and> fat_layout (fat_info s) (ready (dev s)) \<and>
     mirrored (fat_info s) (blocks (dev s))"

context live_device
begin

lemma read_fat_entry_run:
  assumes "good blocks s" and "fat_layout (fat_info s) (ready (dev s))" and "in_fat (fat_info s) c"
  obtains t where
    "read_fat_entry C c s = Some (Inr (fat_entry (fat_info s) (blocks (dev s)) c, t))"
    "at_disk blocks ready s (blocks (dev s)) t"
    "cache_block_addr t = fat0_offset (fat_info s) + fat_sector c"
proof -
  have rdy: "ready (dev s) (fat0_offset (fat_info s) + fat_sector c)"
    using assms by (simp add: fat_ready)
  from cache_run [OF assms(1) this] obtain t where
    "cache C (fat0_offset (fat_info s) + fat_sector c) s = Some (Inr (True, t))"
    "at_disk blocks ready s (blocks (dev s)) t"
    "cache_block_addr t = fat0_offset (fat_info s) + fat_sector c"
    "cache_block t = blocks (dev s) (fat0_offset (fat_info s) + fat_sector c)" .
  with that show ?thesis
    by (simp add: read_fat_entry_def peek16_def fat_entry_def block_len [OF rdy])
qed

lemma write_fat_entry_run:
  assumes S: "fat_state blocks ready s" and c: "in_fat (fat_info s) c"
  obtains t where "write_fat_entry C c v s = Some (Inr (True, t))"
    "at_disk blocks ready s (fat_store (fat_info s) c v (blocks (dev s))) t"
proof -
  let ?fi = "fat_info s" and ?B = "blocks (dev s)"
  let ?b0 = "fat0_offset ?fi + fat_sector c" and ?b1 = "fat1_offset ?fi + fat_sector c"
  let ?Y = "wr16 (?B ?b0) (2 * fat_slot c) v"
  have lay: "fat_layout ?fi (ready (dev s))" and g: "good blocks s" and m: "?B ?b1 = ?B ?b0"
    using S c by (simp_all add: fat_state_def mirroredD)
  have rdy: "ready (dev s) ?b0" "ready (dev s) ?b1" and ne: "?b1 \<noteq> ?b0"
    using fat_ready [OF lay c] fat_sector_apart [OF lay c c] by auto
  have Y: "length ?Y = CARD_BLOCK_SIZE"
    using block_len [OF rdy(1)] by simp
  obtain t1 where t1: "cache C ?b0 s = Some (Inr (True, t1))" "at_disk blocks ready s ?B t1"
    "cache_block_addr t1 = ?b0" "cache_block t1 = ?B ?b0"
    using cache_run [OF g rdy(1)] .
  have r1: "ready (dev t1) (cache_block_addr t1)"
    using t1 rdy by (simp add: at_disk_simps)
  obtain t2 where t2: "flush_cache C (t1\<lparr>cache_block := ?Y\<rparr>) = Some (Inr (True, t2))"
    "at_disk blocks ready t1 ((blocks (dev t1))(cache_block_addr t1 := ?Y)) t2"
    "cache_block_addr t2 = cache_block_addr t1" "cache_block t2 = ?Y"
    using store_here_run [OF at_disk_good [OF t1(2)] r1 Y] .
  have B1: "blocks (dev t1) = ?B" using t1(2) by (rule at_disk_simps)
  have d2: "at_disk blocks ready s (?B(?b0 := ?Y)) t2"
    using at_disk_trans [OF t1(2) t2(2)] unfolding B1 t1(3) .
  then have B2: "blocks (dev t2) = ?B(?b0 := ?Y)" by (rule at_disk_simps)
  have "ready (dev t2) ?b1" using rdy at_disk_simps(5) [OF d2] by simp
  from cache_run [OF at_disk_good [OF d2] this] obtain t3 where t3:
    "cache C ?b1 t2 = Some (Inr (True, t3))" "at_disk blocks ready t2 (blocks (dev t2)) t3"
    "cache_block_addr t3 = ?b1" "cache_block t3 = blocks (dev t2) ?b1" .
  have d3: "at_disk blocks ready s (?B(?b0 := ?Y)) t3"
    using at_disk_trans [OF d2 t3(2)] unfolding B2 .
  then have B3: "blocks (dev t3) = ?B(?b0 := ?Y)" by (rule at_disk_simps)
  have c3: "cache_block t3 = ?B ?b0"
    using t3(4) m ne unfolding B2 by simp
  have r3: "ready (dev t3) (cache_block_addr t3)"
    using at_disk_simps(5) [OF d3] t3(3) rdy by simp
  obtain t4 where t4: "flush_cache C (t3\<lparr>cache_block := ?Y\<rparr>) = Some (Inr (True, t4))"
    "at_disk blocks ready t3 ((blocks (dev t3))(cache_block_addr t3 := ?Y)) t4"
    using store_here_run [OF at_disk_good [OF d3] r3 Y] by metis
  have "at_disk blocks ready s (fat_store ?fi c v ?B) t4"
    using at_disk_trans [OF d3 t4(2)] unfolding B3 t3(3) fat_store_def Let_def .
  moreover have "write_fat_entry C c v s = Some (Inr (True, t4))"
    using t1 t2(1) t3(1) t4(1) c3 by (simp add: write_fat_entry_def poke16_def block_len [OF rdy(1)])
  ultimately show ?thesis using that by blast
qed

lemma fat_state_store:
  assumes "fat_state blocks ready s" and "in_fat (fat_info s) c"
    and "at_disk blocks ready s (fat_store (fat_info s) c v (blocks (dev s))) t"
  shows "fat_state blocks ready t"
  using assms mirrored_store by (fastforce simp: fat_state_def at_disk_def)

lemma fat_state_step:
  "fat_state blocks ready s \<Longrightarrow> at_disk blocks ready s (blocks (dev s)) t \<Longrightarrow> fat_state blocks ready t"
  by (simp add: fat_state_def at_disk_def)

lemma entry_store:
  assumes "fat_state blocks ready s" and "in_fat (fat_info s) c" and "in_fat (fat_info s) c'"
  shows "fat_entry (fat_info s) (fat_store (fat_info s) c v (blocks (dev s))) c' =
    (if c' = c then v else fat_entry (fat_info s) (blocks (dev s)) c')"
proof -
  have "fat_layout (fat_info s) (ready (dev s))" using assms by (simp add: fat_state_def)
  with assms show ?thesis
    by (intro fat_entry_store [where rdy = "ready (dev s)"] block_len) (auto dest: fat_ready)
qed

text \<open>Freeing a chain: it terminates, and zeroes the chain's entries in both copies.\<close>

lemma free_cluster_chain_run:
  assumes "fat_state blocks ready s" and "chain (fat_info s) (blocks (dev s)) (c # cs)"
  shows "\<exists>t. free_cluster_chain C c s = Some (Inr (True, t)) \<and>
    at_disk blocks ready s (fold (\<lambda>c. fat_store (fat_info s) c 0) (c # cs) (blocks (dev s))) t"
  using assms
proof (induction cs arbitrary: c s)
  case (Nil c s)
  let ?fi = "fat_info s" and ?B = "blocks (dev s)"
  have c: "data_cluster ?fi c" "FAT_MIN_LAST_CLUSTER \<le> fat_entry ?fi ?B c"
    using Nil.prems by simp_all
  have S: "good blocks s" "fat_layout ?fi (ready (dev s))" and i: "in_fat ?fi c"
    using Nil.prems c by (simp_all add: fat_state_def data_cluster_def)
  obtain t where t: "read_fat_entry C c s = Some (Inr (fat_entry ?fi ?B c, t))"
    "at_disk blocks ready s ?B t"
    using read_fat_entry_run [OF S i] by blast
  note F = fat_state_step [OF Nil.prems(1) t(2)] and eq = at_disk_simps [OF t(2)]
  obtain u where u: "write_fat_entry C c 0 t = Some (Inr (True, u))"
    "at_disk blocks ready t (fat_store ?fi c 0 ?B) u"
    using write_fat_entry_run [OF F] i unfolding eq by metis
  have "\<not> fat_entry ?fi ?B c < FAT_MIN_LAST_CLUSTER" using c(2) by (simp add: not_less)
  then have "free_cluster_chain C (fat_entry ?fi ?B c) u = Some (Inr (True, u))"
    by (subst free_cluster_chain.simps) simp
  moreover have "fat_entry ?fi ?B c \<noteq> 0" using chain_entry_nonzero [OF Nil.prems(2)] .
  ultimately show ?case
    using c t(1) u(1) at_disk_trans [OF t(2) u(2)]
    by (simp add: free_cluster_chain.simps [of C c] data_cluster_def)
next
  case (Cons d cs c s)
  let ?fi = "fat_info s" and ?B = "blocks (dev s)"
  have c: "data_cluster ?fi c" "fat_entry ?fi ?B c = d" "chain ?fi ?B (d # cs)"
    using Cons.prems by simp_all
  have S: "good blocks s" "fat_layout ?fi (ready (dev s))" and i: "in_fat ?fi c"
    using Cons.prems c by (simp_all add: fat_state_def data_cluster_def)
  obtain t where t: "read_fat_entry C c s = Some (Inr (fat_entry ?fi ?B c, t))"
    "at_disk blocks ready s ?B t"
    using read_fat_entry_run [OF S i] by blast
  note F = fat_state_step [OF Cons.prems(1) t(2)] and eq = at_disk_simps [OF t(2)]
  obtain u where u: "write_fat_entry C c 0 t = Some (Inr (True, u))"
    "at_disk blocks ready t (fat_store ?fi c 0 ?B) u"
    using write_fat_entry_run [OF F] i unfolding eq by metis
  have d: "at_disk blocks ready s (fat_store ?fi c 0 ?B) u"
    using at_disk_trans [OF t(2) u(2)] .
  note eq' = at_disk_simps [OF d]
  have "c \<notin> set (d # cs)" using chain_distinct [OF Cons.prems(2)] by simp
  then have "fat_entry ?fi (fat_store ?fi c 0 ?B) c' = fat_entry ?fi ?B c'" if "c' \<in> set (d # cs)" for c'
    using entry_store [OF Cons.prems(1) i, of c' 0] chain_data [OF c(3) that] that
    by (auto simp: data_cluster_def)
  then have "chain ?fi (fat_store ?fi c 0 ?B) (d # cs)" by (rule chain_cong [OF c(3)])
  with Cons.IH [OF fat_state_store [OF Cons.prems(1) i d], of d] obtain v where
    v: "free_cluster_chain C d u = Some (Inr (True, v))"
    "at_disk blocks ready u (fold (\<lambda>c. fat_store ?fi c 0) (d # cs) (fat_store ?fi c 0 ?B)) v"
    unfolding eq' by blast
  have "d \<noteq> 0" using chain_entry_nonzero [OF Cons.prems(2)] c by simp
  then have "free_cluster_chain C c s = Some (Inr (True, v))"
    using c t(1) u(1) v(1) by (simp add: free_cluster_chain.simps [of C c] data_cluster_def)
  with at_disk_trans [OF d v(2)] show ?case by auto
qed

text \<open>The predecessor of a cluster in its chain.\<close>

lemma find_parent_cluster_run:
  assumes "fat_state blocks ready s" and "chain (fat_info s) (blocks (dev s)) (xs @ p # c # ys)"
  shows "\<exists>t. find_parent_cluster C (hd (xs @ [p])) c s = Some (Inr (p, t)) \<and>
    at_disk blocks ready s (blocks (dev s)) t"
  using assms
proof (induction xs arbitrary: s)
  case (Nil s)
  have p: "data_cluster (fat_info s) p" "fat_entry (fat_info s) (blocks (dev s)) p = c"
    using Nil.prems by simp_all
  obtain t where t: "read_fat_entry C p s = Some (Inr (c, t))" "at_disk blocks ready s (blocks (dev s)) t"
    using read_fat_entry_run [of s p] Nil.prems(1) p by (auto simp: fat_state_def data_cluster_def)
  have "c \<noteq> 0" using chain_entry_nonzero [of "fat_info s" "blocks (dev s)" p "c # ys"] Nil.prems(2) p by simp
  with t p show ?case
    by (simp add: find_parent_cluster.simps [of C p] data_cluster_def)
next
  case (Cons x xs s)
  let ?h = "hd (xs @ [p])" and ?fi = "fat_info s" and ?B = "blocks (dev s)"
  have ch: "chain ?fi ?B (x # xs @ p # c # ys)" using Cons.prems by simp
  obtain zs where zs: "xs @ p # c # ys = ?h # zs" by (cases xs) auto
  have x: "data_cluster ?fi x" "fat_entry ?fi ?B x = ?h" using ch unfolding zs by simp_all
  have "?h \<noteq> c"
  proof -
    have "?h \<in> set (xs @ [p])" by (cases xs) auto
    moreover have "c \<notin> set (xs @ [p])" using chain_distinct [OF ch] by auto
    ultimately show ?thesis by metis
  qed
  moreover have "?h \<noteq> 0" using chain_entry_nonzero [OF ch] x by simp
  moreover obtain t where t: "read_fat_entry C x s = Some (Inr (?h, t))" "at_disk blocks ready s ?B t"
    using read_fat_entry_run [of s x] Cons.prems(1) x by (auto simp: fat_state_def data_cluster_def)
  note eq = at_disk_simps [OF t(2)]
  have "chain ?fi ?B (xs @ p # c # ys)" using chain_suffix [of ?fi ?B "[x]"] ch by simp
  with Cons.IH [OF fat_state_step [OF Cons.prems(1) t(2)]] obtain u where
    u: "find_parent_cluster C ?h c t = Some (Inr (p, u))" "at_disk blocks ready t ?B u"
    unfolding eq by blast
  ultimately show ?case
    using t(1) x at_disk_trans [OF t(2) u(2)]
    by (simp add: find_parent_cluster.simps [of C x] data_cluster_def)
qed

end

subsection \<open>Allocation\<close>

lemma alloc_scan_found:
  assumes "i \<le> j" and "j < i + n" and "rd16 (cache_block s) (2 * j) = 0"
    and "\<And>k. i \<le> k \<Longrightarrow> k < j \<Longrightarrow> rd16 (cache_block s) (2 * k) \<noteq> 0"
    and "2 * (i + n) \<le> length (cache_block s)"
  shows "alloc_scan C l b r i n s =
    bnd (alloc_take C l b (r + of_nat j) j) (\<lambda>r. ret (Return r)) s"
  using assms
proof (induction n arbitrary: i)
  case (Suc n)
  then show ?case
    by (cases "i = j") (auto simp: peek16_def ret_def)
qed simp

lemma alloc_scan_none:
  "(\<And>k. i \<le> k \<Longrightarrow> k < i + n \<Longrightarrow> rd16 (cache_block s) (2 * k) \<noteq> 0) \<Longrightarrow>
   2 * (i + n) \<le> length (cache_block s) \<Longrightarrow>
   alloc_scan C l b r i n s = Some (Inr (Go (), s))"
  by (induction n arbitrary: i) (simp_all add: peek16_def)

text \<open>The entry at slot \<open>i\<close> of sector \<open>k\<close>.\<close>

definition entry_at :: "nat \<Rightarrow> nat \<Rightarrow> u16" where
  "entry_at k i = of_nat (256 * k + i)"

lemma entry_at_split:
  assumes "k < 256" and "i < 256"
  shows "fat_sec (entry_at k i) = k" and "fat_slot (entry_at k i) = i"
proof -
  have "unat (entry_at k i) = 256 * k + i"
    using assms by (simp add: entry_at_def unat_of_nat_mod del: of_nat_add of_nat_mult)
  with assms show "fat_sec (entry_at k i) = k" and "fat_slot (entry_at k i) = i"
    by (simp_all add: fat_sec_def fat_slot_eq)
qed

lemma entry_at_self: "entry_at (fat_sec c) (fat_slot c) = c"
  by (simp add: entry_at_def fat_sec_def fat_slot_eq)

context live_device
begin

text \<open>Writing a changed sector \<open>k\<close> of one copy back to both copies.\<close>

lemma store_twice_run:
  assumes g: "good blocks s" and r: "ready (dev s) a" "ready (dev s) b"
    and tag: "cache_block_addr s = a" and Y: "length Y = CARD_BLOCK_SIZE"
  obtains t u where "flush_cache C (s\<lparr>cache_block := Y\<rparr>) = Some (Inr (True, t))"
    "flush_cache C (t\<lparr>cache_block_addr := b\<rparr>) = Some (Inr (True, u))"
    "at_disk blocks ready s ((blocks (dev s))(a := Y, b := Y)) u"
    "fat_info t = fat_info s"
proof -
  obtain t where t: "flush_cache C (s\<lparr>cache_block := Y\<rparr>) = Some (Inr (True, t))"
    "at_disk blocks ready s ((blocks (dev s))(a := Y)) t" "cache_block t = Y"
    using store_here_run [OF g _ Y] r tag by metis
  note eq = at_disk_simps [OF t(2)]
  obtain u where u: "flush_cache C (t\<lparr>cache_block := Y, cache_block_addr := b\<rparr>) = Some (Inr (True, u))"
    "at_disk blocks ready t ((blocks (dev t))(b := Y)) u"
    using store_run [OF at_disk_good [OF t(2)] _ Y, of b] r(2) eq(5) by metis
  have "t\<lparr>cache_block := Y, cache_block_addr := b\<rparr> = t\<lparr>cache_block_addr := b\<rparr>"
    using t(3) by simp
  with u(1) have "flush_cache C (t\<lparr>cache_block_addr := b\<rparr>) = Some (Inr (True, u))" by simp
  moreover have "at_disk blocks ready s ((blocks (dev s))(a := Y, b := Y)) u"
    using at_disk_trans [OF t(2) u(2)] unfolding eq .
  ultimately show ?thesis using that t(1) eq(2) by blast
qed

lemma alloc_take_run:
  assumes S: "fat_state blocks ready s" and c: "in_fat (fat_info s) c"
    and l: "l = 0 \<or> in_fat (fat_info s) l"
    and tag: "cache_block_addr s = fat0_offset (fat_info s) + fat_sector c"
    and buf: "cache_block s = blocks (dev s) (fat0_offset (fat_info s) + fat_sector c)"
  defines "B1 \<equiv> fat_store (fat_info s) c 0xffff (blocks (dev s))"
  obtains t where
    "alloc_take C l (fat0_offset (fat_info s) + fat_sector c) c (fat_slot c) s = Some (Inr (c, t))"
    "at_disk blocks ready s (if l = 0 then B1 else fat_store (fat_info s) l c B1) t"
proof -
  let ?fi = "fat_info s" and ?B = "blocks (dev s)"
  let ?b0 = "fat0_offset ?fi + fat_sector c" and ?b1 = "fat1_offset ?fi + fat_sector c"
  let ?Y = "wr16 (?B ?b0) (2 * fat_slot c) 0xffff"
  have lay: "fat_layout ?fi (ready (dev s))" and g: "good blocks s" and m: "mirrored ?fi ?B"
    using S by (simp_all add: fat_state_def)
  note rdy = fat_ready [OF lay c]
  have Y: "length ?Y = CARD_BLOCK_SIZE" using block_len rdy by simp
  obtain t u where tu: "flush_cache C (s\<lparr>cache_block := ?Y\<rparr>) = Some (Inr (True, t))"
    "flush_cache C (t\<lparr>cache_block_addr := ?b1\<rparr>) = Some (Inr (True, u))"
    "at_disk blocks ready s (?B(?b0 := ?Y, ?b1 := ?Y)) u" "fat_info t = ?fi"
    using store_twice_run [OF g _ _ tag Y] rdy by metis
  have d1: "at_disk blocks ready s B1 u"
    using tu(3) unfolding B1_def fat_store_def Let_def .
  note eq1 = at_disk_simps [OF d1]
  have b1: "?b0 + fat1_offset ?fi - fat0_offset ?fi = ?b1" by simp
  have pk: "poke16 (fat_slot c) 0xffff s = Some (Inr ((), s\<lparr>cache_block := ?Y\<rparr>))"
    using buf block_len rdy by (simp add: poke16_def)
  show ?thesis
  proof (cases "l = 0")
    case True
    with tu(1,2) b1 pk have
      "alloc_take C l ?b0 c (fat_slot c) s = Some (Inr (c, u))"
      by (simp add: alloc_take_def ac_simps)
    with True d1 that show ?thesis by simp
  next
    case False
    let ?l0 = "fat0_offset ?fi + fat_sector l" and ?l1 = "fat1_offset ?fi + fat_sector l"
    let ?Z = "wr16 (B1 ?l0) (2 * fat_slot l) c"
    have il: "in_fat ?fi l" using l False by simp
    have S1: "fat_state blocks ready u"
      using fat_state_store [OF S c] d1 unfolding B1_def .
    then have m1: "B1 ?l1 = B1 ?l0"
      using mirroredD [of ?fi B1 l] il eq1 by (simp add: fat_state_def)
    have rdl: "ready (dev u) ?l0" "ready (dev u) ?l1" using fat_ready [OF lay il] eq1(5) by simp_all
    obtain v where v: "cache C ?l1 u = Some (Inr (True, v))" "at_disk blocks ready u B1 v"
      "cache_block_addr v = ?l1" "cache_block v = B1 ?l1"
      using cache_run [OF at_disk_good [OF d1] rdl(2)] unfolding eq1 .
    have d2: "at_disk blocks ready s B1 v" using at_disk_trans [OF d1 v(2)] .
    note eq2 = at_disk_simps [OF d2]
    have lenB1: "length (B1 ?l0) = CARD_BLOCK_SIZE" using block_len [OF rdl(1)] eq1(4) by simp
    then have Z: "length ?Z = CARD_BLOCK_SIZE" by simp
    obtain w x where wx: "flush_cache C (v\<lparr>cache_block := ?Z\<rparr>) = Some (Inr (True, w))"
      "flush_cache C (w\<lparr>cache_block_addr := ?l0\<rparr>) = Some (Inr (True, x))"
      "at_disk blocks ready v (B1(?l1 := ?Z, ?l0 := ?Z)) x"
      using store_twice_run [OF at_disk_good [OF d2] _ _ v(3) Z, of ?l0] rdl
      unfolding eq2 eq1 by metis
    have "B1(?l1 := ?Z, ?l0 := ?Z) = fat_store ?fi l c B1"
      using fat_sector_apart(2) [OF lay il il] by (simp add: fat_store_def fun_upd_twist Let_def)
    with wx(3) have d3: "at_disk blocks ready s (fat_store ?fi l c B1) x"
      using at_disk_trans [OF d2] by metis
    have pl: "poke16 (fat_slot l) c v = Some (Inr ((), v\<lparr>cache_block := ?Z\<rparr>))"
      using v(4) m1 lenB1 by (simp add: poke16_def)
    have "alloc_take C l ?b0 c (fat_slot c) s = Some (Inr (c, x))"
      using tu(1,2) v(1) wx(1,2) False pk pl
      by (simp add: alloc_take_def fat_sector_ucast Let_def ac_simps)
    with False d3 that show ?thesis by simp
  qed
qed

lemma alloc_sectors_run:
  assumes "fat_state blocks ready s" and "k + n = unat (sectors_per_fat (fat_info s))"
    and "in_fat (fat_info s) c" and "k \<le> fat_sec c" and "l = 0 \<or> in_fat (fat_info s) l"
    and "fat_entry (fat_info s) (blocks (dev s)) c = 0"
    and "\<And>c'. c' < c \<Longrightarrow> fat_entry (fat_info s) (blocks (dev s)) c' \<noteq> 0"
  shows "\<exists>t. alloc_sectors C l (fat0_offset (fat_info s) + of_nat k) (of_nat (256 * k)) n s =
      Some (Inr (c, t)) \<and>
    at_disk blocks ready s
      (let B1 = fat_store (fat_info s) c 0xffff (blocks (dev s))
       in if l = 0 then B1 else fat_store (fat_info s) l c B1) t"
  using assms
proof (induction n arbitrary: k s)
  case 0
  then show ?case by (simp add: in_fat_sec)
next
  case (Suc n k s)
  let ?fi = "fat_info s" and ?B = "blocks (dev s)" and ?b = "fat0_offset (fat_info s) + of_nat k"
  have S: "good blocks s" "fat_layout ?fi (ready (dev s))"
    using Suc.prems by (simp_all add: fat_state_def)
  have k: "k < unat (sectors_per_fat ?fi)" "k < 256"
    using Suc.prems S by (simp_all add: fat_layout_def)
  have "ready (dev s) ?b" using S k by (simp add: fat_layout_def)
  from cache_run [OF S(1) this] obtain t where t: "cache C ?b s = Some (Inr (True, t))"
    "at_disk blocks ready s ?B t" "cache_block_addr t = ?b" "cache_block t = ?B ?b" .
  note eq = at_disk_simps [OF t(2)] and F = fat_state_step [OF Suc.prems(1) t(2)]
  have len: "length (cache_block t) = CARD_BLOCK_SIZE"
    using at_disk_good [OF t(2)] by (simp add: good_def wf_fs_def)
  have entry: "rd16 (cache_block t) (2 * i) = fat_entry ?fi ?B (entry_at k i)" if "i < 256" for i
    using that k t(4) by (simp add: fat_entry_def fat_sector_eq entry_at_split)
  have before: "rd16 (cache_block t) (2 * i) \<noteq> 0" if "i < 256" and "256 * k + i < unat c" for i
  proof -
    have "entry_at k i < c"
      using that k by (simp add: entry_at_def word_less_nat_alt unat_of_nat_mod del: of_nat_add of_nat_mult)
    with Suc.prems(7) that(1) show ?thesis by (simp add: entry)
  qed
  have uc: "unat c = 256 * fat_sec c + fat_slot c" by (simp add: fat_sec_def fat_slot_eq)
  show ?case
  proof (cases "fat_sec c = k")
    case True
    have c: "entry_at k (fat_slot c) = c" using entry_at_self [of c] True by simp
    have "alloc_scan C l ?b (of_nat (256 * k)) 0 256 t =
      bnd (alloc_take C l ?b (of_nat (256 * k) + of_nat (fat_slot c)) (fat_slot c)) (\<lambda>r. ret (Return r)) t"
      using entry [of "fat_slot c"] Suc.prems(6) before uc True c len
      by (intro alloc_scan_found) (auto simp: less_trans [OF _ fat_slot_less])
    moreover have "of_nat (256 * k) + of_nat (fat_slot c) = c"
      using c by (simp add: entry_at_def)
    moreover obtain u where u: "alloc_take C l ?b c (fat_slot c) t = Some (Inr (c, u))"
      "at_disk blocks ready t
        (if l = 0 then fat_store ?fi c 0xffff ?B else fat_store ?fi l c (fat_store ?fi c 0xffff ?B)) u"
      using alloc_take_run [OF F, of c l] Suc.prems(3,5) t(3,4) True
      unfolding eq fat_sector_eq by metis
    ultimately show ?thesis
      using t(1) at_disk_trans [OF t(2) u(2)] by (simp add: Let_def)
  next
    case False
    then have lt: "Suc k \<le> fat_sec c" using Suc.prems(4) by simp
    then have "rd16 (cache_block t) (2 * i) \<noteq> 0" if "i < 256" for i
      using that before uc by simp
    then have "alloc_scan C l ?b (of_nat (256 * k)) 0 256 t = Some (Inr (Go (), t))"
      using len by (intro alloc_scan_none) simp_all
    moreover have "?b + 1 = fat0_offset (fat_info t) + of_nat (Suc k)"
      and "of_nat (256 * k) + 256 = (of_nat (256 * Suc k) :: u16)"
      using eq by simp_all
    moreover obtain u where "alloc_sectors C l (fat0_offset (fat_info t) + of_nat (Suc k))
        (of_nat (256 * Suc k)) n t = Some (Inr (c, u))"
      "at_disk blocks ready t
        (let B1 = fat_store ?fi c 0xffff ?B in if l = 0 then B1 else fat_store ?fi l c B1) u"
      using Suc.IH [OF F, of "Suc k"] Suc.prems lt unfolding eq by auto
    ultimately show ?thesis
      using t(1) at_disk_trans [OF t(2)] by (auto simp del: of_nat_Suc of_nat_mult mult_Suc_right)
  qed
qed

lemma alloc_cluster_run:
  assumes "fat_state blocks ready s" and "in_fat (fat_info s) c"
    and "l = 0 \<or> in_fat (fat_info s) l"
    and "fat_entry (fat_info s) (blocks (dev s)) c = 0"
    and "\<And>c'. c' < c \<Longrightarrow> fat_entry (fat_info s) (blocks (dev s)) c' \<noteq> 0"
  shows "\<exists>t. alloc_cluster C l s = Some (Inr (c, t)) \<and>
    at_disk blocks ready s
      (let B1 = fat_store (fat_info s) c 0xffff (blocks (dev s))
       in if l = 0 then B1 else fat_store (fat_info s) l c B1) t"
  using alloc_sectors_run [OF assms(1), of 0 _ c l] assms
  by (simp add: alloc_cluster_def)

lemma alloc_sectors_full:
  assumes "fat_state blocks ready s" and "k + n = unat (sectors_per_fat (fat_info s))"
    and "\<And>c. in_fat (fat_info s) c \<Longrightarrow> fat_entry (fat_info s) (blocks (dev s)) c \<noteq> 0"
  shows "\<exists>t. alloc_sectors C l (fat0_offset (fat_info s) + of_nat k) r n s = Some (Inr (0xffff, t)) \<and>
    at_disk blocks ready s (blocks (dev s)) t"
  using assms
proof (induction n arbitrary: k s r)
  case 0
  then show ?case by (auto simp: fat_state_def intro: at_disk_refl)
next
  case (Suc n k s r)
  let ?fi = "fat_info s" and ?B = "blocks (dev s)" and ?b = "fat0_offset (fat_info s) + of_nat k"
  have S: "good blocks s" "fat_layout ?fi (ready (dev s))"
    using Suc.prems by (simp_all add: fat_state_def)
  have k: "k < unat (sectors_per_fat ?fi)" "k < 256"
    using Suc.prems S by (simp_all add: fat_layout_def)
  have "ready (dev s) ?b" using S k by (simp add: fat_layout_def)
  from cache_run [OF S(1) this] obtain t where t: "cache C ?b s = Some (Inr (True, t))"
    "at_disk blocks ready s ?B t" "cache_block_addr t = ?b" "cache_block t = ?B ?b" .
  note eq = at_disk_simps [OF t(2)] and F = fat_state_step [OF Suc.prems(1) t(2)]
  have len: "length (cache_block t) = CARD_BLOCK_SIZE"
    using at_disk_good [OF t(2)] by (simp add: good_def wf_fs_def)
  have "rd16 (cache_block t) (2 * i) \<noteq> 0" if "i < 256" for i
    using Suc.prems(3) [of "entry_at k i"] that k t(4)
    by (simp add: fat_entry_def fat_sector_eq entry_at_split in_fat_sec)
  then have "alloc_scan C l ?b r 0 256 t = Some (Inr (Go (), t))"
    using len by (intro alloc_scan_none) simp_all
  moreover have "?b + 1 = fat0_offset (fat_info t) + of_nat (Suc k)" using eq by simp
  moreover obtain u where "alloc_sectors C l (fat0_offset (fat_info t) + of_nat (Suc k)) (r + 256) n t =
      Some (Inr (0xffff, u))" "at_disk blocks ready t ?B u"
    using Suc.IH [OF F, of "Suc k" "r + 256"] Suc.prems unfolding eq by auto
  ultimately show ?case
    using t(1) at_disk_trans [OF t(2)] by (auto simp del: of_nat_Suc)
qed

end


subsection \<open>The small volume's table\<close>

lemma small_layout: "fat_layout small_info (sd_ready small_card)"
  by (simp add: fat_layout_def small_info_def small_ready)

lemma small_fs_state: "fat_state sd_block sd_ready small_fs"
  using small_fs_good small_layout
  by (simp add: fat_state_def small_fs_simps mirrored_def small_info_def sd_block_def small_card_def)

lemma small_in_fat: "in_fat small_info c \<longleftrightarrow> unat c < 256"
  by (simp add: in_fat_sec fat_sec_def small_info_def div_eq_0_iff)

lemma small_fat_entries:
  "fat_entry small_info (sd_block small_card) 0 = 0xfff8"
  "fat_entry small_info (sd_block small_card) 1 = 0xffff"
  "fat_entry small_info (sd_block small_card) 2 = 3"
  "fat_entry small_info (sd_block small_card) 3 = 0xffff"
  "fat_entry small_info (sd_block small_card) 4 = 0"
  by (simp_all add: fat_entry_def small_info_def sd_block_def small_card_def small_fat_def rd16_def
      un16_def fat_sector_def fat_slot_def)

lemma small_chain: "chain small_info (sd_block small_card) [2, 3]"
  by (simp add: data_cluster_def small_in_fat small_fat_entries)

lemma small_first_free: "c < 4 \<Longrightarrow> fat_entry small_info (sd_block small_card) c \<noteq> 0"
proof -
  assume "c < 4"
  then have "unat c \<in> {0, 1, 2, 3}" by (auto simp: word_less_nat_alt)
  then have "c \<in> {0, 1, 2, 3}" by (auto simp: word_unat_eq_iff)
  then show ?thesis by (auto simp: small_fat_entries)
qed

subsection \<open>The properties\<close>

text \<open>The entries after a run of stores of 0.\<close>

lemma fat_entry_fold_store:
  assumes "fat_layout fi rdy" and "\<And>b. rdy b \<Longrightarrow> length (B b) = CARD_BLOCK_SIZE"
    and "\<And>c. c \<in> set cs \<Longrightarrow> in_fat fi c" and "in_fat fi x"
  shows "fat_entry fi (fold (\<lambda>c. fat_store fi c 0) cs B) x = (if x \<in> set cs then 0 else fat_entry fi B x)"
  using assms
proof (induction cs arbitrary: B)
  case (Cons c cs)
  let ?B = "fat_store fi c 0 B"
  have c: "in_fat fi c" using Cons.prems(3) by simp
  have len: "length (B (fat0_offset fi + fat_sector c)) = CARD_BLOCK_SIZE"
    using Cons.prems(1,2) fat_ready [OF _ c] by blast
  have "fat_entry fi (fold (\<lambda>c. fat_store fi c 0) cs ?B) x = (if x \<in> set cs then 0 else fat_entry fi ?B x)"
    using Cons.prems len by (intro Cons.IH) (auto intro: length_fat_store)
  moreover have "fat_entry fi ?B x = (if x = c then 0 else fat_entry fi B x)"
    using len by (rule fat_entry_store [OF Cons.prems(1) c Cons.prems(4)])
  ultimately show ?case by auto
qed simp

lemma fold_store_elsewhere:
  "(\<And>c. c \<in> set cs \<Longrightarrow> in_fat fi c) \<Longrightarrow> b \<notin> fat_region fi \<Longrightarrow>
   fold (\<lambda>c. fat_store fi c 0) cs B b = B b"
  by (induction cs arbitrary: B) (simp_all add: fat_store_elsewhere)

lemma chain_member_entry: "chain fi B cs \<Longrightarrow> c \<in> set cs \<Longrightarrow> fat_entry fi B c \<noteq> 0"
proof -
  assume ch: "chain fi B cs" and "c \<in> set cs"
  then obtain xs ys where "cs = xs @ c # ys" by (metis split_list)
  with ch show ?thesis using chain_suffix [of fi B xs "c # ys"] chain_entry_nonzero by auto
qed

lemma mirrored_fold:
  "fat_layout fi rdy \<Longrightarrow> (\<And>c. c \<in> set cs \<Longrightarrow> in_fat fi c) \<Longrightarrow> mirrored fi B \<Longrightarrow>
   mirrored fi (fold (\<lambda>c. fat_store fi c 0) cs B)"
  by (induction cs arbitrary: B) (simp_all add: mirrored_store)

text \<open>A run of clusters freed: the FAT's copies agree, the entries are 0, nothing else has changed.\<close>

definition cleared :: "FatInfo \<Rightarrow> u16 list \<Rightarrow> (u32 \<Rightarrow> bytes) \<Rightarrow> (u32 \<Rightarrow> bytes) \<Rightarrow> bool" where
  "cleared fi cs B B' \<longleftrightarrow> mirrored fi B' \<and>
     (\<forall>x. in_fat fi x \<longrightarrow> fat_entry fi B' x = (if x \<in> set cs then 0 else fat_entry fi B x)) \<and>
     (\<forall>b. b \<notin> fat_region fi \<longrightarrow> B' b = B b)"

context live_device
begin

lemma free_chain_cleared:
  assumes S: "fat_state blocks ready s" and ch: "chain (fat_info s) (blocks (dev s)) (c # cs)"
  shows "\<exists>t. free_cluster_chain C c s = Some (Inr (True, t)) \<and> at_disk blocks ready s (blocks (dev t)) t \<and>
    cleared (fat_info s) (c # cs) (blocks (dev s)) (blocks (dev t))"
proof -
  let ?fi = "fat_info s" and ?B = "fold (\<lambda>c. fat_store (fat_info s) c 0) (c # cs) (blocks (dev s))"
  have g: "fat_layout ?fi (ready (dev s))" "mirrored ?fi (blocks (dev s))"
    using S by (simp_all add: fat_state_def)
  have in_fat: "x \<in> set (c # cs) \<Longrightarrow> in_fat ?fi x" for x
    using chain_data [OF ch] by (simp add: data_cluster_def)
  obtain t where t: "free_cluster_chain C c s = Some (Inr (True, t))" "at_disk blocks ready s ?B t"
    using free_cluster_chain_run [OF S ch] by blast
  have "mirrored ?fi ?B" using g(1) in_fat g(2) by (rule mirrored_fold)
  moreover have "fat_entry ?fi ?B x = (if x \<in> set (c # cs) then 0 else fat_entry ?fi (blocks (dev s)) x)"
    if "in_fat ?fi x" for x
    using g(1) block_len in_fat that by (rule fat_entry_fold_store)
  moreover have "\<forall>b. b \<notin> fat_region ?fi \<longrightarrow> ?B b = blocks (dev s) b"
    using fold_store_elsewhere in_fat by blast
  ultimately have "cleared ?fi (c # cs) (blocks (dev s)) ?B" by (simp only: cleared_def) blast
  then show ?thesis using t unfolding at_disk_simps(4) [OF t(2), symmetric] by blast
qed

lemma cleared_state:
  "fat_state blocks ready s \<Longrightarrow> at_disk blocks ready s (blocks (dev t)) t \<Longrightarrow>
   cleared (fat_info s) cs (blocks (dev s)) (blocks (dev t)) \<Longrightarrow> fat_state blocks ready t"
  by (simp add: fat_state_def cleared_def at_disk_def)

lemma find_parent_nth:
  assumes S: "fat_state blocks ready s" and ch: "chain (fat_info s) (blocks (dev s)) cs" and k: "Suc k < length cs"
  shows "\<exists>t. find_parent_cluster C (hd cs) (cs ! Suc k) s = Some (Inr (cs ! k, t)) \<and>
    at_disk blocks ready s (blocks (dev s)) t"
proof -
  have cs: "cs = take k cs @ cs ! k # cs ! Suc k # drop (Suc (Suc k)) cs"
    using k by (simp add: Cons_nth_drop_Suc)
  then have hd: "hd cs = hd (take k cs @ [cs ! k])"
    by (cases k) (metis append_Nil hd_append2 list.sel(1) take_0 not_Cons_self2 append_is_Nil_conv hd_append)+
  show ?thesis
    using find_parent_cluster_run [OF S, of "take k cs" "cs ! k" "cs ! Suc k" "drop (Suc (Suc k)) cs"] ch
    unfolding cs [symmetric] hd [symmetric] by blast
qed

end

text \<open>A chain by its indices.\<close>

lemma chain_iff:
  "chain fi B cs \<longleftrightarrow> cs \<noteq> [] \<and> (\<forall>c \<in> set cs. data_cluster fi c) \<and>
     (\<forall>k. Suc k < length cs \<longrightarrow> fat_entry fi B (cs ! k) = cs ! Suc k) \<and>
     FAT_MIN_LAST_CLUSTER \<le> fat_entry fi B (last cs)"
proof (induction fi B cs rule: chain.induct)
  case (3 fi B c d cs)
  have "(\<forall>k. Suc k < length (c # d # cs) \<longrightarrow> fat_entry fi B ((c # d # cs) ! k) = (c # d # cs) ! Suc k) \<longleftrightarrow>
      fat_entry fi B c = d \<and> (\<forall>k. Suc k < length (d # cs) \<longrightarrow> fat_entry fi B ((d # cs) ! k) = (d # cs) ! Suc k)"
    (is "(\<forall>k. ?P k) \<longleftrightarrow> _ \<and> (\<forall>k. ?Q k)")
  proof -
    have "(\<forall>k. ?P k) \<longleftrightarrow> ?P 0 \<and> (\<forall>k. ?P (Suc k))" by (metis not0_implies_Suc)
    then show ?thesis by simp
  qed
  then show ?case using 3 by auto
qed simp_all

text \<open>
  Writing an entry of the FAT succeeds on a working card and changes exactly that entry: a
  read of any entry afterwards gives the new value there and the old one elsewhere, the two
  copies stay equal, and no block outside the FAT changes.
\<close>

theorem write_then_read_fat_entry:
  assumes dev: "live_device C blocks ready" and S: "fat_state blocks ready s"
    and c: "in_fat (fat_info s) c" and x: "in_fat (fat_info s) x"
  shows "\<exists>t u. write_fat_entry C c v s = Some (Inr (True, t)) \<and> fat_state blocks ready t \<and>
    read_fat_entry C x t =
      Some (Inr (if x = c then v else fat_entry (fat_info s) (blocks (dev s)) x, u)) \<and>
    (\<forall>b. b \<notin> fat_region (fat_info s) \<longrightarrow> blocks (dev t) b = blocks (dev s) b)"
proof -
  let ?B' = "fat_store (fat_info s) c v (blocks (dev s))"
  obtain t where t: "write_fat_entry C c v s = Some (Inr (True, t))" "at_disk blocks ready s ?B' t"
    using live_device.write_fat_entry_run [OF dev S c] by blast
  note eq = at_disk_simps [OF t(2)]
  have T: "fat_state blocks ready t"
    using live_device.fat_state_store [OF dev S c t(2)] .
  obtain u where "read_fat_entry C x t = Some (Inr (fat_entry (fat_info s) ?B' x, u))"
    using live_device.read_fat_entry_run [OF dev, of t x] T x unfolding eq fat_state_def by blast
  moreover have "fat_entry (fat_info s) ?B' x = (if x = c then v else fat_entry (fat_info s) (blocks (dev s)) x)"
    using live_device.entry_store [OF dev S c x] .
  moreover have "\<forall>b. b \<notin> fat_region (fat_info s) \<longrightarrow> blocks (dev t) b = blocks (dev s) b"
    using fat_store_elsewhere [OF c] by (simp add: eq(4))
  ultimately show ?thesis using t(1) T by auto
qed

theorem write_then_read_fat_entry_witness:
  "\<exists>t u. write_fat_entry sd_ops 5 9 small_fs = Some (Inr (True, t)) \<and>
     read_fat_entry sd_ops 5 t = Some (Inr (9, u))"
  using write_then_read_fat_entry [OF sd.live_device_axioms small_fs_state, of 5 5 9]
  by (auto simp: small_fs_simps small_in_fat)

lemma alloc_cluster_effect:
  assumes dev: "live_device C blocks ready" and S: "fat_state blocks ready s"
    and c: "in_fat (fat_info s) c" "fat_entry (fat_info s) (blocks (dev s)) c = 0"
    and least: "\<And>c'. c' < c \<Longrightarrow> fat_entry (fat_info s) (blocks (dev s)) c' \<noteq> 0"
    and l: "l = 0 \<or> in_fat (fat_info s) l"
  shows "\<exists>t. alloc_cluster C l s = Some (Inr (c, t)) \<and> fat_state blocks ready t \<and>
    (\<forall>x. in_fat (fat_info s) x \<longrightarrow> fat_entry (fat_info s) (blocks (dev t)) x =
       (if l \<noteq> 0 \<and> x = l then c else if x = c then 0xffff
        else fat_entry (fat_info s) (blocks (dev s)) x)) \<and>
    (\<forall>b. b \<notin> fat_region (fat_info s) \<longrightarrow> blocks (dev t) b = blocks (dev s) b)"
proof -
  let ?fi = "fat_info s" and ?B = "blocks (dev s)"
  define B1 where "B1 = fat_store ?fi c 0xffff ?B"
  define B2 where "B2 = (if l = 0 then B1 else fat_store ?fi l c B1)"
  obtain t where t: "alloc_cluster C l s = Some (Inr (c, t))" "at_disk blocks ready s B2 t"
    using live_device.alloc_cluster_run [OF dev S c(1) l c(2) least] unfolding Let_def B1_def B2_def by blast
  note eq = at_disk_simps [OF t(2)]
  have g: "good blocks s" "fat_layout ?fi (ready (dev s))" "mirrored ?fi ?B"
    using S by (simp_all add: fat_state_def)
  have lens: "ready (dev s) b \<Longrightarrow> length (?B b) = CARD_BLOCK_SIZE" for b
    using live_device.block_len [OF dev] .
  have lens1: "length (B1 b) = CARD_BLOCK_SIZE" if "ready (dev s) b" for b
    unfolding B1_def using lens [OF that] lens fat_ready [OF g(2) c(1)] by (intro length_fat_store) auto
  have e1: "fat_entry ?fi B1 x = (if x = c then 0xffff else fat_entry ?fi ?B x)" if "in_fat ?fi x" for x
    unfolding B1_def using live_device.entry_store [OF dev S c(1) that] .
  have e2: "fat_entry ?fi B2 x = (if l \<noteq> 0 \<and> x = l then c else fat_entry ?fi B1 x)" if "in_fat ?fi x" for x
  proof (cases "l = 0")
    case False
    then have il: "in_fat ?fi l" using l by simp
    have "fat_entry ?fi (fat_store ?fi l c B1) x = (if x = l then c else fat_entry ?fi B1 x)"
      using lens1 fat_ready [OF g(2) il] by (intro fat_entry_store [OF g(2) il that]) blast
    with False show ?thesis by (simp add: B2_def)
  qed (simp add: B2_def)
  have m: "mirrored ?fi B2"
    using mirrored_store [OF g(2) c(1) g(3)] mirrored_store [OF g(2)] l by (auto simp: B1_def B2_def)
  have "fat_state blocks ready t"
    using g(2) m at_disk_good [OF t(2)] by (simp add: fat_state_def eq)
  moreover have "\<forall>b. b \<notin> fat_region ?fi \<longrightarrow> blocks (dev t) b = ?B b"
    using l fat_store_elsewhere [OF c(1)] fat_store_elsewhere [of ?fi l] by (auto simp: eq(4) B1_def B2_def)
  ultimately show ?thesis using t(1) e1 e2 by (auto simp: eq(4))
qed

text \<open>
  C22: \<open>alloc_cluster\<close> takes the least free entry. It marks it as the end of a chain in both copies
  and, given the last cluster of a chain, links that cluster to it; no other entry and no block
  outside the FAT changes.
\<close>

theorem alloc_cluster_least_free:
  assumes dev: "live_device C blocks ready" and S: "fat_state blocks ready s"
    and c: "in_fat (fat_info s) c" "fat_entry (fat_info s) (blocks (dev s)) c = 0"
    and least: "\<And>c'. c' < c \<Longrightarrow> fat_entry (fat_info s) (blocks (dev s)) c' \<noteq> 0"
    and l: "l = 0 \<or> in_fat (fat_info s) l"
  shows "\<exists>t. alloc_cluster C l s = Some (Inr (c, t)) \<and> fat_state blocks ready t \<and>
    (\<forall>x. in_fat (fat_info s) x \<longrightarrow> fat_entry (fat_info s) (blocks (dev t)) x =
       (if l \<noteq> 0 \<and> x = l then c else if x = c then 0xffff
        else fat_entry (fat_info s) (blocks (dev s)) x)) \<and>
    (\<forall>b. b \<notin> fat_region (fat_info s) \<longrightarrow> blocks (dev t) b = blocks (dev s) b)"
  using dev S c least l by (rule alloc_cluster_effect)

theorem alloc_cluster_least_free_witness:
  "\<exists>t. alloc_cluster sd_ops 3 small_fs = Some (Inr (4, t)) \<and>
     fat_entry small_info (sd_block (dev t)) 3 = 4 \<and> fat_entry small_info (sd_block (dev t)) 4 = 0xffff"
  using alloc_cluster_least_free [OF sd.live_device_axioms small_fs_state, of 4 3]
    small_first_free small_fat_entries
  by (auto simp: small_fs_simps small_in_fat)

text \<open>
  On a FAT without a free entry \<open>alloc_cluster\<close> scans both copies' entries to the end and
  returns 0xFFFF; neither the card nor \<open>last_error\<close> changes.
\<close>

theorem alloc_cluster_full:
  assumes dev: "live_device C blocks ready" and S: "fat_state blocks ready s"
    and "\<And>c. in_fat (fat_info s) c \<Longrightarrow> fat_entry (fat_info s) (blocks (dev s)) c \<noteq> 0"
  shows "\<exists>t. alloc_cluster C l s = Some (Inr (0xffff, t)) \<and>
    blocks (dev t) = blocks (dev s) \<and> last_error t = last_error s"
  using live_device.alloc_sectors_full [OF assms(1,2), of 0 "unat (sectors_per_fat (fat_info s))" l 0] assms(3)
  by (auto simp: alloc_cluster_def dest: at_disk_simps)

definition full_fs :: "sd_card fs" where
  "full_fs = small_fs\<lparr>dev := small_card\<lparr>contents := (\<lambda>b. replicate 512 0xff)\<rparr>\<rparr>"

lemma full_entry: "fat_entry small_info (sd_block (dev full_fs)) c = 0xffff"
proof -
  have "Suc (2 * fat_slot c) < 512" using fat_slot_less [of c] by linarith
  then show ?thesis by (simp add: full_fs_def fat_entry_def sd_block_def rd16_def un16_def)
qed

theorem alloc_cluster_full_witness:
  "\<exists>t. alloc_cluster sd_ops 3 full_fs = Some (Inr (0xffff, t)) \<and> last_error t = 0"
proof -
  have "fat_state sd_block sd_ready full_fs"
    using small_fs_state by (simp add: fat_state_def full_fs_def good_def wf_fs_def coherent_def
        small_fs_def mirrored_def sd_block_def)
  then show ?thesis
    using alloc_cluster_full [OF sd.live_device_axioms, of full_fs 3] full_entry
    by (auto simp: full_fs_def small_fs_simps)
qed

text \<open>
  C21: \<open>free_cluster_chain\<close> on a chain terminates, succeeds, and frees exactly the clusters of the
  chain: their entries are 0 in both copies, every other entry and every block outside the FAT
  are unchanged.
\<close>

theorem free_cluster_chain_frees:
  assumes dev: "live_device C blocks ready" and S: "fat_state blocks ready s"
    and ch: "chain (fat_info s) (blocks (dev s)) (c # cs)"
  shows "\<exists>t. free_cluster_chain C c s = Some (Inr (True, t)) \<and> fat_state blocks ready t \<and>
    (\<forall>x. in_fat (fat_info s) x \<longrightarrow> fat_entry (fat_info s) (blocks (dev t)) x =
       (if x \<in> set (c # cs) then 0 else fat_entry (fat_info s) (blocks (dev s)) x)) \<and>
    (\<forall>b. b \<notin> fat_region (fat_info s) \<longrightarrow> blocks (dev t) b = blocks (dev s) b)"
  using live_device.free_chain_cleared [OF dev S ch] live_device.cleared_state [OF dev S]
  by (fastforce simp: cleared_def)

theorem free_cluster_chain_frees_witness:
  "\<exists>t. free_cluster_chain sd_ops 2 small_fs = Some (Inr (True, t)) \<and>
     fat_entry small_info (sd_block (dev t)) 2 = 0 \<and> fat_entry small_info (sd_block (dev t)) 3 = 0 \<and>
     fat_entry small_info (sd_block (dev t)) 0 = 0xfff8"
  using free_cluster_chain_frees [OF sd.live_device_axioms small_fs_state, of 2 "[3]"]
    small_chain small_fat_entries
  by (auto simp: small_fs_simps small_in_fat)

text \<open>
  \<open>find_parent_cluster\<close> started at the head of a chain returns the predecessor of any cluster
  of the chain but the head, without writing to the card.
\<close>

theorem find_parent_cluster_predecessor:
  assumes dev: "live_device C blocks ready" and S: "fat_state blocks ready s"
    and ch: "chain (fat_info s) (blocks (dev s)) cs" and k: "Suc k < length cs"
  shows "\<exists>t. find_parent_cluster C (hd cs) (cs ! Suc k) s = Some (Inr (cs ! k, t)) \<and>
    blocks (dev t) = blocks (dev s) \<and> last_error t = last_error s"
  using live_device.find_parent_nth [OF dev S ch k] by (auto dest: at_disk_simps)

theorem find_parent_cluster_predecessor_witness:
  "\<exists>t. find_parent_cluster sd_ops 2 3 small_fs = Some (Inr (2, t)) \<and> last_error t = 0"
  using find_parent_cluster_predecessor [OF sd.live_device_axioms small_fs_state, of "[2, 3]" 0] small_chain
  by (auto simp: small_fs_simps)

text \<open>A chain and one more cluster behind its last one.\<close>

lemma chain_snoc:
  assumes "chain fi B cs" and "data_cluster fi c" and "fat_entry fi B' (last cs) = c"
    and "FAT_MIN_LAST_CLUSTER \<le> fat_entry fi B' c"
    and "\<And>x. x \<in> set (butlast cs) \<Longrightarrow> fat_entry fi B' x = fat_entry fi B x"
  shows "chain fi B' (cs @ [c])"
  using assms by (induction fi B cs rule: chain.induct) auto

text \<open>
  Allocating with the last cluster of a chain as argument extends the chain by the new
  cluster.
\<close>

theorem alloc_cluster_extends_chain:
  assumes dev: "live_device C blocks ready" and S: "fat_state blocks ready s"
    and ch: "chain (fat_info s) (blocks (dev s)) cs"
    and c: "data_cluster (fat_info s) c" "fat_entry (fat_info s) (blocks (dev s)) c = 0"
    and least: "\<And>c'. c' < c \<Longrightarrow> fat_entry (fat_info s) (blocks (dev s)) c' \<noteq> 0"
  shows "\<exists>t. alloc_cluster C (last cs) s = Some (Inr (c, t)) \<and>
    chain (fat_info s) (blocks (dev t)) (cs @ [c])"
proof -
  let ?fi = "fat_info s" and ?B = "blocks (dev s)"
  have member: "data_cluster ?fi x" "x \<noteq> c" if "x \<in> set cs" for x
    using chain_data [OF ch that] chain_member_entry [OF ch that] c(2) by auto
  have l: "last cs \<in> set cs" using chain_nonempty [OF ch] by simp
  have in_fat: "in_fat ?fi c" "in_fat ?fi (last cs)" and l0: "last cs \<noteq> 0"
    using c(1) member(1) [OF l] by (auto simp: data_cluster_def)
  obtain t where t: "alloc_cluster C (last cs) s = Some (Inr (c, t))"
    "\<And>x. in_fat ?fi x \<Longrightarrow> fat_entry ?fi (blocks (dev t)) x =
       (if x = last cs then c else if x = c then 0xffff else fat_entry ?fi ?B x)"
    using alloc_cluster_effect [OF dev S in_fat(1) c(2) least, of "last cs"] in_fat l0 by auto
  have "chain ?fi (blocks (dev t)) (cs @ [c])"
  proof (rule chain_snoc [OF ch c(1)])
    fix x assume x: "x \<in> set (butlast cs)"
    then have "x \<in> set cs" by (rule in_set_butlastD)
    moreover have "x \<noteq> last cs"
      using x chain_distinct [OF ch] chain_nonempty [OF ch]
      by (metis append_butlast_last_id distinct_butlast not_distinct_conv_prefix)
    ultimately show "fat_entry ?fi (blocks (dev t)) x = fat_entry ?fi ?B x"
      using t(2) member by (simp add: data_cluster_def)
  qed (use t(2) in_fat member(2) [OF l] in auto)
  with t(1) show ?thesis by blast
qed

theorem alloc_cluster_extends_chain_witness:
  "\<exists>t. alloc_cluster sd_ops 3 small_fs = Some (Inr (4, t)) \<and>
     chain small_info (sd_block (dev t)) [2, 3, 4]"
  using alloc_cluster_extends_chain [OF sd.live_device_axioms small_fs_state, of "[2, 3]" 4]
    small_chain small_first_free small_fat_entries
  by (simp add: small_fs_simps data_cluster_def small_in_fat)

text \<open>
  On a broken FAT the search for a parent cluster need not end: where a set of clusters is
  closed under the table's links and does not link to the cluster searched, the search that
  enters it never returns.
\<close>

theorem find_parent_cluster_cycle:
  assumes dev: "live_device C blocks ready" and S: "fat_state blocks ready s"
    and X: "h \<in> X" "\<forall>x \<in> X. data_cluster (fat_info s) x \<and>
      fat_entry (fat_info s) (blocks (dev s)) x \<in> X - {cur}"
  shows "find_parent_cluster C h cur s = None"
proof (rule ccontr)
  define P where "P h cur s \<longleftrightarrow> h \<in> X \<and> fat_state blocks ready s \<and> (\<forall>x \<in> X.
     data_cluster (fat_info s) x \<and> fat_entry (fat_info s) (blocks (dev s)) x \<in> X - {cur})" for h cur s
  have never: "D = C \<longrightarrow> \<not> P h cur s" if "find_parent_cluster D h cur s = Some r" for D h cur s r
  proof (rule find_parent_cluster.raw_induct [OF _ that], intro impI notI)
    fix f :: "'a card_ops \<Rightarrow> u16 \<Rightarrow> u16 \<Rightarrow> ('a fs, u16) cmd" and D h cur s r
    assume IH: "\<And>D h cur s r. f D h cur s = Some r \<Longrightarrow> D = C \<longrightarrow> \<not> P h cur s"
      and body: "(if h < FAT_MIN_LAST_CLUSTER then
        bnd (read_fat_entry D h) (\<lambda>nxt. if nxt = 0 then ret 0 else if nxt = cur then ret h else f D nxt cur) s
        else andthen (set_last_error FAT_ERROR_FS_BROKEN) (ret 0) s) = Some r"
      and D: "D = C" and P: "P h cur s"
    let ?n = "fat_entry (fat_info s) (blocks (dev s)) h"
    have h: "data_cluster (fat_info s) h" "?n \<in> X" "?n \<noteq> cur" and S: "fat_state blocks ready s"
      using P by (auto simp: P_def)
    then have n: "data_cluster (fat_info s) ?n" using P by (simp add: P_def)
    obtain t where t: "read_fat_entry C h s = Some (Inr (?n, t))" "at_disk blocks ready s (blocks (dev s)) t"
      using live_device.read_fat_entry_run [OF dev, of s h] S h(1) unfolding fat_state_def data_cluster_def by blast
    note eq = at_disk_simps [OF t(2)]
    have "P ?n cur t"
      using P h(2) live_device.fat_state_step [OF dev S t(2)] by (simp add: P_def eq)
    moreover have "?n \<noteq> 0" using n by (auto simp: data_cluster_def)
    then have "f C ?n cur t = Some r"
      using body h(1,3) t(1) D by (simp add: data_cluster_def)
    ultimately show False using IH by blast
  qed
  assume "find_parent_cluster C h cur s \<noteq> None"
  then have "\<not> P h cur s" using never by blast
  then show False using X S by (auto simp: P_def)
qed

definition looped_fs :: "sd_card fs" where
  "looped_fs = small_fs\<lparr>dev := small_card\<lparr>contents := (\<lambda>b.
     [0xf8, 0xff, 0xff, 0xff, 0x03, 0x00, 0x02, 0x00] @ replicate 504 0)\<rparr>\<rparr>"

lemma looped_entries:
  "fat_entry small_info (sd_block (dev looped_fs)) 2 = 3"
  "fat_entry small_info (sd_block (dev looped_fs)) 3 = 2"
  "fat_info looped_fs = small_info"
  by (simp_all add: small_fs_simps looped_fs_def fat_entry_def sd_block_def rd16_def un16_def fat_slot_def)

theorem find_parent_cluster_cycle_witness: "find_parent_cluster sd_ops 2 7 looped_fs = None"
proof -
  have "fat_state sd_block sd_ready looped_fs"
    using small_fs_state by (simp add: fat_state_def looped_fs_def good_def wf_fs_def coherent_def
        small_fs_def mirrored_def sd_block_def)
  then show ?thesis
    using find_parent_cluster_cycle [OF sd.live_device_axioms, of looped_fs 2 "{2, 3}" 7]
    by (auto simp: data_cluster_def small_in_fat looped_entries)
qed


end
