(* ===== verification/FatDesc.thy ===== *)
theory FatDesc
  imports FatTable
begin

section \<open>File descriptors and mounting (lib/fat/fat.c)\<close>

text \<open>
  The table of sixteen descriptors: initialisation, allocation of a free slot, the lookup every
  operation starts with, and the queries. \<open>fat_mount\<close> reads the partition table and the boot
  sector, fills in \<open>fat_info\<close> and turns every open descriptor stale.
\<close>

subsection \<open>The table\<close>

definition fat_init :: "('d fs, unit) cmd" where
  "fat_init = modify (\<lambda>s. s\<lparr>
     fat_private_file_desc := map (\<lambda>d. d\<lparr>is_free := True, is_stale := False\<rparr>) (fat_private_file_desc s),
     cache_block_addr := INVALID_BLOCK_ADDR\<rparr>)"

text \<open>The index of the first free descriptor, or the table's size.\<close>

fun first_free :: "FileDescriptor list \<Rightarrow> nat" where
  "first_free [] = 0"
| "first_free (d # ds) = (if is_free d then 0 else Suc (first_free ds))"

definition fat_private_get_free_fd :: "('d fs, u8) cmd" where
  "fat_private_get_free_fd =
     bnd (gets (\<lambda>s. first_free (fat_private_file_desc s))) (\<lambda>fd.
     if fd = MAX_FILE_DESC then
       andthen (set_last_error FAT_ERROR_TOO_MANY_OPEN_FILES) (ret FAT_BAD_DESC)
     else andthen (upd_pfd fd (\<lambda>d. d\<lparr>is_free := False\<rparr>)) (ret (of_nat fd)))"

text \<open>\<open>get_desc\<close> returns the descriptor (its index is \<open>unat fd\<close>) or the null pointer.\<close>

definition get_desc :: "u8 \<Rightarrow> ('d fs, FileDescriptor option) cmd" where
  "get_desc fd =
     bnd (pfd (unat fd)) (\<lambda>d.
     if is_free d then andthen (set_last_error FAT_ERROR_BAD_DESCRIPTOR) (ret None)
     else if is_stale d then andthen (set_last_error FAT_ERROR_STALE_DESCRIPTOR) (ret None)
     else ret (Some d))"

definition fat_get_size :: "u8 \<Rightarrow> ('d fs, u32) cmd" where
  "fat_get_size fd = bnd (get_desc fd) (\<lambda>r.
     case r of Some d \<Rightarrow> ret (de_size (dir_entry d)) | None \<Rightarrow> ret 0xFFFFFFFF)"

definition fat_tell :: "u8 \<Rightarrow> ('d fs, u32) cmd" where
  "fat_tell fd = bnd (get_desc fd) (\<lambda>r.
     case r of Some d \<Rightarrow> ret (abs_offset d) | None \<Rightarrow> ret 0xFFFFFFFF)"

definition fat_get_dir_entry :: "u8 \<Rightarrow> ('d fs, FatDirEntry option) cmd" where
  "fat_get_dir_entry fd = bnd (get_desc fd) (\<lambda>r. ret (map_option dir_entry r))"

definition fat_private_init_root_dir :: "nat \<Rightarrow> ('d fs, unit) cmd" where
  "fat_private_init_root_dir i = bnd (gets fat_info) (\<lambda>fi.
     upd_pfd i (\<lambda>d. d\<lparr>is_root := True, block_addr := root_dir_block fi, block_in_cluster := 0,
       index_in_block := 0, abs_offset := 0, dir_entry_modified := False\<rparr>))"

subsection \<open>Mounting\<close>

text \<open>The loop that halves \<open>sectors_per_cluster\<close> until it is 1 (or 0).\<close>

function log_loop :: "u8 \<Rightarrow> u8 \<Rightarrow> u8" where
  "log_loop lg n = (if 1 < n then log_loop (lg + 1) (drop_bit 1 n) else lg)"
  by pat_completeness auto
termination
  by (relation "measure (\<lambda>(lg, n). unat n)")
    (auto simp: unat_drop word_less_nat_alt simp del: drop_bit_eq_div)

declare log_loop.simps [simp del]

definition upd_info :: "(FatInfo \<Rightarrow> FatInfo) \<Rightarrow> ('d fs, unit) cmd" where
  "upd_info f = modify (\<lambda>s. s\<lparr>fat_info := f (fat_info s)\<rparr>)"

definition mark_stale :: "FileDescriptor \<Rightarrow> FileDescriptor" where
  "mark_stale d = (if \<not> is_free d then d\<lparr>is_stale := True\<rparr> else d)"

text \<open>The part of \<open>fat_mount\<close> that follows the two FATs; \<open>offset\<close> is the root directory's block.\<close>

definition mount_rest :: "BPB \<Rightarrow> u32 \<Rightarrow> ('d fs, bool) cmd" where
  "mount_rest bpb offset =
     (let lg = log_loop 0 (bpb_sectors_per_cluster bpb);
          offset' = offset + ucast (drop_bit 4 (bpb_n_dir_entries bpb + 15));
          data_sectors = (if bpb_total_sectors bpb = 0 then bpb_large_sectors bpb
                          else ucast (bpb_total_sectors bpb)) - offset';
          n_clus = drop_bit (unat lg) data_sectors
      in
      andthen (upd_info (\<lambda>fi. fi\<lparr>root_dir_block := offset, sectors_per_fat := bpb_sectors_per_fat bpb,
         sectors_per_cluster := bpb_sectors_per_cluster bpb, log_sectors_per_cluster := lg,
         n_dir_entries := bpb_n_dir_entries bpb, data_offset := offset'\<rparr>))
      (if n_clus < 4085 then andthen (set_last_error FAT_ERROR_UNSUPPORTED_FAT_TYPE) (ret False)
       else if n_clus < 65525 then andthen (upd_info (\<lambda>fi. fi\<lparr>n_clusters := ucast n_clus\<rparr>)) (ret True)
       else andthen (set_last_error FAT_ERROR_UNSUPPORTED_FAT_TYPE) (ret False)))"

definition mount_bpb :: "BPB \<Rightarrow> ('d fs, bool) cmd" where
  "mount_bpb bpb =
     (if bpb_bytes_per_sector bpb \<noteq> 512 then
        andthen (set_last_error FAT_ERROR_UNSUPPORTED_SECTOR_SIZE) (ret False)
      else
        (let offset = bpb_n_hidden_sectors bpb + ucast (bpb_n_reserved_sectors bpb);
             offset1 = offset + ucast (bpb_sectors_per_fat bpb)
         in andthen (upd_info (\<lambda>fi. fi\<lparr>fat0_offset := offset\<rparr>))
         (if bpb_n_fats bpb = 2 then
            andthen (upd_info (\<lambda>fi. fi\<lparr>fat1_offset := offset1\<rparr>))
              (mount_rest bpb (offset1 + ucast (bpb_sectors_per_fat bpb)))
          else if 2 < bpb_n_fats bpb then
            andthen (set_last_error FAT_ERROR_TOO_MANY_FATS) (ret False)
          else mount_rest bpb offset1)))"

definition fat_mount :: "'d card_ops \<Rightarrow> ('d fs, bool) cmd" where
  "fat_mount C =
     andthen (modify (\<lambda>s. s\<lparr>cache_block_addr := INVALID_BLOCK_ADDR\<rparr>))
     (andthen (modify (\<lambda>s. s\<lparr>fat_private_file_desc := map mark_stale (fat_private_file_desc s)\<rparr>))
     (bnd (card_init C) (\<lambda>r.
      if r \<noteq> CARD_SUCCESS then andthen (set_fat_error C r) (ret False)
      else
        or_return (cache C 0) False
        (bnd (gets (\<lambda>s. decode_partition (cache_block s) 446)) (\<lambda>partition.
         or_return (cache C (part_rel_sector partition)) False
         (bnd (gets (\<lambda>s. decode_bpb (cache_block s))) mount_bpb))))))"

subsection \<open>Lemmas\<close>

lemma first_free_le: "first_free ds \<le> length ds"
  by (induction ds) auto

lemma first_free_least: "j < first_free ds \<Longrightarrow> \<not> is_free (ds ! j)"
  by (induction ds arbitrary: j) (auto simp: nth_Cons split: nat.splits if_splits)

lemma first_free_free: "first_free ds < length ds \<Longrightarrow> is_free (ds ! first_free ds)"
  by (induction ds) (auto split: if_splits)

lemma first_free_full: "first_free ds = length ds \<longleftrightarrow> (\<forall>i < length ds. \<not> is_free (ds ! i))"
  using first_free_least [of _ ds] first_free_free [of ds] first_free_le [of ds]
  by (metis le_neq_implies_less)

lemma mark_stale_simps [simp]: "is_free (mark_stale d) = is_free d"
  "is_stale (mark_stale d) \<longleftrightarrow> is_stale d \<or> \<not> is_free d"
  by (simp_all add: mark_stale_def)

text \<open>The number of halvings is the binary logarithm, rounded down.\<close>

lemma log_loop_bounds:
  "0 < n \<Longrightarrow> \<exists>k. log_loop lg n = lg + of_nat k \<and> 2 ^ k \<le> unat n \<and> unat n < 2 ^ Suc k"
proof (induction lg n rule: log_loop.induct)
  case (1 lg n)
  have pos: "0 < unat n" using 1(2) by (simp add: word_less_nat_alt)
  show ?case
  proof (cases "1 < n")
    case False
    then have "unat n = 1" using pos by (simp add: word_less_nat_alt)
    then show ?thesis using False by (subst log_loop.simps) (auto intro!: exI [of _ 0])
  next
    case True
    let ?n = "drop_bit 1 n"
    have half: "unat ?n = unat n div 2" by (simp add: unat_drop del: drop_bit_eq_div)
    have "2 \<le> unat n" using True by (simp add: word_less_nat_alt)
    then have "0 < ?n" using half by (simp add: word_less_nat_alt del: drop_bit_eq_div)
    then obtain k where k: "log_loop (lg + 1) ?n = lg + 1 + of_nat k" "2 ^ k \<le> unat ?n" "unat ?n < 2 ^ Suc k"
      using 1(1) [OF True] by blast
    have "2 * (unat n div 2) \<le> unat n" "unat n < 2 * (unat n div 2) + 2" by simp_all
    then have "2 ^ Suc k \<le> unat n" "unat n < 2 ^ Suc (Suc k)"
      using k(2,3) unfolding half power_Suc by linarith+
    moreover have "log_loop lg n = lg + of_nat (Suc k)"
      using True k(1) by (subst log_loop.simps) simp
    ultimately show ?thesis by blast
  qed
qed

lemma log_loop_log:
  assumes "0 < n"
  shows "2 ^ unat (log_loop 0 n) \<le> unat n \<and> unat n < 2 ^ Suc (unat (log_loop 0 n))"
proof -
  obtain k where k: "log_loop 0 n = 0 + of_nat k" "2 ^ k \<le> unat n" "unat n < 2 ^ Suc k"
    using log_loop_bounds [OF assms] by blast
  have "(2 :: nat) ^ k < 2 ^ 8" using k(2) unat_u8 [of n] by simp
  then have "k < 8" by (simp only: power_strict_increasing_iff)
  then show ?thesis using k by (simp add: unat_of_nat_mod)
qed

text \<open>What a mounted volume's numbers satisfy.\<close>

definition mounted_info :: "FatInfo \<Rightarrow> bool" where
  "mounted_info fi \<longleftrightarrow> 4085 \<le> n_clusters fi \<and> n_clusters fi < 65525 \<and>
     data_offset fi = root_dir_block fi + ucast (drop_bit 4 (n_dir_entries fi + 15)) \<and>
     log_sectors_per_cluster fi = log_loop 0 (sectors_per_cluster fi)"

lemma fat16_clusters:
  "\<not> (n :: u32) < 4085 \<Longrightarrow> n < 65525 \<Longrightarrow> 4085 \<le> (ucast n :: u16) \<and> (ucast n :: u16) < 65525"
  by (simp add: word_less_nat_alt word_le_nat_alt unat_ucast_mod not_less)

lemma wlp_upd_info [wp_simps]: "wlp (upd_info f) Q s = Q () (s\<lparr>fat_info := f (fat_info s)\<rparr>)"
  by (simp add: upd_info_def wp_simps)

lemma wp_upd_info [wp_simps]: "wp (upd_info f) Q s = Q () (s\<lparr>fat_info := f (fat_info s)\<rparr>)"
  by (simp add: upd_info_def wp_simps)

lemma mount_bpb_wlp:
  "wlp (mount_bpb bpb) (\<lambda>ok t. fat_private_file_desc t = fat_private_file_desc s \<and>
     cache_block t = cache_block s \<and> (ok \<longrightarrow> mounted_info (fat_info t) \<and> last_error t = last_error s)) s"
  using fat16_clusters
  by (simp add: mount_bpb_def mount_rest_def Let_def wp_simps mounted_info_def del: drop_bit_eq_div)

context sized_card
begin

lemma fat_mount_wlp:
  assumes "wf_fs s"
  shows "wlp (fat_mount C) (\<lambda>ok t. wf_fs t \<and>
    fat_private_file_desc t = map mark_stale (fat_private_file_desc s) \<and>
    (ok \<longrightarrow> mounted_info (fat_info t))) s"
proof -
  let ?ds = "map mark_stale (fat_private_file_desc s)"
  let ?I = "layer_frame ?ds (fat_info s)"
  let ?Q = "\<lambda>ok t. wf_fs t \<and> fat_private_file_desc t = ?ds \<and> (ok \<longrightarrow> mounted_info (fat_info t))"
  have I: "?I t \<Longrightarrow> wf_fs t \<and> fat_private_file_desc t = ?ds" for t
    using assms by (auto simp: layer_frame_def wf_fs_def)
  have bpb: "wlp (mount_bpb (decode_bpb (cache_block u))) ?Q u" if "?I u" for u
    using I [OF that] by (auto simp: wf_fs_def intro: wlp_mono [OF mount_bpb_wlp])
  have blk: "wlp (or_return (cache C b) False (k :: ('d fs, bool) cmd)) ?Q u"
    if "?I u" and "\<And>t. ?I t \<Longrightarrow> wlp k ?Q t" for b k u
    by (rule wlp_bndI [OF frame.keeps_cache [OF that(1)]]) (auto simp: wlp_ret intro: that(2) dest: I)
  have "?I (s\<lparr>cache_block_addr := INVALID_BLOCK_ADDR, fat_private_file_desc := ?ds\<rparr>)"
    using assms by (simp add: layer_frame_def wf_fs_def)
  then have dev: "?I (s\<lparr>cache_block_addr := INVALID_BLOCK_ADDR, fat_private_file_desc := ?ds, dev := d\<rparr>)" for d
    by (simp add: layer_frame_def)
  have fail: "wlp (andthen (set_fat_error C r) (ret False)) ?Q u" if "?I u" for r u
    by (rule wlp_bndI [OF frame.keeps_set_fat_error [OF that]]) (auto simp: wlp_ret dest: I)
  have rest: "wlp (bnd (gets (\<lambda>s. decode_partition (cache_block s) 446)) (\<lambda>partition.
      or_return (cache C (part_rel_sector partition)) False
        (bnd (gets (\<lambda>s. decode_bpb (cache_block s))) mount_bpb))) ?Q u" if "?I u" for u
    unfolding wlp_bnd [of "gets f" for f] wlp_gets
    by (rule blk [OF that]) (simp add: wlp_bnd wlp_gets bpb)
  show ?thesis
    unfolding fat_mount_def wlp_bnd [of "modify f" for f] wlp_bnd [of "card_init C"] wlp_modify wlp_card_init wlp_if
    using fail dev rest by (auto intro!: blk)
qed

end

subsection \<open>The properties\<close>

text \<open>
  A new descriptor is the first free one: it is marked as used and nothing else changes. With
  all sixteen in use the call fails with \<open>FAT_ERROR_TOO_MANY_OPEN_FILES\<close> and changes nothing else.
\<close>

theorem get_free_fd_first:
  assumes "wf_fs s"
  shows "(\<exists>i < MAX_FILE_DESC. is_free (fat_private_file_desc s ! i) \<and>
      (\<forall>j < i. \<not> is_free (fat_private_file_desc s ! j)) \<and>
      fat_private_get_free_fd s = Some (Inr (of_nat i, s\<lparr>fat_private_file_desc :=
        (fat_private_file_desc s)[i := (fat_private_file_desc s ! i)\<lparr>is_free := False\<rparr>]\<rparr>))) \<or>
    (\<forall>i < MAX_FILE_DESC. \<not> is_free (fat_private_file_desc s ! i)) \<and>
      fat_private_get_free_fd s = Some (Inr (FAT_BAD_DESC, s\<lparr>last_error := FAT_ERROR_TOO_MANY_OPEN_FILES\<rparr>))"
proof -
  let ?ds = "fat_private_file_desc s" and ?i = "first_free (fat_private_file_desc s)"
  have len: "length ?ds = MAX_FILE_DESC" using assms by (simp add: wf_fs_def)
  show ?thesis
  proof (cases "?i = MAX_FILE_DESC")
    case True
    then show ?thesis
      using first_free_full [of ?ds] len by (simp add: fat_private_get_free_fd_def set_last_error_def)
  next
    case False
    then have "?i < MAX_FILE_DESC" using first_free_le [of ?ds] len by simp
    moreover from this have "fat_private_get_free_fd s = Some (Inr (of_nat ?i, s\<lparr>fat_private_file_desc :=
        ?ds[?i := (?ds ! ?i)\<lparr>is_free := False\<rparr>]\<rparr>))"
      using len by (simp add: fat_private_get_free_fd_def upd_pfd_def bnd_def)
    ultimately show ?thesis using first_free_free [of ?ds] first_free_least [of _ ?ds] len by auto
  qed
qed

theorem get_free_fd_first_witness:
  "\<exists>t. fat_private_get_free_fd small_fs = Some (Inr (0, t)) \<and> \<not> is_free (fat_private_file_desc t ! 0)"
proof -
  have "wf_fs small_fs" using small_fs_good by (simp add: good_def)
  moreover have d: "fat_private_file_desc small_fs = replicate 16 free_desc" "is_free free_desc"
    by (simp_all add: small_fs_def free_desc_def)
  ultimately obtain i where i: "i < 16" "\<forall>j < i. \<not> is_free (fat_private_file_desc small_fs ! j)"
    "fat_private_get_free_fd small_fs = Some (Inr (of_nat i, small_fs\<lparr>fat_private_file_desc :=
        (fat_private_file_desc small_fs)[i := (fat_private_file_desc small_fs ! i)\<lparr>is_free := False\<rparr>]\<rparr>))"
    using get_free_fd_first [of small_fs] by force
  have "i = 0" using i(1,2) d by (cases i) auto
  then show ?thesis using i(3) d by simp
qed

text \<open>
  Whatever the card does, \<open>fat_mount\<close> leaves exactly the descriptors open before stale, and
  where it returns true the volume's numbers fit together: a FAT16 cluster count, the data behind
  the root directory, the logarithm of the cluster size rounded down.
\<close>

theorem fat_mount_outcome:
  assumes "sized_card C" and "wf_fs s"
  shows "wlp (fat_mount C) (\<lambda>ok t. wf_fs t \<and>
    fat_private_file_desc t = map mark_stale (fat_private_file_desc s) \<and>
    (ok \<longrightarrow> mounted_info (fat_info t) \<and>
       (0 < sectors_per_cluster (fat_info t) \<longrightarrow>
          2 ^ unat (log_sectors_per_cluster (fat_info t)) \<le> unat (sectors_per_cluster (fat_info t)) \<and>
          unat (sectors_per_cluster (fat_info t)) < 2 ^ Suc (unat (log_sectors_per_cluster (fat_info t)))))) s"
  using log_loop_log
  by (intro wlp_mono [OF sized_card.fat_mount_wlp [OF assms]]) (auto simp: mounted_info_def)

text \<open>
  A card with a partition from block 1 on: a boot sector with 4200 blocks in all, one block per
  cluster, two FATs of sixteen blocks and a root directory of sixteen entries.
\<close>

definition boot_sector :: bytes where
  "boot_sector = [0xeb, 0x3c, 0x90, 0x20, 0x20, 0x20, 0x20, 0x20, 0x20, 0x20, 0x20, 0x00, 0x02, 0x01, 0x01, 0x00, 0x02, 0x10, 0x00,
     0x68, 0x10, 0xf8, 0x10, 0x00, 0x3f, 0x00, 0xff, 0x00, 0x01, 0x00, 0x00, 0x00, 0, 0, 0, 0]"

definition boot_card :: sd_card where
  "boot_card = \<lparr>present = True, initialised = False, n_blocks = 4300, contents = (\<lambda>b.
     if b = 0 then replicate 446 0 @ [0, 0, 0, 0, 6, 0, 0, 0, 1, 0, 0, 0, 0x68, 0x10, 0, 0]
     else if b = 1 then boot_sector else [])\<rparr>"

definition boot_fs :: "sd_card fs" where
  "boot_fs = small_fs\<lparr>dev := boot_card, fat_private_file_desc :=
     free_desc\<lparr>is_free := False\<rparr> # replicate 15 free_desc\<rparr>"

definition boot_info :: FatInfo where
  "boot_info = \<lparr>fat0_offset = 2, fat1_offset = 18, root_dir_block = 34, data_offset = 35,
     n_dir_entries = 16, n_clusters = 4165, sectors_per_fat = 16, log_sectors_per_cluster = 0,
     sectors_per_cluster = 1\<rparr>"

lemma boot_blocks:
  "part_rel_sector (decode_partition (sd_block boot_card 0) 446) = 1"
  "decode_bpb (sd_block boot_card 1) = \<lparr>bpb_jump = [0xeb, 0x3c, 0x90], bpb_oem_id = [0x20, 0x20, 0x20, 0x20, 0x20, 0x20, 0x20, 0x20],
     bpb_bytes_per_sector = 512, bpb_sectors_per_cluster = 1, bpb_n_reserved_sectors = 1,
     bpb_n_fats = 2, bpb_n_dir_entries = 16, bpb_total_sectors = 4200,
     bpb_media_descriptor_type = 0xf8, bpb_sectors_per_fat = 16, bpb_sectors_per_track = 63,
     bpb_n_heads = 255, bpb_n_hidden_sectors = 1, bpb_large_sectors = 0\<rparr>"
  by (simp_all add: sd_block_def boot_card_def boot_sector_def decode_partition_def decode_bpb_def
      rd32_def rd16_def un32_def un16_def nth_append slice_at_def)

lemma boot_mount:
  "\<exists>t. fat_mount sd_ops boot_fs = Some (Inr (True, t)) \<and> fat_info t = boot_info"
proof -
  have ops: "op_init sd_ops boot_card = Some (0, boot_card\<lparr>initialised := True\<rparr>)"
    "op_read sd_ops b buf (boot_card\<lparr>initialised := True\<rparr>) =
       Some (if b < 4300 then (0, sd_block boot_card b, boot_card\<lparr>initialised := True\<rparr>)
         else (11, buf, boot_card\<lparr>initialised := True\<rparr>))" for b buf
    by (simp_all add: sd_ops_def sd_code_def boot_card_def sd_block_def not_le not_less)
  have "log_loop 0 1 = 0" by (simp add: log_loop.simps)
  then show ?thesis
    by (simp add: fat_mount_def boot_fs_def small_fs_def card_init_def cache_def card_read_block_def bnd_def
        ops boot_blocks mount_bpb_def mount_rest_def upd_info_def Let_def boot_info_def)
qed

theorem fat_mount_outcome_witness:
  "\<exists>t. fat_mount sd_ops boot_fs = Some (Inr (True, t)) \<and>
     is_stale (fat_private_file_desc t ! 0) \<and> \<not> is_stale (fat_private_file_desc t ! 1) \<and>
     mounted_info (fat_info t) \<and> fat_info t = boot_info"
proof -
  have "wf_fs boot_fs" by (simp add: wf_fs_def boot_fs_def small_fs_def)
  from fat_mount_outcome [OF sd.sized_card_axioms this] boot_mount show ?thesis
    by (auto simp: wlp_def boot_fs_def mark_stale_def free_desc_def)
qed

end
