(* ===== verification/FatFile.thy ===== *)
theory FatFile
  imports FatDesc
begin

section \<open>Reading, writing and seeking in a file (lib/fat/fat.c)\<close>

text \<open>
  A descriptor holds a position in the cluster chain of its file: the current cluster and the
  table's value for it, the block in the cluster, the block's address and the offset in the
  block. \<open>seek_begin\<close> and \<open>seek_advance\<close> move it, \<open>fat_action\<close> is the loop behind \<open>fat_read\<close> and
  \<open>fat_write\<close>; \<open>i\<close> is the index of the descriptor. The caller's buffer is the byte list
  \<open>data\<close>, \<open>pos\<close> the distance the pointer has moved in it.
\<close>

text \<open>The block address of a cluster: \<open>data_offset + ((uint32_t)(c - 2) << log)\<close>.\<close>

definition cluster_addr :: "FatInfo \<Rightarrow> u16 \<Rightarrow> u32" where
  "cluster_addr fi c = data_offset fi + push_bit (unat (log_sectors_per_cluster fi)) (ucast (c - 2))"

text \<open>\<open>~(0xffff << (log + 9))\<close>: the mask of an offset in a cluster.\<close>

definition cluster_mask :: "FatInfo \<Rightarrow> u16" where
  "cluster_mask fi = NOT (push_bit (unat (log_sectors_per_cluster fi) + 9) 0xffff)"

subsection \<open>Moving the position\<close>

definition seek_begin :: "'d card_ops \<Rightarrow> nat \<Rightarrow> ('d fs, bool) cmd" where
  "seek_begin C i =
     bnd (gets fat_info) (\<lambda>fi.
     andthen (upd_pfd i (\<lambda>d. d\<lparr>
        block_addr := cluster_addr fi (de_cluster_lo (dir_entry d)),
        block_in_cluster := 0, index_in_block := 0,
        cur_cluster := de_cluster_lo (dir_entry d)\<rparr>))
     (bnd (pfd i) (\<lambda>d.
      andthen
        (if cur_cluster d \<noteq> 0 then
           bnd (read_fat_entry C (de_cluster_lo (dir_entry d))) (\<lambda>n.
           upd_pfd i (\<lambda>d. d\<lparr>next_cluster := n\<rparr>))
         else upd_pfd i (\<lambda>d. d\<lparr>next_cluster := 0xffff\<rparr>))
      (andthen (upd_pfd i (\<lambda>d. d\<lparr>abs_offset := 0\<rparr>))
      (bnd (pfd i) (\<lambda>d. ret (next_cluster d \<noteq> 0)))))))"

text \<open>The number of bytes in the last cluster of a file of that size (a full cluster, not 0).\<close>

definition init_last_len :: "FatInfo \<Rightarrow> u32 \<Rightarrow> u16" where
  "init_last_len fi size' =
     (if size' = 0 then 0
      else (let len = ucast size' AND cluster_mask fi
            in if len = 0 then cluster_mask fi + 1 else len))"

definition fat_private_init_fd :: "'d card_ops \<Rightarrow> nat \<Rightarrow> ('d fs, bool) cmd" where
  "fat_private_init_fd C i =
     bnd (gets fat_info) (\<lambda>fi.
     andthen (upd_pfd i (\<lambda>d. d\<lparr>is_root := False\<rparr>))
     (andthen (upd_pfd i (\<lambda>d. d\<lparr>last_cluster_len := init_last_len fi (de_size (dir_entry d))\<rparr>))
     (andthen (upd_pfd i (\<lambda>d. d\<lparr>dir_entry_modified := False\<rparr>))
     (seek_begin C i))))"

definition seek_advance :: "'d card_ops \<Rightarrow> nat \<Rightarrow> u16 \<Rightarrow> ('d fs, bool) cmd" where
  "seek_advance C i advance =
     bnd (gets fat_info) (\<lambda>fi.
     andthen (upd_pfd i (\<lambda>d. d\<lparr>index_in_block := index_in_block d + advance,
        abs_offset := abs_offset d + ucast advance\<rparr>))
     (bnd (pfd i) (\<lambda>d.
      if index_in_block d = 512 then
        andthen (upd_pfd i (\<lambda>d. d\<lparr>block_in_cluster := block_in_cluster d + 1, index_in_block := 0\<rparr>))
        (bnd (pfd i) (\<lambda>d.
         if block_in_cluster d = sectors_per_cluster fi then
           (if is_root d then
              andthen (upd_pfd i (\<lambda>d. d\<lparr>block_addr := block_addr d + 1\<rparr>)) (ret True)
            else if next_cluster d < FAT_MIN_LAST_CLUSTER then
              andthen (upd_pfd i (\<lambda>d. d\<lparr>block_addr := cluster_addr fi (next_cluster d),
                 cur_cluster := next_cluster d\<rparr>))
              (bnd (read_fat_entry C (next_cluster d)) (\<lambda>n.
               andthen (upd_pfd i (\<lambda>d. d\<lparr>next_cluster := n\<rparr>))
               (if n = 0 then ret False
                else andthen (upd_pfd i (\<lambda>d. d\<lparr>block_in_cluster := 0\<rparr>)) (ret True))))
            else ret True)
         else
           andthen (upd_pfd i (\<lambda>d. d\<lparr>block_addr := block_addr d + 1\<rparr>)) (ret True)))
      else ret True)))"

subsection \<open>Reading and writing\<close>

text \<open>A write to a file that has no cluster yet: the first cluster (false: allocation failed).\<close>

definition first_cluster :: "'d card_ops \<Rightarrow> nat \<Rightarrow> bool \<Rightarrow> ('d fs, bool) cmd" where
  "first_cluster C i is_write =
     bnd (pfd i) (\<lambda>d.
     if is_write \<and> cur_cluster d = 0 then
       bnd (alloc_cluster C 0) (\<lambda>new_cluster.
       if new_cluster = 0xffff then ret False
       else bnd (gets fat_info) (\<lambda>fi.
         andthen (upd_pfd i (\<lambda>d. d\<lparr>cur_cluster := new_cluster, next_cluster := 0xffff,
            dir_entry_modified := True,
            dir_entry := (dir_entry d)\<lparr>de_cluster_lo := new_cluster\<rparr>,
            block_addr := cluster_addr fi new_cluster\<rparr>)) (ret True)))
     else ret True)"

text \<open>A write at the end of a full last cluster: the next cluster.\<close>

definition append_cluster :: "'d card_ops \<Rightarrow> nat \<Rightarrow> bool \<Rightarrow> ('d fs, bool) cmd" where
  "append_cluster C i is_write =
     bnd (gets fat_info) (\<lambda>fi.
     bnd (pfd i) (\<lambda>d.
     if FAT_MIN_LAST_CLUSTER \<le> next_cluster d \<and> is_write \<and>
        block_in_cluster d = sectors_per_cluster fi then
       bnd (alloc_cluster C (cur_cluster d)) (\<lambda>new_cluster.
       if new_cluster = 0xffff then ret False
       else andthen (upd_pfd i (\<lambda>d. d\<lparr>cur_cluster := new_cluster, next_cluster := 0xffff,
            block_addr := cluster_addr fi new_cluster,
            last_cluster_len := 0, block_in_cluster := 0\<rparr>)) (ret True))
     else ret True))"

text \<open>
  The length of the next transfer; in the last block of a file a write extends the file. Sums
  and differences are of the type \<open>uint16_t\<close>, as \<open>int\<close> has 16 bits on the target.
\<close>

definition next_chunk :: "nat \<Rightarrow> bool \<Rightarrow> u16 \<Rightarrow> ('d fs, u16) cmd" where
  "next_chunk i is_write len =
     bnd (pfd i) (\<lambda>d.
     let full = 512 - index_in_block d;
         remainder = last_cluster_len d - push_bit 9 (ucast (block_in_cluster d));
         chunk = remainder - index_in_block d
     in
     bnd (if FAT_MIN_LAST_CLUSTER \<le> next_cluster d \<and> remainder \<le> 512 then
            (if is_write \<and> chunk < len then
               (let grown = (if 512 < len + index_in_block d then full else len);
                    delta_size = index_in_block d + grown - remainder
                in andthen (upd_pfd i (\<lambda>d. d\<lparr>last_cluster_len := last_cluster_len d + delta_size,
                     dir_entry := (dir_entry d)\<lparr>de_size := de_size (dir_entry d) + ucast delta_size\<rparr>,
                     dir_entry_modified := True\<rparr>)) (ret grown))
             else ret chunk)
          else ret full) (\<lambda>chunk_len.
     ret (if len < chunk_len then len else chunk_len)))"

text \<open>The \<open>memcpy\<close> between the cached block and the caller's buffer.\<close>

definition transfer :: "'d card_ops \<Rightarrow> bool \<Rightarrow> nat \<Rightarrow> bytes \<Rightarrow> nat \<Rightarrow> nat \<Rightarrow> ('d fs, bool \<times> bytes) cmd" where
  "transfer C is_write idx data pos n =
     (if length data < pos + n then abort Overrun
      else if is_write then
        andthen (poke_bytes idx (slice_at data pos n))
          (bnd (flush_cache C) (\<lambda>ok. ret (ok, data)))
      else
        bnd (peek_bytes idx n) (\<lambda>xs. ret (True, splice_at data pos xs)))"

partial_function (option) fat_action_loop ::
    "'d card_ops \<Rightarrow> nat \<Rightarrow> bool \<Rightarrow> bytes \<Rightarrow> nat \<Rightarrow> u16 \<Rightarrow> u16 \<Rightarrow> ('d fs, u16 \<times> bytes) cmd" where
  "fat_action_loop C i is_write data pos len result s =
     (if len \<noteq> 0 then
        or_return (first_cluster C i is_write) (result, data)
        (or_return (append_cluster C i is_write) (result, data)
        (bnd (next_chunk i is_write len) (\<lambda>chunk_len.
         bnd (pfd i) (\<lambda>d.
         if chunk_len = 0 then
           andthen (if abs_offset d = de_size (dir_entry d) then set_last_error FAT_EOF else ret ())
             (ret (result, data))
         else
           or_return (cache C (block_addr d)) (result, data)
           (bnd (transfer C is_write (unat (index_in_block d)) data pos (unat chunk_len)) (\<lambda>w.
            if \<not> fst w then ret (result, snd w)
            else
              or_return (seek_advance C i chunk_len) (result, snd w)
              (fat_action_loop C i is_write (snd w) (pos + unat chunk_len)
                 (len - chunk_len) (result + chunk_len)))))))) s
      else ret (result, data) s)"

definition fat_action :: "'d card_ops \<Rightarrow> u8 \<Rightarrow> bytes \<Rightarrow> u16 \<Rightarrow> bool \<Rightarrow> ('d fs, u16 \<times> bytes) cmd" where
  "fat_action C fd data len is_write =
     bnd (get_desc fd) (\<lambda>r.
     if r = None then ret (0, data)
     else fat_action_loop C (unat fd) is_write data 0 len 0)"

text \<open>\<open>fat_read\<close> returns the number of bytes and the buffer after the call.\<close>

definition fat_read :: "'d card_ops \<Rightarrow> u8 \<Rightarrow> bytes \<Rightarrow> u16 \<Rightarrow> ('d fs, u16 \<times> bytes) cmd" where
  "fat_read C fd dst len = fat_action C fd dst len False"

definition fat_write :: "'d card_ops \<Rightarrow> u8 \<Rightarrow> bytes \<Rightarrow> u16 \<Rightarrow> ('d fs, u16) cmd" where
  "fat_write C fd src len = bnd (fat_action C fd src len True) (\<lambda>w. ret (fst w))"

subsection \<open>Closing, truncating and seeking\<close>

definition fat_close :: "'d card_ops \<Rightarrow> u8 \<Rightarrow> ('d fs, bool) cmd" where
  "fat_close C fd =
     bnd (pfd (unat fd)) (\<lambda>d.
     bnd (if dir_entry_modified d then
            (if is_stale d then
               andthen (set_last_error FAT_ERROR_STALE_DESCRIPTOR) (ret False)
             else
               andthen (cache C (dir_entry_block_addr d))
               (andthen (poke_bytes (unat (dir_entry_index_in_block d)) (encode_entry (dir_entry d)))
               (andthen (flush_cache C) (ret True))))
          else ret True) (\<lambda>result.
     andthen (upd_pfd (unat fd) (\<lambda>d. d\<lparr>is_free := True, is_stale := False\<rparr>))
       (ret result)))"

text \<open>The end of \<open>fat_truncate\<close>: free what follows the current cluster, and the last length.\<close>

definition truncate_tail :: "'d card_ops \<Rightarrow> nat \<Rightarrow> ('d fs, bool) cmd" where
  "truncate_tail C i =
     bnd (gets fat_info) (\<lambda>fi.
     bnd (pfd i) (\<lambda>d.
     or_return
       (if next_cluster d < FAT_MIN_LAST_CLUSTER then
          or_return (write_fat_entry C (cur_cluster d) 0xffff) False
          (or_return (free_cluster_chain C (next_cluster d)) False
          (andthen (upd_pfd i (\<lambda>d. d\<lparr>next_cluster := 0xffff\<rparr>)) (ret True)))
        else ret True) False
     (andthen (upd_pfd i (\<lambda>d.
        let len = ucast (abs_offset d) AND cluster_mask fi
        in d\<lparr>last_cluster_len :=
             (if len = 0 \<and> block_in_cluster d \<noteq> 0 then cluster_mask fi + 1 else len)\<rparr>))
       (ret True))))"

definition fat_truncate :: "'d card_ops \<Rightarrow> u8 \<Rightarrow> ('d fs, bool) cmd" where
  "fat_truncate C fd =
     (let i = unat fd in
     bnd (get_desc fd) (\<lambda>r. case r of None \<Rightarrow> ret False | Some d \<Rightarrow>
     if abs_offset d = de_size (dir_entry d) then ret True
     else
       andthen (upd_pfd i (\<lambda>d. d\<lparr>dir_entry := (dir_entry d)\<lparr>de_size := abs_offset d\<rparr>,
          dir_entry_modified := True\<rparr>))
       (if (ucast (block_in_cluster d) OR index_in_block d) = 0 then
          (if cur_cluster d = de_cluster_lo (dir_entry d) then
             andthen (upd_pfd i (\<lambda>d. d\<lparr>dir_entry := (dir_entry d)\<lparr>de_cluster_lo := 0\<rparr>\<rparr>))
             (bnd (free_cluster_chain C (cur_cluster d)) (\<lambda>r.
              andthen (upd_pfd i (\<lambda>d. d\<lparr>cur_cluster := 0, next_cluster := 0xffff\<rparr>)) (ret r)))
           else
             bnd (find_parent_cluster C (de_cluster_lo (dir_entry d)) (cur_cluster d)) (\<lambda>parent.
             if parent = 0 then ret False
             else bnd (gets fat_info) (\<lambda>fi.
               andthen (upd_pfd i (\<lambda>d. d\<lparr>next_cluster := cur_cluster d, cur_cluster := parent,
                  block_in_cluster := sectors_per_cluster fi\<rparr>))
               (truncate_tail C i))))
        else truncate_tail C i)))"

text \<open>The loop of \<open>fat_seek_end\<close>.\<close>

partial_function (option) seek_end_loop :: "'d card_ops \<Rightarrow> nat \<Rightarrow> ('d fs, bool) cmd" where
  "seek_end_loop C i s =
     bnd (pfd i) (\<lambda>d.
     if next_cluster d < FAT_MIN_LAST_CLUSTER then
       andthen (upd_pfd i (\<lambda>d. d\<lparr>cur_cluster := next_cluster d\<rparr>))
       (bnd (read_fat_entry C (next_cluster d)) (\<lambda>n.
        andthen (upd_pfd i (\<lambda>d. d\<lparr>next_cluster := n\<rparr>))
        (if n = 0 then ret False else seek_end_loop C i)))
     else ret True) s"

definition fat_seek_end :: "'d card_ops \<Rightarrow> u8 \<Rightarrow> ('d fs, bool) cmd" where
  "fat_seek_end C fd =
     (let i = unat fd in
     bnd (get_desc fd) (\<lambda>r.
     if r = None then ret False
     else
       or_return (seek_end_loop C i) False
       (bnd (gets fat_info) (\<lambda>fi.
        andthen (upd_pfd i (\<lambda>d.
          let bic = ucast (drop_bit 9 (last_cluster_len d)) in
          d\<lparr>abs_offset := de_size (dir_entry d), block_in_cluster := bic,
            index_in_block := last_cluster_len d AND 511,
            block_addr := cluster_addr fi (cur_cluster d) + ucast bic\<rparr>))
        (ret True)))))"

text \<open>The loop of \<open>fat_seek\<close>; it returns the offset in the last cluster visited.\<close>

partial_function (option) seek_loop :: "'d card_ops \<Rightarrow> nat \<Rightarrow> u16 \<Rightarrow> u32 \<Rightarrow> ('d fs, u32 option) cmd" where
  "seek_loop C i bytes_per_cluster offset s =
     (if ucast bytes_per_cluster < offset then
        bnd (pfd i) (\<lambda>d.
        andthen (upd_pfd i (\<lambda>d. d\<lparr>cur_cluster := next_cluster d\<rparr>))
        (bnd (read_fat_entry C (next_cluster d)) (\<lambda>n.
         andthen (upd_pfd i (\<lambda>d. d\<lparr>next_cluster := n\<rparr>))
         (if n = 0 then ret None
          else seek_loop C i bytes_per_cluster (offset - ucast bytes_per_cluster))))) s
      else ret (Some offset) s)"

definition fat_seek :: "'d card_ops \<Rightarrow> u8 \<Rightarrow> u32 \<Rightarrow> ('d fs, bool) cmd" where
  "fat_seek C fd offset =
     (let i = unat fd in
     bnd (get_desc fd) (\<lambda>r. case r of None \<Rightarrow> ret False | Some d \<Rightarrow>
     if de_size (dir_entry d) < offset then fat_seek_end C fd
     else
       or_return (seek_begin C i) False
       (bnd (gets fat_info) (\<lambda>fi.
        andthen (upd_pfd i (\<lambda>d. d\<lparr>abs_offset := offset\<rparr>))
        (bnd (seek_loop C i (ucast (sectors_per_cluster fi) * 512) offset) (\<lambda>w. case w of
           None \<Rightarrow> ret False
         | Some off \<Rightarrow>
             andthen (upd_pfd i (\<lambda>d.
               let bic = ucast (drop_bit 9 off) in
               d\<lparr>block_in_cluster := bic, index_in_block := ucast off AND 511,
                 block_addr := cluster_addr fi (cur_cluster d) + ucast bic\<rparr>))
             (ret True)))))))"

end
