(* ===== verification/FatRead.thy ===== *)
theory FatRead
  imports FatFile
begin

section \<open>Files as byte sequences: the position and reading (lib/fat/fat.c)\<close>

text \<open>
  The abstract view of a file is the sequence of its bytes: the blocks of its cluster chain, cut
  at its size. \<open>pos_at\<close> relates a descriptor's six position fields to one number, the offset in
  that sequence; \<open>seek_advance\<close> keeps the relation, \<open>fat_private_init_fd\<close> establishes it at 0,
  and under it \<open>fat_read\<close> gives the bytes of the abstract sequence.
\<close>

subsection \<open>The blocks and the bytes of a chain\<close>

definition spc :: "FatInfo \<Rightarrow> nat" where
  "spc fi = unat (sectors_per_cluster fi)"

text \<open>Clusters of 1, 2, .. 64 blocks: at 128 the lengths no longer fit 16 bits.\<close>

definition cluster_geometry :: "FatInfo \<Rightarrow> bool" where
  "cluster_geometry fi \<longleftrightarrow> unat (log_sectors_per_cluster fi) \<le> 6 \<and>
     spc fi = 2 ^ unat (log_sectors_per_cluster fi)"

definition file_blocks :: "FatInfo \<Rightarrow> u16 list \<Rightarrow> u32 list" where
  "file_blocks fi cs = concat (map (\<lambda>c. map (\<lambda>j. cluster_addr fi c + of_nat j) [0..<spc fi]) cs)"

definition file_data :: "FatInfo \<Rightarrow> (u32 \<Rightarrow> bytes) \<Rightarrow> u16 list \<Rightarrow> bytes" where
  "file_data fi B cs = concat (map B (file_blocks fi cs))"

lemma spc_bounds: "cluster_geometry fi \<Longrightarrow> 0 < spc fi \<and> spc fi \<le> 64"
  using power_increasing [of "unat (log_sectors_per_cluster fi)" 6 "2 :: nat"]
  by (simp add: cluster_geometry_def)

lemma length_file_blocks [simp]: "length (file_blocks fi cs) = length cs * spc fi"
  by (induction cs) (simp_all add: file_blocks_def)

lemma nth_file_blocks:
  "q < length cs * spc fi \<Longrightarrow>
   file_blocks fi cs ! q = cluster_addr fi (cs ! (q div spc fi)) + of_nat (q mod spc fi)"
proof (induction cs arbitrary: q)
  case (Cons c cs)
  let ?S = "spc fi"
  show ?case
  proof (cases "q < ?S")
    case False
    moreover have "0 < ?S" using Cons.prems by (cases "?S") auto
    ultimately have q: "q div ?S = Suc ((q - ?S) div ?S)" "(q - ?S) mod ?S = q mod ?S"
      by (simp_all add: le_div_geq le_mod_geq)
    have "file_blocks fi (c # cs) ! q = file_blocks fi cs ! (q - ?S)"
      using False by (simp add: file_blocks_def nth_append)
    with Cons.IH [of "q - ?S"] Cons.prems False q show ?thesis by simp
  qed (simp add: file_blocks_def nth_append)
qed simp

lemma slice_concat:
  assumes "\<forall>b \<in> set bs. length (B b) = n" and "q < length bs" and "i + m \<le> n"
  shows "slice_at (concat (map B bs)) (n * q + i) m = slice_at (B (bs ! q)) i m"
  using assms
proof (induction bs arbitrary: q)
  case (Cons b bs)
  then show ?case
    by (cases q) (auto simp: slice_at_def)
qed simp

lemma length_concat_blocks:
  "\<forall>b \<in> set bs. length (B b) = n \<Longrightarrow> length (concat (map B bs)) = n * length bs"
  by (induction bs) auto

subsection \<open>Moving the position\<close>

text \<open>What \<open>seek_advance\<close> does to the descriptor, \<open>ent\<close> being the table.\<close>

definition advance_desc :: "FatInfo \<Rightarrow> (u16 \<Rightarrow> u16) \<Rightarrow> u16 \<Rightarrow> FileDescriptor \<Rightarrow> FileDescriptor" where
  "advance_desc fi ent n d =
     (let d1 = d\<lparr>index_in_block := index_in_block d + n, abs_offset := abs_offset d + ucast n\<rparr>;
          d2 = d1\<lparr>block_in_cluster := block_in_cluster d + 1, index_in_block := 0\<rparr>
      in if index_in_block d1 \<noteq> 512 then d1
         else if block_in_cluster d2 \<noteq> sectors_per_cluster fi then d2\<lparr>block_addr := block_addr d + 1\<rparr>
         else if is_root d then d2\<lparr>block_addr := block_addr d + 1\<rparr>
         else if next_cluster d < FAT_MIN_LAST_CLUSTER then
           d2\<lparr>block_addr := cluster_addr fi (next_cluster d), cur_cluster := next_cluster d,
              next_cluster := ent (next_cluster d), block_in_cluster := 0\<rparr>
         else d2)"

lemma at_disk_desc:
  "at_disk blocks ready s B t \<Longrightarrow> length X = MAX_FILE_DESC \<Longrightarrow>
   at_disk blocks ready (s\<lparr>fat_private_file_desc := X\<rparr>) B (t\<lparr>fat_private_file_desc := X\<rparr>)"
  by (auto simp: at_disk_def good_def wf_fs_def coherent_def)

lemma good_desc:
  "good blocks s \<Longrightarrow> length X = MAX_FILE_DESC \<Longrightarrow> good blocks (s\<lparr>fat_private_file_desc := X\<rparr>)"
  by (simp add: good_def wf_fs_def coherent_def)

lemma good_length: "good blocks s \<Longrightarrow> length (fat_private_file_desc s) = MAX_FILE_DESC"
  by (simp add: good_def wf_fs_def)

context live_device
begin

lemma read_fat_entry_wp:
  assumes "good blocks u" and "fat_layout (fat_info u) (ready (dev u))" and "in_fat (fat_info u) c"
    and "\<And>t. at_disk blocks ready u (blocks (dev u)) t \<Longrightarrow> Q (fat_entry (fat_info u) (blocks (dev u)) c) t"
  shows "wp (read_fat_entry C c) Q u"
proof -
  obtain t where "read_fat_entry C c u = Some (Inr (fat_entry (fat_info u) (blocks (dev u)) c, t))"
    "at_disk blocks ready u (blocks (dev u)) t"
    using read_fat_entry_run [OF assms(1-3)] by blast
  with assms(4) show ?thesis by (auto simp: wp_iff)
qed

lemma seek_advance_wp:
  assumes g: "good blocks s" "fat_layout (fat_info s) (ready (dev s))" and i: "i < MAX_FILE_DESC"
    and d: "d = fat_private_file_desc s ! i"
    and nxt: "\<not> is_root d \<Longrightarrow> next_cluster d < FAT_MIN_LAST_CLUSTER \<Longrightarrow> in_fat (fat_info s) (next_cluster d) \<and>
      fat_entry (fat_info s) (blocks (dev s)) (next_cluster d) \<noteq> 0"
  shows "wp (seek_advance C i n) (\<lambda>ok t. ok \<and> at_disk blocks ready (s\<lparr>fat_private_file_desc :=
      (fat_private_file_desc s)[i := advance_desc (fat_info s) (fat_entry (fat_info s) (blocks (dev s))) n d]\<rparr>)
      (blocks (dev s)) t) s"
proof -
  let ?fi = "fat_info s" and ?ds = "fat_private_file_desc s"
  have len: "length ?ds = MAX_FILE_DESC" using g(1) by (rule good_length)
  have refl: "at_disk blocks ready (s\<lparr>fat_private_file_desc := X\<rparr>) (blocks (dev s)) (s\<lparr>fat_private_file_desc := X\<rparr>)"
    if "length X = MAX_FILE_DESC" for X
    using at_disk_refl [OF good_desc [OF g(1) that]] by simp
  show ?thesis
  proof (cases "index_in_block d + n = 512 \<and> block_in_cluster d + 1 = sectors_per_cluster ?fi \<and>
      \<not> is_root d \<and> next_cluster d < FAT_MIN_LAST_CLUSTER")
    case False
    with i len d refl show ?thesis
      by (auto simp: seek_advance_def wp_simps advance_desc_def Let_def)
  next
    case True
    let ?d1 = "d\<lparr>abs_offset := abs_offset d + ucast n, block_in_cluster := sectors_per_cluster ?fi,
      index_in_block := 0, block_addr := cluster_addr ?fi (next_cluster d),
      cur_cluster := next_cluster d\<rparr>"
    let ?u = "s\<lparr>fat_private_file_desc := ?ds[i := ?d1]\<rparr>"
    have in_fat: "in_fat ?fi (next_cluster d)" "fat_entry ?fi (blocks (dev s)) (next_cluster d) \<noteq> 0"
      using nxt True by blast+
    have adv: "advance_desc ?fi (fat_entry ?fi (blocks (dev s))) n d =
        ?d1\<lparr>next_cluster := fat_entry ?fi (blocks (dev s)) (next_cluster d), block_in_cluster := 0\<rparr>"
      using True by (cases d) (simp add: advance_desc_def Let_def)
    have read: "wp (read_fat_entry C (next_cluster d)) (\<lambda>v t. v = fat_entry ?fi (blocks (dev s)) (next_cluster d) \<and>
        at_disk blocks ready ?u (blocks (dev s)) t) ?u"
      using g len in_fat by (intro read_fat_entry_wp) (simp_all add: good_desc)
    let ?rest = "\<lambda>v. andthen (upd_pfd i (\<lambda>d. d\<lparr>next_cluster := v\<rparr>))
        (if v = 0 then ret False else andthen (upd_pfd i (\<lambda>d. d\<lparr>block_in_cluster := 0\<rparr>)) (ret True))"
    have after: "wp (?rest v) (\<lambda>ok t. ok \<and> at_disk blocks ready (s\<lparr>fat_private_file_desc :=
          ?ds[i := advance_desc ?fi (fat_entry ?fi (blocks (dev s))) n d]\<rparr>) (blocks (dev s)) t) t"
      if "v = fat_entry ?fi (blocks (dev s)) (next_cluster d)" "at_disk blocks ready ?u (blocks (dev s)) t" for v t
      using at_disk_desc [OF that(2), of "?ds[i := advance_desc ?fi (fat_entry ?fi (blocks (dev s))) n d]"]
        at_disk_simps(1) [OF that(2)] len i that(1) in_fat
      by (simp add: wp_simps adv)
    have "wp (bnd (read_fat_entry C (next_cluster d)) ?rest) (\<lambda>ok t. ok \<and> at_disk blocks ready
        (s\<lparr>fat_private_file_desc := ?ds[i := advance_desc ?fi (fat_entry ?fi (blocks (dev s))) n d]\<rparr>)
        (blocks (dev s)) t) ?u"
      by (rule wp_bndI [OF read]) (blast intro: after)
    then show ?thesis
      using i len True d [symmetric] by (simp add: seek_advance_def wp_simps Let_def)
  qed
qed

end

subsection \<open>The position in a file\<close>

text \<open>
  \<open>pos_at fi B cs d q i\<close>: the descriptor stands at byte \<open>i\<close> of block \<open>q\<close> of the chain \<open>cs\<close>. Behind
  the last block it stands at the end of the last cluster, and in a file without clusters it has
  no cluster.
\<close>

definition pos_at :: "FatInfo \<Rightarrow> (u32 \<Rightarrow> bytes) \<Rightarrow> u16 list \<Rightarrow> FileDescriptor \<Rightarrow> nat \<Rightarrow> nat \<Rightarrow> bool" where
  "pos_at fi B cs d q i \<longleftrightarrow> i < 512 \<and> q \<le> length cs * spc fi \<and>
     index_in_block d = of_nat i \<and> abs_offset d = of_nat (512 * q + i) \<and>
     (if q < length cs * spc fi then
        cur_cluster d = cs ! (q div spc fi) \<and> next_cluster d = fat_entry fi B (cs ! (q div spc fi)) \<and>
        block_in_cluster d = of_nat (q mod spc fi) \<and> block_addr d = file_blocks fi cs ! q
      else i = 0 \<and>
        (if cs = [] then cur_cluster d = 0 \<and> next_cluster d = 0xffff \<and> block_in_cluster d = 0
         else cur_cluster d = last cs \<and> next_cluster d = fat_entry fi B (last cs) \<and>
           block_in_cluster d = sectors_per_cluster fi))"

lemma chain_next: "chain fi B cs \<Longrightarrow> Suc k < length cs \<Longrightarrow> fat_entry fi B (cs ! k) = cs ! Suc k"
proof (induction fi B cs arbitrary: k rule: chain.induct)
  case (3 fi B c d cs)
  then show ?case by (cases k) auto
qed auto

lemma chain_end: "chain fi B cs \<Longrightarrow> FAT_MIN_LAST_CLUSTER \<le> fat_entry fi B (last cs)"
  by (induction fi B cs rule: chain.induct) auto

lemma chain_nth_less: "chain fi B cs \<Longrightarrow> k < length cs \<Longrightarrow> cs ! k < FAT_MIN_LAST_CLUSTER"
  using chain_data [of fi B cs "cs ! k"] by (simp add: data_cluster_def)

lemma next_in_chain:
  assumes "chain fi B cs" and "k < length cs"
  shows "fat_entry fi B (cs ! k) < FAT_MIN_LAST_CLUSTER \<longleftrightarrow> Suc k < length cs"
proof (cases "Suc k < length cs")
  case True
  then show ?thesis using chain_next [OF assms(1) True] chain_nth_less [OF assms(1) True] by simp
next
  case False
  with assms(2) have "cs ! k = last cs" by (metis Suc_lessI diff_Suc_1 last_conv_nth list.size(3) not_less_zero)
  with False chain_end [OF assms(1)] show ?thesis by (simp add: not_less)
qed

lemma bic_next:
  assumes "cluster_geometry fi" and "j < spc fi"
  shows "(of_nat j :: u8) + 1 = sectors_per_cluster fi \<longleftrightarrow> Suc j = spc fi"
proof -
  have "unat (of_nat j + 1 :: u8) = Suc j"
    using spc_bounds [OF assms(1)] assms(2) unat_plus_of_nat [of "of_nat j :: u8" 1]
    by (simp add: unat_of_nat_mod)
  then show ?thesis by (metis spc_def word_unat_eq_iff)
qed

lemma div_mod_next:
  fixes q S :: nat
  assumes "0 < S"
  shows "Suc (q mod S) = S \<Longrightarrow> Suc q div S = Suc (q div S) \<and> Suc q mod S = 0"
    and "Suc (q mod S) \<noteq> S \<Longrightarrow> Suc q div S = q div S \<and> Suc q mod S = Suc (q mod S)"
  using assms by (simp_all add: div_Suc mod_Suc)

lemma pos_advance:
  assumes p: "pos_at fi B cs d q i" and ch: "chain fi B cs" and geo: "cluster_geometry fi"
    and q: "q < length cs * spc fi" and n: "i + n \<le> 512" and root: "\<not> is_root d"
  shows "pos_at fi B cs (advance_desc fi (fat_entry fi B) (of_nat n) d) (q + (i + n) div 512) ((i + n) mod 512)"
proof -
  let ?S = "spc fi" and ?k = "q div spc fi" and ?j = "q mod spc fi"
  have S: "0 < ?S" "?S \<le> 64" using spc_bounds [OF geo] by auto
  have k: "?k < length cs" using q by (simp add: less_mult_imp_div_less)
  have d: "i < 512" "index_in_block d = of_nat i" "abs_offset d = of_nat (512 * q + i)"
    "cur_cluster d = cs ! ?k" "next_cluster d = fat_entry fi B (cs ! ?k)"
    "block_in_cluster d = of_nat ?j" "block_addr d = file_blocks fi cs ! q"
    using p q by (simp_all add: pos_at_def)
  have abs: "abs_offset d + ucast (of_nat n :: u16) = of_nat (512 * q + (i + n))"
    using d(3) n by (simp add: ucast_of_nat_unat [of "of_nat n"] unat_of_nat_mod)
  have idx: "index_in_block d + of_nat n = 512 \<longleftrightarrow> i + n = 512"
  proof -
    have "unat (of_nat i + of_nat n :: u16) = i + n"
      using n d(1) unat_plus_of_nat [of "of_nat i :: u16" n] by (simp add: unat_of_nat_mod)
    then show ?thesis unfolding d(2) by (simp add: word_unat_eq_iff)
  qed
  show ?thesis
  proof (cases "i + n = 512")
    case False
    then have "(i + n) div 512 = 0" "(i + n) mod 512 = i + n" using n by simp_all
    with False idx abs d q n show ?thesis by (simp add: advance_desc_def pos_at_def)
  next
    case full: True
    then have q': "q + (i + n) div 512 = Suc q" "(i + n) mod 512 = 0" by simp_all
    have abs': "abs_offset d + ucast (of_nat n :: u16) = of_nat (512 * Suc q)"
      using abs full by (simp add: add.commute)
    show ?thesis
    proof (cases "Suc ?j = ?S")
      case False
      then have j: "Suc q div ?S = ?k" "Suc q mod ?S = Suc ?j" using div_mod_next [OF S(1)] by simp_all
      have "Suc q \<noteq> length cs * ?S" using j(2) by (metis mod_mult_self2_is_0 nat.distinct(1))
      then have less: "Suc q < length cs * ?S" using q by simp
      have "block_addr d + 1 = file_blocks fi cs ! Suc q"
        using d(7) nth_file_blocks [OF q] nth_file_blocks [OF less] j by simp
      moreover have "block_in_cluster d + 1 = of_nat (Suc ?j)" using d(6) by simp
      moreover have "block_in_cluster d + 1 \<noteq> sectors_per_cluster fi"
        using False bic_next [OF geo, of ?j] S(1) d(6) by simp
      ultimately show ?thesis
        using idx full abs' d less j unfolding q'
        by (simp add: advance_desc_def pos_at_def Let_def)
    next
      case True
      then have j: "Suc q div ?S = Suc ?k" "Suc q mod ?S = 0" using div_mod_next [OF S(1)] by simp_all
      then have sq: "Suc q = Suc ?k * ?S" by (metis add_0_right div_mult_mod_eq)
      have b: "block_in_cluster d + 1 = sectors_per_cluster fi"
        using True bic_next [OF geo, of ?j] S(1) d(6) by simp
      show ?thesis
      proof (cases "Suc ?k < length cs")
        case more: True
        then have less: "Suc q < length cs * ?S" using mult_less_mono1 [OF more S(1)] by (simp only: sq)
        have "next_cluster d < FAT_MIN_LAST_CLUSTER" "next_cluster d = cs ! Suc ?k"
          using d(5) next_in_chain [OF ch k] chain_next [OF ch more] more by simp_all
        moreover have "cluster_addr fi (cs ! Suc ?k) = file_blocks fi cs ! Suc q"
          using nth_file_blocks [OF less] j by simp
        ultimately show ?thesis
          using idx full abs' d less j b root unfolding q'
          by (simp add: advance_desc_def pos_at_def Let_def)
      next
        case False
        then have "Suc ?k = length cs" using k by simp
        then have len: "length cs = Suc ?k" ..
        then have e: "Suc q = length cs * ?S" "cs ! ?k = last cs" "cs \<noteq> []"
          using sq by (simp_all only: len last_conv_nth diff_Suc_1 length_greater_0_conv [symmetric] zero_less_Suc)
        have "\<not> next_cluster d < FAT_MIN_LAST_CLUSTER"
          using d(5) next_in_chain [OF ch k] False by simp
        then show ?thesis
          using idx full abs' d e b root unfolding q'
          by (simp add: advance_desc_def pos_at_def Let_def)
      qed
    qed
  qed
qed

subsection \<open>An open file\<close>

definition file_size :: "FileDescriptor \<Rightarrow> nat" where
  "file_size d = unat (de_size (dir_entry d))"

definition cluster_bytes :: "FatInfo \<Rightarrow> nat" where
  "cluster_bytes fi = 512 * spc fi"

text \<open>
  The descriptor \<open>d\<close> has the file with the clusters \<open>cs\<close> open and stands at the offset \<open>p\<close>: the
  chain starts at the entry's cluster and is just long enough for the size, the last length is
  what the size leaves for the last cluster.
\<close>

definition file_open :: "FatInfo \<Rightarrow> (u32 \<Rightarrow> bytes) \<Rightarrow> u16 list \<Rightarrow> FileDescriptor \<Rightarrow> nat \<Rightarrow> bool" where
  "file_open fi B cs d p \<longleftrightarrow> \<not> is_root d \<and> (cs = [] \<or> chain fi B cs) \<and>
     de_cluster_lo (dir_entry d) = (if cs = [] then 0 else hd cs) \<and>
     file_size d \<le> length cs * cluster_bytes fi \<and>
     (cs \<noteq> [] \<longrightarrow> (length cs - 1) * cluster_bytes fi < file_size d) \<and>
     unat (last_cluster_len d) = file_size d - (length cs - 1) * cluster_bytes fi \<and>
     p \<le> file_size d \<and> pos_at fi B cs d (p div 512) (p mod 512)"

text \<open>The same without the demand that the last cluster is not empty: it holds while a write extends the file.\<close>

definition file_span :: "FatInfo \<Rightarrow> (u32 \<Rightarrow> bytes) \<Rightarrow> u16 list \<Rightarrow> FileDescriptor \<Rightarrow> nat \<Rightarrow> bool" where
  "file_span fi B cs d p \<longleftrightarrow> \<not> is_root d \<and> (cs = [] \<or> chain fi B cs) \<and>
     de_cluster_lo (dir_entry d) = (if cs = [] then 0 else hd cs) \<and>
     file_size d \<le> length cs * cluster_bytes fi \<and>
     (length cs - 1) * cluster_bytes fi \<le> file_size d \<and>
     unat (last_cluster_len d) = file_size d - (length cs - 1) * cluster_bytes fi \<and>
     p \<le> file_size d \<and> pos_at fi B cs d (p div 512) (p mod 512)"

lemma open_span: "file_open fi B cs d p \<Longrightarrow> file_span fi B cs d p"
  by (auto simp: file_open_def file_span_def)

definition moved :: "FileDescriptor \<Rightarrow> FileDescriptor \<Rightarrow> bool" where
  "moved d d' \<longleftrightarrow> is_free d' = is_free d \<and> is_stale d' = is_stale d \<and>
     last_cluster_len d' = last_cluster_len d \<and> dir_entry d' = dir_entry d \<and>
     dir_entry_block_addr d' = dir_entry_block_addr d \<and>
     dir_entry_index_in_block d' = dir_entry_index_in_block d \<and>
     is_root d' = is_root d \<and> dir_entry_modified d' = dir_entry_modified d"

lemma moved_refl: "moved d d" by (simp add: moved_def)

lemma moved_trans: "moved d d' \<Longrightarrow> moved d' d'' \<Longrightarrow> moved d d''" by (simp add: moved_def)

lemma moved_advance: "moved d (advance_desc fi ent n d)"
  by (simp add: moved_def advance_desc_def Let_def)

lemma moved_size: "moved d d' \<Longrightarrow> file_size d' = file_size d"
  by (simp add: moved_def file_size_def)

lemma file_open_moved:
  "file_open fi B cs d p \<Longrightarrow> moved d d' \<Longrightarrow> p' \<le> file_size d \<Longrightarrow>
   pos_at fi B cs d' (p' div 512) (p' mod 512) \<Longrightarrow> file_open fi B cs d' p'"
  by (simp add: file_open_def moved_def file_size_def)

lemma bic_bytes: "unat b \<le> 64 \<Longrightarrow> unat (push_bit 9 (ucast (b :: u8)) :: u16) = unat b * 512"
  by (simp add: push_bit_eq_mult unat_word_ariths unat_ucast_mod)

lemma pos_block: "p < n * 512 \<Longrightarrow> p div 512 < (n :: nat)"
  by (simp add: less_mult_imp_div_less)

lemma scaled_split: "(q :: nat) = k * n + j \<Longrightarrow> m * q = k * (m * n) + m * j"
  by (simp add: algebra_simps)

text \<open>What is left in the current block, from the descriptor's fields.\<close>

lemma last_block_rest:
  assumes f: "file_span fi B cs d p" and geo: "cluster_geometry fi"
    and last: "FAT_MIN_LAST_CLUSTER \<le> next_cluster d"
  shows "unat (last_cluster_len d - push_bit 9 (ucast (block_in_cluster d))) = file_size d - 512 * (p div 512)
    \<and> 512 * (p div 512) \<le> file_size d"
proof -
  let ?S = "spc fi" and ?q = "p div 512"
  have S: "0 < ?S" "?S \<le> 64" using spc_bounds [OF geo] by auto
  have lcl: "unat (last_cluster_len d) = file_size d - (length cs - 1) * (512 * ?S)"
    and p: "p \<le> file_size d" "file_size d \<le> length cs * (512 * ?S)"
    and at: "pos_at fi B cs d ?q (p mod 512)"
    using f by (simp_all add: file_span_def cluster_bytes_def)
  have pq: "512 * ?q \<le> p" by simp
  have diff: ?thesis if "unat (block_in_cluster d) = b" "b \<le> 64" "512 * b \<le> unat (last_cluster_len d)"
      "512 * ?q = (length cs - 1) * (512 * ?S) + 512 * b" for b
  proof -
    have "unat (push_bit 9 (ucast (block_in_cluster d)) :: u16) = 512 * b"
      using bic_bytes [of "block_in_cluster d"] that by simp
    then have "unat (last_cluster_len d - push_bit 9 (ucast (block_in_cluster d))) = unat (last_cluster_len d) - 512 * b"
      using that(3) by (simp add: unat_sub word_le_nat_alt)
    then show ?thesis using lcl that(4) pq p by simp
  qed
  show ?thesis
  proof (cases "?q < length cs * ?S")
    case True
    let ?k = "?q div ?S" and ?j = "?q mod ?S"
    have k: "?k < length cs" using True by (simp add: less_mult_imp_div_less)
    then have ch: "chain fi B cs" using f by (auto simp: file_span_def)
    have "Suc ?k = length cs"
      using next_in_chain [OF ch k] at True last k by (auto simp: pos_at_def not_less)
    then have len: "length cs - 1 = ?k" by simp
    have bic: "unat (block_in_cluster d) = ?j"
      using at True mod_less_divisor [OF S(1), of ?q] S(2) by (simp add: pos_at_def unat_of_nat_mod)
    have q: "512 * ?q = ?k * (512 * ?S) + 512 * ?j"
      by (rule scaled_split) simp
    have "?j \<le> 64" using mod_less_divisor [OF S(1), of ?q] S(2) by simp
    moreover have "512 * ?j \<le> unat (last_cluster_len d)"
      using q lcl pq p unfolding len by linarith
    ultimately show ?thesis
      using diff [OF bic] q unfolding len by blast
  next
    case False
    then have q: "?q = length cs * ?S" using at by (simp add: pos_at_def)
    then have "file_size d = 512 * ?q" using pq p by (simp add: algebra_simps)
    show ?thesis
    proof (cases "cs = []")
      case True
      then show ?thesis using diff [of 0] at q by (simp add: pos_at_def)
    next
      case ne: False
      then have "?q = (length cs - 1) * ?S + ?S" using q by (cases cs) simp_all
      then have "512 * ?q = (length cs - 1) * (512 * ?S) + 512 * ?S" by (rule scaled_split)
      moreover have "unat (block_in_cluster d) = ?S"
        using at False ne by (simp add: pos_at_def spc_def)
      ultimately show ?thesis
        using diff [of ?S] S \<open>file_size d = 512 * ?q\<close> lcl by simp
    qed
  qed
qed

lemma inner_block_full:
  assumes f: "file_span fi B cs d p" and geo: "cluster_geometry fi"
    and inner: "next_cluster d < FAT_MIN_LAST_CLUSTER"
  shows "512 * (p div 512) + 512 \<le> file_size d"
proof -
  let ?S = "spc fi" and ?q = "p div 512" and ?k = "p div 512 div spc fi"
  have at: "pos_at fi B cs d ?q (p mod 512)" and cs: "cs = [] \<or> chain fi B cs"
    using f by (simp_all add: file_span_def)
  have "\<not> FAT_MIN_LAST_CLUSTER \<le> next_cluster d" using inner by simp
  then have q: "?q < length cs * ?S"
    using at cs chain_end [of fi B cs] by (auto simp: pos_at_def split: if_splits)
  then have k: "?k < length cs" by (simp add: less_mult_imp_div_less)
  then have ch: "chain fi B cs" using cs by auto
  have more: "Suc ?k < length cs"
    using next_in_chain [OF ch k] inner at q by (simp add: pos_at_def)
  have "?q < Suc ?k * ?S" using spc_bounds [OF geo] by (simp add: dividend_less_div_times)
  then have "Suc ?q \<le> Suc ?k * ?S" by simp
  also have "\<dots> \<le> (length cs - 1) * ?S" using more by (intro mult_le_mono1) simp
  finally have "512 * Suc ?q \<le> (length cs - 1) * (512 * ?S)" by simp
  also have "\<dots> \<le> file_size d" using f by (simp add: file_span_def cluster_bytes_def)
  finally show ?thesis by simp
qed

text \<open>The number of bytes one turn of the loop reads.\<close>

definition read_chunk :: "nat \<Rightarrow> nat \<Rightarrow> nat \<Rightarrow> nat" where
  "read_chunk sz p n = min n (min (512 - p mod 512) (sz - p))"

lemma next_chunk_read:
  assumes f: "file_open (fat_info s) B cs d p" and geo: "cluster_geometry (fat_info s)"
    and i: "i < length (fat_private_file_desc s)" "fat_private_file_desc s ! i = d"
  shows "next_chunk i False len s = Some (Inr (of_nat (read_chunk (file_size d) p (unat len)), s))"
proof -
  let ?idx = "p mod 512" and ?full = "512 - index_in_block d"
    and ?rem = "last_cluster_len d - push_bit 9 (ucast (block_in_cluster d))"
  have at: "index_in_block d = of_nat ?idx" and p: "p \<le> file_size d"
    using f by (simp_all add: file_open_def pos_at_def)
  have idx: "unat (index_in_block d) = ?idx" unfolding at by (simp add: unat_of_nat_mod)
  then have full: "unat ?full = 512 - ?idx"
    by (simp add: unat_sub word_le_nat_alt)
  have pq: "p = 512 * (p div 512) + ?idx" by simp
  define c where "c = (if FAT_MIN_LAST_CLUSTER \<le> next_cluster d \<and> ?rem \<le> 512 then ?rem - index_in_block d else ?full)"
  have c: "unat c = min (512 - ?idx) (file_size d - p)"
  proof (cases "FAT_MIN_LAST_CLUSTER \<le> next_cluster d")
    case True
    note r = last_block_rest [OF open_span [OF f] geo True]
    show ?thesis
    proof (cases "?rem \<le> 512")
      case small: True
      have "?idx \<le> unat ?rem" using r p pq by linarith
      then have "unat (?rem - index_in_block d) = unat ?rem - ?idx"
        using idx by (simp add: unat_sub word_le_nat_alt)
      moreover have "unat ?rem \<le> 512" using small by (simp add: word_le_nat_alt)
      moreover from this have "file_size d - p \<le> 512 - ?idx" using r pq by linarith
      ultimately show ?thesis using True small r p pq by (simp add: c_def)
    next
      case False
      then have "512 < unat ?rem" by (simp add: word_le_nat_alt)
      then have "512 - ?idx \<le> file_size d - p" using r pq by linarith
      then show ?thesis using False full by (simp add: c_def)
    qed
  next
    case False
    then have "next_cluster d < FAT_MIN_LAST_CLUSTER" by simp
    from inner_block_full [OF open_span [OF f] geo this] have "512 - ?idx \<le> file_size d - p"
      using pq by linarith
    then show ?thesis using False full by (simp add: c_def)
  qed
  have "next_chunk i False len s = Some (Inr (if len < c then len else c, s))"
    using i by (simp add: next_chunk_def pfd_def c_def Let_def)
  moreover have "(if len < c then len else c) = of_nat (read_chunk (file_size d) p (unat len))"
    unfolding read_chunk_def c [symmetric] by (simp add: word_less_nat_alt min_def)
  ultimately show ?thesis by simp
qed

subsection \<open>Reading\<close>

lemma block_split:
  "(p :: nat) = 512 * q + i \<Longrightarrow>
   (p + n) div 512 = q + (i + n) div 512 \<and> (p + n) mod 512 = (i + n) mod 512"
  by (simp add: add.assoc)

lemma next_member:
  assumes at: "pos_at fi B cs d q i" and ch: "chain fi B cs" and nxt: "next_cluster d < FAT_MIN_LAST_CLUSTER"
  shows "next_cluster d \<in> set cs"
proof (cases "q < length cs * spc fi")
  case True
  then have k: "q div spc fi < length cs" by (simp add: less_mult_imp_div_less)
  then show ?thesis
    using at True next_in_chain [OF ch k] chain_next [OF ch, of "q div spc fi"] nxt
    by (auto simp: pos_at_def)
next
  case False
  then have "next_cluster d = fat_entry fi B (last cs)" using at chain_nonempty [OF ch] by (simp add: pos_at_def)
  then show ?thesis using chain_end [OF ch] nxt by simp
qed

text \<open>The card can transfer the blocks of the file.\<close>

definition file_ready :: "FatInfo \<Rightarrow> (u32 \<Rightarrow> bool) \<Rightarrow> u16 list \<Rightarrow> bool" where
  "file_ready fi rdy cs \<longleftrightarrow> (\<forall>b \<in> set (file_blocks fi cs). rdy b)"

text \<open>
  After the run the state differs from \<open>s\<close> in the descriptor \<open>i\<close>, the error code, the cache and
  the device; the blocks are \<open>B\<close>.
\<close>

definition file_step :: "('d \<Rightarrow> u32 \<Rightarrow> bytes) \<Rightarrow> ('d \<Rightarrow> u32 \<Rightarrow> bool) \<Rightarrow> 'd fs \<Rightarrow> nat \<Rightarrow> FileDescriptor \<Rightarrow> u8 \<Rightarrow>
    (u32 \<Rightarrow> bytes) \<Rightarrow> 'd fs \<Rightarrow> bool" where
  "file_step blocks ready s i d e B t \<longleftrightarrow>
     at_disk blocks ready (s\<lparr>fat_private_file_desc := (fat_private_file_desc s)[i := d], last_error := e\<rparr>) B t"

lemma file_step_simps:
  assumes "file_step blocks ready s i d e B t"
  shows "fat_private_file_desc t = (fat_private_file_desc s)[i := d]" and "fat_info t = fat_info s"
    and "last_error t = e" and "blocks (dev t) = B" and "ready (dev t) = ready (dev s)" and "good blocks t"
  using assms by (simp_all add: file_step_def at_disk_def)

lemma file_step_refl:
  "good blocks s \<Longrightarrow> fat_private_file_desc s ! i = d \<Longrightarrow>
   file_step blocks ready s i d (last_error s) (blocks (dev s)) s"
  by (auto simp: file_step_def at_disk_def)

lemma file_step_trans:
  "file_step blocks ready s i d e B t \<Longrightarrow> file_step blocks ready t i d' e' B' u \<Longrightarrow>
   file_step blocks ready s i d' e' B' u"
  by (simp add: file_step_def at_disk_def)

lemma file_step_state:
  assumes "fat_state blocks ready s" and "file_step blocks ready s i d e (blocks (dev s)) t"
  shows "fat_state blocks ready t"
  using assms(1) file_step_simps [OF assms(2)] by (simp add: fat_state_def)

context live_device
begin

lemma read_turn:
  assumes S: "fat_state blocks ready s" and geo: "cluster_geometry (fat_info s)"
    and i: "i < MAX_FILE_DESC" and d: "fat_private_file_desc s ! i = d"
    and f: "file_open (fat_info s) (blocks (dev s)) cs d p" and rdy: "file_ready (fat_info s) (ready (dev s)) cs"
    and n: "n = read_chunk (file_size d) p (unat len)" "0 < n" and room: "pos + n \<le> length data"
  obtains t u where "cache C (block_addr d) s = Some (Inr (True, t))"
    "transfer C False (unat (index_in_block d)) data pos n t =
       Some (Inr ((True, splice_at data pos (slice_at (file_data (fat_info s) (blocks (dev s)) cs) p n)), t))"
    "seek_advance C i (of_nat n) t = Some (Inr (True, u))"
    "file_step blocks ready s i (advance_desc (fat_info s) (fat_entry (fat_info s) (blocks (dev s))) (of_nat n) d)
       (last_error s) (blocks (dev s)) u"
    "file_open (fat_info s) (blocks (dev s)) cs
       (advance_desc (fat_info s) (fat_entry (fat_info s) (blocks (dev s))) (of_nat n) d) (p + n)"
proof -
  let ?fi = "fat_info s" and ?B = "blocks (dev s)" and ?q = "p div 512" and ?i = "p mod 512"
  let ?d = "advance_desc ?fi (fat_entry ?fi ?B) (of_nat n) d"
  have at: "pos_at ?fi ?B cs d ?q ?i" and root: "\<not> is_root d" and size: "file_size d \<le> length cs * cluster_bytes ?fi"
    using f by (simp_all add: file_open_def)
  have "n \<le> 512 - ?i" "n \<le> file_size d - p" "n \<le> unat len"
    unfolding n(1) read_chunk_def by simp_all
  moreover have "?i < 512" "p \<le> file_size d" using f by (simp_all add: file_open_def)
  ultimately have n': "?i + n \<le> 512" "p + n \<le> file_size d" "n \<le> unat len"
    by linarith+
  have "p < file_size d" using n n'(2) by simp
  then have q: "?q < length cs * spc ?fi"
    using size by (intro pos_block) (simp add: cluster_bytes_def mult.commute mult.left_commute)
  then have ch: "chain ?fi ?B cs" using f by (auto simp: file_open_def)
  have b: "block_addr d = file_blocks ?fi cs ! ?q" using at q by (simp add: pos_at_def)
  then have "block_addr d \<in> set (file_blocks ?fi cs)" using q by (simp add: nth_mem)
  then have "ready (dev s) (block_addr d)" using rdy by (simp add: file_ready_def)
  with S obtain t where t: "cache C (block_addr d) s = Some (Inr (True, t))" "at_disk blocks ready s ?B t"
    "cache_block t = ?B (block_addr d)"
    using cache_run [of s "block_addr d"] by (auto simp: fat_state_def)
  note eq = at_disk_simps [OF t(2)]
  have idx: "unat (index_in_block d) = ?i" using at by (simp add: pos_at_def unat_of_nat_mod)
  have lens: "\<forall>b \<in> set (file_blocks ?fi cs). length (?B b) = 512"
    using rdy block_len by (auto simp: file_ready_def)
  have "slice_at (file_data ?fi ?B cs) (512 * ?q + ?i) n = slice_at (?B (file_blocks ?fi cs ! ?q)) ?i n"
    unfolding file_data_def using lens q n'(1) by (intro slice_concat) simp_all
  then have sl: "slice_at (cache_block t) ?i n = slice_at (file_data ?fi ?B cs) p n"
    using t(3) b by simp
  have "length (cache_block t) = 512" using at_disk_good [OF t(2)] by (simp add: good_def wf_fs_def)
  then have tr: "transfer C False (unat (index_in_block d)) data pos n t =
      Some (Inr ((True, splice_at data pos (slice_at (file_data ?fi ?B cs) p n)), t))"
    using room n'(1) by (simp add: transfer_def peek_bytes_def idx sl)
  have nx: "in_fat ?fi (next_cluster d) \<and> fat_entry ?fi ?B (next_cluster d) \<noteq> 0"
    if "next_cluster d < FAT_MIN_LAST_CLUSTER"
    using next_member [OF at ch that] chain_data [OF ch] chain_member_entry [OF ch] by (simp add: data_cluster_def)
  have "wp (seek_advance C i (of_nat n)) (\<lambda>ok u. ok \<and> at_disk blocks ready (t\<lparr>fat_private_file_desc :=
      (fat_private_file_desc t)[i := advance_desc (fat_info t) (fat_entry (fat_info t) (blocks (dev t))) (of_nat n) d]\<rparr>)
      (blocks (dev t)) u) t"
    using at_disk_good [OF t(2)] S i d nx unfolding fat_state_def
    by (intro seek_advance_wp) (simp_all add: eq)
  from wp_True [OF this] obtain u where u: "seek_advance C i (of_nat n) t = Some (Inr (True, u))"
    "at_disk blocks ready (t\<lparr>fat_private_file_desc := (fat_private_file_desc s)[i := ?d]\<rparr>) ?B u"
    unfolding eq by metis
  have step: "file_step blocks ready s i ?d (last_error s) ?B u"
    using u(2) t(2) by (simp add: file_step_def at_disk_def)
  have "(p + n) div 512 = ?q + (?i + n) div 512 \<and> (p + n) mod 512 = (?i + n) mod 512"
    by (rule block_split) simp
  then have "pos_at ?fi ?B cs ?d ((p + n) div 512) ((p + n) mod 512)"
    using pos_advance [OF at ch geo q n'(1) root] by simp
  then have "file_open ?fi ?B cs ?d (p + n)"
    using file_open_moved [OF f moved_advance n'(2)] by simp
  with t(1) tr u(1) step that show ?thesis by blast
qed

lemma read_loop:
  assumes "fat_state blocks ready s" and "cluster_geometry (fat_info s)"
    and "i < MAX_FILE_DESC" and "fat_private_file_desc s ! i = d"
    and "file_open (fat_info s) (blocks (dev s)) cs d p" and "file_ready (fat_info s) (ready (dev s)) cs"
    and "pos + unat len \<le> length data" and "unat result + unat len < 65536"
    and "n = min (unat len) (file_size d - p)"
  shows "\<exists>t d'. fat_action_loop C i False data pos len result s =
      Some (Inr ((result + of_nat n, splice_at data pos (slice_at (file_data (fat_info s) (blocks (dev s)) cs) p n)), t)) \<and>
    file_step blocks ready s i d' (if n < unat len then FAT_EOF else last_error s) (blocks (dev s)) t \<and>
    moved d d' \<and> file_open (fat_info s) (blocks (dev s)) cs d' (p + n)"
  using assms
proof (induction "unat len" arbitrary: s d p pos len result data n rule: less_induct)
  case less
  let ?fi = "fat_info s" and ?B = "blocks (dev s)" and ?D = "file_data (fat_info s) (blocks (dev s)) cs"
  note S = less.prems(1) and geo = less.prems(2) and i = less.prems(3) and d = less.prems(4)
    and f = less.prems(5) and rdy = less.prems(6)
  have g: "good blocks s" using S by (simp add: fat_state_def)
  have il: "i < length (fat_private_file_desc s)" using good_length [OF g] i by simp
  show ?case
  proof (cases "len = 0")
    case True
    then have "fat_action_loop C i False data pos len result s = Some (Inr ((result, data), s))"
      by (subst fat_action_loop.simps) simp
    then show ?thesis
      using True less.prems(9) f file_step_refl [OF g d]
      by (intro exI [of _ s] exI [of _ d]) (simp add: moved_refl)
  next
    case len: False
    define c where "c = read_chunk (file_size d) p (unat len)"
    have nc: "next_chunk i False len s = Some (Inr (of_nat c, s))"
      unfolding c_def using f geo il d by (rule next_chunk_read)
    have pre: "first_cluster C i False s = Some (Inr (True, s))" "append_cluster C i False s = Some (Inr (True, s))"
      "pfd i s = Some (Inr (d, s))"
      using il d by (simp_all add: first_cluster_def append_cluster_def pfd_def)
    have c_le: "c \<le> unat len" "c \<le> file_size d - p" "c \<le> 512 - p mod 512" by (simp_all add: c_def read_chunk_def)
    have uc: "unat (of_nat c :: u16) = c" using c_le(1) unat_u16 [of len] by (simp add: unat_of_nat_mod)
    have p: "p \<le> file_size d" using f by (simp add: file_open_def)
    show ?thesis
    proof (cases "c = 0")
      case True
      have "512 - p mod 512 \<noteq> 0" by simp
      moreover have "unat len \<noteq> 0" using len by (simp add: unat_eq_zero)
      ultimately have fin: "p = file_size d" using True p by (simp add: c_def read_chunk_def min_def split: if_splits)
      then have "abs_offset d = de_size (dir_entry d)" using f by (simp add: file_open_def pos_at_def file_size_def)
      then have "fat_action_loop C i False data pos len result s =
          Some (Inr ((result, data), s\<lparr>last_error := FAT_EOF\<rparr>))"
        using len pre nc True by (subst fat_action_loop.simps) (simp add: set_last_error_def)
      moreover have "file_step blocks ready s i d FAT_EOF ?B (s\<lparr>last_error := FAT_EOF\<rparr>)"
        using file_step_refl [OF g d] by (simp add: file_step_def at_disk_def good_def wf_fs_def coherent_def)
      ultimately show ?thesis
        using fin less.prems(9) f \<open>unat len \<noteq> 0\<close>
        by (intro exI [of _ "s\<lparr>last_error := FAT_EOF\<rparr>"] exI [of _ d]) (simp add: moved_refl)
    next
      case False
      then have c0: "0 < c" by simp
      have room: "pos + c \<le> length data" using c_le(1) less.prems(7) by simp
      let ?d = "advance_desc ?fi (fat_entry ?fi ?B) (of_nat c) d" and ?data = "splice_at data pos (slice_at ?D p c)"
      obtain t u where tu: "cache C (block_addr d) s = Some (Inr (True, t))"
        "transfer C False (unat (index_in_block d)) data pos c t = Some (Inr ((True, ?data), t))"
        "seek_advance C i (of_nat c) t = Some (Inr (True, u))"
        "file_step blocks ready s i ?d (last_error s) ?B u" "file_open ?fi ?B cs ?d (p + c)"
        using read_turn [OF S geo i d f rdy c_def c0 room] .
      note eq = file_step_simps [OF tu(4)]
      have "(of_nat c :: u16) \<noteq> 0" using uc c0 by auto
      then have run: "fat_action_loop C i False data pos len result s =
          fat_action_loop C i False ?data (pos + c) (len - of_nat c) (result + of_nat c) u"
        using len pre nc tu(1-3) uc by (subst fat_action_loop.simps) simp
      have ul: "unat (len - of_nat c) = unat len - c"
        using uc c_le(1) by (simp add: unat_sub word_le_nat_alt)
      have ur: "unat (result + of_nat c) = unat result + c"
        using less.prems(8) c_le(1) by (intro unat_plus_of_nat) simp
      have sz: "file_size ?d = file_size d" by (rule moved_size [OF moved_advance])
      have D: "file_size d \<le> length ?D"
        using f rdy block_len length_concat_blocks [of "file_blocks ?fi cs" ?B 512]
        by (auto simp: file_data_def file_ready_def file_open_def cluster_bytes_def ac_simps)
      then have lc: "length (slice_at ?D p c) = c" using c_le(2) p by simp
      have nm: "n - c = min (unat len - c) (file_size d - (p + c))"
        using less.prems(9) c_le by (simp add: min_def)
      note IH = less.hyps [of "len - of_nat c" u ?d "p + c" "pos + c" ?data "result + of_nat c" "n - c",
        unfolded eq ul ur sz]
      have "\<exists>v d'. fat_action_loop C i False ?data (pos + c) (len - of_nat c) (result + of_nat c) u =
          Some (Inr ((result + of_nat c + of_nat (n - c),
             splice_at ?data (pos + c) (slice_at ?D (p + c) (n - c))), v)) \<and>
        file_step blocks ready u i d' (if n - c < unat len - c then FAT_EOF else last_error s) ?B v \<and>
        moved ?d d' \<and> file_open ?fi ?B cs d' (p + c + (n - c))"
        using c0 c_le(1) less.prems(7,8) room lc il i
        by (intro IH file_step_state [OF S tu(4)] geo tu(5) rdy nm) simp_all
      then obtain v d' where v: "fat_action_loop C i False ?data (pos + c) (len - of_nat c) (result + of_nat c) u =
          Some (Inr ((result + of_nat c + of_nat (n - c),
             splice_at ?data (pos + c) (slice_at ?D (p + c) (n - c))), v))"
        "file_step blocks ready u i d' (if n - c < unat len - c then FAT_EOF else last_error s) ?B v"
        "moved ?d d'" "file_open ?fi ?B cs d' (p + c + (n - c))"
        by blast
      have nc': "c \<le> n" using c_le less.prems(9) by simp
      have "splice_at ?data (pos + c) (slice_at ?D (p + c) (n - c)) = splice_at data pos (slice_at ?D p n)"
      proof -
        have "p + n \<le> length ?D" "pos + n \<le> length data"
          using D less.prems(7,9) p by simp_all
        then have "length (slice_at ?D (p + c) (n - c)) = n - c" using nc' by simp
        then show ?thesis
          using splice_splice [of pos "slice_at ?D p c" "slice_at ?D (p + c) (n - c)" data]
            slice_join [of "p + c" p c ?D "n - c"] \<open>pos + n \<le> length data\<close> lc nc' by simp
      qed
      then show ?thesis
        using run v nc' c_le(1) file_step_trans [OF tu(4) v(2)] moved_trans [OF moved_advance v(3)]
        by (auto simp: of_nat_diff less_diff_iff)
    qed
  qed
qed

lemma fat_read_run:
  assumes S: "fat_state blocks ready s" and geo: "cluster_geometry (fat_info s)"
    and fd: "unat fd < MAX_FILE_DESC" and d: "fat_private_file_desc s ! unat fd = d"
    and live: "\<not> is_free d" "\<not> is_stale d"
    and f: "file_open (fat_info s) (blocks (dev s)) cs d p" and rdy: "file_ready (fat_info s) (ready (dev s)) cs"
    and room: "unat len \<le> length dst" and n: "n = min (unat len) (file_size d - p)"
  obtains t d' where "fat_read C fd dst len s =
      Some (Inr ((of_nat n, splice_at dst 0 (slice_at (file_data (fat_info s) (blocks (dev s)) cs) p n)), t))"
    "file_step blocks ready s (unat fd) d' (if n < unat len then FAT_EOF else last_error s) (blocks (dev s)) t"
    "moved d d'" "file_open (fat_info s) (blocks (dev s)) cs d' (p + n)"
proof -
  have "good blocks s" using S by (simp add: fat_state_def)
  then have "unat fd < length (fat_private_file_desc s)" using good_length fd by metis
  then have "fat_read C fd dst len s = fat_action_loop C (unat fd) False dst 0 len 0 s"
    using d live by (simp add: fat_read_def fat_action_def get_desc_def pfd_def bnd_def)
  then show thesis
    using read_loop [OF S geo fd d f rdy, of 0 len dst 0 n] that room n unat_u16 [of len]
    unfolding add_0_left unat_0 by metis
qed

end

subsection \<open>Opening\<close>

text \<open>The entry \<open>e\<close> describes a file with the clusters \<open>cs\<close>.\<close>

definition entry_file :: "FatInfo \<Rightarrow> (u32 \<Rightarrow> bytes) \<Rightarrow> u16 list \<Rightarrow> FatDirEntry \<Rightarrow> bool" where
  "entry_file fi B cs e \<longleftrightarrow> (cs = [] \<or> chain fi B cs) \<and>
     de_cluster_lo e = (if cs = [] then 0 else hd cs) \<and>
     unat (de_size e) \<le> length cs * cluster_bytes fi \<and>
     (cs \<noteq> [] \<longrightarrow> (length cs - 1) * cluster_bytes fi < unat (de_size e))"

lemma cluster_mask_mask:
  assumes "cluster_geometry fi"
  shows "cluster_mask fi = mask (unat (log_sectors_per_cluster fi) + 9)"
proof (rule bit_word_eqI)
  fix n assume "n < LENGTH(16)"
  moreover have "bit (0xffff :: u16) m" if "m < 16" for m
  proof -
    have "(0xffff :: u16) = NOT 0" by simp
    then show ?thesis using that by (simp only: bit_not_iff) simp
  qed
  ultimately show "bit (cluster_mask fi) n = bit (mask (unat (log_sectors_per_cluster fi) + 9) :: u16) n"
    by (auto simp: cluster_mask_def bit_not_iff bit_push_bit_iff bit_mask_iff)
qed

lemma cluster_mask_len:
  assumes geo: "cluster_geometry fi"
  shows "unat (ucast (w :: u32) AND cluster_mask fi) = unat w mod cluster_bytes fi"
    and "unat (cluster_mask fi + 1) = cluster_bytes fi"
proof -
  let ?n = "unat (log_sectors_per_cluster fi) + 9"
  have n: "?n \<le> 15" and cb: "cluster_bytes fi = 2 ^ ?n"
    using geo by (simp_all add: cluster_geometry_def cluster_bytes_def power_add)
  have "2 ^ ?n dvd (2 ^ 16 :: nat)" using n by (intro le_imp_power_dvd) simp
  moreover have "unat (ucast w AND mask ?n :: u16) = unat (ucast w :: u16) mod 2 ^ ?n"
    by (metis take_bit_eq_mask unsigned_take_bit_eq take_bit_eq_mod)
  ultimately show "unat (ucast w AND cluster_mask fi) = unat w mod cluster_bytes fi"
    by (simp add: cluster_mask_mask [OF geo] cb unat_ucast_mod mod_mod_cancel)
  have "(2 :: nat) ^ ?n \<le> 2 ^ 15" using n by (intro power_increasing) simp_all
  moreover have "cluster_mask fi + 1 = of_nat (2 ^ ?n)"
    by (simp add: cluster_mask_mask [OF geo] mask_eq_decr_exp)
  ultimately show "unat (cluster_mask fi + 1) = cluster_bytes fi"
    unfolding cb by (simp only: unat_of_nat_mod) simp
qed

text \<open>The length \<open>fat_private_init_fd\<close> computes for the last cluster.\<close>

lemma last_len_mod:
  assumes "0 < (m :: nat)" and "k * m < n" and "n \<le> Suc k * m"
  shows "n mod m = (if n = Suc k * m then 0 else n - k * m)"
proof (cases "n = Suc k * m")
  case False
  then have "n - k * m < m" using assms by simp
  moreover have "n = (n - k * m) + m * k" using assms(2) by (simp add: mult.commute)
  ultimately show ?thesis using False by (metis mod_less mod_mult_self2)
qed simp

text \<open>The descriptor moved to the start of its file, and the descriptor after \<open>fat_private_init_fd\<close>.\<close>

definition begin_desc :: "FatInfo \<Rightarrow> (u16 \<Rightarrow> u16) \<Rightarrow> FileDescriptor \<Rightarrow> FileDescriptor" where
  "begin_desc fi ent d =
     (let c = de_cluster_lo (dir_entry d)
      in d\<lparr>block_addr := cluster_addr fi c, block_in_cluster := 0, index_in_block := 0,
           cur_cluster := c, next_cluster := (if c = 0 then 0xffff else ent c), abs_offset := 0\<rparr>)"

definition init_desc :: "FatInfo \<Rightarrow> (u16 \<Rightarrow> u16) \<Rightarrow> FileDescriptor \<Rightarrow> FileDescriptor" where
  "init_desc fi ent d =
     (let e = dir_entry d
      in d\<lparr>is_root := False,
           last_cluster_len := init_last_len fi (de_size e),
           dir_entry_modified := False, block_addr := cluster_addr fi (de_cluster_lo e),
           block_in_cluster := 0, index_in_block := 0, cur_cluster := de_cluster_lo e,
           next_cluster := (if de_cluster_lo e = 0 then 0xffff else ent (de_cluster_lo e)),
           abs_offset := 0\<rparr>)"

lemma init_desc_open:
  assumes geo: "cluster_geometry fi" and e: "entry_file fi B cs (dir_entry d)"
  shows "file_open fi B cs (init_desc fi (fat_entry fi B) d) 0"
proof (cases "cs = []")
  case True
  then have "unat (de_size (dir_entry d)) = 0" "de_cluster_lo (dir_entry d) = 0"
    using e by (simp_all add: entry_file_def)
  with True show ?thesis
    by (simp add: file_open_def init_desc_def init_last_len_def Let_def file_size_def pos_at_def unat_eq_zero)
next
  case False
  let ?m = "cluster_bytes fi" and ?n = "unat (de_size (dir_entry d))" and ?k = "length cs - 1"
  have m: "0 < ?m" and S: "0 < spc fi" using spc_bounds [OF geo] by (simp_all add: cluster_bytes_def)
  have k: "length cs = Suc ?k" using False by simp
  have n: "?k * ?m < ?n" "?n \<le> Suc ?k * ?m"
    using e False k by (simp_all add: entry_file_def)
  have ch: "chain fi B cs" and hd: "de_cluster_lo (dir_entry d) = cs ! 0"
    using e False by (simp_all add: entry_file_def hd_conv_nth)
  have nz: "de_cluster_lo (dir_entry d) \<noteq> 0"
    using chain_data [OF ch, of "cs ! 0"] False hd by (auto simp: data_cluster_def)
  have "unat (ucast (de_size (dir_entry d)) AND cluster_mask fi) = (if ?n = Suc ?k * ?m then 0 else ?n - ?k * ?m)"
    using cluster_mask_len(1) [OF geo] last_len_mod [OF m n] by simp
  moreover have "unat (0 :: u16) = 0" by simp
  ultimately have "unat (last_cluster_len (init_desc fi (fat_entry fi B) d)) = ?n - ?k * ?m"
    using n cluster_mask_len(2) [OF geo] by (auto simp: init_desc_def init_last_len_def Let_def unat_eq_zero)
  moreover have "pos_at fi B cs (init_desc fi (fat_entry fi B) d) 0 0"
    using False S nth_file_blocks [of 0 cs fi] hd nz by (simp add: pos_at_def init_desc_def Let_def)
  ultimately show ?thesis
    using e ch by (simp add: file_open_def entry_file_def init_desc_def Let_def file_size_def)
qed

context live_device
begin

lemma seek_begin_run:
  assumes S: "fat_state blocks ready s" and i: "i < MAX_FILE_DESC" and d: "fat_private_file_desc s ! i = d"
    and c: "de_cluster_lo (dir_entry d) = 0 \<or> chain (fat_info s) (blocks (dev s)) cs \<and> de_cluster_lo (dir_entry d) \<in> set cs"
  obtains t where "seek_begin C i s = Some (Inr (True, t))"
    "file_step blocks ready s i (begin_desc (fat_info s) (fat_entry (fat_info s) (blocks (dev s))) d)
       (last_error s) (blocks (dev s)) t"
proof -
  let ?fi = "fat_info s" and ?B = "blocks (dev s)" and ?ds = "fat_private_file_desc s"
  let ?c = "de_cluster_lo (dir_entry d)" and ?r = "begin_desc (fat_info s) (fat_entry (fat_info s) (blocks (dev s))) d"
  have g: "good blocks s" using S by (simp add: fat_state_def)
  have len: "length ?ds = MAX_FILE_DESC" using good_length [OF g] .
  have "wp (seek_begin C i) (\<lambda>ok t. ok \<and> file_step blocks ready s i ?r (last_error s) ?B t) s"
  proof (cases "?c = 0")
    case True
    have "file_step blocks ready s i ?r (last_error s) ?B (s\<lparr>fat_private_file_desc := ?ds[i := ?r]\<rparr>)"
      using at_disk_refl [OF good_desc [OF g, of "?ds[i := ?r]"]] len by (simp add: file_step_def at_disk_def)
    then show ?thesis
      using i len d True by (simp add: seek_begin_def wp_simps begin_desc_def Let_def)
  next
    case False
    then have ch: "chain ?fi ?B cs" "?c \<in> set cs" using c by blast+
    have nz: "fat_entry ?fi ?B ?c \<noteq> 0" and in_fat: "in_fat ?fi ?c"
      using chain_member_entry [OF ch] chain_data [OF ch] by (simp_all add: data_cluster_def)
    let ?d1 = "d\<lparr>block_addr := cluster_addr ?fi ?c, block_in_cluster := 0, index_in_block := 0, cur_cluster := ?c\<rparr>"
    let ?u = "s\<lparr>fat_private_file_desc := ?ds[i := ?d1]\<rparr>"
    let ?rest = "\<lambda>n. andthen (upd_pfd i (\<lambda>d. d\<lparr>next_cluster := n\<rparr>))
      (andthen (upd_pfd i (\<lambda>d. d\<lparr>abs_offset := 0\<rparr>)) (bnd (pfd i) (\<lambda>d. ret (next_cluster d \<noteq> 0))))"
    have r: "?r = ?d1\<lparr>next_cluster := fat_entry ?fi ?B ?c, abs_offset := 0\<rparr>"
      using False by (simp add: begin_desc_def Let_def)
    have read: "wp (read_fat_entry C ?c) (\<lambda>v t. v = fat_entry ?fi ?B ?c \<and> at_disk blocks ready ?u ?B t) ?u"
      using S len in_fat g by (intro read_fat_entry_wp) (simp_all add: good_desc fat_state_def)
    have after: "wp (?rest v) (\<lambda>ok t. ok \<and> file_step blocks ready s i ?r (last_error s) ?B t) t"
      if "v = fat_entry ?fi ?B ?c" "at_disk blocks ready ?u ?B t" for v t
      using at_disk_desc [OF that(2), of "?ds[i := ?r]"] at_disk_simps(1) [OF that(2)] len i nz that(1)
      by (simp add: wp_simps r file_step_def)
    have "wp (bnd (read_fat_entry C ?c) ?rest) (\<lambda>ok t. ok \<and> file_step blocks ready s i ?r (last_error s) ?B t) ?u"
      by (rule wp_bndI [OF read]) (blast intro: after)
    moreover have "seek_begin C i s = bnd (read_fat_entry C ?c) ?rest ?u"
      using i len d False by (simp add: seek_begin_def upd_pfd_def pfd_def bnd_assoc)
    ultimately show ?thesis by (simp only: wp_def)
  qed
  from wp_True [OF this] that show ?thesis by blast
qed

lemma init_fd_run:
  assumes S: "fat_state blocks ready s" and i: "i < MAX_FILE_DESC" and d: "fat_private_file_desc s ! i = d"
    and c: "de_cluster_lo (dir_entry d) = 0 \<or> chain (fat_info s) (blocks (dev s)) cs \<and> de_cluster_lo (dir_entry d) \<in> set cs"
  obtains t where "fat_private_init_fd C i s = Some (Inr (True, t))"
    "file_step blocks ready s i (init_desc (fat_info s) (fat_entry (fat_info s) (blocks (dev s))) d)
       (last_error s) (blocks (dev s)) t"
proof -
  let ?fi = "fat_info s" and ?B = "blocks (dev s)" and ?ds = "fat_private_file_desc s"
  have g: "good blocks s" using S by (simp add: fat_state_def)
  have len: "length ?ds = MAX_FILE_DESC" using good_length [OF g] .
  have il: "i < length ?ds" using len i by simp
  let ?d1 = "d\<lparr>is_root := False, last_cluster_len := init_last_len ?fi (de_size (dir_entry d)), dir_entry_modified := False\<rparr>"
  let ?u = "s\<lparr>fat_private_file_desc := ?ds[i := ?d1]\<rparr>"
  have u: "fat_state blocks ready ?u" "fat_private_file_desc ?u ! i = ?d1"
    using S good_desc [OF g, of "?ds[i := ?d1]"] len il by (simp_all add: fat_state_def)
  have "de_cluster_lo (dir_entry ?d1) = 0 \<or>
      chain (fat_info ?u) (blocks (dev ?u)) cs \<and> de_cluster_lo (dir_entry ?d1) \<in> set cs"
    using c by simp
  from seek_begin_run [OF u(1) i u(2) this] obtain t where t: "seek_begin C i ?u = Some (Inr (True, t))"
    "file_step blocks ready ?u i (begin_desc ?fi (fat_entry ?fi ?B) ?d1) (last_error s) ?B t"
    by auto
  have "begin_desc ?fi (fat_entry ?fi ?B) ?d1 = init_desc ?fi (fat_entry ?fi ?B) d"
    by (simp add: begin_desc_def init_desc_def Let_def)
  moreover have "fat_private_init_fd C i s = Some (Inr (True, t))"
    using t(1) il d by (simp add: fat_private_init_fd_def upd_pfd_def bnd_def)
  ultimately show thesis using t(2) that by (simp add: file_step_def)
qed

lemma fat_private_init_fd_run:
  assumes "fat_state blocks ready s" and "i < MAX_FILE_DESC" and "fat_private_file_desc s ! i = d"
    and e: "entry_file (fat_info s) (blocks (dev s)) cs (dir_entry d)"
  obtains t where "fat_private_init_fd C i s = Some (Inr (True, t))"
    "file_step blocks ready s i (init_desc (fat_info s) (fat_entry (fat_info s) (blocks (dev s))) d)
       (last_error s) (blocks (dev s)) t"
proof -
  have "de_cluster_lo (dir_entry d) = 0 \<or> chain (fat_info s) (blocks (dev s)) cs \<and> de_cluster_lo (dir_entry d) \<in> set cs"
    using e by (auto simp: entry_file_def split: if_splits)
  from init_fd_run [OF assms(1-3) this] that show thesis by blast
qed

end

subsection \<open>The properties\<close>

text \<open>
  C1: \<open>fat_read\<close> on an open file at the offset \<open>p\<close> returns the number of bytes asked for or left,
  puts the bytes of the file from \<open>p\<close> on at the start of the buffer and leaves the rest of the
  buffer alone, moves the position by their number, and reports the end of the file exactly when
  fewer bytes than asked for were left; the card's content and the other descriptors do not
  change.
\<close>

theorem fat_read_bytes:
  assumes dev: "live_device C blocks ready" and S: "fat_state blocks ready s"
    and geo: "cluster_geometry (fat_info s)"
    and fd: "unat fd < MAX_FILE_DESC" and d: "fat_private_file_desc s ! unat fd = d"
    and live: "\<not> is_free d" "\<not> is_stale d"
    and f: "file_open (fat_info s) (blocks (dev s)) cs d p"
    and rdy: "file_ready (fat_info s) (ready (dev s)) cs"
    and room: "unat len \<le> length dst" and n: "n = min (unat len) (file_size d - p)"
  shows "\<exists>t d'. fat_read C fd dst len s =
      Some (Inr ((of_nat n, splice_at dst 0 (slice_at (file_data (fat_info s) (blocks (dev s)) cs) p n)), t)) \<and>
    fat_private_file_desc t = (fat_private_file_desc s)[unat fd := d'] \<and> fat_info t = fat_info s \<and>
    moved d d' \<and> file_open (fat_info s) (blocks (dev s)) cs d' (p + n) \<and>
    blocks (dev t) = blocks (dev s) \<and>
    last_error t = (if n < unat len then FAT_EOF else last_error s)"
proof -
  obtain t d' where t: "fat_read C fd dst len s =
      Some (Inr ((of_nat n, splice_at dst 0 (slice_at (file_data (fat_info s) (blocks (dev s)) cs) p n)), t))"
    "file_step blocks ready s (unat fd) d' (if n < unat len then FAT_EOF else last_error s) (blocks (dev s)) t"
    "moved d d'" "file_open (fat_info s) (blocks (dev s)) cs d' (p + n)"
    using live_device.fat_read_run [OF dev S geo fd d live f rdy room n] .
  note eq = file_step_simps [OF t(2)]
  show ?thesis by (intro exI [of _ t] exI [of _ d'] conjI t eq)
qed

text \<open>The file \<open>A.TXT\<close> of the small volume, opened as descriptor 0.\<close>

definition open_fs :: "sd_card fs" where
  "open_fs = small_fs\<lparr>fat_private_file_desc := (fat_private_file_desc small_fs)
     [0 := init_desc small_info (fat_entry small_info (sd_block small_card)) (free_desc\<lparr>is_free := False\<rparr>)]\<rparr>"

lemma small_geometry: "cluster_geometry small_info"
  by (simp add: cluster_geometry_def spc_def small_info_def)

lemma small_entry_file: "entry_file small_info (sd_block small_card) [2, 3] small_entry"
  using small_chain by (simp add: entry_file_def small_entry_def cluster_bytes_def spc_def small_info_def)

lemma small_blocks: "file_blocks small_info [2, 3] = [4, 5]"
  by (simp add: file_blocks_def spc_def small_info_def cluster_addr_def)

lemma small_data: "file_data small_info (sd_block small_card) [2, 3] = replicate 512 0x61 @ replicate 512 0x62"
  by (simp add: file_data_def small_blocks sd_block_def small_card_def)

lemma small_file_ready: "file_ready small_info (sd_ready small_card) [2, 3]"
  by (simp add: file_ready_def small_blocks small_ready)

lemma open_fs_simps: "fat_info open_fs = small_info" "dev open_fs = small_card" "last_error open_fs = 0"
  by (simp_all add: open_fs_def small_fs_simps)

lemma open_fs_state: "fat_state sd_block sd_ready open_fs"
  using small_fs_state good_desc [of sd_block small_fs] good_length [of sd_block small_fs]
  by (simp add: fat_state_def open_fs_def)

lemma open_fs_desc: "fat_private_file_desc open_fs ! 0 =
    init_desc small_info (fat_entry small_info (sd_block small_card)) (free_desc\<lparr>is_free := False\<rparr>)"
  by (simp add: open_fs_def small_fs_def)

lemma small_cluster_bytes: "cluster_bytes small_info = 512"
  by (simp add: cluster_bytes_def spc_def small_info_def)

lemma open_fs_file: "\<exists>d. fat_private_file_desc open_fs ! 0 = d \<and> \<not> is_free d \<and> \<not> is_stale d \<and>
   file_open small_info (sd_block small_card) [2, 3] d 0 \<and> file_size d = 600"
proof -
  let ?d = "init_desc small_info (fat_entry small_info (sd_block small_card)) (free_desc\<lparr>is_free := False\<rparr>)"
  have "file_open small_info (sd_block small_card) [2, 3] ?d 0"
    using init_desc_open [OF small_geometry, of _ _ "free_desc\<lparr>is_free := False\<rparr>"] small_entry_file by (simp add: free_desc_def)
  moreover have "file_size ?d = 600" "\<not> is_free ?d" "\<not> is_stale ?d"
    by (simp_all add: file_size_def init_desc_def Let_def free_desc_def small_entry_def)
  ultimately show ?thesis using open_fs_desc by blast
qed

theorem fat_read_bytes_witness:
  "\<exists>t. fat_read sd_ops 0 (replicate 700 0) 700 open_fs =
     Some (Inr ((600, replicate 512 0x61 @ replicate 88 0x62 @ replicate 100 0), t)) \<and> last_error t = FAT_EOF"
proof -
  let ?d = "init_desc small_info (fat_entry small_info (sd_block small_card)) (free_desc\<lparr>is_free := False\<rparr>)"
  have "file_open small_info (sd_block small_card) [2, 3] ?d 0"
    using init_desc_open [OF small_geometry, of _ _ "free_desc\<lparr>is_free := False\<rparr>"] small_entry_file by (simp add: free_desc_def)
  moreover have "file_size ?d = 600" "\<not> is_free ?d" "\<not> is_stale ?d"
    by (simp_all add: file_size_def init_desc_def Let_def free_desc_def small_entry_def)
  ultimately show ?thesis
    using fat_read_bytes [OF sd.live_device_axioms open_fs_state, of 0 ?d "[2, 3]" 0 700 "replicate 700 0" 600]
      small_geometry small_file_ready open_fs_desc
    by (simp add: open_fs_simps small_data slice_at_def splice_at_def min_def) (metis)
qed

text \<open>
  \<open>fat_private_init_fd\<close> on a descriptor whose directory entry describes a file opens the file
  at the offset 0.
\<close>

theorem fat_private_init_fd_opens:
  assumes dev: "live_device C blocks ready" and S: "fat_state blocks ready s"
    and geo: "cluster_geometry (fat_info s)" and i: "i < MAX_FILE_DESC"
    and d: "fat_private_file_desc s ! i = d"
    and e: "entry_file (fat_info s) (blocks (dev s)) cs (dir_entry d)"
  shows "\<exists>t. fat_private_init_fd C i s = Some (Inr (True, t)) \<and>
    file_open (fat_info s) (blocks (dev s)) cs (fat_private_file_desc t ! i) 0 \<and>
    dir_entry (fat_private_file_desc t ! i) = dir_entry d \<and>
    (\<forall>j. j \<noteq> i \<longrightarrow> fat_private_file_desc t ! j = fat_private_file_desc s ! j) \<and>
    blocks (dev t) = blocks (dev s) \<and> last_error t = last_error s"
proof -
  let ?d = "init_desc (fat_info s) (fat_entry (fat_info s) (blocks (dev s))) d"
  obtain t where t: "fat_private_init_fd C i s = Some (Inr (True, t))"
    "file_step blocks ready s i ?d (last_error s) (blocks (dev s)) t"
    using live_device.fat_private_init_fd_run [OF dev S i d e] by blast
  note eq = file_step_simps [OF t(2)]
  have "good blocks s" using S by (simp add: fat_state_def)
  then have "i < length (fat_private_file_desc s)" using good_length i by metis
  then show ?thesis
    using t(1) init_desc_open [OF geo e]
    by (simp add: eq(1,3,4)) (simp add: init_desc_def Let_def)
qed

theorem fat_private_init_fd_opens_witness:
  "\<exists>t. fat_private_init_fd sd_ops 3 small_fs = Some (Inr (True, t)) \<and>
     file_open small_info (sd_block small_card) [2, 3] (fat_private_file_desc t ! 3) 0"
  using fat_private_init_fd_opens [OF sd.live_device_axioms small_fs_state, of 3 free_desc "[2, 3]"]
    small_geometry small_entry_file
  by (auto simp: small_fs_simps small_fs_def free_desc_def)

end
