(* ===== verification/FatSeek.thy ===== *)
theory FatSeek
  imports FatRead
begin

section \<open>Seeking (lib/fat/fat.c)\<close>

text \<open>
  \<open>fat_seek\<close> walks the chain from its start, \<open>fat_seek_end\<close> from the current position to the end.
  Both reach the offset asked for, cut at the size, except that \<open>fat_seek\<close> to a multiple of the
  cluster size inside the file stops one cluster short: it stands behind the last block of the
  cluster before, while the descriptor still counts as inside that cluster.
\<close>

subsection \<open>Walking the chain\<close>

text \<open>The descriptor moved to the cluster \<open>c\<close>.\<close>

definition at_cluster :: "(u16 \<Rightarrow> u16) \<Rightarrow> u16 \<Rightarrow> FileDescriptor \<Rightarrow> FileDescriptor" where
  "at_cluster ent c d = d\<lparr>cur_cluster := c, next_cluster := ent c\<rparr>"

lemma at_cluster_simps [simp]:
  "cur_cluster (at_cluster ent c d) = c" "next_cluster (at_cluster ent c d) = ent c"
  "at_cluster ent c (at_cluster ent c' d) = at_cluster ent c d"
  by (simp_all add: at_cluster_def)

lemma at_cluster_same: "cur_cluster d = c \<Longrightarrow> next_cluster d = ent c \<Longrightarrow> at_cluster ent c d = d"
  by (cases d) (simp add: at_cluster_def)

context live_device
begin

lemma hop:
  assumes S: "fat_state blocks ready s" and i: "i < MAX_FILE_DESC" and d: "fat_private_file_desc s ! i = d"
    and ch: "chain (fat_info s) (blocks (dev s)) cs" and c: "next_cluster d \<in> set cs"
  obtains u where "andthen (upd_pfd i (\<lambda>d. d\<lparr>cur_cluster := next_cluster d\<rparr>))
      (bnd (read_fat_entry C (next_cluster d)) (\<lambda>n.
       andthen (upd_pfd i (\<lambda>d. d\<lparr>next_cluster := n\<rparr>)) (if n = 0 then X else Y))) s = Y u"
    "file_step blocks ready s i (at_cluster (fat_entry (fat_info s) (blocks (dev s))) (next_cluster d) d)
       (last_error s) (blocks (dev s)) u"
proof -
  let ?fi = "fat_info s" and ?B = "blocks (dev s)" and ?ds = "fat_private_file_desc s" and ?c = "next_cluster d"
  have g: "good blocks s" using S by (simp add: fat_state_def)
  have len: "length ?ds = MAX_FILE_DESC" using good_length [OF g] .
  have il: "i < length ?ds" using len i by simp
  let ?s1 = "s\<lparr>fat_private_file_desc := ?ds[i := d\<lparr>cur_cluster := ?c\<rparr>]\<rparr>"
  have g1: "good blocks ?s1" using good_desc [OF g] len by simp
  have lay: "fat_layout (fat_info ?s1) (ready (dev ?s1))" using S by (simp add: fat_state_def)
  have "in_fat (fat_info ?s1) ?c" using chain_data [OF ch c] by (simp add: data_cluster_def)
  then obtain t where t: "read_fat_entry C ?c ?s1 = Some (Inr (fat_entry ?fi ?B ?c, t))"
    "at_disk blocks ready ?s1 ?B t"
    using read_fat_entry_run [OF g1 lay, of ?c] by auto
  let ?u = "t\<lparr>fat_private_file_desc := ?ds[i := at_cluster (fat_entry ?fi ?B) ?c d]\<rparr>"
  have "fat_entry ?fi ?B ?c \<noteq> 0" by (rule chain_member_entry [OF ch c])
  then have "andthen (upd_pfd i (\<lambda>d. d\<lparr>cur_cluster := next_cluster d\<rparr>))
      (bnd (read_fat_entry C ?c) (\<lambda>n. andthen (upd_pfd i (\<lambda>d. d\<lparr>next_cluster := n\<rparr>)) (if n = 0 then X else Y))) s = Y ?u"
    using il d t(1) at_disk_simps(1) [OF t(2)] by (simp add: upd_pfd_def bnd_def at_cluster_def)
  moreover have "file_step blocks ready s i (at_cluster (fat_entry ?fi ?B) ?c d) (last_error s) ?B ?u"
    using at_disk_desc [OF t(2), of "?ds[i := at_cluster (fat_entry ?fi ?B) ?c d]"] len
    by (simp add: file_step_def at_disk_def)
  ultimately show ?thesis by (rule that)
qed

text \<open>The loops, from the cluster \<open>cs ! k\<close>.\<close>

lemma seek_end_loop_run:
  assumes "fat_state blocks ready s" and "i < MAX_FILE_DESC" and "fat_private_file_desc s ! i = d"
    and "chain (fat_info s) (blocks (dev s)) cs" and "k < length cs" and "cur_cluster d = cs ! k"
    and "next_cluster d = fat_entry (fat_info s) (blocks (dev s)) (cs ! k)"
  shows "\<exists>t. seek_end_loop C i s = Some (Inr (True, t)) \<and>
    file_step blocks ready s i (at_cluster (fat_entry (fat_info s) (blocks (dev s))) (last cs) d)
      (last_error s) (blocks (dev s)) t"
  using assms
proof (induction "length cs - k" arbitrary: s d k)
  case (Suc n)
  let ?fi = "fat_info s" and ?B = "blocks (dev s)"
  note S = Suc.prems(1) and i = Suc.prems(2) and d = Suc.prems(3) and ch = Suc.prems(4) and k = Suc.prems(5)
  have g: "good blocks s" using S by (simp add: fat_state_def)
  have il: "i < length (fat_private_file_desc s)" using good_length [OF g] i by simp
  show ?case
  proof (cases "Suc k < length cs")
    case True
    have nx: "next_cluster d = cs ! Suc k" using chain_next [OF ch True] Suc.prems(7) by simp
    then have mem: "next_cluster d \<in> set cs" using True by simp
    have n: "n = length cs - Suc k" using Suc.hyps(2) by simp
    have lt: "next_cluster d < FAT_MIN_LAST_CLUSTER" unfolding nx by (rule chain_nth_less [OF ch True])
    let ?d = "at_cluster (fat_entry ?fi ?B) (next_cluster d) d"
    obtain u where u: "andthen (upd_pfd i (\<lambda>d. d\<lparr>cur_cluster := next_cluster d\<rparr>))
      (bnd (read_fat_entry C (next_cluster d)) (\<lambda>n.
       andthen (upd_pfd i (\<lambda>d. d\<lparr>next_cluster := n\<rparr>)) (if n = 0 then ret False else seek_end_loop C i))) s
         = seek_end_loop C i u" "file_step blocks ready s i ?d (last_error s) ?B u"
      using hop [OF S i d ch mem] by blast
    note eq = file_step_simps [OF u(2)]
    have run: "seek_end_loop C i s = seek_end_loop C i u"
      using il d lt u(1) by (subst seek_end_loop.simps) (simp add: pfd_def)
    obtain t where "seek_end_loop C i u = Some (Inr (True, t))"
      "file_step blocks ready u i (at_cluster (fat_entry ?fi ?B) (last cs) ?d) (last_error s) ?B t"
      using Suc.hyps(1) [OF n, of u ?d, unfolded eq] file_step_state [OF S u(2)] i il ch True nx by auto
    then show ?thesis using run file_step_trans [OF u(2)] by auto
  next
    case False
    then have "k = length cs - 1" using k by simp
    then have last: "cs ! k = last cs" using k by (metis last_conv_nth list.size(3) not_less_zero)
    then have "\<not> next_cluster d < FAT_MIN_LAST_CLUSTER" using chain_end [OF ch] Suc.prems(7) by (simp add: not_less)
    then have "seek_end_loop C i s = Some (Inr (True, s))"
      using il d by (subst seek_end_loop.simps) (simp add: pfd_def)
    then show ?thesis
      using file_step_refl [OF g d] at_cluster_same [of d "last cs" "fat_entry ?fi ?B"] Suc.prems(6,7) last by simp
  qed
qed simp

lemma seek_loop_run:
  assumes "fat_state blocks ready s" and "i < MAX_FILE_DESC" and "fat_private_file_desc s ! i = d"
    and "chain (fat_info s) (blocks (dev s)) cs" and "cur_cluster d = cs ! k"
    and "next_cluster d = fat_entry (fat_info s) (blocks (dev s)) (cs ! k)"
    and "m = unat bpc" and "0 < m" and "h = (unat off - 1) div m" and "k + h < length cs"
  shows "\<exists>t. seek_loop C i bpc off s = Some (Inr (Some (off - of_nat (h * m)), t)) \<and>
    file_step blocks ready s i (at_cluster (fat_entry (fat_info s) (blocks (dev s))) (cs ! (k + h)) d)
      (last_error s) (blocks (dev s)) t"
  using assms
proof (induction h arbitrary: s d k off)
  case 0
  have g: "good blocks s" using 0 by (simp add: fat_state_def)
  have "unat off - 1 < m" using 0 by (metis div_eq_0_iff less_numeral_extra(3))
  then have "unat off \<le> unat bpc" using 0(7) by linarith
  then have "\<not> ucast bpc < off" using unat_u16 [of bpc] by (simp add: word_less_nat_alt unat_ucast_mod)
  then show ?case
    using 0 file_step_refl [OF g 0(3)] at_cluster_same [of d "cs ! k" "fat_entry (fat_info s) (blocks (dev s))"]
    by (subst seek_loop.simps) simp
next
  case (Suc h)
  let ?fi = "fat_info s" and ?B = "blocks (dev s)"
  note S = Suc.prems(1) and i = Suc.prems(2) and d = Suc.prems(3) and ch = Suc.prems(4) and m = Suc.prems(7,8)
  have g: "good blocks s" using S by (simp add: fat_state_def)
  have il: "i < length (fat_private_file_desc s)" using good_length [OF g] i by simp
  have more: "Suc k < length cs" using Suc.prems(10) by simp
  have nx: "next_cluster d = cs ! Suc k" using chain_next [OF ch more] Suc.prems(6) by simp
  then have mem: "next_cluster d \<in> set cs" using more by simp
  have "m \<le> unat off - 1" using Suc.prems(9) m(2) by (metis div_less nat.distinct(1) not_less)
  then have gt: "m < unat off" using m(2) by linarith
  then have cond: "ucast bpc < off" using m(1) by (simp add: word_less_nat_alt unat_ucast_mod)
  have um: "unat (ucast bpc :: u32) = m" using m(1) unat_u16 [of bpc] by (simp add: unat_ucast_mod)
  have off: "unat (off - ucast bpc) = unat off - m" using cond um by (simp add: unat_sub word_less_nat_alt word_le_nat_alt)
  have "unat off - 1 = (unat off - m - 1) + m" using gt by simp
  then have "(unat off - 1) div m = Suc ((unat off - m - 1) div m)" using m(2) by (metis div_add_self2 not_gr_zero add_Suc_right add_0_right One_nat_def)
  then have h: "h = (unat (off - ucast bpc) - 1) div m" using off Suc.prems(9) by simp
  let ?d = "at_cluster (fat_entry ?fi ?B) (next_cluster d) d"
  obtain u where u: "andthen (upd_pfd i (\<lambda>d. d\<lparr>cur_cluster := next_cluster d\<rparr>))
    (bnd (read_fat_entry C (next_cluster d)) (\<lambda>n.
     andthen (upd_pfd i (\<lambda>d. d\<lparr>next_cluster := n\<rparr>)) (if n = 0 then ret None else seek_loop C i bpc (off - ucast bpc)))) s
       = seek_loop C i bpc (off - ucast bpc) u" "file_step blocks ready s i ?d (last_error s) ?B u"
    using hop [OF S i d ch mem] by blast
  note eq = file_step_simps [OF u(2)]
  have run: "seek_loop C i bpc off s = seek_loop C i bpc (off - ucast bpc) u"
    using il d cond u(1) by (subst seek_loop.simps) (simp add: pfd_def)
  have "fat_private_file_desc u ! i = ?d" "cur_cluster ?d = cs ! Suc k"
    "next_cluster ?d = fat_entry ?fi ?B (cs ! Suc k)" "Suc k + h < length cs"
    using eq(1) il nx Suc.prems(10) by simp_all
  note IH = Suc.IH [of u ?d "Suc k" "off - ucast bpc", unfolded eq(2-4),
    OF file_step_state [OF S u(2)] i this(1) ch this(2,3) m h this(4)]
  obtain t where "seek_loop C i bpc (off - ucast bpc) u = Some (Inr (Some (off - ucast bpc - of_nat (h * m)), t))"
    "file_step blocks ready u i (at_cluster (fat_entry ?fi ?B) (cs ! (Suc k + h)) ?d) (last_error s) ?B t"
    using IH by blast
  moreover have ucast: "(ucast bpc :: u32) = of_nat m" unfolding m(1) by (rule ucast_of_nat_unat)
  have "off - ucast bpc - of_nat (h * m) = off - of_nat (Suc h * m)"
    by (simp add: ucast)
  ultimately show ?case using run file_step_trans [OF u(2)] by auto
qed


end

subsection \<open>The position reached\<close>

text \<open>The descriptor at the byte \<open>off\<close> of its cluster.\<close>

definition settle :: "FatInfo \<Rightarrow> nat \<Rightarrow> u32 \<Rightarrow> FileDescriptor \<Rightarrow> FileDescriptor" where
  "settle fi off a d = d\<lparr>abs_offset := a, block_in_cluster := of_nat (off div 512),
     index_in_block := of_nat (off mod 512), block_addr := cluster_addr fi (cur_cluster d) + of_nat (off div 512)\<rparr>"

lemma offset_words:
  fixes w :: "'a :: len word"
  assumes "unat w \<le> 32768"
  shows "(ucast (drop_bit 9 w) :: u8) = of_nat (unat w div 512)"
    and "(ucast (of_nat (unat w div 512) :: u8) :: u32) = of_nat (unat w div 512)"
    and "(ucast w AND 511 :: u16) = of_nat (unat w mod 512)"
proof -
  have d: "unat (drop_bit 9 w) = unat w div 512" unfolding unat_drop_bit_eq drop_bit_eq_div [of 9 "unat w"] by simp
  have "unat w div 512 \<le> 64" using assms div_le_mono [of "unat w" 32768 512] by simp
  then show b: "(ucast (drop_bit 9 w) :: u8) = of_nat (unat w div 512)"
    and "(ucast (of_nat (unat w div 512) :: u8) :: u32) = of_nat (unat w div 512)"
    by (simp_all add: ucast_of_nat_unat [of "drop_bit 9 w"] d ucast_of_nat_unat [of "of_nat _ :: u8"] unat_of_nat_mod)
  have "unat (ucast w AND mask 9 :: u16) = unat (ucast w :: u16) mod 2 ^ 9"
    by (metis take_bit_eq_mask unsigned_take_bit_eq take_bit_eq_mod)
  moreover have "mask 9 = (511 :: u16)" by (simp add: mask_eq_decr_exp)
  ultimately have "unat (ucast w AND 511 :: u16) = unat w mod 512"
    by (simp only: unat_ucast_mod) (simp add: mod_mod_cancel)
  then show "(ucast w AND 511 :: u16) = of_nat (unat w mod 512)"
    by (rule of_nat_eqI)
qed

lemma bytes_per_cluster:
  "cluster_geometry fi \<Longrightarrow> unat (ucast (sectors_per_cluster fi) * 512 :: u16) = cluster_bytes fi"
  using spc_bounds [of fi] by (simp add: cluster_bytes_def spc_def unat_word_ariths unat_ucast_mod)

lemma settle_pos:
  assumes geo: "cluster_geometry fi" and k: "k < length cs" and p: "p = k * cluster_bytes fi + off"
    and off: "off < cluster_bytes fi \<or> off = cluster_bytes fi \<and> Suc k = length cs"
    and d: "cur_cluster d = cs ! k" "next_cluster d = fat_entry fi B (cs ! k)"
  shows "pos_at fi B cs (settle fi off (of_nat p) d) (p div 512) (p mod 512)"
proof -
  let ?S = "spc fi"
  have S: "0 < ?S" using spc_bounds [OF geo] by simp
  have pq: "512 * (p div 512) + p mod 512 = p" by simp
  have p': "p = off + 512 * (k * ?S)" using p by (simp add: cluster_bytes_def)
  then have q: "p div 512 = k * ?S + off div 512" and i: "p mod 512 = off mod 512" by simp_all
  show ?thesis
  proof (cases "off < cluster_bytes fi")
    case True
    then have less: "off div 512 < ?S" by (simp add: cluster_bytes_def less_mult_imp_div_less mult.commute)
    then have "k * ?S + off div 512 < Suc k * ?S" by simp
    also have "\<dots> \<le> length cs * ?S" using k by (intro mult_le_mono1) simp
    finally have "p div 512 < length cs * ?S" unfolding q .
    moreover have "p div 512 div ?S = k" "p div 512 mod ?S = off div 512" using q less by simp_all
    ultimately show ?thesis
      using d i nth_file_blocks [of "p div 512" cs fi] pq unfolding pos_at_def settle_def
      by (simp del: of_nat_add of_nat_mult)
  next
    case False
    then have "off = 512 * ?S" "Suc k = length cs" using off by (simp_all add: cluster_bytes_def)
    moreover from this have "p div 512 = length cs * ?S" using q by (metis add.commute mult_Suc nonzero_mult_div_cancel_left zero_neq_numeral)
    moreover have "last cs = cs ! k" using \<open>Suc k = length cs\<close> by (metis diff_Suc_1 last_conv_nth list.size(3) nat.distinct(1))
    ultimately show ?thesis using d i pq k unfolding pos_at_def settle_def
      by (auto simp: spc_def simp del: of_nat_add of_nat_mult)
  qed
qed


subsection \<open>The two operations\<close>

context live_device
begin

lemma get_desc_live:
  "fat_state blocks ready s \<Longrightarrow> unat fd < MAX_FILE_DESC \<Longrightarrow> fat_private_file_desc s ! unat fd = d \<Longrightarrow>
   \<not> is_free d \<Longrightarrow> \<not> is_stale d \<Longrightarrow> get_desc fd s = Some (Inr (Some d, s))"
  using good_length [of blocks s] by (simp add: fat_state_def get_desc_def pfd_def bnd_def)

text \<open>A last update of the descriptor.\<close>

lemma file_step_upd:
  assumes step: "file_step blocks ready s i d e B t" and i: "i < length (fat_private_file_desc s)"
    and g: "good blocks s"
  shows "upd_pfd i h t = Some (Inr ((), t\<lparr>fat_private_file_desc := (fat_private_file_desc t)[i := h d]\<rparr>))"
    and "file_step blocks ready s i (h d) e B (t\<lparr>fat_private_file_desc := (fat_private_file_desc t)[i := h d]\<rparr>)"
  using file_step_simps(1) [OF step] i good_length [OF g]
    at_disk_desc [OF step [unfolded file_step_def], of "(fat_private_file_desc s)[i := h d]"]
  by (simp_all add: upd_pfd_def file_step_def at_disk_def)

lemma fat_seek_run:
  assumes S: "fat_state blocks ready s" and geo: "cluster_geometry (fat_info s)"
    and fd: "unat fd < MAX_FILE_DESC" and d: "fat_private_file_desc s ! unat fd = d"
    and live: "\<not> is_free d" "\<not> is_stale d"
    and f: "file_open (fat_info s) (blocks (dev s)) cs d p0" and off: "unat off \<le> file_size d"
    and h: "h = (unat off - 1) div cluster_bytes (fat_info s)"
    and r: "r = settle (fat_info s) (unat off - h * cluster_bytes (fat_info s)) off
      (if cs = [] then begin_desc (fat_info s) (fat_entry (fat_info s) (blocks (dev s))) d
       else at_cluster (fat_entry (fat_info s) (blocks (dev s))) (cs ! h)
         (begin_desc (fat_info s) (fat_entry (fat_info s) (blocks (dev s))) d))"
  obtains t where "fat_seek C fd off s = Some (Inr (True, t))"
    "file_step blocks ready s (unat fd) r (last_error s) (blocks (dev s)) t"
proof -
  let ?fi = "fat_info s" and ?B = "blocks (dev s)" and ?i = "unat fd" and ?m = "cluster_bytes (fat_info s)"
  let ?ent = "fat_entry ?fi ?B" and ?b = "begin_desc (fat_info s) (fat_entry (fat_info s) (blocks (dev s))) d"
  let ?bpc = "ucast (sectors_per_cluster ?fi) * 512 :: u16"
  define d2 where "d2 = ?b\<lparr>abs_offset := off\<rparr>"
  define d3 where "d3 = (if cs = [] then d2 else at_cluster ?ent (cs ! h) d2)"
  have g: "good blocks s" using S by (simp add: fat_state_def)
  have il: "?i < length (fat_private_file_desc s)" using good_length [OF g] fd by simp
  have m: "?m = unat ?bpc" "0 < ?m" "?m \<le> 32768"
    using bytes_per_cluster [OF geo] spc_bounds [OF geo] by (simp_all add: cluster_bytes_def)
  have lo: "de_cluster_lo (dir_entry d) = (if cs = [] then 0 else hd cs)" and cs: "cs = [] \<or> chain ?fi ?B cs"
    and size: "file_size d \<le> length cs * ?m"
    using f by (simp_all add: file_open_def)
  have c: "de_cluster_lo (dir_entry d) = 0 \<or> chain ?fi ?B cs \<and> de_cluster_lo (dir_entry d) \<in> set cs"
    using lo cs by auto
  obtain t1 where t1: "seek_begin C ?i s = Some (Inr (True, t1))" "file_step blocks ready s ?i ?b (last_error s) ?B t1"
    using seek_begin_run [OF S fd d c] .
  let ?t2 = "t1\<lparr>fat_private_file_desc := (fat_private_file_desc t1)[?i := d2]\<rparr>"
  have t2: "upd_pfd ?i (\<lambda>d. d\<lparr>abs_offset := off\<rparr>) t1 = Some (Inr ((), ?t2))" "file_step blocks ready s ?i d2 (last_error s) ?B ?t2"
    using file_step_upd [OF t1(2) il g, of "\<lambda>d. d\<lparr>abs_offset := off\<rparr>"] by (simp_all add: d2_def)
  note eq2 = file_step_simps [OF t2(2)]
  have d2: "fat_private_file_desc ?t2 ! ?i = d2" using eq2(1) il by simp
  have hm: "h * ?m \<le> unat off" "unat off - h * ?m \<le> ?m"
    using div_times_less_eq_dividend [of "unat off - 1" ?m] dividend_less_div_times [OF m(2), of "unat off - 1"]
    unfolding h [symmetric] by linarith+
  have "\<exists>t3. seek_loop C ?i ?bpc off ?t2 = Some (Inr (Some (off - of_nat (h * ?m)), t3)) \<and>
    file_step blocks ready s ?i d3 (last_error s) ?B t3"
  proof (cases "cs = []")
    case True
    then have "unat off = 0" using off size by simp
    then have "off = 0" by (simp add: unat_eq_zero)
    then have "seek_loop C ?i ?bpc off ?t2 = Some (Inr (Some (off - of_nat (h * ?m)), ?t2))"
      using hm(1) by (subst seek_loop.simps) auto
    then show ?thesis using t2(2) True by (auto simp: d3_def)
  next
    case False
    have "h < length cs"
    proof (cases "unat off = 0")
      case True
      then show ?thesis using h False by simp
    next
      case pos: False
      then have "unat off - 1 < length cs * ?m" using off size by simp
      then show ?thesis unfolding h by (rule less_mult_imp_div_less)
    qed
    then have k: "0 + h < length cs" by simp
    have at0: "cur_cluster d2 = cs ! 0" "next_cluster d2 = ?ent (cs ! 0)"
      using False lo cs chain_data [of ?fi ?B cs "cs ! 0"]
      by (auto simp: d2_def begin_desc_def Let_def hd_conv_nth data_cluster_def)
    have ch: "chain ?fi ?B cs" using cs False by blast
    have "fat_state blocks ready ?t2" using file_step_state [OF S t2(2)] .
    note run = seek_loop_run [OF this fd d2, of cs 0 ?m ?bpc h off, unfolded eq2(2-4), OF ch at0 m(1,2) h k]
    then obtain t3 where "seek_loop C ?i ?bpc off ?t2 = Some (Inr (Some (off - of_nat (h * ?m)), t3))"
      "file_step blocks ready ?t2 ?i d3 (last_error s) ?B t3"
      using False by (auto simp: d3_def)
    then show ?thesis using file_step_trans [OF t2(2)] by blast
  qed
  then obtain t3 where t3: "seek_loop C ?i ?bpc off ?t2 = Some (Inr (Some (off - of_nat (h * ?m)), t3))"
    "file_step blocks ready s ?i d3 (last_error s) ?B t3" by blast
  have o: "unat (off - of_nat (h * ?m)) = unat off - h * ?m"
    using hm(1) unat_u32 [of off] by (simp add: unat_sub word_le_nat_alt unat_of_nat_mod del: of_nat_mult)
  let ?h = "\<lambda>d. let bic = ucast (drop_bit 9 (off - of_nat (h * ?m))) in
     d\<lparr>block_in_cluster := bic, index_in_block := ucast (off - of_nat (h * ?m)) AND 511,
       block_addr := cluster_addr ?fi (cur_cluster d) + ucast bic\<rparr>"
  have w: "unat (off - of_nat (h * ?m)) \<le> 32768" using o hm(2) m(3) by linarith
  have "?h d3 = r"
    unfolding Let_def offset_words [OF w, unfolded o] r
    by (simp add: settle_def d3_def d2_def at_cluster_def)
  note last = file_step_upd [OF t3(2) il g, of ?h, unfolded this]
  have "\<not> de_size (dir_entry d) < off" using off by (simp add: file_size_def word_less_nat_alt)
  then have "fat_seek C fd off s = Some (Inr (True, t3\<lparr>fat_private_file_desc := (fat_private_file_desc t3)[?i := r]\<rparr>))"
    using get_desc_live [OF S fd d live] t1(1) t2(1) t3(1) last(1) file_step_simps(2) [OF t1(2)]
    unfolding fat_seek_def Let_def by (simp add: file_step_simps(2) [OF t3(2)])
  then show thesis using last(2) that by blast
qed


lemma fat_seek_end_run:
  assumes S: "fat_state blocks ready s" and geo: "cluster_geometry (fat_info s)"
    and fd: "unat fd < MAX_FILE_DESC" and d: "fat_private_file_desc s ! unat fd = d"
    and live: "\<not> is_free d" "\<not> is_stale d"
    and f: "file_open (fat_info s) (blocks (dev s)) cs d p0"
    and r: "r = settle (fat_info s) (unat (last_cluster_len d)) (de_size (dir_entry d))
      (if cs = [] then d else at_cluster (fat_entry (fat_info s) (blocks (dev s))) (last cs) d)"
  obtains t where "fat_seek_end C fd s = Some (Inr (True, t))"
    "file_step blocks ready s (unat fd) r (last_error s) (blocks (dev s)) t"
proof -
  let ?fi = "fat_info s" and ?B = "blocks (dev s)" and ?i = "unat fd"
  define d1 where "d1 = (if cs = [] then d else at_cluster (fat_entry ?fi ?B) (last cs) d)"
  have g: "good blocks s" using S by (simp add: fat_state_def)
  have il: "?i < length (fat_private_file_desc s)" using good_length [OF g] fd by simp
  have at: "pos_at ?fi ?B cs d (p0 div 512) (p0 mod 512)" and cs: "cs = [] \<or> chain ?fi ?B cs"
    and size: "file_size d \<le> length cs * cluster_bytes ?fi"
    and lcl: "unat (last_cluster_len d) = file_size d - (length cs - 1) * cluster_bytes ?fi"
    using f by (simp_all add: file_open_def)
  have "\<exists>t1. seek_end_loop C ?i s = Some (Inr (True, t1)) \<and> file_step blocks ready s ?i d1 (last_error s) ?B t1"
  proof (cases "cs = []")
    case True
    then have "next_cluster d = 0xffff" using at by (simp add: pos_at_def)
    then have "seek_end_loop C ?i s = Some (Inr (True, s))"
      using il d by (subst seek_end_loop.simps) (simp add: pfd_def)
    then show ?thesis using True file_step_refl [OF g d] by (auto simp: d1_def)
  next
    case False
    then have ch: "chain ?fi ?B cs" using cs by blast
    have "\<exists>k < length cs. cur_cluster d = cs ! k \<and> next_cluster d = fat_entry ?fi ?B (cs ! k)"
    proof (cases "p0 div 512 < length cs * spc ?fi")
      case True
      then show ?thesis using at by (intro exI [of _ "p0 div 512 div spc ?fi"]) (simp add: pos_at_def less_mult_imp_div_less)
    next
      case end': False
      then show ?thesis
        using at False by (intro exI [of _ "length cs - 1"]) (simp add: pos_at_def last_conv_nth)
    qed
    then show ?thesis using seek_end_loop_run [OF S fd d ch] False by (auto simp: d1_def)
  qed
  then obtain t1 where t1: "seek_end_loop C ?i s = Some (Inr (True, t1))"
    "file_step blocks ready s ?i d1 (last_error s) ?B t1" by blast
  let ?h = "\<lambda>d. let bic = ucast (drop_bit 9 (last_cluster_len d)) in
     d\<lparr>abs_offset := de_size (dir_entry d), block_in_cluster := bic, index_in_block := last_cluster_len d AND 511,
       block_addr := cluster_addr ?fi (cur_cluster d) + ucast bic\<rparr>"
  have "cluster_bytes ?fi \<le> 32768" using spc_bounds [OF geo] by (simp add: cluster_bytes_def)
  moreover have "unat (last_cluster_len d) \<le> cluster_bytes ?fi"
    using lcl size by (cases "length cs") simp_all
  ultimately have w: "unat (last_cluster_len d) \<le> 32768" by linarith
  have "last_cluster_len d1 = last_cluster_len d" "dir_entry d1 = dir_entry d"
    by (simp_all add: d1_def at_cluster_def)
  then have "?h d1 = r"
    using offset_words [OF w] unfolding Let_def r d1_def [symmetric] by (simp add: settle_def)
  note last = file_step_upd [OF t1(2) il g, of ?h, unfolded this]
  have "fat_seek_end C fd s = Some (Inr (True, t1\<lparr>fat_private_file_desc := (fat_private_file_desc t1)[?i := r]\<rparr>))"
    using get_desc_live [OF S fd d live] t1(1) last(1)
    unfolding fat_seek_end_def Let_def by (simp add: file_step_simps(2) [OF t1(2)])
  then show thesis using last(2) that by blast
qed

end

text \<open>The hops of \<open>fat_seek\<close> end in the right cluster, but for its boundary inside the file.\<close>

lemma hops:
  assumes m: "0 < m" and p: "p \<le> n * m" and cs: "(n - 1) * m < sz" "p \<le> sz" "0 < n"
    and off: "p mod m \<noteq> 0 \<or> p = 0 \<or> sz \<le> p" and h: "h = (p - 1) div m"
  shows "h < n" and "p = h * m + (p - h * m)" and "p - h * m < m \<or> p - h * m = m \<and> Suc h = (n :: nat)"
proof -
  have b: "h * m \<le> p" "p - h * m \<le> m"
    using div_times_less_eq_dividend [of "p - 1" m] dividend_less_div_times [OF m, of "p - 1"]
    unfolding h [symmetric] by linarith+
  then show "p = h * m + (p - h * m)" by simp
  show hn: "h < n"
  proof (cases "p = 0")
    case False
    then have "p - 1 < n * m" using p by simp
    then show ?thesis unfolding h by (rule less_mult_imp_div_less)
  qed (use h cs(3) in simp)
  show "p - h * m < m \<or> p - h * m = m \<and> Suc h = n"
  proof (rule ccontr)
    assume "\<not> ?thesis"
    then have full: "p = Suc h * m" "Suc h \<noteq> n" using b by auto
    then have "p = sz" using off m cs(2) by auto
    moreover have "Suc h * m \<le> (n - 1) * m" using full(2) hn by (intro mult_le_mono1) simp
    ultimately show False using full(1) cs(1) by simp
  qed
qed

text \<open>The boundary: what \<open>fat_seek\<close> leaves, and one turn of reading from there.\<close>

lemma cluster_addr_next:
  assumes "cluster_geometry fi" and "2 \<le> c"
  shows "cluster_addr fi c + of_nat (spc fi) = cluster_addr fi (c + 1)"
proof -
  have "unat (c - 2) + 1 < 65536" using assms(2) unat_u16 [of c] by (simp add: unat_sub word_le_nat_alt)
  then have "unat (c - 2 + 1) = unat (c - 2) + 1" using unat_plus_of_nat [of "c - 2" 1] by simp
  then have "(ucast (c + 1 - 2) :: u32) = ucast (c - 2) + 1"
    using ucast_of_nat_unat [of "c - 2 + 1"] ucast_of_nat_unat [of "c - 2"] by (simp add: algebra_simps)
  then show ?thesis
    using assms(1) by (simp add: cluster_addr_def cluster_geometry_def push_bit_eq_mult algebra_simps)
qed

context live_device
begin

lemma read_behind_cluster:
  assumes S: "fat_state blocks ready s" and geo: "cluster_geometry (fat_info s)"
    and fd: "unat fd < MAX_FILE_DESC" and d: "fat_private_file_desc s ! unat fd = d"
    and live: "\<not> is_free d" "\<not> is_stale d" "\<not> is_root d"
    and at: "index_in_block d = 0" "block_in_cluster d = sectors_per_cluster (fat_info s)"
    and nx: "next_cluster d < FAT_MIN_LAST_CLUSTER" "in_fat (fat_info s) (next_cluster d)"
      "fat_entry (fat_info s) (blocks (dev s)) (next_cluster d) \<noteq> 0"
    and rdy: "ready (dev s) (block_addr d)"
    and len: "0 < len" "len \<le> 512" "unat len \<le> length dst"
  shows "\<exists>t. fat_read C fd dst len s =
    Some (Inr ((len, splice_at dst 0 (slice_at (blocks (dev s) (block_addr d)) 0 (unat len))), t))"
proof -
  let ?fi = "fat_info s" and ?B = "blocks (dev s)" and ?i = "unat fd"
  have g: "good blocks s" using S by (simp add: fat_state_def)
  have il: "?i < length (fat_private_file_desc s)" using good_length [OF g] fd by simp
  let ?data = "splice_at dst 0 (slice_at (?B (block_addr d)) 0 (unat len))"
  obtain t where t: "cache C (block_addr d) s = Some (Inr (True, t))" "at_disk blocks ready s ?B t"
    "cache_block t = ?B (block_addr d)"
    using cache_run [OF g rdy] .
  note eq = at_disk_simps [OF t(2)]
  have len': "unat len \<le> 512" using len(2) by (simp add: word_le_nat_alt)
  have "length (cache_block t) = 512" using at_disk_good [OF t(2)] by (simp add: good_def wf_fs_def)
  then have tr: "transfer C False (unat (index_in_block d)) dst 0 (unat len) t = Some (Inr ((True, ?data), t))"
    using len' len(3) t(3) by (simp add: transfer_def peek_bytes_def at(1))
  have "wp (seek_advance C ?i len) (\<lambda>ok u. ok \<and> at_disk blocks ready (t\<lparr>fat_private_file_desc :=
      (fat_private_file_desc t)[?i := advance_desc (fat_info t) (fat_entry (fat_info t) (blocks (dev t))) len d]\<rparr>)
      (blocks (dev t)) u) t"
    using at_disk_good [OF t(2)] S fd d nx unfolding fat_state_def
    by (intro seek_advance_wp) (simp_all add: eq)
  from wp_True [OF this] obtain u where u: "seek_advance C ?i len t = Some (Inr (True, u))" by metis
  have "next_chunk ?i False len s = Some (Inr (len, s))"
    using il d nx(1) at(1) len(2) by (simp add: next_chunk_def pfd_def Let_def linorder_not_le [symmetric])
  moreover have "len \<noteq> 0" using len(1) by auto
  ultimately have "fat_action_loop C ?i False dst 0 len 0 s = fat_action_loop C ?i False ?data (unat len) 0 len u"
    using il d t(1) tr u by (subst fat_action_loop.simps) (simp add: first_cluster_def append_cluster_def pfd_def)
  also have "\<dots> = Some (Inr ((len, ?data), u))" by (subst fat_action_loop.simps) simp
  finally show ?thesis
    using get_desc_live [OF S fd d live(1,2)] by (simp add: fat_read_def fat_action_def)
qed

end

subsection \<open>The properties\<close>

lemma settle_at_end:
  assumes geo: "cluster_geometry fi" and f: "file_open fi B cs d p0"
    and r: "r = settle fi (unat (last_cluster_len d)) (de_size (dir_entry d))
      (if cs = [] then d else at_cluster (fat_entry fi B) (last cs) d)"
  shows "pos_at fi B cs r (file_size d div 512) (file_size d mod 512)" "moved d r"
proof -
  let ?m = "cluster_bytes fi"
  have size: "file_size d \<le> length cs * ?m" "cs \<noteq> [] \<Longrightarrow> (length cs - 1) * ?m < file_size d"
    and lcl: "unat (last_cluster_len d) = file_size d - (length cs - 1) * ?m"
    using f by (simp_all add: file_open_def)
  show "moved d r" by (simp add: r moved_def settle_def at_cluster_def)
  show "pos_at fi B cs r (file_size d div 512) (file_size d mod 512)"
  proof (cases "cs = []")
    case True
    then have "pos_at fi B cs d 0 0" "file_size d = 0" using f by (auto simp: file_open_def)
    then show ?thesis using True lcl by (simp add: r settle_def pos_at_def file_size_def unat_eq_zero)
  next
    case ne: False
    let ?k = "length cs - 1"
    have k: "?k < length cs" "file_size d = ?k * ?m + unat (last_cluster_len d)" "cs ! ?k = last cs"
      using ne size lcl by (simp_all add: last_conv_nth)
    have "file_size d \<le> Suc ?k * ?m" using size(1) ne by simp
    then have "unat (last_cluster_len d) < ?m \<or> unat (last_cluster_len d) = ?m \<and> Suc ?k = length cs"
      using k(1,2) by auto
    with settle_pos [OF geo k(1,2) this, of "at_cluster (fat_entry fi B) (last cs) d" B] k(3) ne
    show ?thesis by (simp add: r file_size_def)
  qed
qed

text \<open>
  C9: \<open>fat_seek\<close> on an open file goes to the offset asked for, or to the end of the file where the
  offset is behind it; only the position changes. This holds for every offset that is not a
  multiple of the cluster size strictly inside the file.
\<close>

theorem fat_seek_moves:
  assumes dev: "live_device C blocks ready" and S: "fat_state blocks ready s"
    and geo: "cluster_geometry (fat_info s)"
    and fd: "unat fd < MAX_FILE_DESC" and d: "fat_private_file_desc s ! unat fd = d"
    and live: "\<not> is_free d" "\<not> is_stale d"
    and f: "file_open (fat_info s) (blocks (dev s)) cs d p0"
    and off: "unat off mod cluster_bytes (fat_info s) \<noteq> 0 \<or> unat off = 0 \<or> file_size d \<le> unat off"
  shows "\<exists>t d'. fat_seek C fd off s = Some (Inr (True, t)) \<and>
    fat_private_file_desc t = (fat_private_file_desc s)[unat fd := d'] \<and> moved d d' \<and>
    file_open (fat_info s) (blocks (dev s)) cs d' (min (unat off) (file_size d)) \<and>
    fat_state blocks ready t \<and> fat_info t = fat_info s \<and> blocks (dev t) = blocks (dev s) \<and>
    last_error t = last_error s"
proof -
  let ?fi = "fat_info s" and ?B = "blocks (dev s)" and ?m = "cluster_bytes (fat_info s)" and ?p = "unat off"
  let ?ent = "fat_entry ?fi ?B" and ?b = "begin_desc (fat_info s) (fat_entry (fat_info s) (blocks (dev s))) d"
  have m: "0 < ?m" using spc_bounds [OF geo] by (simp add: cluster_bytes_def)
  have size: "file_size d \<le> length cs * ?m" "cs \<noteq> [] \<Longrightarrow> (length cs - 1) * ?m < file_size d"
    and cs: "cs = [] \<or> chain ?fi ?B cs" and lo: "de_cluster_lo (dir_entry d) = (if cs = [] then 0 else hd cs)"
    and lcl: "unat (last_cluster_len d) = file_size d - (length cs - 1) * ?m"
    using f by (simp_all add: file_open_def)
  have goal: ?thesis if "fat_seek C fd off s = Some (Inr (True, t))"
    "file_step blocks ready s (unat fd) r (last_error s) ?B t" "moved d r"
    "pos_at ?fi ?B cs r (min ?p (file_size d) div 512) (min ?p (file_size d) mod 512)" for t r
    using that file_step_simps [OF that(2)] file_step_state [OF S that(2)]
      file_open_moved [OF f that(3), of "min ?p (file_size d)"]
    by (intro exI [of _ t] exI [of _ r]) simp
  show ?thesis
  proof (cases "?p \<le> file_size d")
    case True
    define h where "h = (?p - 1) div ?m"
    define r where "r = settle ?fi (?p - h * ?m) off (if cs = [] then ?b else at_cluster ?ent (cs ! h) ?b)"
    have mv: "moved d r" by (simp add: r_def moved_def settle_def at_cluster_def begin_desc_def Let_def)
    obtain t where t: "fat_seek C fd off s = Some (Inr (True, t))"
      "file_step blocks ready s (unat fd) r (last_error s) ?B t"
      using live_device.fat_seek_run [OF dev S geo fd d live f True h_def r_def] .
    have "pos_at ?fi ?B cs r (?p div 512) (?p mod 512)"
    proof (cases "cs = []")
      case nil: True
      then have "?p = 0" "off = 0" using True size(1) by (simp_all add: unat_eq_zero)
      then show ?thesis using nil lo by (simp add: r_def settle_def begin_desc_def pos_at_def h_def)
    next
      case False
      then have "?p \<le> length cs * ?m" "0 < length cs" using True size(1) by simp_all
      note hop = hops [OF m this(1) size(2) [OF False] True this(2) off h_def]
      show ?thesis
        using settle_pos [OF geo hop, of "at_cluster ?ent (cs ! h) ?b" ?B] False by (simp add: r_def)
    qed
    then show ?thesis using goal [OF t mv] True by (simp add: min_def)
  next
    case False
    define r where "r = settle ?fi (unat (last_cluster_len d)) (de_size (dir_entry d)) (if cs = [] then d else at_cluster ?ent (last cs) d)"
    obtain t where t: "fat_seek_end C fd s = Some (Inr (True, t))"
      "file_step blocks ready s (unat fd) r (last_error s) ?B t"
      using live_device.fat_seek_end_run [OF dev S geo fd d live f r_def] .
    have "de_size (dir_entry d) < off" using False by (simp add: file_size_def word_less_nat_alt)
    then have run: "fat_seek C fd off s = Some (Inr (True, t))"
      using t(1) live_device.get_desc_live [OF dev S fd d live] by (simp add: fat_seek_def Let_def)
    have "pos_at ?fi ?B cs r (file_size d div 512) (file_size d mod 512)" and mv: "moved d r"
      using settle_at_end [OF geo f r_def] .
    then show ?thesis using goal [OF run t(2) mv] False by (simp add: min_def)
  qed
qed

theorem fat_seek_moves_witness:
  "\<exists>t d'. fat_seek sd_ops 0 550 open_fs = Some (Inr (True, t)) \<and>
     file_open small_info (sd_block small_card) [2, 3] d' 550"
proof -
  obtain d where d: "fat_private_file_desc open_fs ! 0 = d" "\<not> is_free d" "\<not> is_stale d"
    "file_open small_info (sd_block small_card) [2, 3] d 0" "file_size d = 600"
    using open_fs_file by blast
  have "unat (550 :: u32) mod cluster_bytes small_info \<noteq> 0" by (simp add: cluster_bytes_def spc_def small_info_def)
  then show ?thesis
    using fat_seek_moves [OF sd.live_device_axioms open_fs_state, of 0 d "[2, 3]" 0 550, unfolded open_fs_simps]
      small_geometry d by auto
qed

text \<open>
  C34: \<open>fat_seek_end\<close> moves the position of an open file to its end, from wherever it stands, also when the
  file is empty or its last cluster is full; it changes nothing on the card and in the other descriptors.
\<close>

theorem fat_seek_end_moves:
  assumes dev: "live_device C blocks ready" and S: "fat_state blocks ready s"
    and geo: "cluster_geometry (fat_info s)"
    and fd: "unat fd < MAX_FILE_DESC" and d: "fat_private_file_desc s ! unat fd = d"
    and live: "\<not> is_free d" "\<not> is_stale d"
    and f: "file_open (fat_info s) (blocks (dev s)) cs d p0"
  shows "\<exists>t d'. fat_seek_end C fd s = Some (Inr (True, t)) \<and>
    fat_private_file_desc t = (fat_private_file_desc s)[unat fd := d'] \<and> moved d d' \<and>
    file_open (fat_info s) (blocks (dev s)) cs d' (file_size d) \<and>
    fat_state blocks ready t \<and> fat_info t = fat_info s \<and> blocks (dev t) = blocks (dev s) \<and>
    last_error t = last_error s"
proof -
  define r where "r = settle (fat_info s) (unat (last_cluster_len d)) (de_size (dir_entry d))
    (if cs = [] then d else at_cluster (fat_entry (fat_info s) (blocks (dev s))) (last cs) d)"
  obtain t where t: "fat_seek_end C fd s = Some (Inr (True, t))"
    "file_step blocks ready s (unat fd) r (last_error s) (blocks (dev s)) t"
    using live_device.fat_seek_end_run [OF dev S geo fd d live f r_def] .
  have "file_open (fat_info s) (blocks (dev s)) cs r (file_size d)"
    using file_open_moved [OF f settle_at_end(2) [OF geo f r_def], of "file_size d"] settle_at_end(1) [OF geo f r_def] by simp
  then show ?thesis
    using t(1) file_step_simps [OF t(2)] file_step_state [OF S t(2)] settle_at_end(2) [OF geo f r_def]
    by (intro exI [of _ t] exI [of _ r]) simp
qed

theorem fat_seek_end_moves_witness:
  "\<exists>t d'. fat_seek_end sd_ops 0 open_fs = Some (Inr (True, t)) \<and>
     file_open small_info (sd_block small_card) [2, 3] d' 600"
proof -
  obtain d where d: "fat_private_file_desc open_fs ! 0 = d" "\<not> is_free d" "\<not> is_stale d"
    "file_open small_info (sd_block small_card) [2, 3] d 0" "file_size d = 600"
    using open_fs_file by blast
  then show ?thesis
    using fat_seek_end_moves [OF sd.live_device_axioms open_fs_state, of 0 d "[2, 3]" 0, unfolded open_fs_simps]
      small_geometry by auto
qed

text \<open>
  C36: \<open>fat_seek\<close> to a multiple of the cluster size strictly inside the file does not reach the
  cluster it should: it returns true and leaves the position behind the last block of the cluster
  before, so a following read of up to one block returns the bytes of the cluster that comes next
  on the card, whatever file that one belongs to.
\<close>

theorem fat_seek_cluster_boundary:
  assumes dev: "live_device C blocks ready" and S: "fat_state blocks ready s"
    and geo: "cluster_geometry (fat_info s)"
    and fd: "unat fd < MAX_FILE_DESC" and d: "fat_private_file_desc s ! unat fd = d"
    and live: "\<not> is_free d" "\<not> is_stale d"
    and f: "file_open (fat_info s) (blocks (dev s)) cs d p0"
    and k: "0 < k" "k < length cs" and off: "unat off = k * cluster_bytes (fat_info s)"
    and rdy: "ready (dev s) (cluster_addr (fat_info s) (cs ! (k - 1) + 1))"
    and len: "0 < len" "len \<le> 512" "unat len \<le> length dst"
  shows "\<exists>t u. fat_seek C fd off s = Some (Inr (True, t)) \<and>
    fat_read C fd dst len t = Some (Inr ((len, splice_at dst 0
      (slice_at (blocks (dev s) (cluster_addr (fat_info s) (cs ! (k - 1) + 1))) 0 (unat len))), u))"
proof -
  let ?fi = "fat_info s" and ?B = "blocks (dev s)" and ?m = "cluster_bytes (fat_info s)"
  let ?b = "begin_desc (fat_info s) (fat_entry (fat_info s) (blocks (dev s))) d"
  have m: "0 < ?m" and S64: "spc ?fi \<le> 64" using spc_bounds [OF geo] by (simp_all add: cluster_bytes_def)
  have cs: "cs \<noteq> []" using k by auto
  then have ch: "chain ?fi ?B cs" and root: "\<not> is_root d" using f by (auto simp: file_open_def)
  have "k * ?m \<le> (length cs - 1) * ?m" using k by (intro mult_le_mono1) simp
  also have "\<dots> < file_size d" using f cs by (simp add: file_open_def)
  finally have le: "unat off \<le> file_size d" using off by simp
  have "unat off - 1 = (k - 1) * ?m + (?m - 1)" using off k(1) m by (cases k) simp_all
  moreover have "((k - 1) * ?m + x) div ?m = k - 1" if "x < ?m" for x using that by simp
  ultimately have h: "k - 1 = (unat off - 1) div ?m" using m by (metis diff_less zero_less_one)
  define r where "r = settle ?fi (unat off - (k - 1) * ?m) off
    (if cs = [] then ?b else at_cluster (fat_entry ?fi ?B) (cs ! (k - 1)) ?b)"
  obtain t where t: "fat_seek C fd off s = Some (Inr (True, t))"
    "file_step blocks ready s (unat fd) r (last_error s) ?B t"
    using live_device.fat_seek_run [OF dev S geo fd d live f le h r_def] .
  note eq = file_step_simps [OF t(2)]
  have St: "fat_state blocks ready t" using file_step_state [OF S t(2)] .
  have "good blocks s" using S by (simp add: fat_state_def)
  then have dt: "fat_private_file_desc t ! unat fd = r"
    using eq(1) good_length [of blocks s] fd by simp
  have "unat off - (k - 1) * ?m = 512 * spc ?fi" using off k(1) by (cases k) (simp_all add: cluster_bytes_def)
  then have r: "r = settle ?fi (512 * spc ?fi) off (at_cluster (fat_entry ?fi ?B) (cs ! (k - 1)) ?b)"
    using cs by (simp add: r_def)
  have nx: "fat_entry ?fi ?B (cs ! (k - 1)) = cs ! k" using chain_next [OF ch, of "k - 1"] k by simp
  have addr: "block_addr r = cluster_addr ?fi (cs ! (k - 1) + 1)"
    using cluster_addr_next [OF geo, of "cs ! (k - 1)"] chain_data [OF ch, of "cs ! (k - 1)"] k
    by (simp add: r settle_def data_cluster_def)
  have fields: "\<not> is_free r" "\<not> is_stale r" "\<not> is_root r" "index_in_block r = 0"
    "block_in_cluster r = sectors_per_cluster ?fi" "next_cluster r = cs ! k"
    using live root nx by (simp_all add: r settle_def at_cluster_def begin_desc_def Let_def spc_def)
  have mem: "cs ! k \<in> set cs" using k by simp
  have "in_fat ?fi (cs ! k)" "fat_entry ?fi ?B (cs ! k) \<noteq> 0" "cs ! k < FAT_MIN_LAST_CLUSTER"
    using chain_data [OF ch mem] chain_member_entry [OF ch mem] chain_nth_less [OF ch k(2)] by (simp_all add: data_cluster_def)
  with live_device.read_behind_cluster [OF dev St _ fd dt fields(1-4), of len dst] fields(5,6) geo rdy len addr t(1) eq
  show ?thesis by (auto simp: eq)
qed

text \<open>
  A volume where the clusters 2 and 4 hold one file and cluster 3 another: the first file is open
  at its start, and seeking to 512 makes the other file's bytes appear.
\<close>

definition split_card :: sd_card where
  "split_card = small_card\<lparr>contents := (\<lambda>b.
     if b = 1 \<or> b = 2 then [0xf8, 0xff, 0xff, 0xff, 0x04, 0x00, 0xff, 0xff, 0xff, 0xff] @ replicate 502 0
     else if b = 4 then replicate 512 0x61 else if b = 5 then replicate 512 0x7a
     else if b = 6 then replicate 512 0x62 else [])\<rparr>"

definition split_desc :: FileDescriptor where
  "split_desc = init_desc small_info (fat_entry small_info (sd_block split_card)) (free_desc\<lparr>is_free := False\<rparr>)"

definition split_fs :: "sd_card fs" where
  "split_fs = small_fs\<lparr>dev := split_card, fat_private_file_desc := (fat_private_file_desc small_fs)[0 := split_desc]\<rparr>"

lemma split_ready: "sd_ready split_card = sd_ready small_card"
  by (simp add: fun_eq_iff sd_ready_def split_card_def)

lemma split_chain: "chain small_info (sd_block split_card) [2, 4]"
proof -
  have "fat_entry small_info (sd_block split_card) 2 = 4" "fat_entry small_info (sd_block split_card) 4 = 0xffff"
    by (simp_all add: fat_entry_def small_info_def sd_block_def split_card_def rd16_def un16_def fat_sector_def fat_slot_def)
  then show ?thesis by (simp add: data_cluster_def small_in_fat)
qed

lemma split_fs_state: "fat_state sd_block sd_ready split_fs"
proof -
  have "good sd_block split_fs"
    using small_fs_good by (simp add: good_def wf_fs_def coherent_def split_fs_def small_fs_def)
  moreover have "mirrored small_info (sd_block split_card)"
    by (simp add: mirrored_def small_info_def sd_block_def split_card_def)
  ultimately show ?thesis
    using small_layout by (simp add: fat_state_def split_fs_def small_fs_simps split_ready)
qed

lemma split_fs_file:
  "fat_private_file_desc split_fs ! 0 = split_desc" "\<not> is_free split_desc" "\<not> is_stale split_desc"
  "fat_info split_fs = small_info" "dev split_fs = split_card"
  "file_open small_info (sd_block split_card) [2, 4] split_desc 0"
proof -
  have "entry_file small_info (sd_block split_card) [2, 4] small_entry"
    using split_chain by (simp add: entry_file_def small_cluster_bytes small_entry_def)
  then show "file_open small_info (sd_block split_card) [2, 4] split_desc 0"
    unfolding split_desc_def by (intro init_desc_open [OF small_geometry]) (simp add: free_desc_def)
qed (simp_all add: split_fs_def small_fs_def split_desc_def init_desc_def Let_def free_desc_def)

theorem fat_seek_cluster_boundary_witness:
  "\<exists>t u. fat_seek sd_ops 0 512 split_fs = Some (Inr (True, t)) \<and>
     fat_read sd_ops 0 (replicate 88 0) 88 t = Some (Inr ((88, replicate 88 0x7a), u))"
proof -
  have block: "cluster_addr small_info ([2, 4] ! (1 - 1) + 1) = 5" by (simp add: cluster_addr_def small_info_def)
  have "sd_block split_card 5 = replicate 512 0x7a" by (simp add: sd_block_def split_card_def)
  moreover have "sd_ready small_card 5" by (simp add: small_ready)
  ultimately show ?thesis
    using fat_seek_cluster_boundary [OF sd.live_device_axioms split_fs_state, of 0 split_desc "[2, 4]" 0 1 512 88
      "replicate 88 0", unfolded split_fs_file(4,5) block split_ready] split_fs_file small_geometry
    by (simp add: small_cluster_bytes slice_at_def splice_at_def)
qed

end
