(* ===== verification/FatWrite.thy ===== *)
theory FatWrite
  imports FatRead
begin

section \<open>Files as byte sequences: writing (lib/fat/fat.c)\<close>

text \<open>
  What \<open>fat_write\<close> does to the bytes of the file, to its chain, and to the rest of the card. The
  data area's clusters do not overlap each other or the FAT, so that a write in one file cannot
  change another one.
\<close>

subsection \<open>The data area\<close>

text \<open>
  The whole area has block addresses below \<open>2 ^ 32\<close>, and a free entry is that of a cluster the
  card has blocks for (\<open>alloc_cluster\<close> does not check the number of clusters).
\<close>

definition blocks_of :: "FatInfo \<Rightarrow> u16 \<Rightarrow> u32 list" where
  "blocks_of fi c = map (\<lambda>j. cluster_addr fi c + of_nat j) [0..<spc fi]"

definition free_cluster :: "FatInfo \<Rightarrow> (u32 \<Rightarrow> bytes) \<Rightarrow> u16 \<Rightarrow> bool" where
  "free_cluster fi B c \<longleftrightarrow> in_fat fi c \<and> fat_entry fi B c = 0"

definition volume_ok :: "FatInfo \<Rightarrow> (u32 \<Rightarrow> bool) \<Rightarrow> (u32 \<Rightarrow> bytes) \<Rightarrow> bool" where
  "volume_ok fi rdy B \<longleftrightarrow> fat_layout fi rdy \<and> cluster_geometry fi \<and>
     unat (data_offset fi) + 65536 * spc fi \<le> 4294967296 \<and>
     (\<forall>c. free_cluster fi B c \<longrightarrow> data_cluster fi c \<and> (\<forall>b \<in> set (blocks_of fi c). rdy b))"

lemma file_blocks_concat: "file_blocks fi cs = concat (map (blocks_of fi) cs)"
  by (simp add: file_blocks_def blocks_of_def [abs_def])

lemma cluster_addr_unat:
  assumes "cluster_geometry fi" and "unat (data_offset fi) + 65536 * spc fi \<le> 4294967296"
    and "2 \<le> c" and "j < spc fi"
  shows "unat (cluster_addr fi c + of_nat j) = unat (data_offset fi) + (unat c - 2) * spc fi + j"
proof -
  let ?k = "unat (c - 2)"
  have k: "?k = unat c - 2" using assms(3) by (simp add: unat_sub word_le_nat_alt)
  have bound: "(?k + 1) * spc fi \<le> 65536 * spc fi"
    using k unat_u16 [of c] by (intro mult_le_mono1) simp
  have "push_bit l (ucast (c - 2)) = (of_nat (?k * 2 ^ l) :: u32)" for l
    by (simp add: push_bit_eq_mult mult.commute)
  moreover have "spc fi = 2 ^ unat (log_sectors_per_cluster fi)" using assms(1) by (simp add: cluster_geometry_def)
  ultimately have "cluster_addr fi c + of_nat j = data_offset fi + of_nat (?k * spc fi + j)"
    unfolding cluster_addr_def by simp
  moreover have "unat (data_offset fi) + (?k * spc fi + j) < 4294967296"
    using bound assms(2,4) unfolding add_mult_distrib by linarith
  then have "unat (data_offset fi) + (?k * spc fi + j) < 2 ^ LENGTH(32)" by simp
  ultimately show ?thesis using k by (simp only: unat_plus_of_nat)
qed

lemma blocks_of_unat:
  assumes "volume_ok fi rdy B" and "data_cluster fi c"
  shows "b \<in> set (blocks_of fi c) \<Longrightarrow> unat b \<in> {unat (data_offset fi) + (unat c - 2) * spc fi ..<
    unat (data_offset fi) + (unat c - 1) * spc fi}"
proof -
  assume "b \<in> set (blocks_of fi c)"
  then obtain j where j: "j < spc fi" "b = cluster_addr fi c + of_nat j" by (auto simp: blocks_of_def)
  have c: "2 \<le> c" using assms(2) by (simp add: data_cluster_def)
  then have "unat c - 1 = Suc (unat c - 2)" by (simp add: word_le_nat_alt)
  then have "(unat c - 1) * spc fi = (unat c - 2) * spc fi + spc fi" by simp
  then show ?thesis
    using assms(1) j c by (simp add: volume_ok_def cluster_addr_unat)
qed

lemma blocks_of_disjoint:
  assumes "volume_ok fi rdy B" and "data_cluster fi c" and "data_cluster fi c'" and "c \<noteq> c'"
  shows "set (blocks_of fi c) \<inter> set (blocks_of fi c') = {}"
proof -
  have "False" if b: "b \<in> set (blocks_of fi x)" "b \<in> set (blocks_of fi y)" and xy: "unat x < unat y"
    and d: "data_cluster fi x" "data_cluster fi y" for b x y
  proof -
    have "(unat x - 1) * spc fi \<le> (unat y - 2) * spc fi"
      using xy d by (intro mult_le_mono1) (simp add: data_cluster_def word_le_nat_alt)
    then show False
      using blocks_of_unat [OF assms(1) d(1) b(1)] blocks_of_unat [OF assms(1) d(2) b(2)]
      unfolding atLeastLessThan_iff by linarith
  qed
  then show ?thesis
    using assms(2-4) by (metis disjoint_iff linorder_neqE_nat word_unat_eq_iff)
qed

lemma distinct_blocks_of:
  assumes "volume_ok fi rdy B"
  shows "distinct (blocks_of fi c)"
proof -
  have "spc fi \<le> 64" using assms spc_bounds by (simp add: volume_ok_def)
  then have "inj_on (\<lambda>j. cluster_addr fi c + of_nat j) {0..<spc fi}"
    by (intro inj_onI) (simp add: of_nat_word_inj)
  then show ?thesis by (simp add: blocks_of_def distinct_map)
qed

lemma distinct_file_blocks:
  assumes "volume_ok fi rdy B" and "distinct cs" and "\<forall>c \<in> set cs. data_cluster fi c"
  shows "distinct (file_blocks fi cs)"
  using assms(2,3) by (induction cs)
    (auto simp: file_blocks_concat distinct_blocks_of [OF assms(1)] dest: blocks_of_disjoint [OF assms(1)])

lemma file_blocks_disjoint:
  assumes "volume_ok fi rdy B" and "\<forall>c \<in> set cs \<union> set ds. data_cluster fi c" and "set cs \<inter> set ds = {}"
  shows "set (file_blocks fi cs) \<inter> set (file_blocks fi ds) = {}"
proof -
  have "set (blocks_of fi x) \<inter> set (blocks_of fi y) = {}" if "x \<in> set cs" "y \<in> set ds" for x y
    using that assms(2,3) by (intro blocks_of_disjoint [OF assms(1)]) auto
  then show ?thesis by (fastforce simp: file_blocks_concat)
qed

lemma region_below:
  assumes "fat_layout fi rdy" and "b \<in> fat_region fi"
  shows "unat b < unat (data_offset fi)"
proof -
  have "unat (x + of_nat i) = unat x + i" if "unat x + unat (sectors_per_fat fi) \<le> unat (data_offset fi)"
    "i < unat (sectors_per_fat fi)" for x :: u32 and i
    using that unat_u32 [of "data_offset fi"] by (simp add: unat_plus_of_nat)
  with assms show ?thesis by (fastforce simp: fat_layout_def fat_region_def)
qed

lemma file_blocks_outside:
  assumes "volume_ok fi rdy B" and "\<forall>c \<in> set cs. data_cluster fi c" and "b \<in> set (file_blocks fi cs)"
  shows "b \<notin> fat_region fi"
proof
  assume "b \<in> fat_region fi"
  then have "unat b < unat (data_offset fi)" using assms(1) region_below by (auto simp: volume_ok_def)
  moreover obtain c where "c \<in> set cs" "b \<in> set (blocks_of fi c)"
    using assms(3) by (auto simp: file_blocks_concat)
  ultimately show False using blocks_of_unat [OF assms(1)] assms(2) by fastforce
qed

text \<open>Entries depend on the FAT's blocks only.\<close>

lemma fat_entry_outside:
  assumes "in_fat fi c" and "\<And>b. b \<in> fat_region fi \<Longrightarrow> B' b = B b"
  shows "fat_entry fi B' c = fat_entry fi B c"
proof -
  have "fat0_offset fi + fat_sector c \<in> fat_region fi"
    using assms(1) by (auto simp: fat_region_def fat_sector_eq in_fat_sec)
  then show ?thesis using assms(2) by (simp add: fat_entry_def)
qed

lemma mirrored_outside:
  assumes "mirrored fi B" and "\<And>b. b \<in> fat_region fi \<Longrightarrow> B' b = B b"
  shows "mirrored fi B'"
  using assms by (auto simp: mirrored_def fat_region_def)

subsection \<open>The bytes of a file\<close>

definition file_bytes :: "FatInfo \<Rightarrow> (u32 \<Rightarrow> bytes) \<Rightarrow> u16 list \<Rightarrow> FileDescriptor \<Rightarrow> bytes" where
  "file_bytes fi B cs d = take (file_size d) (file_data fi B cs)"

lemma file_data_cong: "(\<And>b. b \<in> set (file_blocks fi cs) \<Longrightarrow> B' b = B b) \<Longrightarrow> file_data fi B' cs = file_data fi B cs"
  by (simp add: file_data_def cong: map_cong)

lemma file_data_append: "file_data fi B (cs @ ds) = file_data fi B cs @ file_data fi B ds"
  by (simp add: file_data_def file_blocks_def)

lemma length_file_data:
  "\<forall>b \<in> set (file_blocks fi cs). length (B b) = 512 \<Longrightarrow> length (file_data fi B cs) = length cs * cluster_bytes fi"
  using length_concat_blocks [of "file_blocks fi cs" B 512]
  by (simp add: file_data_def cluster_bytes_def ac_simps)

text \<open>Overwriting a part of one block overwrites that part of the concatenation.\<close>

lemma concat_splice:
  assumes "\<forall>b \<in> set bs. length (B b) = n" and "distinct bs" and "q < length bs" and "i + length ys \<le> n"
  shows "concat (map (B(bs ! q := splice_at (B (bs ! q)) i ys)) bs) = splice_at (concat (map B bs)) (n * q + i) ys"
  using assms
proof (induction bs arbitrary: q)
  case (Cons b bs)
  show ?case
  proof (cases q)
    case 0
    then have "map (B((b # bs) ! q := Y)) (b # bs) = Y # map B bs" for Y using Cons.prems(2) by auto
    then show ?thesis using 0 Cons.prems by (simp add: splice_at_def del: list.map fun_upd_apply) simp
  next
    case (Suc k)
    then have ne: "bs ! k \<noteq> b" using Cons.prems(2,3) by (auto simp: nth_mem)
    have "concat (map (B(bs ! k := splice_at (B (bs ! k)) i ys)) bs) = splice_at (concat (map B bs)) (n * k + i) ys"
      using Cons.prems Suc by (intro Cons.IH) auto
    then show ?thesis using Suc ne Cons.prems(1) by (simp add: splice_at_def fun_upd_def add.assoc)
  qed
qed simp

lemma file_data_splice:
  assumes "volume_ok fi rdy B0" and "distinct cs" and "\<forall>c \<in> set cs. data_cluster fi c"
    and "\<forall>b \<in> set (file_blocks fi cs). length (B b) = 512"
    and "q < length cs * spc fi" and "i + length ys \<le> 512"
  shows "file_data fi (B(file_blocks fi cs ! q := splice_at (B (file_blocks fi cs ! q)) i ys)) cs =
    splice_at (file_data fi B cs) (512 * q + i) ys"
  unfolding file_data_def
  using assms(4) distinct_file_blocks [OF assms(1-3)] assms(5,6) by (intro concat_splice) simp_all

text \<open>Cutting at the size, and splices that extend.\<close>

lemma take_splice:
  assumes "p \<le> n" and "n \<le> length xs" and "p + length ys \<le> length xs"
  shows "take (max n (p + length ys)) (splice_at xs p ys) = splice_at (take n xs) p ys"
proof (cases "p + length ys \<le> n")
  case True
  moreover have "min p (length xs) = p" "min p n = p" "min (length xs) p = p" "min n p = p" using assms by simp_all
  ultimately show ?thesis by (simp add: splice_at_def drop_take)
next
  case False
  then show ?thesis using assms by (simp add: splice_at_def min_def max_def)
qed

lemma splice_splice_grow:
  "i \<le> length zs \<Longrightarrow> splice_at (splice_at zs i xs) (i + length xs) ys = splice_at zs i (xs @ ys)"
  by (simp add: splice_at_def ac_simps)

subsection \<open>Allocation while a file grows\<close>

text \<open>What taking the free cluster \<open>c\<close> behind \<open>l\<close> does to the blocks.\<close>

definition linked :: "FatInfo \<Rightarrow> u16 \<Rightarrow> u16 \<Rightarrow> (u32 \<Rightarrow> bytes) \<Rightarrow> (u32 \<Rightarrow> bytes) \<Rightarrow> bool" where
  "linked fi l c B B' \<longleftrightarrow> free_cluster fi B c \<and> mirrored fi B' \<and>
     (\<forall>x. in_fat fi x \<longrightarrow> fat_entry fi B' x =
        (if l \<noteq> 0 \<and> x = l then c else if x = c then 0xffff else fat_entry fi B x)) \<and>
     (\<forall>b. b \<notin> fat_region fi \<longrightarrow> B' b = B b)"

lemma alloc_cases:
  assumes dev: "live_device C blocks ready" and S: "fat_state blocks ready s"
    and l: "l = 0 \<or> in_fat (fat_info s) l"
  obtains (taken) c t where "alloc_cluster C l s = Some (Inr (c, t))"
      "at_disk blocks ready s (blocks (dev t)) t" "linked (fat_info s) l c (blocks (dev s)) (blocks (dev t))"
    | (full) t where "alloc_cluster C l s = Some (Inr (0xffff, t))"
      "at_disk blocks ready s (blocks (dev s)) t" "\<forall>c. \<not> free_cluster (fat_info s) (blocks (dev s)) c"
proof (cases "\<exists>c. free_cluster (fat_info s) (blocks (dev s)) c")
  case True
  define c where "c = (LEAST c. free_cluster (fat_info s) (blocks (dev s)) c)"
  have c: "free_cluster (fat_info s) (blocks (dev s)) c" unfolding c_def using True by (rule LeastI_ex)
  have least: "fat_entry (fat_info s) (blocks (dev s)) c' \<noteq> 0" if "c' < c" for c'
  proof
    assume "fat_entry (fat_info s) (blocks (dev s)) c' = 0"
    moreover have "in_fat (fat_info s) c'"
      using c that div_le_mono [of "unat c'" "unat c" 256]
      by (simp add: free_cluster_def in_fat_sec fat_sec_def word_less_nat_alt)
    ultimately show False using not_less_Least [OF that [unfolded c_def]] by (simp add: free_cluster_def)
  qed
  have in_fat: "in_fat (fat_info s) c" "fat_entry (fat_info s) (blocks (dev s)) c = 0"
    using c by (simp_all add: free_cluster_def)
  obtain t where t: "alloc_cluster C l s = Some (Inr (c, t))" "at_disk blocks ready s (blocks (dev t)) t"
    using live_device.alloc_cluster_run [OF dev S in_fat(1) l in_fat(2) least] by (auto simp: at_disk_def)
  moreover have "linked (fat_info s) l c (blocks (dev s)) (blocks (dev t))"
    using alloc_cluster_effect [OF dev S in_fat least l] t(1) c at_disk_simps [OF t(2)]
    by (auto simp: linked_def fat_state_def)
  ultimately show thesis by (rule taken)
next
  case False
  then have "fat_entry (fat_info s) (blocks (dev s)) c \<noteq> 0" if "in_fat (fat_info s) c" for c
    using that by (auto simp: free_cluster_def)
  with live_device.alloc_sectors_full [OF dev S, of 0 "unat (sectors_per_fat (fat_info s))" l 0]
  obtain t where "alloc_cluster C l s = Some (Inr (0xffff, t))" "at_disk blocks ready s (blocks (dev s)) t"
    by (auto simp: alloc_cluster_def)
  then show thesis using False full by blast
qed

subsection \<open>How a file may change the card\<close>

text \<open>
  \<open>extended fi B cs B' cs'\<close>: the chain has grown by clusters that were free, and beside the FAT
  entries and the blocks of the new chain nothing has changed.
\<close>

definition extended :: "FatInfo \<Rightarrow> (u32 \<Rightarrow> bytes) \<Rightarrow> u16 list \<Rightarrow> (u32 \<Rightarrow> bytes) \<Rightarrow> u16 list \<Rightarrow> bool" where
  "extended fi B cs B' cs' \<longleftrightarrow> (\<exists>new. cs' = cs @ new \<and> (\<forall>c \<in> set new. free_cluster fi B c)) \<and>
     mirrored fi B' \<and> (\<forall>c \<in> set cs'. fat_entry fi B' c \<noteq> 0) \<and>
     (\<forall>x. in_fat fi x \<and> x \<notin> set cs' \<longrightarrow> fat_entry fi B' x = fat_entry fi B x) \<and>
     (\<forall>b. b \<notin> fat_region fi \<and> b \<notin> set (file_blocks fi cs') \<longrightarrow> B' b = B b)"

lemma extended_refl:
  "cs = [] \<or> chain fi B cs \<Longrightarrow> mirrored fi B \<Longrightarrow> extended fi B cs B cs"
  using chain_member_entry by (auto simp: extended_def)

lemma extended_free:
  "extended fi B cs B' cs' \<Longrightarrow> free_cluster fi B' c \<Longrightarrow> free_cluster fi B c"
  by (auto simp: extended_def free_cluster_def)

lemma extended_trans:
  assumes "extended fi B cs B' cs'" and "extended fi B' cs' B'' cs''"
  shows "extended fi B cs B'' cs''"
proof -
  obtain new new' where n: "cs' = cs @ new" "cs'' = cs' @ new'"
    "\<forall>c \<in> set new. free_cluster fi B c" "\<forall>c \<in> set new'. free_cluster fi B' c"
    using assms by (auto simp: extended_def)
  moreover have "set (file_blocks fi cs') \<subseteq> set (file_blocks fi cs'')"
    using n(2) by (auto simp: file_blocks_concat)
  ultimately show ?thesis
    using assms extended_free [OF assms(1)] unfolding extended_def by auto
qed

lemma extended_volume:
  "volume_ok fi rdy B \<Longrightarrow> extended fi B cs B' cs' \<Longrightarrow> volume_ok fi rdy B'"
  using extended_free unfolding volume_ok_def by blast

lemma extended_ready:
  assumes "volume_ok fi rdy B" and "extended fi B cs B' cs'" and "file_ready fi rdy cs"
  shows "file_ready fi rdy cs'"
proof -
  obtain new where "cs' = cs @ new" "\<forall>c \<in> set new. free_cluster fi B c"
    using assms(2) by (auto simp: extended_def)
  moreover have "rdy b" if "free_cluster fi B c" "b \<in> set (blocks_of fi c)" for b c
    using assms(1) that by (simp add: volume_ok_def)
  ultimately show ?thesis using assms(3) by (auto simp: file_ready_def file_blocks_concat)
qed

text \<open>A new cluster behind the last one.\<close>

lemma extended_link:
  assumes k: "linked fi l c B B'" and cs: "cs = [] \<or> chain fi B cs" and l: "l = (if cs = [] then 0 else last cs)"
    and vol: "volume_ok fi rdy B"
  shows "extended fi B cs B' (cs @ [c])" and "chain fi B' (cs @ [c])" and "c \<notin> set cs"
    and "fat_entry fi B' c = 0xffff"
proof -
  have c: "free_cluster fi B c" "data_cluster fi c" using k vol by (auto simp: linked_def volume_ok_def)
  have e: "fat_entry fi B' x = (if l \<noteq> 0 \<and> x = l then c else if x = c then 0xffff else fat_entry fi B x)"
    if "in_fat fi x" for x using k that by (simp add: linked_def)
  have member: "in_fat fi x \<and> x \<noteq> 0 \<and> fat_entry fi B x \<noteq> 0" if "x \<in> set cs" for x
  proof -
    have "chain fi B cs" using cs that by auto
    then show ?thesis
      using chain_data [of fi B cs x] chain_member_entry [of fi B cs x] that by (auto simp: data_cluster_def)
  qed
  show new: "c \<notin> set cs" using member c(1) by (auto simp: free_cluster_def)
  have lc: "l \<noteq> c" using l new c(2) by (auto simp: data_cluster_def)
  show ec: "fat_entry fi B' c = 0xffff" using e c lc by (simp add: free_cluster_def)
  show ch: "chain fi B' (cs @ [c])"
  proof (cases "cs = []")
    case False
    then have chain: "chain fi B cs" and last: "l = last cs" "last cs \<in> set cs" using cs l by simp_all
    show ?thesis
    proof (rule chain_snoc [OF chain c(2)])
      show "fat_entry fi B' (last cs) = c" using e [of l] member [OF last(2)] last(1) by simp
      show "FAT_MIN_LAST_CLUSTER \<le> fat_entry fi B' c" by (simp add: ec)
      fix x assume x: "x \<in> set (butlast cs)"
      then have "x \<noteq> last cs"
        using chain_distinct [OF chain] False
        by (metis append_butlast_last_id distinct_butlast not_distinct_conv_prefix)
      then show "fat_entry fi B' x = fat_entry fi B x"
        using e [of x] member in_set_butlastD [OF x] new last(1) by auto
    qed
  qed (use c ec in simp)
  have "fat_entry fi B' x \<noteq> 0" if "x \<in> set (cs @ [c])" for x by (rule chain_member_entry [OF ch that])
  then show "extended fi B cs B' (cs @ [c])"
    using k c(1) e l by (auto simp: extended_def linked_def)
qed

text \<open>What a write may change in the descriptor, apart from the position.\<close>

definition edited :: "FileDescriptor \<Rightarrow> FileDescriptor \<Rightarrow> bool" where
  "edited d d' \<longleftrightarrow> is_free d' = is_free d \<and> is_stale d' = is_stale d \<and>
     dir_entry_block_addr d' = dir_entry_block_addr d \<and>
     dir_entry_index_in_block d' = dir_entry_index_in_block d \<and> is_root d' = is_root d \<and>
     (dir_entry d')\<lparr>de_cluster_lo := 0, de_size := 0\<rparr> = (dir_entry d)\<lparr>de_cluster_lo := 0, de_size := 0\<rparr> \<and>
     (dir_entry_modified d' \<or> dir_entry d' = dir_entry d \<and> \<not> dir_entry_modified d)"

lemma edited_refl: "edited d d"
  by (simp add: edited_def)

lemma edited_trans: "edited d d' \<Longrightarrow> edited d' d'' \<Longrightarrow> edited d d''"
  by (auto simp: edited_def)

lemma edited_moved: "moved d d' \<Longrightarrow> edited d d'"
  by (auto simp: edited_def moved_def)

subsection \<open>Room for the next byte\<close>

text \<open>
  The position has a block: it is not behind the last cluster. The last cluster may be empty, then
  the position is at its start.
\<close>

definition file_mid :: "FatInfo \<Rightarrow> (u32 \<Rightarrow> bytes) \<Rightarrow> u16 list \<Rightarrow> FileDescriptor \<Rightarrow> nat \<Rightarrow> bool" where
  "file_mid fi B cs d p \<longleftrightarrow> file_span fi B cs d p \<and> p div 512 < length cs * spc fi \<and>
     ((length cs - 1) * cluster_bytes fi < file_size d \<or> p = file_size d)"

lemma pos_at_end:
  assumes f: "file_open fi B cs d p" and q: "\<not> p div 512 < length cs * spc fi"
  shows "p = length cs * cluster_bytes fi" and "file_size d = p"
proof -
  have "p div 512 = length cs * spc fi" "p mod 512 = 0"
    using f q by (simp_all add: file_open_def pos_at_def)
  then show p: "p = length cs * cluster_bytes fi"
    using div_mult_mod_eq [of p 512] by (simp add: cluster_bytes_def)
  show "file_size d = p" using f p by (simp add: file_open_def)
qed

lemma bic_less:
  assumes "pos_at fi B cs d q i" and "q < length cs * spc fi" and "cluster_geometry fi"
  shows "block_in_cluster d \<noteq> sectors_per_cluster fi"
proof -
  have S: "0 < spc fi" "spc fi \<le> 64" using spc_bounds [OF assms(3)] by auto
  then have "q mod spc fi < spc fi" by simp
  moreover have "unat (block_in_cluster d) = q mod spc fi"
    using assms(1,2) \<open>q mod spc fi < spc fi\<close> S(2) by (simp add: pos_at_def unat_of_nat_mod)
  ultimately show ?thesis by (auto simp: spc_def)
qed

text \<open>The descriptor after each of the two allocations.\<close>

definition first_desc :: "FatInfo \<Rightarrow> u16 \<Rightarrow> FileDescriptor \<Rightarrow> FileDescriptor" where
  "first_desc fi c d = d\<lparr>cur_cluster := c, next_cluster := 0xffff, dir_entry_modified := True,
     dir_entry := (dir_entry d)\<lparr>de_cluster_lo := c\<rparr>, block_addr := cluster_addr fi c\<rparr>"

definition next_desc :: "FatInfo \<Rightarrow> u16 \<Rightarrow> FileDescriptor \<Rightarrow> FileDescriptor" where
  "next_desc fi c d = d\<lparr>cur_cluster := c, next_cluster := 0xffff, block_addr := cluster_addr fi c,
     last_cluster_len := 0, block_in_cluster := 0\<rparr>"

lemma edited_desc: "edited d (first_desc fi c d)" "edited d (next_desc fi c d)"
  by (simp_all add: edited_def first_desc_def next_desc_def)

lemma first_desc_mid:
  assumes f: "file_open fi B [] d p" and geo: "cluster_geometry fi" and ch: "chain fi B' [c]"
    and e: "fat_entry fi B' c = 0xffff"
  shows "file_mid fi B' [c] (first_desc fi c d) p" and "file_size (first_desc fi c d) = file_size d"
proof -
  have S: "0 < spc fi" using spc_bounds [OF geo] by simp
  have d: "file_size d = 0" "p = 0" "unat (last_cluster_len d) = 0" "\<not> is_root d" "pos_at fi B [] d 0 0"
    using f by (auto simp: file_open_def)
  have b: "file_blocks fi [c] ! 0 = cluster_addr fi c" using nth_file_blocks [of 0 "[c]" fi] S by simp
  have "pos_at fi B' [c] (first_desc fi c d) 0 0"
    using d(5) S e b by (simp add: pos_at_def first_desc_def)
  moreover show "file_size (first_desc fi c d) = file_size d"
    by (simp add: file_size_def first_desc_def)
  ultimately show "file_mid fi B' [c] (first_desc fi c d) p"
    using d ch S by (simp add: file_mid_def file_span_def) (simp add: first_desc_def)
qed

lemma next_desc_mid:
  assumes f: "file_open fi B cs d p" and geo: "cluster_geometry fi" and ch: "chain fi B' (cs @ [c])"
    and e: "fat_entry fi B' c = 0xffff" and ne: "cs \<noteq> []" and q: "\<not> p div 512 < length cs * spc fi"
  shows "file_mid fi B' (cs @ [c]) (next_desc fi c d) p" and "file_size (next_desc fi c d) = file_size d"
proof -
  let ?q = "length cs * spc fi"
  have S: "0 < spc fi" using spc_bounds [OF geo] by simp
  note pend = pos_at_end [OF f q]
  have pq: "p div 512 = ?q" "p mod 512 = 0" using f q by (simp_all add: file_open_def pos_at_def)
  have d: "\<not> is_root d" "de_cluster_lo (dir_entry d) = hd cs" "pos_at fi B cs d ?q 0"
    using f ne pq by (simp_all add: file_open_def)
  have b: "file_blocks fi (cs @ [c]) ! ?q = cluster_addr fi c"
    using nth_file_blocks [of ?q "cs @ [c]" fi] S by simp
  have "pos_at fi B' (cs @ [c]) (next_desc fi c d) ?q 0"
    using d(3) S e b by (simp add: pos_at_def next_desc_def)
  moreover show sz: "file_size (next_desc fi c d) = file_size d"
    by (simp add: file_size_def next_desc_def)
  moreover have "hd (cs @ [c]) = hd cs" using ne by simp
  ultimately show "file_mid fi B' (cs @ [c]) (next_desc fi c d) p"
    using d ch S pend pq ne by (simp add: file_mid_def file_span_def) (simp add: next_desc_def)
qed

text \<open>The two allocations as one step of the loop.\<close>

lemma link_step:
  assumes "at_disk blocks ready s B t" and "i < MAX_FILE_DESC" and "good blocks s"
  shows "file_step blocks ready s i d (last_error s) B
    (t\<lparr>fat_private_file_desc := (fat_private_file_desc t)[i := d]\<rparr>)"
  using at_disk_desc [OF assms(1), of "(fat_private_file_desc s)[i := d]"] good_length [OF assms(3)]
    at_disk_simps(1) [OF assms(1)]
  by (simp add: file_step_def at_disk_def)

lemma linked_bytes:
  assumes "linked fi l c B B'" and "volume_ok fi rdy B" and "cs = [] \<or> chain fi B cs"
    and "file_size d \<le> length (file_data fi B cs)" and "file_size d' = file_size d"
  shows "file_bytes fi B' (cs @ [c]) d' = file_bytes fi B cs d"
proof -
  have "\<forall>c \<in> set cs. data_cluster fi c" using assms(3) chain_data by auto
  then have "B' b = B b" if "b \<in> set (file_blocks fi cs)" for b
    using assms(1) file_blocks_outside [OF assms(2) _ that] by (simp add: linked_def)
  then have "file_data fi B' cs = file_data fi B cs" by (rule file_data_cong)
  then show ?thesis using assms(4,5) by (simp add: file_bytes_def file_data_append)
qed

lemma make_room:
  assumes dev: "live_device C blocks ready" and S: "fat_state blocks ready s"
    and vol: "volume_ok (fat_info s) (ready (dev s)) (blocks (dev s))"
    and i: "i < MAX_FILE_DESC" and d: "fat_private_file_desc s ! i = d"
    and f: "file_open (fat_info s) (blocks (dev s)) cs d p"
    and rdy: "file_ready (fat_info s) (ready (dev s)) cs"
  obtains (room) t d' cs' where
      "\<And>r k. or_return (first_cluster C i True) r (or_return (append_cluster C i True) r k) s = k t"
      "file_step blocks ready s i d' (last_error s) (blocks (dev t)) t"
      "file_mid (fat_info s) (blocks (dev t)) cs' d' p"
      "extended (fat_info s) (blocks (dev s)) cs (blocks (dev t)) cs'"
      "edited d d'" "file_size d' = file_size d"
      "file_bytes (fat_info s) (blocks (dev t)) cs' d' = file_bytes (fat_info s) (blocks (dev s)) cs d"
    | (full) t where
      "\<And>r k. or_return (first_cluster C i True) r (or_return (append_cluster C i True) r k) s = Some (Inr (r, t))"
      "file_step blocks ready s i d (last_error s) (blocks (dev s)) t"
      "\<forall>c. \<not> free_cluster (fat_info s) (blocks (dev s)) c"
proof -
  let ?fi = "fat_info s" and ?B = "blocks (dev s)" and ?ds = "fat_private_file_desc s"
  let ?l = "if cs = [] then 0 else last cs"
  have g: "good blocks s" and m: "mirrored ?fi ?B" using S by (simp_all add: fat_state_def)
  have il: "i < length ?ds" using good_length [OF g] i by simp
  have geo: "cluster_geometry ?fi" and S0: "0 < spc ?fi" using vol spc_bounds by (auto simp: volume_ok_def)
  have cs: "cs = [] \<or> chain ?fi ?B cs" and at: "pos_at ?fi ?B cs d (p div 512) (p mod 512)"
    using f by (simp_all add: file_open_def)
  have l: "?l = 0 \<or> in_fat ?fi ?l" using cs chain_data [of ?fi ?B cs "last cs"] by (auto simp: data_cluster_def)
  have size: "file_size d \<le> length (file_data ?fi ?B cs)"
    using f rdy live_device.block_len [OF dev] length_file_data [of ?fi cs ?B] by (simp add: file_open_def file_ready_def)
  have cur: "cur_cluster d = 0 \<longleftrightarrow> cs = []"
  proof (cases "cs = []")
    case False
    then have ch: "chain ?fi ?B cs" using cs by simp
    have "cur_cluster d \<in> set cs"
      using at False by (auto simp: pos_at_def less_mult_imp_div_less split: if_splits)
    then show ?thesis using chain_data [OF ch, of "cur_cluster d"] False by (auto simp: data_cluster_def)
  qed (use at S0 in \<open>simp add: pos_at_def\<close>)
  show thesis
  proof (cases "p div 512 < length cs * spc ?fi")
    case True
    then have "first_cluster C i True s = Some (Inr (True, s))" "append_cluster C i True s = Some (Inr (True, s))"
      using il d cur bic_less [OF at True geo] by (auto simp: first_cluster_def append_cluster_def pfd_def bnd_def)
    then show thesis
      using True extended_refl [OF cs m] file_step_refl [OF g d] open_span [OF f]
      using f by (intro room [of s d cs]) (auto simp add: file_mid_def edited_refl file_open_def)
  next
    case False
    show thesis
    proof (rule alloc_cases [OF dev S l])
      fix c t assume t: "alloc_cluster C ?l s = Some (Inr (c, t))"
        "at_disk blocks ready s (blocks (dev t)) t" "linked ?fi ?l c ?B (blocks (dev t))"
      note ext = extended_link [OF t(3) cs refl vol]
      note bytes = linked_bytes [OF t(3) vol cs size]
      note eq = at_disk_simps [OF t(2)]
      have c: "c \<noteq> 0xffff" using t(3) vol by (auto simp: linked_def volume_ok_def data_cluster_def)
      show thesis
      proof (cases "cs = []")
        case True
        let ?d = "first_desc ?fi c d"
        let ?t = "t\<lparr>fat_private_file_desc := (fat_private_file_desc t)[i := ?d]\<rparr>"
        have mid: "file_mid ?fi (blocks (dev t)) [c] ?d p" "file_size ?d = file_size d"
          using first_desc_mid [of ?fi ?B d p] f geo ext(2,4) True by simp_all
        have "block_in_cluster d \<noteq> sectors_per_cluster ?fi"
          using at True S0 by (auto simp: pos_at_def spc_def)
        then have "first_cluster C i True s = Some (Inr (True, ?t))" "append_cluster C i True ?t = Some (Inr (True, ?t))"
          using il d cur True t(1) c eq
          by (simp_all add: first_cluster_def append_cluster_def pfd_def upd_pfd_def bnd_def first_desc_def)
        then show thesis
          using link_step [OF t(2) i g] mid ext(1) bytes [of ?d] True edited_desc
          by (intro room [of ?t ?d "[c]"]) simp_all
      next
        case ne: False
        let ?d = "next_desc ?fi c d"
        let ?t = "t\<lparr>fat_private_file_desc := (fat_private_file_desc t)[i := ?d]\<rparr>"
        have at': "cur_cluster d = last cs" "FAT_MIN_LAST_CLUSTER \<le> next_cluster d" "block_in_cluster d = sectors_per_cluster ?fi"
          using at False ne cs chain_end by (auto simp: pos_at_def)
        then have "first_cluster C i True s = Some (Inr (True, s))" "append_cluster C i True s = Some (Inr (True, ?t))"
          using il d cur ne t(1) c eq
          by (simp_all add: first_cluster_def append_cluster_def pfd_def upd_pfd_def bnd_def next_desc_def)
        then show thesis
          using link_step [OF t(2) i g] next_desc_mid [OF f geo ext(2,4) ne False] ext(1) bytes [of ?d] edited_desc
          by (intro room [of ?t ?d "cs @ [c]"]) simp_all
      qed
    next
      fix t assume t: "alloc_cluster C ?l s = Some (Inr (0xffff, t))"
        "at_disk blocks ready s ?B t" "\<forall>c. \<not> free_cluster ?fi ?B c"
      have "FAT_MIN_LAST_CLUSTER \<le> next_cluster d \<and> block_in_cluster d = sectors_per_cluster ?fi \<and> cur_cluster d = last cs" if "cs \<noteq> []"
        using at False that cs chain_end by (auto simp: pos_at_def)
      then have "cs = [] \<Longrightarrow> first_cluster C i True s = Some (Inr (False, t))"
        "cs \<noteq> [] \<Longrightarrow> first_cluster C i True s = Some (Inr (True, s))"
        "cs \<noteq> [] \<Longrightarrow> append_cluster C i True s = Some (Inr (False, t))"
        using il d cur t(1) by (simp_all add: first_cluster_def append_cluster_def pfd_def bnd_def)
      then have "or_return (first_cluster C i True) r (or_return (append_cluster C i True) r k) s = Some (Inr (r, t))" for r k
        by (cases "cs = []") (simp_all add: bnd_def)
      moreover have "file_step blocks ready s i d (last_error s) ?B t"
        using at_disk_trans [OF file_step_refl [OF g d, unfolded file_step_def] t(2)] by (simp only: file_step_def)
      ultimately show thesis using t(3) by (rule full)
    qed
  qed
qed

subsection \<open>The length of the next transfer\<close>

text \<open>The number of bytes one turn of the loop writes, and the descriptor when the size becomes \<open>n\<close>.\<close>

definition write_chunk :: "nat \<Rightarrow> nat \<Rightarrow> nat" where
  "write_chunk p n = min n (512 - p mod 512)"

definition resized :: "FileDescriptor \<Rightarrow> nat \<Rightarrow> bool \<Rightarrow> FileDescriptor" where
  "resized d n m = d\<lparr>last_cluster_len := last_cluster_len d + of_nat (n - file_size d),
     dir_entry := (dir_entry d)\<lparr>de_size := of_nat n\<rparr>, dir_entry_modified := m\<rparr>"

lemma resized_same: "resized d (file_size d) (dir_entry_modified d) = d"
  by (cases d) (simp add: resized_def file_size_def)

text \<open>The bytes left in the last block of the file, as the code computes them.\<close>

lemma rest_of_block:
  assumes f: "file_span fi B cs d p" and geo: "cluster_geometry fi"
    and last: "FAT_MIN_LAST_CLUSTER \<le> next_cluster d"
    and r: "r = last_cluster_len d - push_bit 9 (ucast (block_in_cluster d))"
  shows "unat r = file_size d - 512 * (p div 512)" and "p mod 512 \<le> unat r"
    and "unat (r - index_in_block d) = file_size d - p"
proof -
  have at: "unat (index_in_block d) = p mod 512" and p: "p \<le> file_size d"
    using f by (simp_all add: file_span_def pos_at_def unat_of_nat_mod)
  show u: "unat r = file_size d - 512 * (p div 512)"
    unfolding r using last_block_rest [OF f geo last] by blast
  have pq: "p = 512 * (p div 512) + p mod 512" by simp
  then show le: "p mod 512 \<le> unat r" using u p by linarith
  then have "unat (r - index_in_block d) = unat r - p mod 512" using at by (simp add: unat_sub word_le_nat_alt)
  then show "unat (r - index_in_block d) = file_size d - p" using u pq by linarith
qed

lemma next_chunk_write:
  assumes f: "file_span (fat_info s) B cs d p" and geo: "cluster_geometry (fat_info s)"
    and i: "i < length (fat_private_file_desc s)" "fat_private_file_desc s ! i = d"
    and len: "unat len \<le> 65024"
  obtains m where "next_chunk i True len s = Some (Inr (of_nat (write_chunk p (unat len)),
      s\<lparr>fat_private_file_desc := (fat_private_file_desc s)[i := resized d (max (file_size d) (p + write_chunk p (unat len))) m]\<rparr>))"
    "m \<or> \<not> dir_entry_modified d \<and> p + write_chunk p (unat len) \<le> file_size d"
proof -
  let ?idx = "p mod 512" and ?c = "write_chunk p (unat len)" and ?full = "512 - index_in_block d"
    and ?ds = "fat_private_file_desc s"
  define r where "r = last_cluster_len d - push_bit 9 (ucast (block_in_cluster d))"
  have idx: "unat (index_in_block d) = ?idx" and p: "p \<le> file_size d"
    using f by (simp_all add: file_span_def pos_at_def unat_of_nat_mod)
  have full: "unat ?full = 512 - ?idx" using idx by (simp add: unat_sub word_le_nat_alt)
  have pq: "p = 512 * (p div 512) + ?idx" by simp
  have c: "?c \<le> unat len" "?c \<le> 512 - ?idx" by (simp_all add: write_chunk_def)
  have keep: "s\<lparr>fat_private_file_desc := ?ds[i := resized d (file_size d) (dir_entry_modified d)]\<rparr> = s"
    unfolding resized_same using list_update_id [of ?ds i, unfolded i(2)] by simp
  have cut: "(if len < x then len else x) = of_nat ?c" if "unat x = 512 - ?idx \<or> unat x = ?c" for x
    using that c by (intro of_nat_eqI) (auto simp: write_chunk_def word_less_nat_alt min_def)
  consider (tail) "FAT_MIN_LAST_CLUSTER \<le> next_cluster d" "r \<le> 512" "r - index_in_block d < len"
    | (inside) "FAT_MIN_LAST_CLUSTER \<le> next_cluster d" "r \<le> 512" "\<not> r - index_in_block d < len"
    | (whole) "\<not> (FAT_MIN_LAST_CLUSTER \<le> next_cluster d \<and> r \<le> 512)"
    by blast
  then show thesis
  proof cases
    case tail
    note rest = rest_of_block [OF f geo tail(1) r_def]
    define g where "g = (if 512 < len + index_in_block d then ?full else len)"
    have "unat (len + index_in_block d) = unat len + ?idx"
      using unat_plus_word [of len "index_in_block d"] len idx by simp
    moreover have "?idx < 512" by simp
    ultimately have "512 < len + index_in_block d \<longleftrightarrow> 512 - ?idx < unat len"
      unfolding word_less_nat_alt unat_numeral by simp linarith
    then have g: "unat g = ?c" by (simp add: g_def write_chunk_def full min_def)
    have "unat r \<le> 512" "file_size d - p < unat len"
      using tail(2,3) rest(3) by (simp_all add: word_le_nat_alt word_less_nat_alt)
    then have grow: "file_size d \<le> p + ?c" using rest(1) pq unfolding write_chunk_def by linarith
    have ig: "unat (index_in_block d + g) = ?idx + ?c"
      using unat_plus_word [of "index_in_block d" g] idx g c(2) by simp
    have "unat r \<le> ?idx + ?c" using rest(1) pq grow p by linarith
    then have "unat (index_in_block d + g - r) = ?idx + ?c - unat r"
      using ig by (simp add: unat_sub word_le_nat_alt)
    moreover have "?idx + ?c - unat r = p + ?c - file_size d" using rest(1) pq p by linarith
    ultimately have delta: "unat (index_in_block d + g - r) = p + ?c - file_size d" by simp
    have "of_nat (file_size d) + of_nat (p + ?c - file_size d) = (of_nat (p + ?c) :: u32)"
      unfolding of_nat_add [symmetric] using grow by simp
    then have size: "de_size (dir_entry d) + ucast (index_in_block d + g - r) = of_nat (p + ?c)"
      by (simp add: ucast_of_nat_unat [of "index_in_block d + g - r"] delta file_size_def)
    have max: "max (file_size d) (p + ?c) = p + ?c" using grow by simp
    have "next_chunk i True len s = Some (Inr (if len < g then len else g,
        s\<lparr>fat_private_file_desc := ?ds[i := resized d (max (file_size d) (p + ?c)) True]\<rparr>))"
      unfolding max using tail i size of_nat_eqI [OF delta]
      by (simp add: next_chunk_def pfd_def upd_pfd_def bnd_def Let_def resized_def r_def [symmetric] g_def [symmetric])
    moreover have "(if len < g then len else g) = of_nat ?c" by (rule cut) (simp add: g)
    ultimately show thesis by (intro that [of True]) simp_all
  next
    case inside
    note rest = rest_of_block [OF f geo inside(1) r_def]
    have r: "unat r \<le> 512" "unat len \<le> file_size d - p"
      using inside(2,3) rest(3) by (simp_all add: word_le_nat_alt word_less_nat_alt not_less)
    then have c_len: "?c = unat len" using rest(1) pq p unfolding write_chunk_def by linarith
    then have max: "max (file_size d) (p + ?c) = file_size d" "p + ?c \<le> file_size d" using r(2) p by simp_all
    have "next_chunk i True len s = Some (Inr (if len < r - index_in_block d then len else r - index_in_block d, s))"
      using inside i by (simp add: next_chunk_def pfd_def bnd_def Let_def r_def [symmetric])
    moreover have "(if len < r - index_in_block d then len else r - index_in_block d) = of_nat ?c"
      using inside(3) r(2) rest(3) c_len by (intro of_nat_eqI) (auto simp: word_less_nat_alt)
    ultimately show thesis
      using max(2) by (intro that [of "dir_entry_modified d"]) (simp_all only: max(1) keep simp_thms)
  next
    case whole
    have "512 * (p div 512) + 512 \<le> file_size d"
    proof (cases "FAT_MIN_LAST_CLUSTER \<le> next_cluster d")
      case True
      then show ?thesis
        using whole rest_of_block(1) [OF f geo True r_def] by (simp add: word_le_nat_alt)
    next
      case False
      then show ?thesis by (intro inner_block_full [OF f geo]) simp
    qed
    then have "p + ?c \<le> file_size d" using c(2) pq by linarith
    then have max: "max (file_size d) (p + ?c) = file_size d" "p + ?c \<le> file_size d" by simp_all
    have "next_chunk i True len s = Some (Inr (if len < ?full then len else ?full, s))"
      using whole i by (auto simp: next_chunk_def pfd_def bnd_def Let_def r_def [symmetric])
    moreover have "(if len < ?full then len else ?full) = of_nat ?c" by (rule cut) (simp add: full)
    ultimately show thesis
      using max(2) by (intro that [of "dir_entry_modified d"]) (simp_all only: max(1) keep simp_thms)
  qed
qed

subsection \<open>One turn of the loop\<close>

lemma block_end: "(p :: nat) = m * q + i \<Longrightarrow> i + c \<le> m \<Longrightarrow> p + c \<le> m * Suc q"
  by simp

lemma pos_at_cong:
  assumes "pos_at fi B cs d q i" and "\<forall>c \<in> set cs. fat_entry fi B' c = fat_entry fi B c"
    and "resized d n m = d'"
  shows "pos_at fi B' cs d' q i"
proof -
  have "fat_entry fi B' (cs ! (q div spc fi)) = fat_entry fi B (cs ! (q div spc fi))" if "q < length cs * spc fi"
    using assms(2) that by (simp add: less_mult_imp_div_less)
  moreover have "cs \<noteq> [] \<Longrightarrow> fat_entry fi B' (last cs) = fat_entry fi B (last cs)" using assms(2) by simp
  ultimately show ?thesis
    using assms(1) unfolding assms(3) [symmetric] by (auto simp: pos_at_def resized_def)
qed

text \<open>The file after the chunk has been stored, in the blocks \<open>B'\<close>.\<close>

lemma written_open:
  assumes f: "file_mid fi B cs d p" and geo: "cluster_geometry fi"
    and e: "\<forall>c \<in> set cs. fat_entry fi B' c = fat_entry fi B c"
    and c: "c = write_chunk p len" "0 < c" and bound: "p + c < 4294967296"
    and d': "d' = advance_desc fi (fat_entry fi B') (of_nat c) (resized d (max (file_size d) (p + c)) m)"
  shows "file_open fi B' cs d' (p + c)" and "file_size d' = max (file_size d) (p + c)"
proof -
  let ?n = "max (file_size d) (p + c)" and ?q = "p div 512" and ?i = "p mod 512" and ?m = "cluster_bytes fi"
  let ?r = "resized d ?n m"
  have S: "0 < spc fi" "spc fi \<le> 64" using spc_bounds [OF geo] by auto
  have F: "\<not> is_root d" "cs = [] \<or> chain fi B cs" "de_cluster_lo (dir_entry d) = (if cs = [] then 0 else hd cs)"
    "file_size d \<le> length cs * ?m" "(length cs - 1) * ?m \<le> file_size d"
    "unat (last_cluster_len d) = file_size d - (length cs - 1) * ?m" "p \<le> file_size d"
    "pos_at fi B cs d ?q ?i" and q: "?q < length cs * spc fi"
    and strict: "(length cs - 1) * ?m < file_size d \<or> p = file_size d"
    using f by (simp_all add: file_mid_def file_span_def)
  have ch: "chain fi B' cs" using F(2) q e by (auto intro: chain_cong)
  have ic: "?i + c \<le> 512" unfolding c(1) write_chunk_def by (simp add: min_def) linarith
  have "file_size d < 4294967296" using unat_u32 by (simp add: file_size_def)
  then have n: "?n < 4294967296" using bound by simp
  then have sz: "file_size ?r = ?n" by (simp add: resized_def file_size_def unat_of_nat_mod)
  then show size: "file_size d' = ?n" unfolding d' using moved_size [OF moved_advance] by metis
  have pq: "p = 512 * ?q + ?i" by simp
  have "p + c \<le> 512 * Suc ?q" by (rule block_end [OF pq ic])
  also have "\<dots> \<le> 512 * (length cs * spc fi)" using q by (intro mult_le_mono2) simp
  also have "\<dots> = length cs * ?m" by (simp add: cluster_bytes_def)
  finally have n_le: "?n \<le> length cs * ?m" using F(4) by simp
  have cs: "cs \<noteq> []" using q by auto
  then have "length cs * ?m = (length cs - 1) * ?m + ?m" by (cases cs) simp_all
  moreover have "?m \<le> 32768" using S(2) by (simp add: cluster_bytes_def)
  ultimately have rest: "?n - (length cs - 1) * ?m \<le> 32768" using n_le by linarith
  have "unat (last_cluster_len ?r) = ?n - (length cs - 1) * ?m"
  proof -
    have "unat (last_cluster_len d) + (?n - file_size d) = ?n - (length cs - 1) * ?m" using F(5,6) by simp
    then show ?thesis using rest unat_plus_of_nat [of "last_cluster_len d" "?n - file_size d"]
      by (simp add: resized_def)
  qed
  moreover have "pos_at fi B' cs d' ((p + c) div 512) ((p + c) mod 512)"
    unfolding d' block_split [OF pq, THEN conjunct1] block_split [OF pq, THEN conjunct2]
    by (rule pos_advance [OF pos_at_cong [OF F(8) e refl] ch geo q ic]) (simp add: resized_def F(1))
  moreover have "(length cs - 1) * ?m < ?n" using strict F(5) c(2) by auto
  moreover have mv: "moved ?r d'" unfolding d' by (rule moved_advance)
  ultimately show "file_open fi B' cs d' (p + c)"
    using F(1,3) cs ch n_le size unfolding file_open_def
    by (simp add: moved_def) (simp add: resized_def)
qed

text \<open>A part of a block replaced on the card.\<close>

lemma transfer_write_run:
  assumes dev: "live_device C blocks ready" and g: "good blocks s" and rb: "ready (dev s) b"
    and c: "idx + c \<le> 512" and room: "pos + c \<le> length data"
  obtains t t' where "cache C b s = Some (Inr (True, t))"
    "transfer C True idx data pos c t = Some (Inr ((True, data), t'))"
    "at_disk blocks ready s ((blocks (dev s))(b := splice_at (blocks (dev s) b) idx (slice_at data pos c))) t'"
proof -
  let ?B = "blocks (dev s)"
  let ?Y = "splice_at (?B b) idx (slice_at data pos c)"
  obtain t where t: "cache C b s = Some (Inr (True, t))" "at_disk blocks ready s ?B t"
    "cache_block_addr t = b" "cache_block t = ?B b"
    using live_device.cache_run [OF dev g rb] .
  note eqt = at_disk_simps [OF t(2)]
  have lens: "length (?B b) = 512" using live_device.block_len [OF dev rb] by simp
  have ys: "length (slice_at data pos c) = c" using room by simp
  then have Y: "length ?Y = 512" using lens c by simp
  have rbt: "ready (dev t) (cache_block_addr t)" unfolding eqt(5) t(3) by (rule rb)
  obtain t' where t': "flush_cache C (t\<lparr>cache_block := ?Y\<rparr>) = Some (Inr (True, t'))" "at_disk blocks ready t (?B(b := ?Y)) t'"
    using live_device.store_here_run [OF dev at_disk_good [OF t(2)] rbt Y] unfolding eqt(4) t(3) by blast
  have "transfer C True idx data pos c t = Some (Inr ((True, data), t'))"
    using room c ys t(4) lens t'(1) by (simp add: transfer_def poke_bytes_def bnd_def)
  with t(1) that at_disk_trans [OF t(2) t'(2)] show thesis by blast
qed

lemma write_turn:
  assumes dev: "live_device C blocks ready" and S: "fat_state blocks ready s"
    and vol: "volume_ok (fat_info s) (ready (dev s)) (blocks (dev s))"
    and i: "i < MAX_FILE_DESC" and d: "fat_private_file_desc s ! i = d"
    and f: "file_mid (fat_info s) (blocks (dev s)) cs d p" and rdy: "file_ready (fat_info s) (ready (dev s)) cs"
    and len: "len \<noteq> 0" "unat len \<le> 65024" "p + unat len < 4294967296"
    and c: "c = write_chunk p (unat len)" and room: "pos + c \<le> length data"
  obtains s1 d1 t t' u d' where "next_chunk i True len s = Some (Inr (of_nat c, s1))"
    "pfd i s1 = Some (Inr (d1, s1))" "cache C (block_addr d1) s1 = Some (Inr (True, t))"
    "transfer C True (unat (index_in_block d1)) data pos c t = Some (Inr ((True, data), t'))"
    "seek_advance C i (of_nat c) t' = Some (Inr (True, u))"
    "file_step blocks ready s i d' (last_error s) (blocks (dev u)) u"
    "file_open (fat_info s) (blocks (dev u)) cs d' (p + c)"
    "extended (fat_info s) (blocks (dev s)) cs (blocks (dev u)) cs" "edited d d'"
    "file_bytes (fat_info s) (blocks (dev u)) cs d' =
       splice_at (file_bytes (fat_info s) (blocks (dev s)) cs d) p (slice_at data pos c)"
proof -
  let ?fi = "fat_info s" and ?B = "blocks (dev s)" and ?ds = "fat_private_file_desc s"
    and ?q = "p div 512" and ?i = "p mod 512" and ?n = "max (file_size d) (p + c)" and ?ys = "slice_at data pos c"
  have g: "good blocks s" and m: "mirrored ?fi ?B" using S by (simp_all add: fat_state_def)
  have il: "i < length ?ds" using good_length [OF g] i by simp
  have geo: "cluster_geometry ?fi" and lay: "fat_layout ?fi (ready (dev s))" using vol by (simp_all add: volume_ok_def)
  have span: "file_span ?fi ?B cs d p" and q: "?q < length cs * spc ?fi" using f by (simp_all add: file_mid_def)
  then have at: "pos_at ?fi ?B cs d ?q ?i" and ch: "chain ?fi ?B cs" by (auto simp: file_span_def)
  have c0: "0 < c" using len(1) by (simp add: c write_chunk_def unat_gt_0)
  have c_len: "c \<le> unat len" "?i + c \<le> 512" unfolding c write_chunk_def by (simp_all add: min_def) linarith
  define b where "b = file_blocks ?fi cs ! ?q"
  have b: "b \<in> set (file_blocks ?fi cs)" using q by (simp add: b_def nth_mem)
  then have rb: "ready (dev s) b" using rdy by (simp add: file_ready_def)
  have lens: "\<forall>b \<in> set (file_blocks ?fi cs). length (?B b) = 512"
    using rdy live_device.block_len [OF dev] by (simp add: file_ready_def)
  define B' where "B' = ?B(b := splice_at (?B b) ?i ?ys)"
  obtain k where k: "next_chunk i True len s = Some (Inr (of_nat c,
      s\<lparr>fat_private_file_desc := ?ds[i := resized d ?n k]\<rparr>))" "k \<or> \<not> dir_entry_modified d \<and> p + c \<le> file_size d"
    using next_chunk_write [OF span geo il d len(2)] unfolding c [symmetric] .
  define d1 where "d1 = resized d ?n k"
  define s1 where "s1 = s\<lparr>fat_private_file_desc := ?ds[i := d1]\<rparr>"
  have d1: "block_addr d1 = b" "unat (index_in_block d1) = ?i"
    using at q by (simp_all add: d1_def resized_def pos_at_def b_def unat_of_nat_mod)
  have g1: "good blocks s1" using good_desc [OF g] il by (simp add: s1_def good_length [OF g])
  have rb1: "ready (dev s1) b" using rb by (simp add: s1_def)
  obtain t t' where t: "cache C b s1 = Some (Inr (True, t))"
    and tr: "transfer C True ?i data pos c t = Some (Inr ((True, data), t'))" and at': "at_disk blocks ready s1 B' t'"
    using transfer_write_run [OF dev g1 rb1 c_len(2) room] by (auto simp: s1_def B'_def)
  note eq' = at_disk_simps [OF at']
  have ys: "length ?ys = c" using room by simp
  have out: "b \<notin> fat_region ?fi" by (rule file_blocks_outside [OF vol _ b]) (use chain_data [OF ch] in blast)
  have ent: "in_fat ?fi x \<Longrightarrow> fat_entry ?fi B' x = fat_entry ?fi ?B x" for x
    by (rule fat_entry_outside) (use out in \<open>auto simp: B'_def\<close>)
  have ents: "\<forall>c \<in> set cs. fat_entry ?fi B' c = fat_entry ?fi ?B c"
    using ent chain_data [OF ch] by (simp add: data_cluster_def)
  define d' where "d' = advance_desc ?fi (fat_entry ?fi B') (of_nat c) d1"
  have bound: "p + c < 4294967296" using c_len(1) len(3) by simp
  note wo = written_open [OF f geo ents c c0 bound d'_def [unfolded d1_def]]
  have s1: "fat_private_file_desc t' = ?ds[i := d1]" "fat_info t' = ?fi" "blocks (dev t') = B'"
    "ready (dev t') = ready (dev s)" "last_error t' = last_error s"
    unfolding eq' by (simp_all add: s1_def)
  have nx: "in_fat ?fi (next_cluster d1) \<and> fat_entry ?fi B' (next_cluster d1) \<noteq> 0"
    if "next_cluster d1 < FAT_MIN_LAST_CLUSTER"
  proof -
    have "next_cluster d < FAT_MIN_LAST_CLUSTER" using that by (simp add: d1_def resized_def)
    from next_member [OF at ch this] have "next_cluster d1 \<in> set cs" by (simp add: d1_def resized_def)
    then show ?thesis using chain_data [OF ch] chain_member_entry [OF ch] ents by (simp add: data_cluster_def)
  qed
  have "wp (seek_advance C i (of_nat c)) (\<lambda>ok u. ok \<and> at_disk blocks ready (t'\<lparr>fat_private_file_desc :=
      (fat_private_file_desc t')[i := advance_desc (fat_info t') (fat_entry (fat_info t') (blocks (dev t'))) (of_nat c) d1]\<rparr>)
      (blocks (dev t')) u) t'"
    using at_disk_good [OF at'] lay i nx il by (intro live_device.seek_advance_wp [OF dev]) (simp_all add: s1)
  from wp_True [OF this] obtain u where u: "seek_advance C i (of_nat c) t' = Some (Inr (True, u))"
    "at_disk blocks ready (t'\<lparr>fat_private_file_desc := ?ds[i := d']\<rparr>) B' u"
    unfolding s1 d'_def by (auto simp: s1)
  have step: "file_step blocks ready s i d' (last_error s) B' u"
    using u(2) s1 by (simp add: file_step_def at_disk_def)
  note equ = file_step_simps [OF step]
  have "mirrored ?fi B'" by (rule mirrored_outside [OF m]) (use out in \<open>auto simp: B'_def\<close>)
  moreover have "\<forall>x. x \<notin> set (file_blocks ?fi cs) \<longrightarrow> B' x = ?B x" using b by (auto simp: B'_def)
  ultimately have "extended ?fi ?B cs B' cs"
    using extended_refl [OF disjI2 [OF ch] m] ent ents unfolding extended_def by auto
  moreover have "edited d d'"
  proof -
    have "edited d d1"
    proof (cases k)
      case False
      then have "?n = file_size d" "k = dir_entry_modified d" using k(2) by simp_all
      then show ?thesis by (simp add: d1_def resized_same edited_refl)
    qed (simp add: edited_def d1_def resized_def)
    then show ?thesis unfolding d'_def by (rule edited_trans [OF _ edited_moved [OF moved_advance]])
  qed
  moreover have "file_bytes ?fi B' cs d' = splice_at (file_bytes ?fi ?B cs d) p ?ys"
  proof -
    have D: "length (file_data ?fi ?B cs) = length cs * cluster_bytes ?fi" by (rule length_file_data [OF lens])
    have "?n \<le> length cs * cluster_bytes ?fi" "p \<le> file_size d"
      using wo span by (simp_all add: file_open_def file_span_def)
    moreover have "file_data ?fi B' cs = splice_at (file_data ?fi ?B cs) (512 * ?q + ?i) ?ys"
      unfolding B'_def b_def using chain_distinct [OF ch] chain_data [OF ch] lens q c_len(2) ys
      by (intro file_data_splice [OF vol]) simp_all
    ultimately show ?thesis
      using take_splice [of p "file_size d" "file_data ?fi ?B cs" ?ys] D ys
      by (simp add: file_bytes_def wo(2))
  qed
  ultimately show thesis
    using that [of _ d1 t t' u d'] k(1) t(1) tr u(1) step wo(1) il
    by (simp add: equ(4) d1 s1_def [symmetric] d1_def [symmetric]) (simp add: pfd_def s1_def)
qed

subsection \<open>The loop\<close>

lemma extended_state:
  assumes "fat_state blocks ready s" and "file_step blocks ready s i d e (blocks (dev t)) t"
    and "extended (fat_info s) (blocks (dev s)) cs (blocks (dev t)) cs'"
  shows "fat_state blocks ready t"
  using assms(1,3) file_step_simps [OF assms(2)] by (simp add: fat_state_def extended_def)

lemma file_bytes_length:
  assumes "file_open fi B cs d p" and "\<forall>b \<in> set (file_blocks fi cs). length (B b) = 512"
  shows "length (file_bytes fi B cs d) = file_size d"
  using assms length_file_data [OF assms(2)] by (simp add: file_bytes_def file_open_def)

text \<open>The result of writing the first \<open>n\<close> of \<open>len\<close> bytes.\<close>

definition written :: "('d \<Rightarrow> u32 \<Rightarrow> bytes) \<Rightarrow> ('d \<Rightarrow> u32 \<Rightarrow> bool) \<Rightarrow> 'd fs \<Rightarrow> nat \<Rightarrow> u16 list \<Rightarrow> FileDescriptor \<Rightarrow> nat \<Rightarrow>
    bytes \<Rightarrow> 'd fs \<Rightarrow> u16 list \<Rightarrow> FileDescriptor \<Rightarrow> bool" where
  "written blocks ready s i cs d p xs t cs' d' \<longleftrightarrow>
     file_step blocks ready s i d' (last_error s) (blocks (dev t)) t \<and>
     file_open (fat_info s) (blocks (dev t)) cs' d' (p + length xs) \<and>
     extended (fat_info s) (blocks (dev s)) cs (blocks (dev t)) cs' \<and> edited d d' \<and>
     file_bytes (fat_info s) (blocks (dev t)) cs' d' = splice_at (file_bytes (fat_info s) (blocks (dev s)) cs d) p xs"

lemma written_trans:
  assumes w: "written blocks ready s i cs d p xs t cs' d'" and w': "written blocks ready t i cs' d' (p + length xs) ys u cs'' d''"
    and p: "p \<le> length (file_bytes (fat_info s) (blocks (dev s)) cs d)"
  shows "written blocks ready s i cs d p (xs @ ys) u cs'' d''"
proof -
  have "fat_info t = fat_info s" "last_error t = last_error s"
    using w file_step_simps by (fastforce simp: written_def)+
  with w w' show ?thesis
    using splice_splice_grow [OF p, of xs ys]
    by (auto simp: written_def add.assoc elim: file_step_trans extended_trans edited_trans)
qed

lemma write_step:
  assumes dev: "live_device C blocks ready" and S: "fat_state blocks ready s"
    and vol: "volume_ok (fat_info s) (ready (dev s)) (blocks (dev s))"
    and i: "i < MAX_FILE_DESC" and d: "fat_private_file_desc s ! i = d"
    and rdy: "file_ready (fat_info s) (ready (dev s)) cs"
    and len: "len \<noteq> 0" "unat len \<le> 65024" "p + unat len < 4294967296" "pos + unat len \<le> length data"
    and run: "\<And>(r :: u16 \<times> bytes) k.
      or_return (first_cluster C i True) r (or_return (append_cluster C i True) r k) s = k t"
    and step: "file_step blocks ready s i d0 (last_error s) (blocks (dev t)) t"
    and mid: "file_mid (fat_info s) (blocks (dev t)) cs0 d0 p"
    and ext: "extended (fat_info s) (blocks (dev s)) cs (blocks (dev t)) cs0" and ed: "edited d d0"
    and bytes: "file_bytes (fat_info s) (blocks (dev t)) cs0 d0 = file_bytes (fat_info s) (blocks (dev s)) cs d"
    and c: "c = write_chunk p (unat len)"
  obtains u d' where "fat_action_loop C i True data pos len result s =
      fat_action_loop C i True data (pos + c) (len - of_nat c) (result + of_nat c) u"
    "written blocks ready s i cs d p (slice_at data pos c) u cs0 d'" "fat_state blocks ready u"
proof -
  have il: "i < length (fat_private_file_desc s)" using S i good_length by (metis fat_state_def)
  note eqt = file_step_simps [OF step]
  have St: "fat_state blocks ready t" by (rule extended_state [OF S step ext])
  have vol_t: "volume_ok (fat_info t) (ready (dev t)) (blocks (dev t))"
    unfolding eqt(2,5) by (rule extended_volume [OF vol ext])
  have rdy_t: "file_ready (fat_info t) (ready (dev t)) cs0"
    unfolding eqt(2,5) by (rule extended_ready [OF vol ext rdy])
  have mid_t: "file_mid (fat_info t) (blocks (dev t)) cs0 d0 p" unfolding eqt(2) by (rule mid)
  have d0: "fat_private_file_desc t ! i = d0" using eqt(1) il by simp
  have c_le: "c \<le> unat len" by (simp add: c write_chunk_def)
  then have room: "pos + c \<le> length data" and c16: "c < 65536" using len(2,4) by simp_all
  have c0: "0 < c" using len(1) by (simp add: c write_chunk_def unat_gt_0)
  obtain s1 d1 v v' u d' where turn: "next_chunk i True len t = Some (Inr (of_nat c, s1))"
    "pfd i s1 = Some (Inr (d1, s1))" "cache C (block_addr d1) s1 = Some (Inr (True, v))"
    "transfer C True (unat (index_in_block d1)) data pos c v = Some (Inr ((True, data), v'))"
    "seek_advance C i (of_nat c) v' = Some (Inr (True, u))"
    "file_step blocks ready t i d' (last_error t) (blocks (dev u)) u"
    "file_open (fat_info t) (blocks (dev u)) cs0 d' (p + c)"
    "extended (fat_info t) (blocks (dev t)) cs0 (blocks (dev u)) cs0" "edited d0 d'"
    "file_bytes (fat_info t) (blocks (dev u)) cs0 d' =
       splice_at (file_bytes (fat_info t) (blocks (dev t)) cs0 d0) p (slice_at data pos c)"
    using write_turn [OF dev St vol_t i d0 mid_t rdy_t len(1,2,3) c room] .
  have uc: "unat (of_nat c :: u16) = c" using c16 by (simp add: unat_of_nat_mod)
  then have "(of_nat c :: u16) \<noteq> 0" using c0 by auto
  then have "fat_action_loop C i True data pos len result s =
      fat_action_loop C i True data (pos + c) (len - of_nat c) (result + of_nat c) u"
    using len(1) turn(1-5) uc by (subst fat_action_loop.simps) (simp add: run)
  moreover have "written blocks ready s i cs d p (slice_at data pos c) u cs0 d'"
    using turn(6-10) room step ext ed bytes unfolding eqt(2,3)
    by (auto simp: written_def elim: file_step_trans extended_trans edited_trans)
  moreover have "fat_state blocks ready u" by (rule extended_state [OF St turn(6,8)])
  ultimately show thesis by (rule that)
qed

lemma write_loop:
  assumes "live_device C blocks ready" and "fat_state blocks ready s"
    and "volume_ok (fat_info s) (ready (dev s)) (blocks (dev s))"
    and "i < MAX_FILE_DESC" and "fat_private_file_desc s ! i = d"
    and "file_open (fat_info s) (blocks (dev s)) cs d p" and "file_ready (fat_info s) (ready (dev s)) cs"
    and "pos + unat len \<le> length data" and "unat len \<le> 65024" and "p + unat len < 4294967296"
  shows "\<exists>n t d' cs'. fat_action_loop C i True data pos len result s = Some (Inr ((result + of_nat n, data), t)) \<and>
    n \<le> unat len \<and> written blocks ready s i cs d p (slice_at data pos n) t cs' d' \<and>
    (n < unat len \<longrightarrow> (\<forall>c. \<not> free_cluster (fat_info s) (blocks (dev t)) c))"
  using assms(2-)
proof (induction "unat len" arbitrary: s d cs p pos len result rule: less_induct)
  case less
  let ?fi = "fat_info s" and ?B = "blocks (dev s)"
  note dev = assms(1) and S = less.prems(1) and vol = less.prems(2) and i = less.prems(3) and d = less.prems(4)
    and f = less.prems(5) and rdy = less.prems(6)
  have g: "good blocks s" and m: "mirrored ?fi ?B" using S by (simp_all add: fat_state_def)
  have cs: "cs = [] \<or> chain ?fi ?B cs" using f by (simp add: file_open_def)
  have start: "written blocks ready s i cs d p [] s cs d"
    using file_step_refl [OF g d] f extended_refl [OF cs m] by (simp add: written_def edited_refl)
  have len_p: "length (file_bytes ?fi ?B cs d) = file_size d"
    using f rdy live_device.block_len [OF dev] by (intro file_bytes_length) (simp_all add: file_ready_def)
  have p: "p \<le> file_size d" using f by (simp add: file_open_def)
  show ?case
  proof (cases "len = 0")
    case True
    then have "fat_action_loop C i True data pos len result s = Some (Inr ((result, data), s))"
      by (subst fat_action_loop.simps) simp
    then show ?thesis using True start by (intro exI [of _ 0] exI [of _ s] exI [of _ d] exI [of _ cs]) simp
  next
    case len: False
    show ?thesis
    proof (rule make_room [OF dev S vol i d f rdy])
      fix t
      assume full: "\<And>(r :: u16 \<times> bytes) k. or_return (first_cluster C i True) r (or_return (append_cluster C i True) r k) s = Some (Inr (r, t))"
        "file_step blocks ready s i d (last_error s) ?B t" "\<forall>c. \<not> free_cluster ?fi ?B c"
      have "fat_action_loop C i True data pos len result s = Some (Inr ((result, data), t))"
        using len by (subst fat_action_loop.simps) (simp add: full(1))
      moreover have "written blocks ready s i cs d p [] t cs d"
        using start full(2) unfolding written_def file_step_simps(4) [OF full(2)] by simp
      ultimately show ?thesis
        using full(3) unfolding file_step_simps(4) [OF full(2), symmetric]
        by (intro exI [of _ 0] exI [of _ t] exI [of _ d] exI [of _ cs]) simp
    next
      fix t d0 cs0
      assume room: "\<And>(r :: u16 \<times> bytes) k. or_return (first_cluster C i True) r (or_return (append_cluster C i True) r k) s = k t"
        "file_step blocks ready s i d0 (last_error s) (blocks (dev t)) t"
        "file_mid ?fi (blocks (dev t)) cs0 d0 p" "extended ?fi ?B cs (blocks (dev t)) cs0"
        "edited d d0" "file_size d0 = file_size d"
        "file_bytes ?fi (blocks (dev t)) cs0 d0 = file_bytes ?fi ?B cs d"
      let ?c = "write_chunk p (unat len)"
      obtain u d' where run: "fat_action_loop C i True data pos len result s =
          fat_action_loop C i True data (pos + ?c) (len - of_nat ?c) (result + of_nat ?c) u"
        and w: "written blocks ready s i cs d p (slice_at data pos ?c) u cs0 d'" and Su: "fat_state blocks ready u"
        using write_step [OF dev S vol i d rdy len less.prems(8,9,7) room(1-5,7) refl] .
      have c: "?c \<le> unat len" "0 < ?c" "length (slice_at data pos ?c) = ?c"
        using len less.prems(7) by (simp_all add: write_chunk_def unat_gt_0)
      have W: "file_step blocks ready s i d' (last_error s) (blocks (dev u)) u"
        "file_open ?fi (blocks (dev u)) cs0 d' (p + ?c)" "extended ?fi ?B cs (blocks (dev u)) cs0"
        using w c(3) by (simp_all add: written_def)
      note equ = file_step_simps [OF W(1)]
      have ul: "unat (len - of_nat ?c) = unat len - ?c"
        using c(1) unat_u16 [of len] by (simp add: unat_sub word_le_nat_alt unat_of_nat_mod)
      have du: "fat_private_file_desc u ! i = d'" using equ(1) good_length [OF g] i by simp
      note IH = less.hyps [of "len - of_nat ?c" u d' cs0 "p + ?c" "pos + ?c" "result + of_nat ?c", unfolded equ(2,5) ul]
      have rest: "unat len - ?c < unat len" "pos + ?c + (unat len - ?c) \<le> length data" "unat len - ?c \<le> 65024"
        "p + ?c + (unat len - ?c) < 4294967296"
        using c(1,2) less.prems(7-9) by linarith+
      obtain n v d'' cs'' where n: "fat_action_loop C i True data (pos + ?c) (len - of_nat ?c) (result + of_nat ?c) u =
          Some (Inr ((result + of_nat ?c + of_nat n, data), v))" "n \<le> unat len - ?c"
        "written blocks ready u i cs0 d' (p + ?c) (slice_at data (pos + ?c) n) v cs'' d''"
        "n < unat len - ?c \<longrightarrow> (\<forall>c. \<not> free_cluster ?fi (blocks (dev v)) c)"
        using IH [OF rest(1) Su extended_volume [OF vol W(3)] i du W(2) extended_ready [OF vol W(3) rdy] rest(2-4)]
        by blast
      have "written blocks ready s i cs d p (slice_at data pos ?c @ slice_at data (pos + ?c) n) v cs'' d''"
        using w n(3) p len_p c(3) by (intro written_trans [OF w]) simp_all
      then have "written blocks ready s i cs d p (slice_at data pos (?c + n)) v cs'' d''"
        by (simp add: slice_join)
      then show ?thesis
        using run n c(1) by (intro exI [of _ "?c + n"] exI [of _ v] exI [of _ d''] exI [of _ cs'']) (auto simp: add.assoc)
    qed
  qed
qed

text \<open>The loop, run by \<open>fat_write\<close>.\<close>

lemma fat_write_run:
  assumes dev: "live_device C blocks ready" and S: "fat_state blocks ready s"
    and vol: "volume_ok (fat_info s) (ready (dev s)) (blocks (dev s))"
    and fd: "unat fd < MAX_FILE_DESC" and d: "fat_private_file_desc s ! unat fd = d"
    and live: "\<not> is_free d" "\<not> is_stale d"
    and f: "file_open (fat_info s) (blocks (dev s)) cs d p" and rdy: "file_ready (fat_info s) (ready (dev s)) cs"
    and len: "unat len \<le> length src" "unat len \<le> 65024" "p + unat len < 4294967296"
  shows "\<exists>n t d' cs'. fat_write C fd src len s = Some (Inr (of_nat n, t)) \<and> n \<le> unat len \<and>
    written blocks ready s (unat fd) cs d p (take n src) t cs' d' \<and>
    (n < unat len \<longrightarrow> (\<forall>c. \<not> free_cluster (fat_info s) (blocks (dev t)) c))"
proof -
  have len0: "0 + unat len \<le> length src" using len(1) by simp
  obtain n t d' cs' where n: "fat_action_loop C (unat fd) True src 0 len 0 s = Some (Inr ((0 + of_nat n, src), t))"
    "n \<le> unat len" "written blocks ready s (unat fd) cs d p (slice_at src 0 n) t cs' d'"
    "n < unat len \<longrightarrow> (\<forall>c. \<not> free_cluster (fat_info s) (blocks (dev t)) c)"
    using write_loop [OF dev S vol fd d f rdy len0 len(2,3), of 0] by blast
  have "good blocks s" using S by (simp add: fat_state_def)
  then have "unat fd < length (fat_private_file_desc s)" using good_length fd by metis
  then have "fat_write C fd src len s = Some (Inr (of_nat n, t))"
    using d live n(1) by (simp add: fat_write_def fat_action_def get_desc_def pfd_def bnd_def)
  with n(2-4) show ?thesis
    by (intro exI [of _ n] exI [of _ t] exI [of _ d'] exI [of _ cs']) (simp add: slice_at_def)
qed

text \<open>Files whose clusters are others.\<close>

lemma extended_others:
  assumes vol: "volume_ok fi rdy B" and ext: "extended fi B cs B' cs'" and cs: "cs = [] \<or> chain fi B cs"
    and ds: "chain fi B ds" and apart: "set cs \<inter> set ds = {}"
  shows "chain fi B' ds" and "file_data fi B' ds = file_data fi B ds" and "set cs' \<inter> set ds = {}"
proof -
  obtain new where new: "cs' = cs @ new" "\<forall>c \<in> set new. free_cluster fi B c" using ext by (auto simp: extended_def)
  have "x \<notin> set new" if "x \<in> set ds" for x
    using new(2) chain_member_entry [OF ds that] by (auto simp: free_cluster_def)
  then show apart': "set cs' \<inter> set ds = {}" using new(1) apart by auto
  have same: "fat_entry fi B' x = fat_entry fi B x" if "x \<in> set ds" for x
    using ext apart' chain_data [OF ds that] that by (auto simp: extended_def data_cluster_def)
  then show "chain fi B' ds" by (rule chain_cong [OF ds])
  have "data_cluster fi c" if "c \<in> set cs'" for c
    using that new cs chain_data vol by (auto simp: volume_ok_def)
  then have "set (file_blocks fi cs') \<inter> set (file_blocks fi ds) = {}"
    using chain_data [OF ds] apart' by (intro file_blocks_disjoint [OF vol]) auto
  moreover have "\<forall>b. b \<notin> fat_region fi \<and> b \<notin> set (file_blocks fi cs') \<longrightarrow> B' b = B b"
    using ext unfolding extended_def by blast
  moreover have "b \<notin> fat_region fi" if "b \<in> set (file_blocks fi ds)" for b
    using file_blocks_outside [OF vol _ that] chain_data [OF ds] by blast
  ultimately show "file_data fi B' ds = file_data fi B ds"
    by (intro file_data_cong) blast
qed

lemma small_volume: "volume_ok small_info (sd_ready small_card) (sd_block small_card)"
proof -
  have "data_cluster small_info c \<and> (\<forall>b \<in> set (blocks_of small_info c). sd_ready small_card b)"
    if "free_cluster small_info (sd_block small_card) c" for c
  proof -
    have c: "unat c < 256" "fat_entry small_info (sd_block small_card) c = 0"
      using that by (simp_all add: free_cluster_def small_in_fat)
    then have "4 \<le> c" using small_first_free [of c] by (metis linorder_not_less)
    then have "4 \<le> unat c" by (simp add: word_le_nat_alt)
    moreover have "c < FAT_MIN_LAST_CLUSTER" using c(1) by (simp add: word_less_nat_alt)
    moreover have "unat (cluster_addr small_info c) = 4 + (unat c - 2)"
      using cluster_addr_unat [of small_info c 0] small_geometry \<open>4 \<le> c\<close> \<open>4 \<le> unat c\<close>
      by (simp add: small_info_def spc_def word_le_nat_alt)
    moreover have "in_fat small_info c" using c(1) by (simp add: small_in_fat)
    moreover have "spc small_info = 1" by (simp add: spc_def small_info_def)
    ultimately show ?thesis
      using c(1) by (simp add: data_cluster_def word_le_nat_alt blocks_of_def small_ready word_less_nat_alt)
  qed
  then show ?thesis
    using small_layout small_geometry by (simp add: volume_ok_def) (simp add: small_info_def spc_def)
qed

lemma small_free_entry: "fat_entry small_info (sd_block small_card) 4 = 0"
  by (simp add: small_fat_entries)

subsection \<open>The properties\<close>

text \<open>
  C2: \<open>fat_write\<close> of up to 65024 bytes on an open file at the offset \<open>p\<close> returns a number \<open>n\<close> of
  bytes written: the file's bytes become the old ones with the first \<open>n\<close> of the source in place
  from \<open>p\<close> on (so the file grows exactly when they reach behind its end), the position is behind
  them, the descriptor's entry follows and is marked for writing back, and only this descriptor
  changes. The chain keeps its clusters and may get new ones at its end; the FAT entries of all
  other clusters stay. Fewer bytes than asked for are written only when no free cluster is left, and then
  without an error code.
\<close>

theorem fat_write_bytes:
  assumes dev: "live_device C blocks ready" and S: "fat_state blocks ready s"
    and vol: "volume_ok (fat_info s) (ready (dev s)) (blocks (dev s))"
    and fd: "unat fd < MAX_FILE_DESC" and d: "fat_private_file_desc s ! unat fd = d"
    and live: "\<not> is_free d" "\<not> is_stale d"
    and f: "file_open (fat_info s) (blocks (dev s)) cs d p" and rdy: "file_ready (fat_info s) (ready (dev s)) cs"
    and len: "unat len \<le> length src" "unat len \<le> 65024" "p + unat len < 4294967296"
  shows "\<exists>n t d' cs'. fat_write C fd src len s = Some (Inr (of_nat n, t)) \<and> n \<le> unat len \<and>
    fat_private_file_desc t = (fat_private_file_desc s)[unat fd := d'] \<and> edited d d' \<and>
    fat_state blocks ready t \<and> fat_info t = fat_info s \<and> last_error t = last_error s \<and>
    file_open (fat_info s) (blocks (dev t)) cs' d' (p + n) \<and>
    file_bytes (fat_info s) (blocks (dev t)) cs' d' =
      splice_at (file_bytes (fat_info s) (blocks (dev s)) cs d) p (take n src) \<and>
    file_size d' = max (file_size d) (p + n) \<and> (\<exists>new. cs' = cs @ new) \<and>
    (\<forall>c. in_fat (fat_info s) c \<and> c \<notin> set cs' \<longrightarrow>
      fat_entry (fat_info s) (blocks (dev t)) c = fat_entry (fat_info s) (blocks (dev s)) c) \<and>
    (n < unat len \<longrightarrow> (\<forall>c. in_fat (fat_info s) c \<longrightarrow> fat_entry (fat_info s) (blocks (dev t)) c \<noteq> 0))"
proof -
  obtain n t d' cs' where n: "fat_write C fd src len s = Some (Inr (of_nat n, t))" "n \<le> unat len"
    "written blocks ready s (unat fd) cs d p (take n src) t cs' d'"
    "n < unat len \<longrightarrow> (\<forall>c. \<not> free_cluster (fat_info s) (blocks (dev t)) c)"
    using fat_write_run [OF dev S vol fd d live f rdy len] by blast
  have step: "file_step blocks ready s (unat fd) d' (last_error s) (blocks (dev t)) t"
    and ext: "extended (fat_info s) (blocks (dev s)) cs (blocks (dev t)) cs'"
    using n(3) by (simp_all add: written_def)
  have take: "length (take n src) = n" using n(2) len(1) by simp
  have open': "file_open (fat_info s) (blocks (dev t)) cs' d' (p + n)"
    and bytes: "file_bytes (fat_info s) (blocks (dev t)) cs' d' =
      splice_at (file_bytes (fat_info s) (blocks (dev s)) cs d) p (take n src)"
    using n(3) take by (simp_all add: written_def)
  have rdy': "file_ready (fat_info s) (ready (dev t)) cs'"
    unfolding file_step_simps(5) [OF step] by (rule extended_ready [OF vol ext rdy])
  have p: "p \<le> file_size d" using f by (simp add: file_open_def)
  have "file_size d' = max (file_size d) (p + n)"
    using arg_cong [OF bytes, of length] take p
      file_bytes_length [OF f] file_bytes_length [OF open'] rdy rdy' live_device.block_len [OF dev]
    by (simp add: file_ready_def splice_at_def)
  then show ?thesis
    using n(1,2,4) file_step_simps(1-3) [OF step] extended_state [OF S step ext] open' bytes
      ext n(3) [unfolded written_def]
    by (intro exI [of _ n] exI [of _ t] exI [of _ d'] exI [of _ cs'])
      (simp add: free_cluster_def extended_def, blast)
qed

theorem fat_write_bytes_witness:
  "\<exists>t d' cs'. fat_write sd_ops 0 (replicate 700 0x63) 700 open_fs = Some (Inr (700, t)) \<and>
     file_open small_info (sd_block (dev t)) cs' d' 700 \<and>
     file_bytes small_info (sd_block (dev t)) cs' d' = replicate 700 0x63"
proof -
  obtain d where d: "fat_private_file_desc open_fs ! 0 = d" "\<not> is_free d" "\<not> is_stale d"
    "file_open small_info (sd_block small_card) [2, 3] d 0" "file_size d = 600"
    using open_fs_file by blast
  let ?src = "replicate 700 (0x63 :: u8)"
  have len: "unat (700 :: u16) = 700" by simp
  note W = fat_write_bytes [OF sd.live_device_axioms open_fs_state, of 0 d "[2, 3]" 0 700 ?src,
    unfolded open_fs_simps len add_0_left unat_0, OF small_volume _ d(1-4) small_file_ready]
  obtain n t d' cs' where n: "fat_write sd_ops 0 ?src 700 open_fs = Some (Inr (of_nat n, t))" "n \<le> 700"
    "file_open small_info (sd_block (dev t)) cs' d' n"
    "file_bytes small_info (sd_block (dev t)) cs' d' =
       splice_at (file_bytes small_info (sd_block small_card) [2, 3] d) 0 (take n ?src)"
    "\<forall>c. in_fat small_info c \<and> c \<notin> set cs' \<longrightarrow>
      fat_entry small_info (sd_block (dev t)) c = fat_entry small_info (sd_block small_card) c"
    "n < 700 \<longrightarrow> (\<forall>c. in_fat small_info c \<longrightarrow> fat_entry small_info (sd_block (dev t)) c \<noteq> 0)"
    "file_size d' = max (file_size d) n" "\<exists>new. cs' = [2, 3] @ new"
    using W by (simp only: length_replicate) clarsimp
  then obtain new where new: "cs' = [2, 3] @ new" by blast
  note n = n [unfolded new]
  have "n = 700"
  proof (rule ccontr)
    assume "n \<noteq> 700"
    with n(2,6) have "n < 700" "fat_entry small_info (sd_block (dev t)) 4 \<noteq> 0" by (simp_all add: small_in_fat)
    moreover have "(length ([2, 3] @ new) - 1) * 512 < file_size d'"
      using n(3) by (simp only: file_open_def small_cluster_bytes) simp
    then have "new = []" using n(7) \<open>n < 700\<close> d(5) by (cases new) auto
    ultimately show False using n(5) small_free_entry by (simp add: small_in_fat)
  qed
  moreover have "length (file_bytes small_info (sd_block small_card) [2, 3] d) = 600"
    using d(5) by (simp add: file_bytes_def small_data)
  ultimately show ?thesis
    using n(1,3,4) by (intro exI [of _ t] exI [of _ d'] exI [of _ "[2, 3] @ new"]) (simp add: splice_at_def)
qed

text \<open>
  C6: A write leaves every other file alone: a chain that shares no cluster with the written
  file's is still a chain afterwards, has the same contents, and is still apart from the written
  file's, which may have grown.
\<close>

theorem fat_write_other_files:
  assumes dev: "live_device C blocks ready" and S: "fat_state blocks ready s"
    and vol: "volume_ok (fat_info s) (ready (dev s)) (blocks (dev s))"
    and fd: "unat fd < MAX_FILE_DESC" and d: "fat_private_file_desc s ! unat fd = d"
    and live: "\<not> is_free d" "\<not> is_stale d"
    and f: "file_open (fat_info s) (blocks (dev s)) cs d p" and rdy: "file_ready (fat_info s) (ready (dev s)) cs"
    and len: "unat len \<le> length src" "unat len \<le> 65024" "p + unat len < 4294967296"
    and other: "chain (fat_info s) (blocks (dev s)) ds" "set cs \<inter> set ds = {}"
  shows "\<exists>n t d' cs'. fat_write C fd src len s = Some (Inr (n, t)) \<and>
    file_open (fat_info s) (blocks (dev t)) cs' d' (p + unat n) \<and>
    fat_private_file_desc t = (fat_private_file_desc s)[unat fd := d'] \<and>
    chain (fat_info s) (blocks (dev t)) ds \<and>
    file_data (fat_info s) (blocks (dev t)) ds = file_data (fat_info s) (blocks (dev s)) ds \<and>
    set cs' \<inter> set ds = {}"
proof -
  obtain n t d' cs' where n: "fat_write C fd src len s = Some (Inr (of_nat n, t))" "n \<le> unat len"
    "written blocks ready s (unat fd) cs d p (take n src) t cs' d'"
    using fat_write_run [OF dev S vol fd d live f rdy len] by blast
  have step: "file_step blocks ready s (unat fd) d' (last_error s) (blocks (dev t)) t"
    and ext: "extended (fat_info s) (blocks (dev s)) cs (blocks (dev t)) cs'"
    using n(3) by (simp_all add: written_def)
  have cs: "cs = [] \<or> chain (fat_info s) (blocks (dev s)) cs" using f by (simp add: file_open_def)
  have "length (take n src) = n" "unat (of_nat n :: u16) = n"
    using n(2) len(1) unat_u16 [of len] by (simp_all add: unat_of_nat_mod)
  then show ?thesis
    using n file_step_simps(1) [OF step] extended_others [OF vol ext cs other]
    by (intro exI [of _ "of_nat n"] exI [of _ t] exI [of _ d'] exI [of _ cs']) (simp add: written_def)
qed

text \<open>A new, empty file opened as descriptor 0 of the small volume, beside \<open>A.TXT\<close>.\<close>

definition fresh_desc :: FileDescriptor where
  "fresh_desc = init_desc small_info (fat_entry small_info (sd_block small_card))
     (free_desc\<lparr>is_free := False, dir_entry := small_entry\<lparr>de_cluster_lo := 0, de_size := 0\<rparr>\<rparr>)"

definition fresh_fs :: "sd_card fs" where
  "fresh_fs = small_fs\<lparr>fat_private_file_desc := (fat_private_file_desc small_fs)[0 := fresh_desc]\<rparr>"

lemma fresh_fs_file: "fat_private_file_desc fresh_fs ! 0 = fresh_desc" "\<not> is_free fresh_desc"
    "\<not> is_stale fresh_desc" "file_open small_info (sd_block small_card) [] fresh_desc 0"
    "fat_info fresh_fs = small_info" "dev fresh_fs = small_card" "fat_state sd_block sd_ready fresh_fs"
proof -
  show "file_open small_info (sd_block small_card) [] fresh_desc 0"
    unfolding fresh_desc_def
    by (rule init_desc_open [OF small_geometry]) (simp add: entry_file_def small_entry_def)
  show "fat_state sd_block sd_ready fresh_fs"
    using small_fs_state good_desc [of sd_block small_fs] good_length [of sd_block small_fs]
    by (simp add: fat_state_def fresh_fs_def)
qed (simp_all add: fresh_fs_def fresh_desc_def init_desc_def Let_def free_desc_def small_fs_def)

theorem fat_write_other_files_witness:
  "\<exists>n t. fat_write sd_ops 0 (replicate 700 0x63) 700 fresh_fs = Some (Inr (n, t)) \<and>
     chain small_info (sd_block (dev t)) [2, 3] \<and>
     file_data small_info (sd_block (dev t)) [2, 3] = replicate 512 0x61 @ replicate 512 0x62"
proof -
  have len: "unat (700 :: u16) = 700" by simp
  have ready: "file_ready small_info (sd_ready small_card) []" by (simp add: file_ready_def file_blocks_def)
  note W = fat_write_other_files [OF sd.live_device_axioms fresh_fs_file(7), of 0 fresh_desc "[]" 0 700
    "replicate 700 0x63" "[2, 3]", unfolded fresh_fs_file(5,6) len add_0_left unat_0,
    OF small_volume _ fresh_fs_file(1-4) ready _ _ _ small_chain]
  show ?thesis using W by (simp only: length_replicate small_data) (simp, blast)
qed

end
