(* ===== verification/FatClose.thy ===== *)
theory FatClose
  imports FatSeek FatWrite
begin

section \<open>Closing and truncating (lib/fat/fat.c)\<close>

text \<open>
  \<open>fat_close\<close> writes a changed directory entry back to its place and frees the slot. \<open>fat_truncate\<close>
  cuts the file at the position: it frees the clusters behind it. Cutting at 0 leaves the length of
  the last cluster at its old value.
\<close>

subsection \<open>Cutting a chain\<close>

text \<open>\<open>cut fi cs n B B'\<close>: the chain \<open>cs\<close> ends after \<open>n\<close> clusters, the others are free.\<close>

definition cut :: "FatInfo \<Rightarrow> u16 list \<Rightarrow> nat \<Rightarrow> (u32 \<Rightarrow> bytes) \<Rightarrow> (u32 \<Rightarrow> bytes) \<Rightarrow> bool" where
  "cut fi cs n B B' \<longleftrightarrow> mirrored fi B' \<and>
     (\<forall>x. in_fat fi x \<longrightarrow> fat_entry fi B' x =
        (if x \<in> set (drop n cs) then 0 else if n < length cs \<and> x = cs ! (n - 1) then 0xffff else fat_entry fi B x)) \<and>
     (\<forall>b. b \<notin> fat_region fi \<longrightarrow> B' b = B b)"

lemma cut_refl: "mirrored fi B \<Longrightarrow> cut fi cs (length cs) B B"
  by (simp add: cut_def)

lemma distinct_take_drop:
  assumes "distinct cs" and "k < n" and "n \<le> length cs"
  shows "cs ! k \<notin> set (drop n cs)"
  using assms by (auto simp: in_set_conv_nth nth_eq_iff_index_eq)

lemma cut_chain:
  assumes cut: "cut fi cs n B B'" and ch: "chain fi B cs" and n: "0 < n" "n \<le> length cs"
  shows "chain fi B' (take n cs)" and "fat_entry fi B' (cs ! (n - 1)) = (if n < length cs then 0xffff else fat_entry fi B (last cs))"
    and "k < n - 1 \<Longrightarrow> fat_entry fi B' (cs ! k) = cs ! Suc k"
proof -
  have dist: "distinct cs" by (rule chain_distinct [OF ch])
  have mem: "in_fat fi (cs ! k)" if "k < length cs" for k
    using chain_data [OF ch, of "cs ! k"] that by (simp add: data_cluster_def)
  have e: "fat_entry fi B' (cs ! k) = (if n < length cs \<and> k = n - 1 then 0xffff else fat_entry fi B (cs ! k))"
    if "k < n" for k
    using cut mem [of k] that n distinct_take_drop [OF dist that n(2)] nth_eq_iff_index_eq [OF dist, of k "n - 1"]
    by (simp add: cut_def)
  show last: "fat_entry fi B' (cs ! (n - 1)) = (if n < length cs then 0xffff else fat_entry fi B (last cs))"
    using e [of "n - 1"] n by (auto simp: last_conv_nth)
  show next_: "fat_entry fi B' (cs ! k) = cs ! Suc k" if "k < n - 1" for k
    using e [of k] that n chain_next [OF ch, of k] by simp
  have "take n cs \<noteq> []" using n by auto
  then have "last (take n cs) = cs ! (n - 1)" using n by (simp add: last_conv_nth min_def)
  then show "chain fi B' (take n cs)"
    using ch n last next_ chain_end [OF ch] unfolding chain_iff
    by (auto dest: in_set_takeD)
qed

text \<open>The descriptor after \<open>truncate_tail\<close>, at the offset \<open>p\<close>.\<close>

definition cut_len :: "FatInfo \<Rightarrow> FileDescriptor \<Rightarrow> u16" where
  "cut_len fi d = (let len = ucast (abs_offset d) AND cluster_mask fi
     in if len = 0 \<and> block_in_cluster d \<noteq> 0 then cluster_mask fi + 1 else len)"

context live_device
begin

lemma truncate_tail_run:
  assumes S: "fat_state blocks ready s" and i: "i < MAX_FILE_DESC" and d: "fat_private_file_desc s ! i = d"
    and ch: "chain (fat_info s) (blocks (dev s)) cs" and k: "k < length cs" and cur: "cur_cluster d = cs ! k"
    and nx: "next_cluster d = fat_entry (fat_info s) (blocks (dev s)) (cs ! k)"
  shows "\<exists>t. truncate_tail C i s = Some (Inr (True, t)) \<and>
    file_step blocks ready s i (d\<lparr>next_cluster := fat_entry (fat_info s) (blocks (dev t)) (cs ! k),
       last_cluster_len := cut_len (fat_info s) d\<rparr>) (last_error s) (blocks (dev t)) t \<and>
    cut (fat_info s) cs (Suc k) (blocks (dev s)) (blocks (dev t))"
proof -
  let ?fi = "fat_info s" and ?B = "blocks (dev s)" and ?ds = "fat_private_file_desc s"
  have g: "good blocks s" and m: "mirrored ?fi ?B" using S by (simp_all add: fat_state_def)
  have len: "length ?ds = MAX_FILE_DESC" using good_length [OF g] .
  have il: "i < length ?ds" using len i by simp
  have inf: "in_fat ?fi (cs ! k)" using chain_data [OF ch, of "cs ! k"] k by (simp add: data_cluster_def)
  show ?thesis
  proof (cases "Suc k < length cs")
    case False
    then have end': "Suc k = length cs" using k by simp
    then have "cs ! k = last cs" by (metis diff_Suc_1 last_conv_nth list.size(3) nat.distinct(1))
    then have "\<not> next_cluster d < FAT_MIN_LAST_CLUSTER" using nx chain_end [OF ch] by (simp add: not_less)
    moreover have "d\<lparr>next_cluster := fat_entry ?fi ?B (cs ! k)\<rparr> = d" unfolding nx [symmetric] by simp
    ultimately show ?thesis
      using il d cut_refl [OF m, of cs] end' file_step_upd [OF file_step_refl [OF g d] il g, of "\<lambda>d. d\<lparr>last_cluster_len := cut_len ?fi d\<rparr>"]
      by (intro exI [of _ "s\<lparr>fat_private_file_desc := ?ds[i := d\<lparr>last_cluster_len := cut_len ?fi d\<rparr>]\<rparr>"])
        (simp add: truncate_tail_def pfd_def upd_pfd_def cut_len_def Let_def bnd_def)
  next
    case True
    have "cs ! Suc k \<in> set cs" using True by simp
    then have nx': "next_cluster d = cs ! Suc k" "next_cluster d < FAT_MIN_LAST_CLUSTER"
      using chain_next [OF ch True] chain_nth_less [OF ch True] nx by simp_all
    obtain t1 where t1: "write_fat_entry C (cs ! k) 0xffff s = Some (Inr (True, t1))"
      "at_disk blocks ready s (fat_store ?fi (cs ! k) 0xffff ?B) t1"
      using write_fat_entry_run [OF S inf] .
    note eq1 = at_disk_simps [OF t1(2)]
    have S1: "fat_state blocks ready t1" by (rule fat_state_store [OF S inf t1(2)])
    have e1: "fat_entry ?fi (blocks (dev t1)) x = (if x = cs ! k then 0xffff else fat_entry ?fi ?B x)"
      if "in_fat ?fi x" for x unfolding eq1(4) by (rule entry_store [OF S inf that])
    have drop: "drop (Suc k) cs = cs ! Suc k # drop (Suc (Suc k)) cs" using True by (simp add: Cons_nth_drop_Suc)
    have notin: "cs ! k \<notin> set (drop (Suc k) cs)"
      using distinct_take_drop [OF chain_distinct [OF ch], of k "Suc k"] True by simp
    have "chain ?fi ?B (drop (Suc k) cs)"
      using chain_suffix [of ?fi ?B "take (Suc k) cs" "drop (Suc k) cs"] ch True by simp
    then have "chain ?fi (blocks (dev t1)) (drop (Suc k) cs)"
    proof (rule chain_cong)
      fix c assume c: "c \<in> set (drop (Suc k) cs)"
      then have "in_fat ?fi c" using chain_data [OF ch in_set_dropD] by (simp add: data_cluster_def)
      then show "fat_entry ?fi (blocks (dev t1)) c = fat_entry ?fi ?B c" using e1 [of c] c notin by auto
    qed
    then obtain t2 where t2: "free_cluster_chain C (cs ! Suc k) t1 = Some (Inr (True, t2))"
      "at_disk blocks ready t1 (blocks (dev t2)) t2" "cleared ?fi (drop (Suc k) cs) (blocks (dev t1)) (blocks (dev t2))"
      using free_chain_cleared [OF S1, of "cs ! Suc k" "drop (Suc (Suc k)) cs"] unfolding drop eq1(2) by blast
    note eq2 = at_disk_simps [OF at_disk_trans [OF t1(2) t2(2)]]
    let ?h = "\<lambda>d. d\<lparr>next_cluster := 0xffff, last_cluster_len := cut_len ?fi d\<rparr>"
    let ?t = "t2\<lparr>fat_private_file_desc := ?ds[i := ?h d]\<rparr>"
    have cut: "cut ?fi cs (Suc k) ?B (blocks (dev t2))"
      using t2(3) e1 True fat_store_elsewhere [OF inf] unfolding cut_def cleared_def eq1(4) by auto
    have "fat_entry ?fi (blocks (dev t2)) (cs ! k) = 0xffff" using cut_chain(2) [OF cut ch] True by simp
    moreover have "truncate_tail C i s = Some (Inr (True, ?t))"
      using il d nx' cur t1(1) t2(1) eq1(1) eq2(1)
      by (simp add: truncate_tail_def pfd_def upd_pfd_def cut_len_def Let_def bnd_def)
    moreover have "file_step blocks ready s i (?h d) (last_error s) (blocks (dev t2)) ?t"
      using at_disk_desc [OF at_disk_trans [OF t1(2) t2(2)], of "?ds[i := ?h d]"] len
      by (simp add: file_step_def at_disk_def)
    ultimately show ?thesis using cut by (intro exI [of _ ?t]) simp
  qed
qed

end

text \<open>The position after the cut, inside a cluster and at the start of one.\<close>

definition shrunk :: "FileDescriptor \<Rightarrow> FileDescriptor" where
  "shrunk d = d\<lparr>dir_entry := (dir_entry d)\<lparr>de_size := abs_offset d\<rparr>, dir_entry_modified := True\<rparr>"

lemma offset_in_cluster:
  "p mod cluster_bytes fi = 512 * (p div 512 mod spc fi) + p mod 512" "p div cluster_bytes fi = p div 512 div spc fi"
  by (simp_all add: cluster_bytes_def mod_mult2_eq div_mult2_eq)

lemma cut_len_eq:
  assumes "cluster_geometry fi" and "abs_offset d = of_nat p" and "p < 4294967296"
  shows "unat (cut_len fi d) =
    (if p mod cluster_bytes fi = 0 \<and> block_in_cluster d \<noteq> 0 then cluster_bytes fi else p mod cluster_bytes fi)"
proof -
  have "unat (abs_offset d) = p" using assms(2,3) by (simp add: unat_of_nat_mod)
  then have "unat (ucast (abs_offset d) AND cluster_mask fi) = p mod cluster_bytes fi"
    using cluster_mask_len(1) [OF assms(1)] by simp
  then show ?thesis
    using cluster_mask_len(2) [OF assms(1)] by (auto simp: cut_len_def Let_def unat_eq_zero)
qed

lemma file_blocks_take:
  assumes "n \<le> length cs" and "q < n * spc fi"
  shows "file_blocks fi (take n cs) ! q = file_blocks fi cs ! q"
proof -
  have "q < length cs * spc fi" using mult_le_mono1 [OF assms(1), of "spc fi"] assms(2) by linarith
  then show ?thesis
    using assms by (subst (1 2) nth_file_blocks) (simp_all add: less_mult_imp_div_less min_def)
qed

text \<open>The number of clusters that stay.\<close>

lemma cut_count:
  assumes f: "file_open fi B cs d p" and geo: "cluster_geometry fi" and p: "0 < p" "p < file_size d"
    and n: "n = (p + cluster_bytes fi - 1) div cluster_bytes fi"
  shows "0 < n" and "n \<le> length cs" and "p div cluster_bytes fi < length cs"
    and "p mod cluster_bytes fi = 0 \<Longrightarrow> 0 < p div cluster_bytes fi \<and> n = p div cluster_bytes fi"
    and "p mod cluster_bytes fi \<noteq> 0 \<Longrightarrow> n = Suc (p div cluster_bytes fi)"
proof -
  let ?m = "cluster_bytes fi" and ?k = "p div cluster_bytes fi"
  have m: "0 < ?m" using spc_bounds [OF geo] by (simp add: cluster_bytes_def)
  have "p < length cs * ?m" using p(2) f by (simp add: file_open_def)
  then show k: "?k < length cs" by (rule less_mult_imp_div_less)
  have pk: "p = ?k * ?m + p mod ?m" by simp
  have full: "(j * ?m + x) div ?m = j" if "x < ?m" for j x using that by simp
  show b: "0 < ?k \<and> n = ?k" if z: "p mod ?m = 0"
  proof -
    have "p + ?m - 1 = ?k * ?m + (?m - 1)" using pk z m by linarith
    then have "n = ?k" unfolding n using full [of "?m - 1" ?k] m by simp
    moreover have "?k \<noteq> 0" using pk z p(1) by (metis add_0 mult_0 not_less0)
    ultimately show ?thesis by simp
  qed
  show c: "n = Suc ?k" if nz: "p mod ?m \<noteq> 0"
  proof -
    have "p mod ?m < ?m" using m by simp
    moreover have "p + ?m - 1 = Suc ?k * ?m + (p mod ?m - 1)" using pk nz by simp
    ultimately show ?thesis unfolding n using full [of "p mod ?m - 1" "Suc ?k"] by simp
  qed
  show n0: "0 < n" and nl: "n \<le> length cs" using b c k by (cases "p mod ?m = 0"; simp)+
qed

lemma cut_open:
  assumes f: "file_open fi B cs d p" and geo: "cluster_geometry fi" and p: "0 < p" "p < file_size d"
    and n: "n = (p + cluster_bytes fi - 1) div cluster_bytes fi" and cut: "cut fi cs n B B'"
    and d2: "d2 = (if p mod cluster_bytes fi = 0 then (shrunk d)\<lparr>next_cluster := x,
       cur_cluster := cs ! (n - 1), block_in_cluster := sectors_per_cluster fi\<rparr> else shrunk d)"
    and r: "r = d2\<lparr>next_cluster := fat_entry fi B' (cs ! (n - 1)), last_cluster_len := cut_len fi d2\<rparr>"
  shows "file_open fi B' (take n cs) r p" and "file_size r = p"
proof -
  let ?m = "cluster_bytes fi" and ?q = "p div 512" and ?k = "p div cluster_bytes fi"
  have S: "0 < spc fi" and m: "0 < ?m" using spc_bounds [OF geo] by (simp_all add: cluster_bytes_def)
  have size: "file_size d \<le> length cs * ?m" and root: "\<not> is_root d" and cs: "cs = [] \<or> chain fi B cs"
    and lo: "de_cluster_lo (dir_entry d) = (if cs = [] then 0 else hd cs)"
    and at: "pos_at fi B cs d ?q (p mod 512)"
    using f by (simp_all add: file_open_def)
  note n0 = cut_count(1) [OF f geo p n] and nl = cut_count(2) [OF f geo p n] and k = cut_count(3) [OF f geo p n]
  note b = cut_count(4) [OF f geo p n] and c = cut_count(5) [OF f geo p n]
  have ch: "chain fi B cs" and hd: "hd (take (Suc j) cs) = hd cs" for j using cs k by auto
  have pk: "p = ?k * ?m + p mod ?m" by simp
  have q: "?q < length cs * spc fi" using p(2) size
    by (intro pos_block) (simp add: cluster_bytes_def mult.commute mult.left_commute)
  have p32: "p < 4294967296" using p(2) unat_u32 [of "de_size (dir_entry d)"] by (simp add: file_size_def)
  have abs: "abs_offset d = of_nat p" using at by (simp add: pos_at_def del: of_nat_add of_nat_mult)
  show size': "file_size r = p"
    using abs p32 by (simp add: r d2 shrunk_def file_size_def unat_of_nat_mod)
  have d2_abs: "abs_offset d2 = of_nat p" using abs by (simp add: d2 shrunk_def)
  have chain': "chain fi B' (take n cs)" by (rule cut_chain(1) [OF cut ch n0 nl])
  have len: "length (take n cs) = n" using nl by simp
  have "pos_at fi B' (take n cs) r ?q (p mod 512) \<and> p \<le> n * ?m \<and> (n - 1) * ?m < p \<and>
    unat (last_cluster_len r) = p - (n - 1) * ?m"
  proof (cases "p mod ?m = 0")
    case True
    have n: "n = ?k" "0 < ?k" using b [OF True] by simp_all
    have zero: "?q mod spc fi = 0" "p mod 512 = 0" using True offset_in_cluster(1) [of p fi] by simp_all
    have "?q = n * spc fi" unfolding n(1) offset_in_cluster(2) using zero(1) by (metis add_0_right div_mult_mod_eq)
    moreover have "block_in_cluster d2 \<noteq> 0" using S True by (auto simp: d2 spc_def)
    then have "unat (cut_len fi d2) = ?m" using cut_len_eq [OF geo d2_abs p32] True by simp
    moreover have "last (take n cs) = cs ! (n - 1)"
      using n0 nl last_conv_nth [of "take n cs"] by (cases cs) (simp_all add: min_def)
    moreover have "take n cs \<noteq> []" using n0 nl by auto
    moreover have "p = n * ?m" using pk True n by simp
    moreover from this have "p - (n - 1) * ?m = ?m" "(n - 1) * ?m < p" using n0 m by (cases n; simp)+
    ultimately show ?thesis
      using at zero True len d2_abs unfolding pos_at_def r d2 shrunk_def
      by (simp del: of_nat_add of_nat_mult)
  next
    case False
    have n: "n = Suc ?k" by (rule c [OF False])
    have "?q < n * spc fi" unfolding n offset_in_cluster(2) using S by (metis dividend_less_div_times mult.commute mult_Suc)
    moreover have "?q div spc fi = ?k" unfolding offset_in_cluster(2) by simp
    moreover have "unat (cut_len fi d2) = p mod ?m" using cut_len_eq [OF geo d2_abs p32] False by simp
    moreover have "p mod ?m < ?m" "p mod ?m \<noteq> 0" using m False by simp_all
    then have "p \<le> ?m + ?k * ?m \<and> ?k * ?m < p \<and> p mod ?m = p - ?k * ?m" using pk by linarith
    ultimately show ?thesis
      using at q len d2_abs False n file_blocks_take [OF nl, of ?q fi] unfolding pos_at_def r d2 shrunk_def
      by (simp del: of_nat_add of_nat_mult)
  qed
  then show "file_open fi B' (take n cs) r p"
    using chain' root lo len n0 nl size' hd [of "n - 1"] k
    by (simp add: file_open_def) (auto simp: r d2 shrunk_def)
qed


text \<open>\<open>fat_truncate\<close> behind the start of the file.\<close>

context live_device
begin

lemma fat_truncate_run:
  assumes S: "fat_state blocks ready s" and geo: "cluster_geometry (fat_info s)"
    and fd: "unat fd < MAX_FILE_DESC" and d: "fat_private_file_desc s ! unat fd = d"
    and live: "\<not> is_free d" "\<not> is_stale d"
    and f: "file_open (fat_info s) (blocks (dev s)) cs d p" and p: "0 < p" "p < file_size d"
    and n: "n = (p + cluster_bytes (fat_info s) - 1) div cluster_bytes (fat_info s)"
  shows "\<exists>t r. fat_truncate C fd s = Some (Inr (True, t)) \<and>
    file_step blocks ready s (unat fd) r (last_error s) (blocks (dev t)) t \<and>
    file_open (fat_info s) (blocks (dev t)) (take n cs) r p \<and> file_size r = p \<and> edited d r \<and> dir_entry_modified r \<and>
    cut (fat_info s) cs n (blocks (dev s)) (blocks (dev t)) \<and> 0 < n \<and> n \<le> length cs"
proof -
  let ?fi = "fat_info s" and ?B = "blocks (dev s)" and ?i = "unat fd" and ?m = "cluster_bytes (fat_info s)"
    and ?k = "p div cluster_bytes (fat_info s)"
  let ?ds = "fat_private_file_desc s" and ?d1 = "shrunk d"
  have g: "good blocks s" using S by (simp add: fat_state_def)
  have len: "length ?ds = MAX_FILE_DESC" using good_length [OF g] .
  have il: "?i < length ?ds" using len fd by simp
  note count = cut_count [OF f geo p n]
  have cs: "cs \<noteq> []" using count(3) by auto
  have at: "pos_at ?fi ?B cs d (p div 512) (p mod 512)" and lo: "de_cluster_lo (dir_entry d) = hd cs"
    and ch: "chain ?fi ?B cs" and size: "file_size d \<le> length cs * ?m"
    using f cs by (simp_all add: file_open_def)
  have q: "p div 512 < length cs * spc ?fi" using p(2) size
    by (intro pos_block) (simp add: cluster_bytes_def mult.commute mult.left_commute)
  have cur: "cur_cluster d = cs ! ?k" and nx: "next_cluster d = fat_entry ?fi ?B (cs ! ?k)"
    and bic: "block_in_cluster d = of_nat (p div 512 mod spc ?fi)" and idx: "index_in_block d = of_nat (p mod 512)"
    and abs: "abs_offset d = of_nat p"
    using at q by (simp_all add: pos_at_def offset_in_cluster(2) del: of_nat_add of_nat_mult)
  have "p div 512 mod spc ?fi < 256" using spc_bounds [OF geo] mod_less_divisor [of "spc ?fi" "p div 512"] by linarith
  then have "unat (block_in_cluster d) = p div 512 mod spc ?fi" "unat (index_in_block d) = p mod 512"
    by (simp_all add: bic idx unat_of_nat_mod)
  moreover have "(ucast b :: u16) = 0 \<longleftrightarrow> unat b = 0" for b :: u8
    using unat_u8 [of b] by (simp add: word_unat_eq_iff unat_ucast_mod)
  moreover have "w = 0 \<longleftrightarrow> unat w = 0" for w :: u16 by (simp add: word_unat_eq_iff)
  ultimately have start: "(ucast (block_in_cluster d) OR index_in_block d) = 0 \<longleftrightarrow> p mod ?m = 0"
    unfolding or_eq_0_iff offset_in_cluster(1) by simp
  have "p < 4294967296" using p(2) unat_u32 [of "de_size (dir_entry d)"] by (simp add: file_size_def)
  then have ne: "abs_offset d \<noteq> de_size (dir_entry d)"
    using p(2) abs by (auto simp: file_size_def unat_of_nat_mod dest: arg_cong [of _ _ unat])
  let ?s1 = "s\<lparr>fat_private_file_desc := ?ds[?i := ?d1]\<rparr>"
  have S1: "fat_state blocks ready ?s1" using S good_desc [OF g] len by (simp add: fat_state_def)
  have step1: "file_step blocks ready s ?i ?d1 (last_error s) ?B ?s1"
    using file_step_upd(2) [OF file_step_refl [OF g d] il g, of shrunk] .
  \<comment> \<open>The tail, from either state.\<close>
  have tail: ?thesis
    if u: "fat_truncate C fd s = truncate_tail C ?i u" "file_step blocks ready s ?i d2 (last_error s) ?B u"
      and d2: "d2 = (if p mod ?m = 0 then ?d1\<lparr>next_cluster := cs ! ?k, cur_cluster := cs ! (n - 1),
         block_in_cluster := sectors_per_cluster ?fi\<rparr> else ?d1)" for u d2
  proof -
    note eq = file_step_simps [OF u(2)]
    have Su: "fat_state blocks ready u" by (rule file_step_state [OF S u(2)])
    have du: "fat_private_file_desc u ! ?i = d2" using eq(1) il by simp
    have n1: "n - 1 < length cs" "Suc (n - 1) = n" using count(1,2) by simp_all
    have "cur_cluster d2 = cs ! (n - 1)" "next_cluster d2 = fat_entry ?fi ?B (cs ! (n - 1))"
      using count(4,5) cur nx chain_next [OF ch, of "?k - 1"] count(3) by (auto simp: d2 shrunk_def)
    then obtain t where t: "truncate_tail C ?i u = Some (Inr (True, t))"
      "file_step blocks ready u ?i (d2\<lparr>next_cluster := fat_entry ?fi (blocks (dev t)) (cs ! (n - 1)),
         last_cluster_len := cut_len ?fi d2\<rparr>) (last_error s) (blocks (dev t)) t"
      "cut ?fi cs n ?B (blocks (dev t))"
      using truncate_tail_run [OF Su fd du, of cs "n - 1", unfolded eq(2-4)] ch n1 by auto
    note open' = cut_open [OF f geo p n t(3) d2 refl]
    have "edited d (d2\<lparr>next_cluster := v, last_cluster_len := w\<rparr>)" "dir_entry_modified (d2\<lparr>next_cluster := v, last_cluster_len := w\<rparr>)" for v w
      by (simp_all add: edited_def d2 shrunk_def)
    then show ?thesis
      using u(1) t(1,3) file_step_trans [OF u(2) t(2)] open' count(1,2) by (intro exI) auto
  qed
  show ?thesis
  proof (cases "p mod ?m = 0")
    case False
    have "fat_truncate C fd s = truncate_tail C ?i ?s1"
      using get_desc_live [OF S fd d live] ne start False il d
      by (simp add: fat_truncate_def Let_def upd_pfd_def shrunk_def bnd_def)
    then show ?thesis using tail [OF _ step1] False by simp
  next
    case True
    have k: "0 < ?k" "n = ?k" using count(4) [OF True] by simp_all
    then have "Suc (?k - 1) < length cs" "Suc (?k - 1) = ?k" using count(3) by simp_all
    then obtain t1 where t1: "find_parent_cluster C (hd cs) (cs ! ?k) ?s1 = Some (Inr (cs ! (?k - 1), t1))"
      "at_disk blocks ready ?s1 ?B t1"
      using find_parent_nth [OF S1, of cs "?k - 1"] ch by auto
    note eq1 = at_disk_simps [OF t1(2)]
    have par: "cs ! (?k - 1) \<noteq> 0" using chain_data [OF ch, of "cs ! (?k - 1)"] count(3) by (auto simp: data_cluster_def)
    have far: "cs ! ?k \<noteq> hd cs"
      using nth_eq_iff_index_eq [OF chain_distinct [OF ch], of ?k 0] k count(3) cs by (simp add: hd_conv_nth)
    let ?h = "\<lambda>d. d\<lparr>next_cluster := cur_cluster d, cur_cluster := cs ! (?k - 1), block_in_cluster := sectors_per_cluster ?fi\<rparr>"
    let ?u = "t1\<lparr>fat_private_file_desc := ?ds[?i := ?h ?d1]\<rparr>"
    have "fat_truncate C fd s = truncate_tail C ?i ?u"
      using get_desc_live [OF S fd d live] ne start True il d t1(1) par far cur lo eq1(1,2)
      by (simp add: fat_truncate_def Let_def upd_pfd_def shrunk_def bnd_def)
    moreover have "file_step blocks ready s ?i (?h ?d1) (last_error s) ?B ?u"
      using at_disk_desc [OF t1(2), of "?ds[?i := ?h ?d1]"] len by (simp add: file_step_def at_disk_def)
    ultimately show ?thesis using tail [of ?u "?h ?d1"] True k cur by (simp add: shrunk_def)
  qed
qed


text \<open>\<open>fat_truncate\<close> at the start of the file: the descriptor it leaves, \<open>e\<close>.\<close>

lemma fat_truncate_empty_run:
  assumes S: "fat_state blocks ready s" and geo: "cluster_geometry (fat_info s)"
    and fd: "unat fd < MAX_FILE_DESC" and d: "fat_private_file_desc s ! unat fd = d"
    and live: "\<not> is_free d" "\<not> is_stale d"
    and f: "file_open (fat_info s) (blocks (dev s)) cs d 0" and p: "0 < file_size d"
    and r: "r = (shrunk d)\<lparr>dir_entry := (dir_entry d)\<lparr>de_size := 0, de_cluster_lo := 0\<rparr>, cur_cluster := 0, next_cluster := 0xffff\<rparr>"
  shows "\<exists>t. fat_truncate C fd s = Some (Inr (True, t)) \<and>
    file_step blocks ready s (unat fd) r (last_error s) (blocks (dev t)) t \<and>
    cleared (fat_info s) cs (blocks (dev s)) (blocks (dev t))"
proof -
  let ?fi = "fat_info s" and ?B = "blocks (dev s)" and ?i = "unat fd"
  let ?ds = "fat_private_file_desc s" and ?d1 = "shrunk d"
  have g: "good blocks s" using S by (simp add: fat_state_def)
  have len: "length ?ds = MAX_FILE_DESC" using good_length [OF g] .
  have il: "?i < length ?ds" using len fd by simp
  have cs: "cs \<noteq> []" using p f by (auto simp: file_open_def)
  have at: "pos_at ?fi ?B cs d 0 0" and lo: "de_cluster_lo (dir_entry d) = hd cs" and ch: "chain ?fi ?B cs"
    using f cs by (simp_all add: file_open_def)
  have S0: "0 < spc ?fi" using spc_bounds [OF geo] by simp
  have cur: "cur_cluster d = hd cs" "block_in_cluster d = 0" "index_in_block d = 0" "abs_offset d = 0"
    using at cs S0 by (simp_all add: pos_at_def hd_conv_nth)
  have ne: "de_size (dir_entry d) \<noteq> 0" using p by (auto simp: file_size_def)
  let ?d2 = "?d1\<lparr>dir_entry := (dir_entry d)\<lparr>de_size := 0, de_cluster_lo := 0\<rparr>\<rparr>"
  let ?s2 = "s\<lparr>fat_private_file_desc := ?ds[?i := ?d2]\<rparr>"
  have S2: "fat_state blocks ready ?s2" using S good_desc [OF g] len by (simp add: fat_state_def)
  have "chain (fat_info ?s2) (blocks (dev ?s2)) (hd cs # tl cs)" using ch cs by simp
  then obtain t where t: "free_cluster_chain C (hd cs) ?s2 = Some (Inr (True, t))"
    "at_disk blocks ready ?s2 (blocks (dev t)) t" "cleared ?fi cs ?B (blocks (dev t))"
    using free_chain_cleared [OF S2] cs by fastforce
  note eq = at_disk_simps [OF t(2)]
  let ?t = "t\<lparr>fat_private_file_desc := ?ds[?i := r]\<rparr>"
  have "fat_truncate C fd s = Some (Inr (True, ?t))"
    using get_desc_live [OF S fd d live] ne cur lo il d t(1) eq(1)
    by (simp add: fat_truncate_def Let_def upd_pfd_def shrunk_def bnd_def r)
  moreover have "file_step blocks ready s ?i r (last_error s) (blocks (dev t)) ?t"
    using at_disk_desc [OF t(2), of "?ds[?i := r]"] len by (simp add: file_step_def at_disk_def)
  ultimately show ?thesis using t(3) by (intro exI [of _ ?t]) simp
qed

text \<open>One block written to a file that has no clusters.\<close>

lemma write_first_block:
  assumes S: "fat_state blocks ready s" and vol: "volume_ok (fat_info s) (ready (dev s)) (blocks (dev s))"
    and fd: "unat fd < MAX_FILE_DESC" and d: "fat_private_file_desc s ! unat fd = d"
    and live: "\<not> is_free d" "\<not> is_stale d" "\<not> is_root d"
    and at: "cur_cluster d = 0" "block_in_cluster d = 0" "index_in_block d = 0"
    and room: "free_cluster (fat_info s) (blocks (dev s)) c"
    and lcl: "last_cluster_len d < len" and len: "len \<le> 512" "unat len \<le> length src"
  shows "\<exists>t. fat_write C fd src len s = Some (Inr (len, t)) \<and> last_error t = last_error s \<and>
    de_size (dir_entry (fat_private_file_desc t ! unat fd)) = de_size (dir_entry d) + ucast (len - last_cluster_len d)"
proof -
  let ?fi = "fat_info s" and ?i = "unat fd" and ?ds = "fat_private_file_desc s"
  have g: "good blocks s" and geo: "cluster_geometry ?fi" using S vol by (simp_all add: fat_state_def volume_ok_def)
  have len16: "length ?ds = MAX_FILE_DESC" using good_length [OF g] .
  have il: "?i < length ?ds" using len16 fd by simp
  obtain c t where t: "alloc_cluster C 0 s = Some (Inr (c, t))" "at_disk blocks ready s (blocks (dev t)) t"
    "linked ?fi 0 c (blocks (dev s)) (blocks (dev t))"
    using alloc_cases [OF live_device_axioms S, of 0] room by blast
  note eq = at_disk_simps [OF t(2)]
  have c: "data_cluster ?fi c" "c \<noteq> 0xffff" and rb: "ready (dev s) (cluster_addr ?fi c)"
  proof -
    have "free_cluster ?fi (blocks (dev s)) c" using t(3) by (simp add: linked_def)
    then show dc: "data_cluster ?fi c" and "ready (dev s) (cluster_addr ?fi c)"
      using vol spc_bounds [OF geo] by (force simp: volume_ok_def blocks_of_def)+
    then show "c \<noteq> 0xffff" by (auto simp: data_cluster_def)
  qed
  let ?d1 = "first_desc ?fi c d"
  let ?d2 = "?d1\<lparr>last_cluster_len := last_cluster_len d + (len - last_cluster_len d),
    dir_entry := (dir_entry ?d1)\<lparr>de_size := de_size (dir_entry d) + ucast (len - last_cluster_len d)\<rparr>, dir_entry_modified := True\<rparr>"
  let ?t1 = "t\<lparr>fat_private_file_desc := ?ds[?i := ?d1]\<rparr>" and ?t2 = "t\<lparr>fat_private_file_desc := ?ds[?i := ?d2]\<rparr>"
  have sec: "sectors_per_cluster ?fi \<noteq> 0" using spc_bounds [OF geo] by (auto simp: spc_def)
  have first: "first_cluster C ?i True s = Some (Inr (True, ?t1))" "append_cluster C ?i True ?t1 = Some (Inr (True, ?t1))"
    using il d at t(1) c eq sec
    by (simp_all add: first_cluster_def append_cluster_def pfd_def upd_pfd_def bnd_def first_desc_def)
  have "\<not> 512 < last_cluster_len d" using lcl len(1) by simp
  then have chunk: "next_chunk ?i True len ?t1 = Some (Inr (len, ?t2))"
    using il at lcl len(1) by (simp add: next_chunk_def pfd_def upd_pfd_def bnd_def Let_def first_desc_def)
  have g2: "good blocks ?t2" using good_desc [OF at_disk_good [OF t(2)]] len16 by simp
  have "unat len \<le> 512" using len(1) by (simp add: word_le_nat_alt)
  then have fits: "unat (0 :: u16) + unat len \<le> 512" "0 + unat len \<le> length src" using len(2) by simp_all
  have rb2: "ready (dev ?t2) (cluster_addr ?fi c)" using rb eq(5) by simp
  obtain u v where u: "cache C (cluster_addr ?fi c) ?t2 = Some (Inr (True, u))"
    "transfer C True (unat (0 :: u16)) src 0 (unat len) u = Some (Inr ((True, src), v))"
    "at_disk blocks ready ?t2 (blocks (dev v)) v"
    using transfer_write_run [OF live_device_axioms g2 rb2 fits] by (metis at_disk_simps(4))
  note eqv = at_disk_simps [OF u(3)]
  have lay: "fat_layout ?fi (ready (dev s))" using S by (simp add: fat_state_def)
  have d2: "fat_private_file_desc v ! ?i = ?d2" using eqv(1) il by simp
  have "wp (seek_advance C ?i len) (\<lambda>ok w. ok \<and> at_disk blocks ready (v\<lparr>fat_private_file_desc :=
      (fat_private_file_desc v)[?i := advance_desc (fat_info v) (fat_entry (fat_info v) (blocks (dev v))) len ?d2]\<rparr>)
      (blocks (dev v)) w) v"
    using at_disk_good [OF u(3)] lay fd d2 eqv eq by (intro seek_advance_wp) (simp_all add: first_desc_def)
  from wp_True [OF this] obtain w where w: "seek_advance C ?i len v = Some (Inr (True, w))"
    "at_disk blocks ready (v\<lparr>fat_private_file_desc :=
      (fat_private_file_desc v)[?i := advance_desc (fat_info v) (fat_entry (fat_info v) (blocks (dev v))) len ?d2]\<rparr>) (blocks (dev v)) w"
    by metis
  have nz: "len \<noteq> 0" using lcl by auto
  have pos: "block_addr ?d2 = cluster_addr ?fi c" "index_in_block ?d2 = 0" by (simp_all add: first_desc_def at)
  have "pfd ?i ?t2 = Some (Inr (?d2, ?t2))" using il by (simp add: pfd_def)
  then have "fat_action_loop C ?i True src 0 len 0 s = fat_action_loop C ?i True src (unat len) 0 len w"
    using nz first chunk u(1,2) w(1) pos by (subst fat_action_loop.simps) simp
  also have "\<dots> = Some (Inr ((len, src), w))" by (subst fat_action_loop.simps) simp
  finally have "fat_write C fd src len s = Some (Inr (len, w))"
    using get_desc_live [OF S fd d live(1,2)] by (simp add: fat_write_def fat_action_def)
  moreover have "dir_entry (fat_private_file_desc w ! ?i) = dir_entry ?d2"
    using at_disk_simps(1) [OF w(2)] eqv(1) il moved_advance by (simp add: moved_def)
  moreover have "last_error w = last_error s" using at_disk_simps(3) [OF w(2)] eqv(3) eq(3) by simp
  ultimately show ?thesis by (intro exI [of _ w]) (simp add: first_desc_def)
qed

lemma fat_close_run:
  assumes S: "good blocks s"
    and fd: "unat fd < MAX_FILE_DESC" and d: "fat_private_file_desc s ! unat fd = d"
    and dirty: "dir_entry_modified d" "\<not> is_stale d" and name: "length (de_filename (dir_entry d)) = 11"
    and b: "b = dir_entry_block_addr d" "ready (dev s) b" and x: "x = unat (dir_entry_index_in_block d)" "x + 32 \<le> 512"
  obtains t where "fat_close C fd s = Some (Inr (True, t))"
    "file_step blocks ready s (unat fd) (d\<lparr>is_free := True, is_stale := False\<rparr>) (last_error s)
      ((blocks (dev s))(b := splice_at (blocks (dev s) b) x (encode_entry (dir_entry d)))) t"
proof -
  let ?ds = "fat_private_file_desc s" and ?e = "encode_entry (dir_entry d)" and ?B = "blocks (dev s)"
  have il: "unat fd < length ?ds" using good_length [OF S] fd by simp
  obtain t where t: "cache C b s = Some (Inr (True, t))" "at_disk blocks ready s ?B t"
    "cache_block_addr t = b" "cache_block t = ?B b"
    using cache_run [OF S b(2)] .
  note eqt = at_disk_simps [OF t(2)]
  have len: "length (?B b) = 512" using block_len [OF b(2)] by simp
  have e: "length ?e = 32" using name by simp
  then have Y: "length (splice_at (?B b) x ?e) = 512" using len x(2) by simp
  have rb: "ready (dev t) (cache_block_addr t)" unfolding eqt(5) t(3) by (rule b(2))
  obtain u where u: "flush_cache C (t\<lparr>cache_block := splice_at (?B b) x ?e\<rparr>) = Some (Inr (True, u))"
    "at_disk blocks ready t (?B(b := splice_at (?B b) x ?e)) u"
    using store_here_run [OF at_disk_good [OF t(2)] rb Y] unfolding eqt(4) t(3) by blast
  note eq = at_disk_simps [OF at_disk_trans [OF t(2) u(2)]]
  let ?u = "u\<lparr>fat_private_file_desc := ?ds[unat fd := d\<lparr>is_free := True, is_stale := False\<rparr>]\<rparr>"
  have "fat_close C fd s = Some (Inr (True, ?u))"
    using il d dirty t(1,4) u(1) e len x eq(1) b(1)
    by (simp add: fat_close_def pfd_def upd_pfd_def poke_bytes_def bnd_def)
  moreover have "file_step blocks ready s (unat fd) (d\<lparr>is_free := True, is_stale := False\<rparr>) (last_error s)
      (?B(b := splice_at (?B b) x ?e)) ?u"
    using good_desc [OF at_disk_good [OF at_disk_trans [OF t(2) u(2)]]] good_length [OF S] eq
    by (simp add: file_step_def at_disk_def)
  ultimately show thesis by (rule that)
qed

end

text \<open>The bytes of the file after the cut.\<close>

lemma file_bytes_cut:
  assumes vol: "volume_ok fi rdy B" and cut: "cut fi cs n B B'" and ch: "chain fi B cs"
    and lens: "\<forall>b \<in> set (file_blocks fi cs). length (B b) = 512"
    and p: "p \<le> n * cluster_bytes fi" "p \<le> file_size d" "n \<le> length cs" and r: "file_size r = p"
  shows "file_bytes fi B' (take n cs) r = take p (file_bytes fi B cs d)"
proof -
  have sub: "set (file_blocks fi (take n cs)) \<subseteq> set (file_blocks fi cs)"
    by (auto simp: file_blocks_concat dest: in_set_takeD)
  have "B' b = B b" if "b \<in> set (file_blocks fi (take n cs))" for b
  proof -
    have "b \<notin> fat_region fi" using file_blocks_outside [OF vol] chain_data [OF ch] sub that by blast
    then show ?thesis using cut unfolding cut_def by blast
  qed
  then have same: "file_data fi B' (take n cs) = file_data fi B (take n cs)" by (rule file_data_cong)
  have "length (take n cs) = n" using p(3) by simp
  then have "length (file_data fi B (take n cs)) = n * cluster_bytes fi"
    using length_file_data [of fi "take n cs" B] lens sub by (simp add: subset_iff del: length_take)
  moreover have "file_data fi B cs = file_data fi B (take n cs) @ file_data fi B (drop n cs)"
    by (metis append_take_drop_id file_data_append)
  ultimately show ?thesis using p r same by (simp add: file_bytes_def min_def)
qed

subsection \<open>The properties\<close>

text \<open>
  C10: \<open>fat_truncate\<close> behind the start of a file cuts it at the position: the file is still open
  there, with the size the position gives, its bytes are the ones before the position, its chain
  is the part that holds them, the clusters behind are free, and no other FAT entry, no block
  of the data area and no other descriptor changes.
\<close>

theorem fat_truncate_shortens:
  assumes dev: "live_device C blocks ready" and S: "fat_state blocks ready s"
    and vol: "volume_ok (fat_info s) (ready (dev s)) (blocks (dev s))"
    and fd: "unat fd < MAX_FILE_DESC" and d: "fat_private_file_desc s ! unat fd = d"
    and live: "\<not> is_free d" "\<not> is_stale d"
    and f: "file_open (fat_info s) (blocks (dev s)) cs d p" and rdy: "file_ready (fat_info s) (ready (dev s)) cs"
    and p: "0 < p" "p < file_size d"
    and n: "n = (p + cluster_bytes (fat_info s) - 1) div cluster_bytes (fat_info s)"
  shows "\<exists>t d'. fat_truncate C fd s = Some (Inr (True, t)) \<and>
    fat_private_file_desc t = (fat_private_file_desc s)[unat fd := d'] \<and>
    file_open (fat_info s) (blocks (dev t)) (take n cs) d' p \<and> file_size d' = p \<and> dir_entry_modified d' \<and>
    file_bytes (fat_info s) (blocks (dev t)) (take n cs) d' = take p (file_bytes (fat_info s) (blocks (dev s)) cs d) \<and>
    (\<forall>x. in_fat (fat_info s) x \<longrightarrow> fat_entry (fat_info s) (blocks (dev t)) x =
      (if x \<in> set (drop n cs) then 0 else if n < length cs \<and> x = cs ! (n - 1) then 0xffff
       else fat_entry (fat_info s) (blocks (dev s)) x)) \<and>
    (\<forall>b. b \<notin> fat_region (fat_info s) \<longrightarrow> blocks (dev t) b = blocks (dev s) b) \<and>
    fat_state blocks ready t \<and> last_error t = last_error s"
proof -
  have geo: "cluster_geometry (fat_info s)" using vol by (simp add: volume_ok_def)
  obtain t r where t: "fat_truncate C fd s = Some (Inr (True, t))"
    "file_step blocks ready s (unat fd) r (last_error s) (blocks (dev t)) t"
    "file_open (fat_info s) (blocks (dev t)) (take n cs) r p" "file_size r = p" "dir_entry_modified r"
    "cut (fat_info s) cs n (blocks (dev s)) (blocks (dev t))" "0 < n" "n \<le> length cs"
    using live_device.fat_truncate_run [OF dev S geo fd d live f p n] by blast
  note eq = file_step_simps [OF t(2)]
  have "cs \<noteq> []" using t(7,8) by auto
  then have ch: "chain (fat_info s) (blocks (dev s)) cs" using f by (simp add: file_open_def)
  have lens: "\<forall>b \<in> set (file_blocks (fat_info s) cs). length (blocks (dev s) b) = 512"
    using rdy live_device.block_len [OF dev] by (simp add: file_ready_def)
  have "length (take n cs) = n" using t(8) by simp
  then have "p \<le> n * cluster_bytes (fat_info s)" using t(3,4) by (simp add: file_open_def del: length_take)
  then have bytes: "file_bytes (fat_info s) (blocks (dev t)) (take n cs) r = take p (file_bytes (fat_info s) (blocks (dev s)) cs d)"
    using file_bytes_cut [OF vol t(6) ch lens _ _ t(8,4)] p(2) by simp
  have "mirrored (fat_info s) (blocks (dev t))" using t(6) by (simp add: cut_def)
  then have "fat_state blocks ready t" using S eq by (simp add: fat_state_def)
  then show ?thesis
    using t(1,3,4,5) t(6) [unfolded cut_def] eq(1,3) bytes by (intro exI [of _ t] exI [of _ r]) simp
qed

text \<open>The open file of the small volume, at the offset 500.\<close>

definition mid_desc :: FileDescriptor where
  "mid_desc = settle small_info 500 500 (at_cluster (fat_entry small_info (sd_block small_card)) 2
     (fat_private_file_desc open_fs ! 0))"

definition mid_fs :: "sd_card fs" where
  "mid_fs = open_fs\<lparr>fat_private_file_desc := (fat_private_file_desc open_fs)[0 := mid_desc]\<rparr>"

lemma mid_fs_file:
  "fat_private_file_desc mid_fs ! 0 = mid_desc" "\<not> is_free mid_desc" "\<not> is_stale mid_desc"
  "file_open small_info (sd_block small_card) [2, 3] mid_desc 500" "file_size mid_desc = 600"
  "fat_info mid_fs = small_info" "dev mid_fs = small_card" "fat_state sd_block sd_ready mid_fs"
proof -
  obtain d where d: "fat_private_file_desc open_fs ! 0 = d" "\<not> is_free d" "\<not> is_stale d"
    "file_open small_info (sd_block small_card) [2, 3] d 0" "file_size d = 600"
    using open_fs_file by blast
  have md: "moved d mid_desc" using d(1) by (simp add: mid_desc_def moved_def settle_def at_cluster_def)
  then show "\<not> is_free mid_desc" "\<not> is_stale mid_desc" "file_size mid_desc = 600"
    using d by (simp_all add: moved_def file_size_def)
  have "pos_at small_info (sd_block small_card) [2, 3] mid_desc (500 div 512) (500 mod 512)"
    using settle_pos [OF small_geometry, of 0 "[2, 3]" 500 500 "at_cluster (fat_entry small_info (sd_block small_card)) 2 d"
        "sd_block small_card"] d(1)
    by (simp add: mid_desc_def small_cluster_bytes)
  then show "file_open small_info (sd_block small_card) [2, 3] mid_desc 500"
    using file_open_moved [OF d(4) md, of 500] d(5) by simp
  have len: "length (fat_private_file_desc open_fs) = 16"
    using open_fs_state good_length [of sd_block open_fs] by (simp add: fat_state_def)
  then show "fat_private_file_desc mid_fs ! 0 = mid_desc" by (simp add: mid_fs_def)
  show "fat_state sd_block sd_ready mid_fs"
    using open_fs_state good_desc [of sd_block open_fs] len by (simp add: fat_state_def mid_fs_def)
qed (simp_all add: mid_fs_def open_fs_simps)

theorem fat_truncate_shortens_witness:
  "\<exists>t d'. fat_truncate sd_ops 0 mid_fs = Some (Inr (True, t)) \<and> file_size d' = 500 \<and>
     file_bytes small_info (sd_block (dev t)) [2] d' = replicate 500 0x61 \<and>
     fat_entry small_info (sd_block (dev t)) 3 = 0"
proof -
  have n: "(1 :: nat) = (500 + cluster_bytes small_info - 1) div cluster_bytes small_info" by (simp add: small_cluster_bytes)
  have "file_bytes small_info (sd_block small_card) [2, 3] mid_desc = replicate 512 0x61 @ replicate 88 0x62"
    by (simp add: file_bytes_def mid_fs_file(5) small_data)
  then show ?thesis
    using fat_truncate_shortens [OF sd.live_device_axioms mid_fs_file(8), of 0 mid_desc "[2, 3]" 500 1,
        unfolded mid_fs_file(5-7) unat_0, OF small_volume _ mid_fs_file(1-4) small_file_ready _ _ n]
    by (auto simp: small_in_fat)
qed

text \<open>
  C38: \<open>fat_truncate\<close> at the start of a file makes it empty but keeps the length of the old last
  cluster in the descriptor. If a following write of up to one block is longer than that, its
  bytes are all accepted, but the size recorded for the file is too small by the old length.
\<close>

theorem fat_truncate_empty_then_write:
  assumes dev: "live_device C blocks ready" and S: "fat_state blocks ready s"
    and vol: "volume_ok (fat_info s) (ready (dev s)) (blocks (dev s))"
    and fd: "unat fd < MAX_FILE_DESC" and d: "fat_private_file_desc s ! unat fd = d"
    and live: "\<not> is_free d" "\<not> is_stale d"
    and f: "file_open (fat_info s) (blocks (dev s)) cs d 0" and rdy: "file_ready (fat_info s) (ready (dev s)) cs"
    and p: "0 < file_size d"
    and len: "last_cluster_len d < len" "len \<le> 512" "unat len \<le> length src"
  shows "\<exists>t u. fat_truncate C fd s = Some (Inr (True, t)) \<and>
    (\<forall>c \<in> set cs. fat_entry (fat_info s) (blocks (dev t)) c = 0) \<and>
    de_size (dir_entry (fat_private_file_desc t ! unat fd)) = 0 \<and>
    fat_write C fd src len t = Some (Inr (len, u)) \<and> last_error u = last_error s \<and>
    de_size (dir_entry (fat_private_file_desc u ! unat fd)) = ucast (len - last_cluster_len d)"
proof -
  let ?r = "(shrunk d)\<lparr>dir_entry := (dir_entry d)\<lparr>de_size := 0, de_cluster_lo := 0\<rparr>, cur_cluster := 0, next_cluster := 0xffff\<rparr>"
  have geo: "cluster_geometry (fat_info s)" using vol by (simp add: volume_ok_def)
  obtain t where t: "fat_truncate C fd s = Some (Inr (True, t))"
    "file_step blocks ready s (unat fd) ?r (last_error s) (blocks (dev t)) t"
    "cleared (fat_info s) cs (blocks (dev s)) (blocks (dev t))"
    using live_device.fat_truncate_empty_run [OF dev S geo fd d live f p refl] by blast
  note eq = file_step_simps [OF t(2)]
  have "unat fd < length (fat_private_file_desc s)" using S fd good_length by (metis fat_state_def)
  then have dt: "fat_private_file_desc t ! unat fd = ?r" using eq(1) by simp
  have "mirrored (fat_info s) (blocks (dev t))" using t(3) by (simp add: cleared_def)
  then have St: "fat_state blocks ready t" using S eq by (simp add: fat_state_def)
  have cs: "cs \<noteq> []" using p f by (auto simp: file_open_def)
  then have ch: "chain (fat_info s) (blocks (dev s)) cs" using f by (simp add: file_open_def)
  have inf: "in_fat (fat_info s) c" if "c \<in> set cs" for c using chain_data [OF ch that] by (simp add: data_cluster_def)
  have free: "\<forall>c \<in> set cs. fat_entry (fat_info s) (blocks (dev t)) c = 0" using t(3) inf by (simp add: cleared_def)
  have vol': "volume_ok (fat_info t) (ready (dev t)) (blocks (dev t))"
  proof -
    have "data_cluster (fat_info s) c \<and> (\<forall>b \<in> set (blocks_of (fat_info s) c). ready (dev s) b)"
      if "free_cluster (fat_info s) (blocks (dev t)) c" for c
    proof (cases "c \<in> set cs")
      case True
      then have "set (blocks_of (fat_info s) c) \<subseteq> set (file_blocks (fat_info s) cs)" by (auto simp: file_blocks_concat)
      then show ?thesis using chain_data [OF ch True] rdy by (auto simp: file_ready_def)
    next
      case False
      then have "free_cluster (fat_info s) (blocks (dev s)) c" using that t(3) by (auto simp: free_cluster_def cleared_def)
      then show ?thesis using vol by (simp add: volume_ok_def)
    qed
    then show ?thesis using vol eq(2,5) by (simp add: volume_ok_def)
  qed
  have pos: "block_in_cluster d = 0" "index_in_block d = 0" "\<not> is_root d"
    using f cs spc_bounds [OF geo] by (simp_all add: file_open_def pos_at_def)
  have room: "free_cluster (fat_info t) (blocks (dev t)) (hd cs)"
    using free inf cs eq(2) by (simp add: free_cluster_def)
  have r: "\<not> is_free ?r" "\<not> is_stale ?r" "\<not> is_root ?r" "cur_cluster ?r = 0" "block_in_cluster ?r = 0"
    "index_in_block ?r = 0" "last_cluster_len ?r < len" "dir_entry ?r = (dir_entry d)\<lparr>de_size := 0, de_cluster_lo := 0\<rparr>"
    using live pos len(1) by (simp_all add: shrunk_def)
  have "last_cluster_len ?r = last_cluster_len d" by (simp add: shrunk_def)
  then show ?thesis
    using live_device.write_first_block [OF dev St vol' fd dt r(1-6) room r(7) len(2,3)] t(1) free dt eq(3) r(8) by auto
qed

theorem fat_truncate_empty_then_write_witness:
  "\<exists>t u. fat_truncate sd_ops 0 open_fs = Some (Inr (True, t)) \<and>
    fat_write sd_ops 0 (replicate 100 0x63) 100 t = Some (Inr (100, u)) \<and>
    de_size (dir_entry (fat_private_file_desc u ! 0)) = 12"
proof -
  obtain d where d: "fat_private_file_desc open_fs ! 0 = d" "\<not> is_free d" "\<not> is_stale d"
    "file_open small_info (sd_block small_card) [2, 3] d 0" "file_size d = 600"
    using open_fs_file by blast
  have "unat (last_cluster_len d) = 88" using d(4,5) by (simp add: file_open_def small_cluster_bytes)
  then have lcl: "last_cluster_len d = 88" by (simp add: word_unat_eq_iff)
  show ?thesis
    using fat_truncate_empty_then_write [OF sd.live_device_axioms open_fs_state, of 0 d "[2, 3]" 100 "replicate 100 0x63",
        unfolded open_fs_simps unat_0, OF small_volume _ d(1-4) small_file_ready] d(5) lcl
    by auto
qed

text \<open>
  C11: \<open>fat_close\<close> of a descriptor whose entry has been modified puts the 32 bytes of the entry in
  their place in the directory's block: what is read back there is the entry, the rest of the card
  is unchanged, and the slot is free again.
\<close>

theorem fat_close_writes_back:
  assumes dev: "live_device C blocks ready" and S: "good blocks s"
    and fd: "unat fd < MAX_FILE_DESC" and d: "fat_private_file_desc s ! unat fd = d"
    and dirty: "dir_entry_modified d" "\<not> is_stale d" and name: "length (de_filename (dir_entry d)) = 11"
    and b: "b = dir_entry_block_addr d" "ready (dev s) b" and x: "x = unat (dir_entry_index_in_block d)" "x + 32 \<le> 512"
  shows "\<exists>t. fat_close C fd s = Some (Inr (True, t)) \<and>
    fat_private_file_desc t = (fat_private_file_desc s)[unat fd := d\<lparr>is_free := True, is_stale := False\<rparr>] \<and>
    blocks (dev t) = (blocks (dev s))(b := splice_at (blocks (dev s) b) x (encode_entry (dir_entry d))) \<and>
    decode_entry (slice_at (blocks (dev t) b) x 32) = dir_entry d \<and>
    fat_info t = fat_info s \<and> last_error t = last_error s"
proof -
  have len: "length (blocks (dev s) b) = 512" using live_device.block_len [OF dev b(2)] by simp
  have e: "length (encode_entry (dir_entry d)) = 32" using name by simp
  obtain t where t: "fat_close C fd s = Some (Inr (True, t))"
    "file_step blocks ready s (unat fd) (d\<lparr>is_free := True, is_stale := False\<rparr>) (last_error s)
      ((blocks (dev s))(b := splice_at (blocks (dev s) b) x (encode_entry (dir_entry d)))) t"
    using live_device.fat_close_run [OF dev S fd d dirty name b x] .
  have "decode_entry (slice_at (splice_at (blocks (dev s) b) x (encode_entry (dir_entry d))) x 32) = dir_entry d"
    using slice_splice_same [of x "encode_entry (dir_entry d)" "blocks (dev s) b"] e len x(2) decode_encode_entry [OF name] by simp
  then show ?thesis using t(1) file_step_simps [OF t(2)] by (intro exI [of _ t]) simp
qed

text \<open>
  \<open>fat_close\<close> of an unmodified descriptor, or of one made stale by a new mount, does not touch
  the card: it frees the slot, and reports \<open>FAT_ERROR_STALE_DESCRIPTOR\<close> when modifications are lost.
\<close>

theorem fat_close_without_write:
  assumes wf: "length (fat_private_file_desc s) = MAX_FILE_DESC" and fd: "unat fd < MAX_FILE_DESC"
    and d: "fat_private_file_desc s ! unat fd = d" and clean: "\<not> dir_entry_modified d \<or> is_stale d"
  shows "fat_close C fd s = Some (Inr (\<not> dir_entry_modified d,
    s\<lparr>fat_private_file_desc := (fat_private_file_desc s)[unat fd := d\<lparr>is_free := True, is_stale := False\<rparr>],
      last_error := (if dir_entry_modified d then FAT_ERROR_STALE_DESCRIPTOR else last_error s)\<rparr>))"
  using assms by (auto simp: fat_close_def pfd_def upd_pfd_def set_last_error_def bnd_def)

theorem fat_close_writes_back_witness: "\<exists>t. fat_close sd_ops 0 (open_fs\<lparr>fat_private_file_desc :=
     (fat_private_file_desc open_fs)[0 := free_desc\<lparr>is_free := False, dir_entry := small_entry\<lparr>de_size := 77\<rparr>,
        dir_entry_modified := True\<rparr>]\<rparr>) = Some (Inr (True, t)) \<and>
   decode_entry (slice_at (sd_block (dev t) 3) 0 32) = small_entry\<lparr>de_size := 77\<rparr>"
proof -
  have len: "length (fat_private_file_desc open_fs) = 16" "good sd_block open_fs"
    using open_fs_state good_length [of sd_block open_fs] by (simp_all add: fat_state_def)
  let ?d = "free_desc\<lparr>is_free := False, dir_entry := small_entry\<lparr>de_size := 77\<rparr>, dir_entry_modified := True\<rparr>"
  let ?s = "open_fs\<lparr>fat_private_file_desc := (fat_private_file_desc open_fs)[0 := ?d]\<rparr>"
  have g: "good sd_block ?s" by (rule good_desc) (simp_all add: len)
  have d: "fat_private_file_desc ?s ! unat (0 :: u8) = ?d" using len by simp
  have b: "3 = dir_entry_block_addr ?d" "sd_ready (dev ?s) 3" and x: "0 = unat (dir_entry_index_in_block ?d)"
    using small_ready [of 3] by (simp_all add: open_fs_simps free_desc_def)
  have e: "dir_entry_modified ?d" "\<not> is_stale ?d" "length (de_filename (dir_entry ?d)) = 11"
    "dir_entry ?d = small_entry\<lparr>de_size := 77\<rparr>"
    by (simp_all add: free_desc_def small_entry_def)
  show ?thesis
    using fat_close_writes_back [OF sd.live_device_axioms g _ d e(1-3) b x] unfolding e(4) by auto
qed

theorem fat_close_without_write_witness:
  "fat_close sd_ops 0 (open_fs\<lparr>fat_private_file_desc := replicate 16 (free_desc\<lparr>is_stale := True, dir_entry_modified := True\<rparr>)\<rparr>) =
   Some (Inr (False, open_fs\<lparr>fat_private_file_desc := (replicate 16 (free_desc\<lparr>is_stale := True, dir_entry_modified := True\<rparr>))
     [0 := free_desc\<lparr>dir_entry_modified := True\<rparr>], last_error := FAT_ERROR_STALE_DESCRIPTOR\<rparr>))"
proof -
  let ?d = "free_desc\<lparr>is_stale := True, dir_entry_modified := True\<rparr>"
  have "?d\<lparr>is_free := True, is_stale := False\<rparr> = free_desc\<lparr>dir_entry_modified := True\<rparr>" by (simp add: free_desc_def)
  then show ?thesis
    using fat_close_without_write [of "open_fs\<lparr>fat_private_file_desc := replicate 16 ?d\<rparr>" 0 ?d sd_ops] by simp
qed

end
