(* ===== verification/FatName.thy ===== *)
theory FatName
  imports Prelude
begin

section \<open>8.3 file names (lib/fat/name.c)\<close>

text \<open>
  \<open>to_fat_name\<close> turns a C string into the eleven bytes of a directory entry, \<open>from_fat_name\<close>
  turns them back. A C string is the list of its bytes without the terminator; reading at its
  end gives the terminator 0. A pointer that walks over the string is the rest of the list.
\<close>

definition CH_DOT :: u8 where "CH_DOT = 0x2e"
definition CH_SPACE :: u8 where "CH_SPACE = 0x20"

text \<open>The byte a string pointer points at, and the pointer moved by one.\<close>

definition deref :: "bytes \<Rightarrow> u8" where
  "deref src = (case src of [] \<Rightarrow> 0 | c # _ \<Rightarrow> c)"

text \<open>The loop for names that start with a dot: copy at most \<open>n\<close> bytes.\<close>

fun copy_dotted :: "bytes \<Rightarrow> bytes \<Rightarrow> nat \<Rightarrow> nat \<Rightarrow> bytes" where
  "copy_dotted dst src i 0 = dst"
| "copy_dotted dst src i (Suc n) =
     (let c = deref src in
      if c = 0 then dst else copy_dotted (dst[i := c]) (tl src) (Suc i) n)"

text \<open>The loop for the base name; it returns the destination and the source pointer.\<close>

fun copy_base :: "bytes \<Rightarrow> bytes \<Rightarrow> nat \<Rightarrow> nat \<Rightarrow> bytes \<times> bytes" where
  "copy_base dst src i 0 = (dst, src)"
| "copy_base dst src i (Suc n) =
     (let c = deref src in
      if c = 0 \<or> c = CH_DOT then (dst, src)
      else copy_base (dst[i := c]) (tl src) (Suc i) n)"

text \<open>Skipping the rest of an overlong base name, up to a dot or the end.\<close>

fun skip_base :: "bytes \<Rightarrow> bytes" where
  "skip_base [] = []"
| "skip_base (c # cs) = (if c = 0 \<or> c = CH_DOT then c # cs else skip_base cs)"

text \<open>The loop for the extension, from position \<open>i\<close>, \<open>n\<close> positions left, current byte \<open>c\<close>.\<close>

fun copy_ext :: "bytes \<Rightarrow> bytes \<Rightarrow> u8 \<Rightarrow> nat \<Rightarrow> nat \<Rightarrow> bytes" where
  "copy_ext dst src c i 0 = dst"
| "copy_ext dst src c i (Suc n) =
     (if c = 0 then dst
      else copy_ext (dst[i := c]) (tl src) (deref (tl src)) (Suc i) n)"

definition to_fat_name :: "bytes \<Rightarrow> bytes" where
  "to_fat_name src =
     (let dst = replicate 11 CH_SPACE in
      if deref src = CH_DOT then copy_dotted dst src 0 11
      else
        (let w = copy_base dst src 0 8;
             c = deref (snd w)
         in if c = CH_DOT then copy_ext (fst w) (tl (snd w)) (deref (tl (snd w))) 8 3
            else if c \<noteq> 0 then
              (let src' = skip_base (snd w) in copy_ext (fst w) src' (deref src') 8 3)
            else fst w))"

text \<open>\<open>from_fat_name\<close>: the bytes of a field up to the first space.\<close>

fun copy_field :: "bytes \<Rightarrow> nat \<Rightarrow> nat \<Rightarrow> bytes" where
  "copy_field src i 0 = []"
| "copy_field src i (Suc n) =
     (let c = src ! i in if c = CH_SPACE then [] else c # copy_field src (Suc i) n)"

definition from_fat_name :: "bytes \<Rightarrow> bytes" where
  "from_fat_name src =
     copy_field src 0 8 @ (if src ! 8 \<noteq> CH_SPACE then CH_DOT # copy_field src 8 3 else [])"


subsection \<open>Names as the directory holds them\<close>

lemma length_copies:
  "length (copy_dotted dst src i n) = length dst"
  "length (fst (copy_base dst src i n)) = length dst"
  "length (copy_ext dst src c i n) = length dst"
  by (induction n arbitrary: dst src c i) (simp_all add: Let_def)

lemma length_to_fat_name [simp]: "length (to_fat_name src) = 11"
  by (simp add: to_fat_name_def Let_def length_copies)

lemma deref_simps [simp]: "deref [] = 0" "deref (c # cs) = c"
  by (simp_all add: deref_def)

definition stops :: "bytes \<Rightarrow> bool" where
  "stops rest \<longleftrightarrow> deref rest = 0 \<or> deref rest = CH_DOT"

lemma copy_base_run:
  assumes "0 \<notin> set xs" and "CH_DOT \<notin> set xs" and "i + length xs \<le> length dst"
    and "length xs = n \<or> length xs < n \<and> stops rest"
  shows "copy_base dst (xs @ rest) i n = (splice_at dst i xs, rest)"
  using assms
proof (induction xs arbitrary: dst i n)
  case Nil
  then show ?case by (cases n) (auto simp: stops_def)
next
  case (Cons x xs)
  then obtain m where n: "n = Suc m" by (cases n) auto
  with Cons.prems have "copy_base (dst[i := x]) (xs @ rest) (Suc i) m =
      (splice_at (dst[i := x]) (Suc i) xs, rest)"
    by (intro Cons.IH) auto
  with Cons.prems n show ?case by (auto simp: splice_cons)
qed

lemma copy_ext_run:
  assumes "0 \<notin> set xs" and "i + length xs \<le> length dst"
    and "length xs = n \<or> length xs < n \<and> deref rest = 0"
  shows "copy_ext dst (xs @ rest) (deref (xs @ rest)) i n = splice_at dst i xs"
  using assms
proof (induction xs arbitrary: dst i n)
  case Nil
  then show ?case by (cases n) auto
next
  case (Cons x xs)
  then obtain m where n: "n = Suc m" by (cases n) auto
  with Cons.prems have "copy_ext (dst[i := x]) (xs @ rest) (deref (xs @ rest)) (Suc i) m =
      splice_at (dst[i := x]) (Suc i) xs"
    by (intro Cons.IH) auto
  with Cons.prems n show ?case by (simp add: splice_cons)
qed

lemma skip_base_run: "0 \<notin> set xs \<Longrightarrow> CH_DOT \<notin> set xs \<Longrightarrow> stops rest \<Longrightarrow> skip_base (xs @ rest) = (if rest = [] then [] else rest)"
  by (induction xs) (auto simp: stops_def deref_def split: list.splits)

text \<open>A base name and an extension, padded with spaces to eight and three bytes.\<close>

definition padded :: "nat \<Rightarrow> bytes \<Rightarrow> bytes" where
  "padded n xs = xs @ replicate (n - length xs) CH_SPACE"

definition entry_name :: "bytes \<Rightarrow> bytes \<Rightarrow> bytes" where
  "entry_name base ext = padded 8 base @ padded 3 ext"

definition dotted :: "bytes \<Rightarrow> bytes \<Rightarrow> bytes" where
  "dotted base ext = base @ (if ext = [] then [] else CH_DOT # ext)"

lemma splice_spaces:
  assumes "length base \<le> 8"
  shows "splice_at (replicate 11 CH_SPACE) 0 base = entry_name base []"
    and "length ext \<le> 3 \<Longrightarrow> splice_at (entry_name base []) 8 ext = entry_name base ext"
proof -
  have "replicate 11 CH_SPACE = replicate (length base) CH_SPACE @ replicate (8 - length base) CH_SPACE @ replicate 3 CH_SPACE"
    using assms(1) by (simp flip: replicate_add)
  then show "splice_at (replicate 11 CH_SPACE) 0 base = entry_name base []"
    by (simp add: splice_at_def entry_name_def padded_def)
  assume e: "length ext \<le> 3"
  have "replicate 3 CH_SPACE = replicate (length ext) CH_SPACE @ replicate (3 - length ext) CH_SPACE"
    using e by (simp flip: replicate_add)
  then show "splice_at (entry_name base []) 8 ext = entry_name base ext"
    using assms e by (simp add: splice_at_def entry_name_def padded_def)
qed

lemma length_entry_name: "length base \<le> 8 \<Longrightarrow> length ext \<le> 3 \<Longrightarrow> length (entry_name base ext) = 11"
  by (simp add: entry_name_def padded_def)

lemma copy_ext_entry:
  assumes "length base \<le> 8" and "length xs \<le> 3" and "0 \<notin> set xs" and "length xs = 3 \<or> deref rest = 0"
  shows "copy_ext (entry_name base []) (xs @ rest) (deref (xs @ rest)) 8 3 = entry_name base xs"
proof -
  have "copy_ext (entry_name base []) (xs @ rest) (deref (xs @ rest)) 8 3 = splice_at (entry_name base []) 8 xs"
    using assms by (intro copy_ext_run) (auto simp: length_entry_name)
  with assms show ?thesis by (simp add: splice_spaces)
qed

text \<open>Base names and extensions a name can be made of.\<close>

definition plain_base :: "bytes \<Rightarrow> bool" where
  "plain_base base \<longleftrightarrow> base \<noteq> [] \<and> length base \<le> 8 \<and> set base \<inter> {0, CH_DOT, CH_SPACE} = {}"

definition plain_ext :: "bytes \<Rightarrow> bool" where
  "plain_ext ext \<longleftrightarrow> length ext \<le> 3 \<and> set ext \<inter> {0, CH_SPACE} = {}"

lemma deref_dotted: "base \<noteq> [] \<Longrightarrow> deref (base @ xs) = hd base"
  by (cases base) auto

lemma dot_space: "CH_DOT \<noteq> 0" "CH_SPACE \<noteq> 0" "CH_DOT \<noteq> CH_SPACE"
  by (simp_all add: CH_DOT_def CH_SPACE_def)

lemma to_fat_name_dotted:
  assumes b: "plain_base base" and e: "plain_ext ext"
  shows "to_fat_name (dotted base ext) = entry_name base ext"
proof -
  let ?rest = "if ext = [] then [] else CH_DOT # ext"
  have "hd base \<noteq> CH_DOT" using b by (cases base) (auto simp: plain_base_def)
  then have d: "deref (dotted base ext) \<noteq> CH_DOT"
    using b by (simp add: dotted_def deref_dotted plain_base_def)
  have c: "copy_base (replicate 11 CH_SPACE) (dotted base ext) 0 8 = (entry_name base [], ?rest)"
    unfolding dotted_def
    using b by (subst copy_base_run) (auto simp: plain_base_def stops_def splice_spaces)
  show ?thesis
  proof (cases "ext = []")
    case True
    with c d show ?thesis by (simp add: to_fat_name_def dot_space Let_def)
  next
    case False
    have "copy_ext (entry_name base []) ext (deref ext) 8 3 = entry_name base ext"
      using copy_ext_entry [of base ext "[]"] b e by (simp add: plain_base_def plain_ext_def)
    with False c d show ?thesis by (simp add: to_fat_name_def Let_def)
  qed
qed

lemma copy_field_run:
  "CH_SPACE \<notin> set xs \<Longrightarrow> length xs \<le> n \<Longrightarrow> length xs = n \<or> ys \<noteq> [] \<and> hd ys = CH_SPACE \<Longrightarrow>
   copy_field (pre @ xs @ ys) (length pre) n = xs"
proof (induction xs arbitrary: pre n)
  case Nil
  then show ?case by (cases n; cases ys) (auto simp: nth_append)
next
  case (Cons x xs)
  then obtain m where n: "n = Suc m" by (cases n) auto
  with Cons.prems Cons.IH [of m "pre @ [x]"] show ?case by (auto simp: nth_append Let_def)
qed

lemma from_fat_name_entry:
  assumes b: "plain_base base" and e: "plain_ext ext"
  shows "from_fat_name (entry_name base ext) = dotted base ext"
proof -
  have f1: "copy_field (entry_name base ext) 0 8 = base"
    using copy_field_run [of base 8 "replicate (8 - length base) CH_SPACE @ padded 3 ext" "[]"] b
    by (cases "length base = 8") (auto simp: plain_base_def entry_name_def padded_def)
  have "copy_field (padded 8 base @ ext @ replicate (3 - length ext) CH_SPACE) (length (padded 8 base)) 3 = ext"
    using e by (intro copy_field_run) (auto simp: plain_ext_def)
  then have f2: "copy_field (entry_name base ext) 8 3 = ext"
    using b by (simp add: entry_name_def padded_def plain_base_def)
  have "entry_name base ext ! 8 = (if ext = [] then CH_SPACE else hd ext)"
    using b by (cases ext) (auto simp: entry_name_def padded_def plain_base_def nth_append)
  moreover have "ext \<noteq> [] \<Longrightarrow> hd ext \<noteq> CH_SPACE"
    using e by (cases ext) (auto simp: plain_ext_def)
  ultimately show ?thesis using f1 f2 by (simp add: from_fat_name_def dotted_def)
qed

text \<open>
  C32: For every base name of one to eight bytes and every extension of at most three, the
  conversion to the eleven bytes of a directory entry and the conversion back are inverse.
\<close>

theorem fat_name_roundtrip:
  assumes "plain_base base" and "plain_ext ext"
  shows "to_fat_name (dotted base ext) = entry_name base ext \<and>
    from_fat_name (to_fat_name (dotted base ext)) = dotted base ext"
  using assms by (simp add: to_fat_name_dotted from_fat_name_entry)

theorem fat_name_roundtrip_witness:
  "to_fat_name [0x41, 0x42, CH_DOT, 0x43] =
     [0x41, 0x42] @ replicate 6 CH_SPACE @ [0x43] @ replicate 2 CH_SPACE"
  using fat_name_roundtrip [of "[0x41, 0x42]" "[0x43]"]
  by (simp add: plain_base_def plain_ext_def dotted_def entry_name_def padded_def CH_DOT_def CH_SPACE_def)

text \<open>
  A base name of more than eight bytes is cut to eight, but the dot behind it is not
  skipped: it becomes the first byte of the extension.
\<close>

theorem to_fat_name_overlong:
  assumes "8 < length base" and "0 \<notin> set base" and "CH_DOT \<notin> set base"
    and "0 \<notin> set ext"
  shows "to_fat_name (base @ CH_DOT # ext) = take 8 base @ padded 3 (take 3 (CH_DOT # ext))"
proof -
  let ?base = "take 8 base" and ?ext = "take 3 (CH_DOT # ext)" and ?rest = "drop 8 base @ CH_DOT # ext"
  have sub: "set ?base \<subseteq> set base" "set (drop 8 base) \<subseteq> set base"
    by (simp_all add: set_take_subset set_drop_subset)
  obtain x xs where x: "drop 8 base = x # xs" "x \<in> set base"
    using assms(1) sub(2) by (cases "drop 8 base") auto
  have "hd base \<in> set base" and "base \<noteq> []" using assms(1) by (cases base, auto)+
  then have d: "deref (base @ CH_DOT # ext) \<noteq> CH_DOT"
    using assms(3) by (metis deref_dotted)
  have "copy_base (replicate 11 CH_SPACE) (?base @ ?rest) 0 8 = (entry_name ?base [], ?rest)"
    using assms(1-3) sub(1) by (subst copy_base_run) (auto simp: splice_spaces)
  then have c: "copy_base (replicate 11 CH_SPACE) (base @ CH_DOT # ext) 0 8 = (entry_name ?base [], ?rest)"
    by (metis append.assoc append_take_drop_id)
  have "skip_base ?rest = CH_DOT # ext"
    using assms(2,3) sub(2) by (subst skip_base_run) (auto simp: stops_def)
  moreover have "copy_ext (entry_name ?base []) (?ext @ drop 3 (CH_DOT # ext)) (deref (?ext @ drop 3 (CH_DOT # ext))) 8 3
      = entry_name ?base ?ext"
  proof (rule copy_ext_entry)
    show "0 \<notin> set ?ext" using assms(4) set_take_subset [of 3 "CH_DOT # ext"] dot_space by auto
    show "length ?ext = 3 \<or> deref (drop 3 (CH_DOT # ext)) = 0"
      by (cases "3 \<le> length (CH_DOT # ext)") auto
  qed simp_all
  ultimately show ?thesis
    using c d x assms(1-3) by (auto simp: to_fat_name_def Let_def entry_name_def padded_def)
qed

theorem to_fat_name_overlong_witness:
  "to_fat_name (replicate 9 0x41 @ [CH_DOT, 0x42, 0x43, 0x44]) = replicate 8 0x41 @ [CH_DOT, 0x42, 0x43]"
  using to_fat_name_overlong [of "replicate 9 0x41" "[0x42, 0x43, 0x44]"] 
  by (simp add: CH_DOT_def padded_def)

end
