(* ===== verification/FatDir.thy ===== *)
theory FatDir
  imports FatFile FatName
begin

section \<open>Directories (lib/fat/fat.c)\<close>

text \<open>
  Looking a name up in a directory, creating its entry on demand, listing a directory, and
  opening files and directories. A directory is the root directory, a run of consecutive
  blocks, or a cluster chain. \<open>fat_private_find_file\<close> fills in three fields of the descriptor
  it is given, on success only: here it returns them, and \<open>store_found\<close> stores them.
\<close>

type_synonym found = "FatDirEntry \<times> u16 \<times> u32"
type_synonym slot = "(u32 \<times> nat) option"

definition store_found :: "nat \<Rightarrow> found \<Rightarrow> ('d fs, unit) cmd" where
  "store_found i r = upd_pfd i (\<lambda>d. d\<lparr>dir_entry := fst r,
     dir_entry_index_in_block := fst (snd r), dir_entry_block_addr := snd (snd r)\<rparr>)"

subsection \<open>Finding and creating an entry\<close>

definition found_at :: "bytes \<Rightarrow> nat \<Rightarrow> u32 \<Rightarrow> found" where
  "found_at entry i b = (decode_entry entry, push_bit 5 (of_nat i), b)"

text \<open>
  The end mark has been reached in block \<open>b\<close> with \<open>O_CREAT\<close>: the new entry goes to the slot,
  block \<open>sb\<close>, index \<open>si\<close> (the free entry seen first, or the end mark itself).
\<close>

definition create_entry :: "'d card_ops \<Rightarrow> bytes \<Rightarrow> u32 \<Rightarrow> u32 \<Rightarrow> nat \<Rightarrow> ('d fs, found option) cmd" where
  "create_entry C fat_name b sb si =
     or_return (if b \<noteq> sb then cache C sb else ret True) None
     (andthen (poke_bytes (DIR_ENTRY_SIZE * si) (replicate DIR_ENTRY_SIZE 0))
     (andthen (poke_bytes (DIR_ENTRY_SIZE * si) fat_name)
     (or_return (flush_cache C) None
     (bnd (peek_bytes (DIR_ENTRY_SIZE * si) DIR_ENTRY_SIZE) (\<lambda>entry.
      ret (Some (found_at entry si sb)))))))"

text \<open>The loop over the sixteen entries of the cached block; \<open>n\<close> counts down.\<close>

fun find_in_block :: "'d card_ops \<Rightarrow> bytes \<Rightarrow> u8 \<Rightarrow> u32 \<Rightarrow> nat \<Rightarrow> nat \<Rightarrow> slot \<Rightarrow>
    ('d fs, (found option, slot) flow) cmd" where
  "find_in_block C fat_name mode b i 0 slot = ret (Go slot)"
| "find_in_block C fat_name mode b i (Suc n) slot =
     bnd (peek_bytes (DIR_ENTRY_SIZE * i) DIR_ENTRY_SIZE) (\<lambda>entry.
     if entry ! 0 = 0 then
       (if mode AND O_CREAT \<noteq> 0 then
          bnd (case slot of
                 None \<Rightarrow> create_entry C fat_name b b i
               | Some w \<Rightarrow> create_entry C fat_name b (fst w) (snd w)) (\<lambda>r. ret (Return r))
        else andthen (set_last_error FAT_ERROR_NOT_FOUND) (ret (Return None)))
     else if entry ! 0 \<noteq> 0xe5 then
       (if take 11 entry = fat_name then
          (if mode AND (O_EXCL OR O_CREAT) = (O_EXCL OR O_CREAT) then
             andthen (set_last_error FAT_ERROR_FILE_EXISTS) (ret (Return None))
           else ret (Return (Some (found_at entry i b))))
        else find_in_block C fat_name mode b (Suc i) n slot)
     else find_in_block C fat_name mode b (Suc i) n (if slot = None then Some (b, i) else slot))"

text \<open>The loop over the blocks of a cluster (in the root directory: of a run of that length).\<close>

fun find_in_cluster :: "'d card_ops \<Rightarrow> bytes \<Rightarrow> u8 \<Rightarrow> u32 \<Rightarrow> nat \<Rightarrow> slot \<Rightarrow>
    ('d fs, (found option, u32 \<times> slot) flow) cmd" where
  "find_in_cluster C fat_name mode b 0 slot = ret (Go (b, slot))"
| "find_in_cluster C fat_name mode b (Suc n) slot =
     or_return (cache C b) (Return None)
     (bnd (find_in_block C fat_name mode b 0 (CARD_BLOCK_SIZE div DIR_ENTRY_SIZE) slot) (\<lambda>w.
      case w of Return r \<Rightarrow> ret (Return r)
      | Go slot' \<Rightarrow> find_in_cluster C fat_name mode (b + 1) n slot'))"

partial_function (option) find_loop :: "'d card_ops \<Rightarrow> bytes \<Rightarrow> u8 \<Rightarrow> bool \<Rightarrow> u32 \<Rightarrow> u16 \<Rightarrow> slot \<Rightarrow>
    ('d fs, found option) cmd" where
  "find_loop C fat_name mode root b cluster slot s =
     (if root \<or> cluster < FAT_MIN_LAST_CLUSTER then
        bnd (gets fat_info) (\<lambda>fi.
        bnd (if root then ret cluster else read_fat_entry C cluster) (\<lambda>cluster'.
        if \<not> root \<and> cluster' = 0 then ret None
        else
          bnd (find_in_cluster C fat_name mode (if root then b else cluster_addr fi cluster)
                 (unat (sectors_per_cluster fi)) slot) (\<lambda>w.
          case w of Return r \<Rightarrow> ret r
          | Go x \<Rightarrow> find_loop C fat_name mode root (fst x) cluster' (snd x)))) s
      else
        andthen (set_last_error (if mode AND O_CREAT \<noteq> 0 then FAT_ERROR_DIR_FULL else FAT_ERROR_NOT_FOUND))
          (ret None) s)"

definition fat_private_find_file :: "'d card_ops \<Rightarrow> FatDirEntry option \<Rightarrow> bytes \<Rightarrow> u8 \<Rightarrow>
    ('d fs, found option) cmd" where
  "fat_private_find_file C dir name mode =
     (let root = (case dir of None \<Rightarrow> True | Some e \<Rightarrow> de_cluster_lo e = 0);
          cluster = (case dir of None \<Rightarrow> 0 | Some e \<Rightarrow> de_cluster_lo e)
      in bnd (gets fat_info) (\<lambda>fi.
         find_loop C (to_fat_name name) mode root (root_dir_block fi) cluster None))"

subsection \<open>Listing a directory\<close>

partial_function (option) next_entry_loop :: "'d card_ops \<Rightarrow> nat \<Rightarrow> FatDirEntry \<Rightarrow> u8 \<Rightarrow>
    ('d fs, bool \<times> FatDirEntry) cmd" where
  "next_entry_loop C i dst attr_skip_mask s =
     bnd (pfd i) (\<lambda>d.
     or_return (cache C (block_addr d)) (False, dst)
     (bnd (peek_bytes (unat (index_in_block d)) DIR_ENTRY_SIZE) (\<lambda>xs.
      or_return (seek_advance C i 32) (False, decode_entry xs)
      (if xs ! 0 = 0 then ret (False, decode_entry xs)
       else if xs ! 0 = 0xe5 then next_entry_loop C i (decode_entry xs) attr_skip_mask
       else if de_attrs (decode_entry xs) = 0x0f then next_entry_loop C i (decode_entry xs) attr_skip_mask
       else if de_attrs (decode_entry xs) AND attr_skip_mask \<noteq> 0 then
         next_entry_loop C i (decode_entry xs) attr_skip_mask
       else ret (True, decode_entry xs))))) s"

definition fat_get_next_dir_entry :: "'d card_ops \<Rightarrow> u8 \<Rightarrow> FatDirEntry \<Rightarrow> u8 \<Rightarrow>
    ('d fs, bool \<times> FatDirEntry) cmd" where
  "fat_get_next_dir_entry C dir_desc dst attr_skip_mask =
     bnd (get_desc dir_desc) (\<lambda>r.
     if r = None then ret (False, dst)
     else andthen (set_last_error FAT_ERROR_OK)
       (next_entry_loop C (unat dir_desc) dst attr_skip_mask))"

subsection \<open>Opening\<close>

definition fat_open_file :: "'d card_ops \<Rightarrow> FatDirEntry option \<Rightarrow> bytes \<Rightarrow> u8 \<Rightarrow> ('d fs, u8) cmd" where
  "fat_open_file C dir name mode =
     bnd fat_private_get_free_fd (\<lambda>fd.
     if fd = FAT_BAD_DESC then ret FAT_BAD_DESC
     else
       (let i = unat fd; fail = andthen (upd_pfd i (\<lambda>d. d\<lparr>is_free := True\<rparr>)) (ret FAT_BAD_DESC) in
        bnd (fat_private_find_file C dir name mode) (\<lambda>r. case r of
          None \<Rightarrow> fail
        | Some w \<Rightarrow>
            andthen (store_found i w)
            (bnd (fat_private_init_fd C i) (\<lambda>ok. if ok then ret fd else fail)))))"

definition fat_open_dir :: "'d card_ops \<Rightarrow> FatDirEntry option \<Rightarrow> ('d fs, u8) cmd" where
  "fat_open_dir C dir =
     bnd fat_private_get_free_fd (\<lambda>fd.
     if fd = FAT_BAD_DESC then ret FAT_BAD_DESC
     else
       (let i = unat fd; root = andthen (fat_private_init_root_dir i) (ret fd) in
        case dir of None \<Rightarrow> root
        | Some e \<Rightarrow>
            if de_cluster_lo e = 0 then root
            else
              andthen (upd_pfd i (\<lambda>d. d\<lparr>dir_entry := e\<rparr>))
              (bnd (fat_private_init_fd C i) (\<lambda>ok.
               if ok then ret fd
               else andthen (upd_pfd i (\<lambda>d. d\<lparr>is_free := True\<rparr>)) (ret FAT_BAD_DESC)))))"

text \<open>\<open>fat_change_dir\<close> returns the boolean and \<open>*dst\<close> after the call.\<close>

definition fat_change_dir :: "'d card_ops \<Rightarrow> FatDirEntry option \<Rightarrow> bytes option \<Rightarrow> FatDirEntry \<Rightarrow>
    ('d fs, bool \<times> FatDirEntry) cmd" where
  "fat_change_dir C parent name dst =
     (case name of
        None \<Rightarrow> ret (True, dst\<lparr>de_cluster_lo := 0, de_attrs := FAT_FILE_ATTR_DIRECTORY\<rparr>)
      | Some nm \<Rightarrow>
          bnd (fat_private_find_file C parent nm 0) (\<lambda>r. case r of
            None \<Rightarrow> ret (False, dst)
          | Some w \<Rightarrow>
              if de_attrs (fst w) AND FAT_FILE_ATTR_DIRECTORY \<noteq> 0 then ret (True, fst w)
              else andthen (set_last_error FAT_ERROR_NOT_A_DIR) (ret (False, dst))))"

end
