(* ===== verification/FatFind.thy ===== *)
theory FatFind
  imports FatDir FatRead
begin

section \<open>Looking up a name (lib/fat/fat.c)\<close>

text \<open>
  A directory is a sequence of 32-byte slots: those of the blocks of its cluster chain, or of the
  blocks from the start of the root directory on. \<open>lookup\<close> is the search over that sequence;
  \<open>fat_private_find_file\<close>, which walks clusters, blocks and entries and remembers the first deleted
  slot across them, computes it.
\<close>

subsection \<open>The slots of a directory\<close>

type_synonym place = "u32 \<times> nat"

definition raw :: "(u32 \<Rightarrow> bytes) \<Rightarrow> place \<Rightarrow> bytes" where
  "raw B x = slice_at (B (fst x)) (DIR_ENTRY_SIZE * snd x) DIR_ENTRY_SIZE"

definition slots :: "u32 list \<Rightarrow> place list" where
  "slots bs = concat (map (\<lambda>b. map (Pair b) [0..<16]) bs)"

datatype outcome = Hit place | End_mark place slot | Exhausted slot

fun lookup :: "(u32 \<Rightarrow> bytes) \<Rightarrow> bytes \<Rightarrow> place list \<Rightarrow> slot \<Rightarrow> outcome" where
  "lookup B nm [] sl = Exhausted sl"
| "lookup B nm (x # xs) sl =
     (if raw B x ! 0 = 0 then End_mark x sl
      else if raw B x ! 0 = 0xe5 then lookup B nm xs (if sl = None then Some x else sl)
      else if take 11 (raw B x) = nm then Hit x
      else lookup B nm xs sl)"

lemma bnd_ret_right [simp]: "bnd m ret = m"
  by (rule ext) (simp add: bnd_def ret_def split: option.split sum.split)

lemma return_flow:
  "m s = bnd f (\<lambda>r. ret (Return r)) u \<Longrightarrow> bnd m (\<lambda>w. case w of Return r \<Rightarrow> k r | Go x \<Rightarrow> h x) s = bnd f k u"
  by (auto simp: bnd_def split: option.splits sum.splits prod.splits)

lemma lookup_append:
  "lookup B nm (xs @ ys) sl =
     (case lookup B nm xs sl of Exhausted sl' \<Rightarrow> lookup B nm ys sl' | r \<Rightarrow> r)"
  by (induction xs arbitrary: sl) auto

lemma lookup_ends:
  "lookup B nm xs sl = Hit x \<Longrightarrow> x \<in> set xs"
  "lookup B nm xs sl = End_mark x sl' \<Longrightarrow> x \<in> set xs"
  by (induction xs arbitrary: sl) (auto split: if_splits)

text \<open>What is done at the slot where the search ends.\<close>

definition finish :: "'d card_ops \<Rightarrow> (u32 \<Rightarrow> bytes) \<Rightarrow> bytes \<Rightarrow> u8 \<Rightarrow> outcome \<Rightarrow> ('d fs, found option) cmd" where
  "finish C B nm mode r =
     (case r of
        Hit x \<Rightarrow>
          if mode AND (O_EXCL OR O_CREAT) = (O_EXCL OR O_CREAT) then
            andthen (set_last_error FAT_ERROR_FILE_EXISTS) (ret None)
          else ret (Some (found_at (raw B x) (snd x) (fst x)))
      | End_mark x sl \<Rightarrow>
          if mode AND O_CREAT \<noteq> 0 then
            (case sl of None \<Rightarrow> create_entry C nm (fst x) (fst x) (snd x)
             | Some w \<Rightarrow> create_entry C nm (fst x) (fst w) (snd w))
          else andthen (set_last_error FAT_ERROR_NOT_FOUND) (ret None)
      | Exhausted sl \<Rightarrow>
          andthen (set_last_error (if mode AND O_CREAT \<noteq> 0 then FAT_ERROR_DIR_FULL else FAT_ERROR_NOT_FOUND)) (ret None))"

lemma find_in_block_lookup:
  assumes "cache_block s = B b" and "length (B b) = 512" and "i + n \<le> 16"
  shows "find_in_block C nm mode b i n sl s =
    (case lookup B nm (map (Pair b) [i..<i + n]) sl of
       Exhausted sl' \<Rightarrow> Some (Inr (Go sl', s))
     | r \<Rightarrow> bnd (finish C B nm mode r) (\<lambda>r. ret (Return r)) s)"
  using assms
proof (induction n arbitrary: i sl)
  case (Suc n)
  have raw: "slice_at (cache_block s) (32 * i) 32 = raw B (b, i)" and fit: "32 * i + 32 \<le> length (cache_block s)"
    using Suc.prems by (simp_all add: raw_def)
  have upt: "[i..<i + Suc n] = i # [Suc i..<Suc i + n]" using upt_conv_Cons [of i "i + Suc n"] by simp
  have IH: "find_in_block C nm mode b (Suc i) n sl' s =
    (case lookup B nm (map (Pair b) [Suc i..<Suc i + n]) sl' of
       Exhausted sl' \<Rightarrow> Some (Inr (Go sl', s))
     | r \<Rightarrow> bnd (finish C B nm mode r) (\<lambda>r. ret (Return r)) s)" for sl'
    using Suc.prems by (intro Suc.IH) simp_all
  show ?case
    unfolding upt using fit IH
    by (simp add: peek_bytes_def bnd_def raw finish_def set_last_error_def modify_def split: option.split)
qed simp

text \<open>The cache holds the block where the search ended.\<close>

fun ends_at :: "outcome \<Rightarrow> u32 option" where
  "ends_at (Hit x) = Some (fst x)"
| "ends_at (End_mark x sl) = Some (fst x)"
| "ends_at (Exhausted sl) = None"

definition searched :: "('d \<Rightarrow> u32 \<Rightarrow> bytes) \<Rightarrow> ('d \<Rightarrow> u32 \<Rightarrow> bool) \<Rightarrow> 'd fs \<Rightarrow> outcome \<Rightarrow> 'd fs \<Rightarrow> bool" where
  "searched blocks ready s r t \<longleftrightarrow> at_disk blocks ready s (blocks (dev s)) t \<and>
     (\<forall>b. ends_at r = Some b \<longrightarrow> cache_block_addr t = b \<and> cache_block t = blocks (dev s) b)"

lemma searched_trans:
  "at_disk blocks ready s (blocks (dev s)) t \<Longrightarrow> searched blocks ready t r u \<Longrightarrow> searched blocks ready s r u"
  by (auto simp: searched_def at_disk_def)

definition run_of :: "u32 \<Rightarrow> nat \<Rightarrow> u32 list" where
  "run_of b n = map (\<lambda>j. b + of_nat j) [0..<n]"

lemma run_of_Suc: "run_of b (Suc n) = b # run_of (b + 1) n"
  by (simp add: run_of_def upt_conv_Cons map_Suc_upt [symmetric] add.assoc del: upt_Suc)

lemma run_of_add: "run_of b (m + n) = run_of b m @ run_of (b + of_nat m) n"
  by (induction m arbitrary: b) (simp_all add: run_of_Suc run_of_def [of _ 0] add.assoc)

lemma slots_Cons: "slots (b # bs) = map (Pair b) [0..<16] @ slots bs"
  by (simp add: slots_def)

lemma slots_append: "slots (bs @ cs) = slots bs @ slots cs"
  by (simp add: slots_def)

text \<open>The blocks of a directory: of the root directory a part from its start, of another its chain.\<close>

definition dir_blocks :: "FatInfo \<Rightarrow> (u32 \<Rightarrow> bool) \<Rightarrow> (u32 \<Rightarrow> bytes) \<Rightarrow> FatDirEntry option \<Rightarrow> u32 list \<Rightarrow> bool" where
  "dir_blocks fi rdy B dir bs \<longleftrightarrow> (\<forall>b \<in> set bs. rdy b) \<and>
     (if dir = None \<or> de_cluster_lo (the dir) = 0 then \<exists>n. bs = run_of (root_dir_block fi) (n * spc fi)
      else \<exists>cs. chain fi B cs \<and> hd cs = de_cluster_lo (the dir) \<and> bs = file_blocks fi cs)"

context live_device
begin

lemma find_in_cluster_run:
  assumes "good blocks s" and "\<forall>b \<in> set (run_of b n). ready (dev s) b"
    and "r = lookup (blocks (dev s)) nm (slots (run_of b n)) sl"
  shows "\<exists>t. searched blocks ready s r t \<and> find_in_cluster C nm mode b n sl s =
    (case r of Exhausted sl' \<Rightarrow> Some (Inr (Go (b + of_nat n, sl'), t))
     | _ \<Rightarrow> bnd (finish C (blocks (dev s)) nm mode r) (\<lambda>r. ret (Return r)) t)"
  using assms
proof (induction n arbitrary: b sl s)
  case 0
  then have "r = Exhausted sl" by (simp add: run_of_def slots_def)
  then show ?case using at_disk_refl [OF 0(1)] by (intro exI [of _ s]) (simp add: searched_def)
next
  case (Suc n)
  let ?B = "blocks (dev s)"
  have "ready (dev s) b" using Suc.prems(2) by (simp add: run_of_Suc)
  then obtain t where t: "cache C b s = Some (Inr (True, t))" "at_disk blocks ready s ?B t"
    "cache_block_addr t = b" "cache_block t = ?B b"
    using cache_run [OF Suc.prems(1)] by metis
  note eq = at_disk_simps [OF t(2)]
  have len: "length (?B b) = 512" using block_len [OF \<open>ready (dev s) b\<close>] by simp
  let ?L = "lookup ?B nm (map (Pair b) [0..<16]) sl"
  have block: "find_in_block C nm mode b 0 16 sl t = (case ?L of Exhausted sl' \<Rightarrow> Some (Inr (Go sl', t))
     | r \<Rightarrow> bnd (finish C ?B nm mode r) (\<lambda>r. ret (Return r)) t)"
    using find_in_block_lookup [of t ?B b 0 16] t(4) len by simp
  have step: "find_in_cluster C nm mode b (Suc n) sl s = bnd (find_in_block C nm mode b 0 16 sl) (\<lambda>w.
      case w of Return r \<Rightarrow> ret (Return r) | Go slot' \<Rightarrow> find_in_cluster C nm mode (b + 1) n slot') t"
    using t(1) by simp
  have r: "r = (case ?L of Exhausted sl' \<Rightarrow> lookup ?B nm (slots (run_of (b + 1) n)) sl' | r \<Rightarrow> r)"
    unfolding Suc.prems(3) run_of_Suc slots_Cons lookup_append ..
  show ?case
  proof (cases ?L)
    case (Exhausted sl')
    have rdy: "\<forall>b \<in> set (run_of (b + 1) n). ready (dev t) b" using Suc.prems(2) by (simp add: run_of_Suc eq)
    have r': "r = lookup (blocks (dev t)) nm (slots (run_of (b + 1) n)) sl'" unfolding eq using r Exhausted by simp
    have addr: "b + 1 + of_nat n = b + of_nat (Suc n)" by simp
    obtain u where "searched blocks ready t r u" "find_in_cluster C nm mode (b + 1) n sl' t =
      (case r of Exhausted sl' \<Rightarrow> Some (Inr (Go (b + of_nat (Suc n), sl'), u))
       | _ \<Rightarrow> bnd (finish C ?B nm mode r) (\<lambda>r. ret (Return r)) u)"
      using Suc.IH [OF at_disk_good [OF t(2)] rdy r'] unfolding eq addr by blast
    then show ?thesis
      using searched_trans [OF t(2)] step block Exhausted by (intro exI [of _ u]) simp
  next
    case (Hit x)
    from lookup_ends(1) [OF this] have "fst x = b" by auto
    then show ?thesis
      using Hit r t(2-4) step block return_flow [of "find_in_block C nm mode b 0 16 sl" t "finish C ?B nm mode r" t "\<lambda>r. ret (Return r)"]
      by (intro exI [of _ t]) (simp add: searched_def)
  next
    case (End_mark x sl')
    from lookup_ends(2) [OF this] have "fst x = b" by auto
    then show ?thesis
      using End_mark r t(2-4) step block return_flow [of "find_in_block C nm mode b 0 16 sl" t "finish C ?B nm mode r" t "\<lambda>r. ret (Return r)"]
      by (intro exI [of _ t]) (simp add: searched_def)
  qed
qed

text \<open>The whole search: a chain of clusters, and the root directory's run of blocks.\<close>

lemma find_loop_chain:
  assumes "fat_state blocks ready s"
    and "cs = [] \<and> FAT_MIN_LAST_CLUSTER \<le> c \<or> chain (fat_info s) (blocks (dev s)) cs \<and> hd cs = c"
    and "file_ready (fat_info s) (ready (dev s)) cs"
    and "r = lookup (blocks (dev s)) nm (slots (file_blocks (fat_info s) cs)) sl"
  shows "\<exists>t. searched blocks ready s r t \<and>
    find_loop C nm mode False b c sl s = finish C (blocks (dev s)) nm mode r t"
  using assms
proof (induction cs arbitrary: s sl b c)
  case Nil
  then have "r = Exhausted sl" "\<not> c < FAT_MIN_LAST_CLUSTER" by (auto simp: file_blocks_def slots_def)
  moreover have "at_disk blocks ready s (blocks (dev s)) s" using Nil by (intro at_disk_refl) (simp add: fat_state_def)
  ultimately show ?case
    by (intro exI [of _ s]) (subst find_loop.simps, simp add: searched_def finish_def)
next
  case (Cons x cs)
  let ?fi = "fat_info s" and ?B = "blocks (dev s)" and ?n = "unat (sectors_per_cluster (fat_info s))"
  have ch: "chain ?fi ?B (x # cs)" and x: "x = c" using Cons.prems(2) by auto
  have g: "good blocks s" "fat_layout ?fi (ready (dev s))" using Cons.prems(1) by (simp_all add: fat_state_def)
  have c: "c < FAT_MIN_LAST_CLUSTER" "in_fat ?fi c" "fat_entry ?fi ?B c \<noteq> 0"
    using chain_nth_less [OF ch, of 0] chain_data [OF ch, of x] chain_member_entry [OF ch, of x]
    by (simp_all add: x data_cluster_def)
  obtain t where t: "read_fat_entry C c s = Some (Inr (fat_entry ?fi ?B c, t))" "at_disk blocks ready s ?B t"
    using read_fat_entry_run [OF g c(2)] .
  note eq = at_disk_simps [OF t(2)]
  have fb: "file_blocks ?fi (x # cs) = run_of (cluster_addr ?fi c) ?n @ file_blocks ?fi cs"
    by (simp add: file_blocks_def run_of_def spc_def x)
  let ?L = "lookup ?B nm (slots (run_of (cluster_addr ?fi c) ?n)) sl"
  have "\<forall>b \<in> set (run_of (cluster_addr ?fi c) ?n). ready (dev t) b"
    using Cons.prems(3) unfolding file_ready_def fb eq by simp
  from find_in_cluster_run [OF at_disk_good [OF t(2)] this refl, of nm sl mode]
  obtain u where u: "searched blocks ready t ?L u" "find_in_cluster C nm mode (cluster_addr ?fi c) ?n sl t =
      (case ?L of Exhausted sl' \<Rightarrow> Some (Inr (Go (cluster_addr ?fi c + of_nat ?n, sl'), u))
       | _ \<Rightarrow> bnd (finish C ?B nm mode ?L) (\<lambda>r. ret (Return r)) u)"
    unfolding eq by blast
  have step: "find_loop C nm mode False b c sl s = bnd (find_in_cluster C nm mode (cluster_addr ?fi c) ?n sl) (\<lambda>w.
      case w of Return r \<Rightarrow> ret r | Go x \<Rightarrow> find_loop C nm mode False (fst x) (fat_entry ?fi ?B c) (snd x)) t"
    using c t(1) by (subst find_loop.simps) simp
  have r: "r = (case ?L of Exhausted sl' \<Rightarrow> lookup ?B nm (slots (file_blocks ?fi cs)) sl' | r \<Rightarrow> r)"
    unfolding Cons.prems(4) fb slots_append lookup_append ..
  show ?case
  proof (cases ?L)
    case (Exhausted sl')
    have d: "at_disk blocks ready s ?B u" using at_disk_trans [OF t(2)] u(1) unfolding searched_def eq by blast
    note equ = at_disk_simps [OF d]
    have Su: "fat_state blocks ready u" using Cons.prems(1) at_disk_good [OF d] equ by (simp add: fat_state_def)
    have next_: "cs = [] \<and> FAT_MIN_LAST_CLUSTER \<le> fat_entry ?fi ?B c \<or> chain ?fi ?B cs \<and> hd cs = fat_entry ?fi ?B c"
      using ch x by (cases cs) simp_all
    have rdy: "file_ready ?fi (ready (dev s)) cs" using Cons.prems(3) by (simp add: file_ready_def fb)
    have r': "r = lookup ?B nm (slots (file_blocks ?fi cs)) sl'" using r Exhausted by simp
    note IH = Cons.IH [OF Su, unfolded equ, OF next_ rdy r']
    then obtain v where "searched blocks ready u r v"
      "find_loop C nm mode False (cluster_addr ?fi c + of_nat ?n) (fat_entry ?fi ?B c) sl' u = finish C ?B nm mode r v"
      by blast
    then show ?thesis using searched_trans [OF d] step u(2) Exhausted by (intro exI [of _ v]) simp
  next
    case (Hit x)
    with u(2) r show ?thesis
      using return_flow [of "find_in_cluster C nm mode (cluster_addr ?fi c) ?n sl" t "finish C ?B nm mode r" u ret] u(1) step searched_trans [OF t(2)] by (intro exI [of _ u]) simp
  next
    case (End_mark x sl')
    with u(2) r show ?thesis
      using return_flow [of "find_in_cluster C nm mode (cluster_addr ?fi c) ?n sl" t "finish C ?B nm mode r" u ret] u(1) step searched_trans [OF t(2)] by (intro exI [of _ u]) simp
  qed
qed

lemma find_loop_root:
  assumes "good blocks s" and "\<forall>b \<in> set (run_of b (n * spc (fat_info s))). ready (dev s) b"
    and "r = lookup (blocks (dev s)) nm (slots (run_of b (n * spc (fat_info s)))) sl"
    and "ends_at r \<noteq> None"
  shows "\<exists>t. searched blocks ready s r t \<and>
    find_loop C nm mode True b c sl s = finish C (blocks (dev s)) nm mode r t"
  using assms
proof (induction n arbitrary: s sl b c)
  case 0
  then show ?case by (simp add: run_of_def slots_def)
next
  case (Suc n)
  let ?fi = "fat_info s" and ?B = "blocks (dev s)" and ?n = "spc (fat_info s)"
  have split: "run_of b (Suc n * ?n) = run_of b ?n @ run_of (b + of_nat ?n) (n * ?n)"
    using run_of_add [of b ?n "n * ?n"] by simp
  let ?L = "lookup ?B nm (slots (run_of b ?n)) sl"
  have "\<forall>b \<in> set (run_of b ?n). ready (dev s) b" using Suc.prems(2) unfolding split by simp
  from find_in_cluster_run [OF Suc.prems(1) this refl, of nm sl mode]
  obtain u where u: "searched blocks ready s ?L u" "find_in_cluster C nm mode b ?n sl s =
      (case ?L of Exhausted sl' \<Rightarrow> Some (Inr (Go (b + of_nat ?n, sl'), u))
       | _ \<Rightarrow> bnd (finish C ?B nm mode ?L) (\<lambda>r. ret (Return r)) u)"
    by blast
  have step: "find_loop C nm mode True b c sl s = bnd (find_in_cluster C nm mode b ?n sl) (\<lambda>w.
      case w of Return r \<Rightarrow> ret r | Go x \<Rightarrow> find_loop C nm mode True (fst x) c (snd x)) s"
    by (subst find_loop.simps) (simp add: spc_def)
  have r: "r = (case ?L of Exhausted sl' \<Rightarrow> lookup ?B nm (slots (run_of (b + of_nat ?n) (n * ?n))) sl' | r \<Rightarrow> r)"
    unfolding Suc.prems(3) split slots_append lookup_append ..
  show ?case
  proof (cases ?L)
    case (Exhausted sl')
    have d: "at_disk blocks ready s ?B u" using u(1) unfolding searched_def by blast
    note equ = at_disk_simps [OF d]
    have rdy: "\<forall>b \<in> set (run_of (b + of_nat ?n) (n * ?n)). ready (dev s) b"
      using Suc.prems(2) unfolding split by simp
    have r': "r = lookup ?B nm (slots (run_of (b + of_nat ?n) (n * ?n))) sl'" using r Exhausted by simp
    obtain v where "searched blocks ready u r v"
      "find_loop C nm mode True (b + of_nat ?n) c sl' u = finish C ?B nm mode r v"
      using Suc.IH [OF at_disk_good [OF d], unfolded equ, OF rdy r' Suc.prems(4)] by blast
    then show ?thesis using searched_trans [OF d] step u(2) Exhausted by (intro exI [of _ v]) simp
  next
    case (Hit x)
    with u(2) r show ?thesis
      using return_flow [of "find_in_cluster C nm mode b ?n sl" s "finish C ?B nm mode r" u ret] u(1) step by (intro exI [of _ u]) simp
  next
    case (End_mark x sl')
    with u(2) r show ?thesis
      using return_flow [of "find_in_cluster C nm mode b ?n sl" s "finish C ?B nm mode r" u ret] u(1) step by (intro exI [of _ u]) simp
  qed
qed


lemma find_file_run:
  assumes S: "fat_state blocks ready s" and dir: "dir_blocks (fat_info s) (ready (dev s)) (blocks (dev s)) dir bs"
    and r: "r = lookup (blocks (dev s)) (to_fat_name name) (slots bs) None" and hit: "ends_at r \<noteq> None"
  obtains t where "searched blocks ready s r t"
    "fat_private_find_file C dir name mode s = finish C (blocks (dev s)) (to_fat_name name) mode r t"
proof -
  have g: "good blocks s" using S by (simp add: fat_state_def)
  show thesis
  proof (cases "dir = None \<or> de_cluster_lo (the dir) = 0")
    case True
    then obtain n where bs: "bs = run_of (root_dir_block (fat_info s)) (n * spc (fat_info s))"
      using dir by (auto simp: dir_blocks_def)
    have root: "(case dir of None \<Rightarrow> True | Some e \<Rightarrow> de_cluster_lo e = 0)" using True by (auto split: option.split)
    obtain t where "searched blocks ready s r t" "find_loop C (to_fat_name name) mode True (root_dir_block (fat_info s))
        (case dir of None \<Rightarrow> 0 | Some e \<Rightarrow> de_cluster_lo e) None s = finish C (blocks (dev s)) (to_fat_name name) mode r t"
      using find_loop_root [OF g _ r [unfolded bs] hit] dir unfolding dir_blocks_def bs by blast
    then show thesis using that root by (simp add: fat_private_find_file_def Let_def)
  next
    case False
    then obtain e cs where e: "dir = Some e" "de_cluster_lo e \<noteq> 0" "chain (fat_info s) (blocks (dev s)) cs"
      "hd cs = de_cluster_lo e" "bs = file_blocks (fat_info s) cs"
      using dir by (auto simp: dir_blocks_def)
    have "file_ready (fat_info s) (ready (dev s)) cs" using dir e(5) by (simp add: dir_blocks_def file_ready_def)
    then obtain t where "searched blocks ready s r t" "find_loop C (to_fat_name name) mode False (root_dir_block (fat_info s))
        (de_cluster_lo e) None s = finish C (blocks (dev s)) (to_fat_name name) mode r t"
      using find_loop_chain [OF S _ _ r [unfolded e(5)], of "de_cluster_lo e"] e by blast
    then show thesis using that e by (simp add: fat_private_find_file_def Let_def)
  qed
qed

end

subsection \<open>The first match\<close>

text \<open>A slot the search goes past.\<close>

definition passed :: "(u32 \<Rightarrow> bytes) \<Rightarrow> bytes \<Rightarrow> place \<Rightarrow> bool" where
  "passed B nm y \<longleftrightarrow> raw B y ! 0 \<noteq> 0 \<and> (raw B y ! 0 = 0xe5 \<or> take 11 (raw B y) \<noteq> nm)"

lemma lookup_passed:
  "\<forall>y \<in> set xs. passed B nm y \<Longrightarrow>
   lookup B nm xs sl = Exhausted (if sl = None then find (\<lambda>y. raw B y ! 0 = 0xe5) xs else sl)"
  by (induction xs arbitrary: sl) (auto simp: passed_def)

lemma lookup_hit:
  assumes "\<forall>y \<in> set pre. passed B nm y" and "raw B x ! 0 \<noteq> 0" "raw B x ! 0 \<noteq> 0xe5" "take 11 (raw B x) = nm"
  shows "lookup B nm (pre @ x # post) sl = Hit x"
  using assms by (simp add: lookup_append lookup_passed)

lemma lookup_end:
  assumes "\<forall>y \<in> set pre. passed B nm y" and "raw B x ! 0 = 0"
  shows "lookup B nm (pre @ x # post) None = End_mark x (find (\<lambda>y. raw B y ! 0 = 0xe5) pre)"
  using assms by (simp add: lookup_append lookup_passed)

lemma place_ok:
  "x \<in> set (slots bs) \<longleftrightarrow> fst x \<in> set bs \<and> snd x < 16"
  by (cases x) (force simp: slots_def)

subsection \<open>A new entry\<close>

text \<open>The blocks after a new entry has been put to the place \<open>w\<close>.\<close>

definition new_entry :: "bytes \<Rightarrow> bytes" where
  "new_entry nm = nm @ replicate 21 0"

definition entry_put :: "(u32 \<Rightarrow> bytes) \<Rightarrow> place \<Rightarrow> bytes \<Rightarrow> u32 \<Rightarrow> bytes" where
  "entry_put B w e = B(fst w := splice_at (B (fst w)) (DIR_ENTRY_SIZE * snd w) e)"

lemma decode_new_entry:
  "length nm = 11 \<Longrightarrow> decode_entry (new_entry nm) = \<lparr>de_filename = nm, de_attrs = 0, de_reserved = 0,
     de_create_dsec = 0, de_create_time = 0, de_create_date = 0, de_access_date = 0, de_cluster_hi = 0,
     de_modify_time = 0, de_modify_date = 0, de_cluster_lo = 0, de_size = 0\<rparr>"
  by (simp add: decode_entry_def new_entry_def nth_append rd16_def rd32_def un16_def un32_def)

lemma splice_twice:
  assumes "i + length xs \<le> length zs" and "length ys \<le> length xs"
  shows "splice_at (splice_at zs i xs) i ys = splice_at zs i (ys @ drop (length ys) xs)"
proof -
  have "drop (length ys) (xs @ ws) = drop (length ys) xs @ ws" for ws using assms(2) by simp
  moreover have "length (take i zs) = i" using assms(1) by simp
  ultimately show ?thesis using assms by (simp add: splice_at_def)
qed

context live_device
begin

lemma create_entry_run:
  assumes t: "searched blocks ready s (End_mark x sl) t" and nm: "length nm = 11"
    and w: "ready (dev s) (fst w)" "snd w < 16"
  obtains u where "create_entry C nm (fst x) (fst w) (snd w) t =
      Some (Inr (Some (found_at (new_entry nm) (snd w) (fst w)), u))"
    "at_disk blocks ready s (entry_put (blocks (dev s)) w (new_entry nm)) u"
proof -
  let ?B = "blocks (dev s)" and ?b = "fst w" and ?i = "32 * snd w"
  have d: "at_disk blocks ready s ?B t" and buf: "cache_block_addr t = fst x" "cache_block t = ?B (fst x)"
    using t by (simp_all add: searched_def)
  note eq = at_disk_simps [OF d]
  have rt: "ready (dev t) ?b" using w(1) by (simp add: eq)
  obtain t1 where t1: "(if fst x \<noteq> ?b then cache C ?b else ret True) t = Some (Inr (True, t1))"
    "at_disk blocks ready s ?B t1" "cache_block_addr t1 = ?b" "cache_block t1 = ?B ?b"
  proof (cases "fst x = ?b")
    case True
    then show thesis using that [of t] d buf by simp
  next
    case False
    obtain t1 where "cache C ?b t = Some (Inr (True, t1))" "at_disk blocks ready t ?B t1"
      "cache_block_addr t1 = ?b" "cache_block t1 = ?B ?b"
      using cache_run [OF at_disk_good [OF d] rt] unfolding eq by blast
    then show thesis using that [of t1] False at_disk_trans [OF d] by simp
  qed
  note eq1 = at_disk_simps [OF t1(2)]
  have len: "length (?B ?b) = 512" using block_len [OF w(1)] by simp
  have fit: "?i + 32 \<le> 512" using w(2) by simp
  let ?Y = "splice_at (?B ?b) ?i (new_entry nm)"
  have Y: "length ?Y = 512" using len fit nm by (simp add: new_entry_def)
  have two: "splice_at (splice_at (?B ?b) ?i (replicate 32 0)) ?i nm = ?Y"
    using splice_twice [of ?i "replicate 32 0" "?B ?b" nm] len fit nm by (simp add: new_entry_def)
  have rb: "ready (dev t1) (cache_block_addr t1)" using w(1) t1(3) by (simp add: eq1)
  obtain u where u: "flush_cache C (t1\<lparr>cache_block := ?Y\<rparr>) = Some (Inr (True, u))"
    "at_disk blocks ready t1 (?B(?b := ?Y)) u" "cache_block u = ?Y"
    using store_here_run [OF at_disk_good [OF t1(2)] rb Y] unfolding eq1(4) t1(3) by blast
  have "slice_at ?Y ?i 32 = new_entry nm"
    using slice_splice_same [of ?i "new_entry nm" "?B ?b"] len fit nm by (simp add: new_entry_def)
  then have "create_entry C nm (fst x) ?b (snd w) t = Some (Inr (Some (found_at (new_entry nm) (snd w) ?b), u))"
    using t1(1,4) len fit nm two u(1,3) Y
    by (simp add: create_entry_def poke_bytes_def peek_bytes_def bnd_def)
  then show thesis using that at_disk_trans [OF t1(2) u(2)] by (simp add: entry_put_def)
qed

end

subsection \<open>The properties\<close>

text \<open>
  \<open>fat_private_find_file\<close> returns the first slot of the directory whose entry is in use and has
  the name asked for, provided the end mark does not come before it: the decoded entry, its index
  in bytes and its block. With \<open>O_CREAT\<close> and \<open>O_EXCL\<close> together it fails with
  \<open>FAT_ERROR_FILE_EXISTS\<close> instead. Nothing is written.
\<close>

theorem find_file_first_match:
  assumes dev: "live_device C blocks ready" and S: "fat_state blocks ready s"
    and dir: "dir_blocks (fat_info s) (ready (dev s)) (blocks (dev s)) dir bs"
    and pre: "slots bs = pre @ x # post" "\<forall>y \<in> set pre. passed (blocks (dev s)) (to_fat_name name) y"
    and x: "raw (blocks (dev s)) x ! 0 \<noteq> 0" "raw (blocks (dev s)) x ! 0 \<noteq> 0xe5"
      "take 11 (raw (blocks (dev s)) x) = to_fat_name name"
  shows "\<exists>t. blocks (dev t) = blocks (dev s) \<and> fat_private_find_file C dir name mode s =
    (if mode AND 3 = 3 then Some (Inr (None, t))
     else Some (Inr (Some (decode_entry (raw (blocks (dev s)) x), of_nat (32 * snd x), fst x), t))) \<and>
    last_error t = (if mode AND 3 = 3 then FAT_ERROR_FILE_EXISTS else last_error s)"
proof -
  let ?B = "blocks (dev s)" and ?nm = "to_fat_name name"
  have L: "Hit x = lookup ?B ?nm (slots bs) None" unfolding pre(1) using lookup_hit [OF pre(2) x] by simp
  obtain t where t: "searched blocks ready s (Hit x) t"
    "fat_private_find_file C dir name mode s = finish C ?B ?nm mode (Hit x) t"
    using live_device.find_file_run [OF dev S dir L] by auto
  note eq = at_disk_simps [OF t(1) [unfolded searched_def, THEN conjunct1]]
  have f: "found_at (raw ?B x) (snd x) (fst x) = (decode_entry (raw ?B x), of_nat (32 * snd x), fst x)"
    by (simp add: found_at_def push_bit_eq_mult mult.commute)
  show ?thesis
  proof (cases "mode AND 3 = 3")
    case True
    then show ?thesis using t(2) eq
      by (intro exI [of _ "t\<lparr>last_error := FAT_ERROR_FILE_EXISTS\<rparr>"]) (simp add: finish_def set_last_error_def)
  next
    case False
    then show ?thesis using t(2) eq f by (intro exI [of _ t]) (simp add: finish_def)
  qed
qed


text \<open>
  Where the name does not occur before the end mark, \<open>fat_private_find_file\<close> without \<open>O_CREAT\<close>
  fails with \<open>FAT_ERROR_NOT_FOUND\<close>. With \<open>O_CREAT\<close> it puts a new entry with that name and zeros
  elsewhere to the first deleted slot, or to the end mark if there is none, and returns it; no
  other byte of the card changes.
\<close>

theorem find_file_missing:
  assumes dev: "live_device C blocks ready" and S: "fat_state blocks ready s"
    and dir: "dir_blocks (fat_info s) (ready (dev s)) (blocks (dev s)) dir bs"
    and pre: "slots bs = pre @ x # post" "\<forall>y \<in> set pre. passed (blocks (dev s)) (to_fat_name name) y"
    and x: "raw (blocks (dev s)) x ! 0 = 0"
    and w: "w = (case find (\<lambda>y. raw (blocks (dev s)) y ! 0 = 0xe5) pre of None \<Rightarrow> x | Some y \<Rightarrow> y)"
  shows "\<exists>t. (if mode AND O_CREAT = 0
     then fat_private_find_file C dir name mode s = Some (Inr (None, t)) \<and>
       blocks (dev t) = blocks (dev s) \<and> last_error t = FAT_ERROR_NOT_FOUND
     else fat_private_find_file C dir name mode s =
         Some (Inr (Some (decode_entry (new_entry (to_fat_name name)), of_nat (32 * snd w), fst w), t)) \<and>
       blocks (dev t) = entry_put (blocks (dev s)) w (new_entry (to_fat_name name)) \<and> last_error t = last_error s)"
proof -
  let ?B = "blocks (dev s)" and ?nm = "to_fat_name name"
  define r where "r = End_mark x (find (\<lambda>y. raw ?B y ! 0 = 0xe5) pre)"
  have L: "r = lookup ?B ?nm (slots bs) None" unfolding pre(1) r_def using lookup_end [OF pre(2) x] by simp
  have ends: "ends_at r \<noteq> None" by (simp add: r_def)
  obtain t where t: "searched blocks ready s r t" "fat_private_find_file C dir name mode s = finish C ?B ?nm mode r t"
    using live_device.find_file_run [OF dev S dir L ends] by blast
  note eq = at_disk_simps [OF t(1) [unfolded searched_def, THEN conjunct1]]
  show ?thesis
  proof (cases "mode AND O_CREAT = 0")
    case True
    then show ?thesis using t(2) eq
      by (intro exI [of _ "t\<lparr>last_error := FAT_ERROR_NOT_FOUND\<rparr>"]) (simp add: finish_def r_def set_last_error_def)
  next
    case False
    have "w \<in> set (slots bs)"
      using pre(1) find_Some_iff [of "\<lambda>y. raw ?B y ! 0 = 0xe5" pre] by (auto simp: w split: option.splits)
    then have ok: "ready (dev s) (fst w)" "snd w < 16" using dir by (simp_all add: place_ok dir_blocks_def)
    obtain u where u: "create_entry C ?nm (fst x) (fst w) (snd w) t = Some (Inr (Some (found_at (new_entry ?nm) (snd w) (fst w)), u))"
      "at_disk blocks ready s (entry_put ?B w (new_entry ?nm)) u"
      using live_device.create_entry_run [OF dev t(1) [unfolded r_def] length_to_fat_name ok] .
    have f: "found_at (new_entry ?nm) (snd w) (fst w) = (decode_entry (new_entry ?nm), of_nat (32 * snd w), fst w)"
      by (simp add: found_at_def push_bit_eq_mult mult.commute)
    show ?thesis
      using t(2) u(1) False f at_disk_simps [OF u(2)]
      by (intro exI [of _ u]) (auto simp: finish_def r_def w split: option.split)
  qed
qed

text \<open>The root directory of the small volume: one block, the entry \<open>A.TXT\<close> in its first slot.\<close>

lemma small_dir: "dir_blocks small_info (sd_ready small_card) (sd_block small_card) None [3]"
proof -
  have "[3] = run_of (root_dir_block small_info) (1 * spc small_info)"
    by (simp add: run_of_def spc_def small_info_def)
  moreover have "\<forall>b \<in> set [3]. sd_ready small_card b" by (simp add: small_ready)
  ultimately show ?thesis unfolding dir_blocks_def by metis
qed

lemma small_slots: "slots [3] = [] @ (3, 0) # map (Pair 3) [1..<16]" "slots [3] = [(3, 0)] @ (3, 1) # map (Pair 3) [2..<16]"
  by (simp_all add: slots_def upt_rec)

lemma small_raw:
  "raw (sd_block small_card) (3, 0) = encode_entry small_entry"
  "raw (sd_block small_card) (3, 1) = replicate 32 0"
proof -
  have b: "sd_block small_card 3 = encode_entry small_entry @ replicate 480 0" and l: "length (encode_entry small_entry) = 32"
    by (simp_all add: sd_block_def small_card_def small_entry_def)
  show "raw (sd_block small_card) (3, 0) = encode_entry small_entry"
    and "raw (sd_block small_card) (3, 1) = replicate 32 0"
    using l by (simp_all add: raw_def b slice_at_def)
qed

lemma small_first: "take 11 (encode_entry small_entry) = de_filename small_entry" "encode_entry small_entry ! 0 = 0x41"
    "decode_entry (encode_entry small_entry) = small_entry"
    "de_filename small_entry \<noteq> [0x42] @ replicate 7 0x20 @ [0x54, 0x58, 0x54]"
proof -
  show "decode_entry (encode_entry small_entry) = small_entry"
    by (rule decode_encode_entry) (simp add: small_entry_def)
qed (simp_all add: encode_entry_def small_entry_def)

text \<open>\<open>A.TXT\<close> and \<open>B.TXT\<close>\<close>

lemma small_names:
  "to_fat_name [0x41, 0x2e, 0x54, 0x58, 0x54, 0] = de_filename small_entry"
  "to_fat_name [0x42, 0x2e, 0x54, 0x58, 0x54, 0] = [0x42] @ replicate 7 0x20 @ [0x54, 0x58, 0x54]"
  by code_simp+

theorem find_file_first_match_witness:
  "\<exists>t. fat_private_find_file sd_ops None [0x41, 0x2e, 0x54, 0x58, 0x54, 0] 0 small_fs = Some (Inr (Some (small_entry, 0, 3), t))"
  using find_file_first_match [OF sd.live_device_axioms small_fs_state, of None "[3]" "[]" "(3, 0)" "map (Pair 3) [1..<16]"
      "[0x41, 0x2e, 0x54, 0x58, 0x54, 0]" 0, unfolded small_fs_simps small_raw, OF small_dir small_slots(1)]
  by (auto simp: small_first small_names)

theorem find_file_missing_witness:
  "\<exists>t. fat_private_find_file sd_ops None [0x42, 0x2e, 0x54, 0x58, 0x54, 0] O_CREAT small_fs =
       Some (Inr (Some (decode_entry (new_entry ([0x42] @ replicate 7 0x20 @ [0x54, 0x58, 0x54])), 32, 3), t)) \<and>
     slice_at (sd_block (dev t) 3) 32 11 = [0x42] @ replicate 7 0x20 @ [0x54, 0x58, 0x54]"
proof -
  let ?nm = "[0x42] @ replicate 7 0x20 @ [0x54, 0x58, 0x54] :: bytes"
  have w: "(3, 1) = (case find (\<lambda>y. raw (sd_block small_card) y ! 0 = 0xe5) [(3, 0)] of None \<Rightarrow> (3, 1) | Some y \<Rightarrow> y)"
    by (simp add: small_raw small_first)
  have pre: "\<forall>y \<in> set [(3, 0)]. passed (sd_block small_card) ?nm y"
    using small_first(4) by (simp add: passed_def small_raw small_first)
  have one: "(O_CREAT AND O_CREAT = 0) = False" by simp
  obtain t where t: "fat_private_find_file sd_ops None [0x42, 0x2e, 0x54, 0x58, 0x54, 0] O_CREAT small_fs =
       Some (Inr (Some (decode_entry (new_entry ?nm), of_nat (32 * 1), 3), t))"
    "sd_block (dev t) = entry_put (sd_block small_card) (3, 1) (new_entry ?nm)"
    using find_file_missing [OF sd.live_device_axioms small_fs_state, of None "[3]" "[(3, 0)]" "(3, 1)" "map (Pair 3) [2..<16]"
        "[0x42, 0x2e, 0x54, 0x58, 0x54, 0]" "(3, 1)" O_CREAT, unfolded small_fs_simps small_names one if_False fst_conv snd_conv,
        OF small_dir small_slots(2) pre _ w] by (auto simp: small_raw [unfolded One_nat_def])
  have "slice_at (sd_block (dev t) 3) 32 11 = ?nm"
    unfolding t(2) by (simp add: entry_put_def new_entry_def slice_at_def splice_at_def)
  then show ?thesis using t(1) by auto
qed

end
