(* ===== verification/FatOpen.thy ===== *)
theory FatOpen
  imports FatFind FatWrite
begin

section \<open>Opening a file by its name (lib/fat/fat.c)\<close>

text \<open>
  \<open>fat_open_file\<close> takes a free descriptor, looks the name up, stores the entry and its place in the
  descriptor and initialises the position.
\<close>

subsection \<open>The steps\<close>

text \<open>The descriptor with the entry found.\<close>

definition found_desc :: "found \<Rightarrow> FileDescriptor \<Rightarrow> FileDescriptor" where
  "found_desc w d = d\<lparr>is_free := False, dir_entry := fst w, dir_entry_index_in_block := fst (snd w),
     dir_entry_block_addr := snd (snd w)\<rparr>"

lemma unat_bad_desc: "i < 16 \<Longrightarrow> unat (of_nat i :: u8) = i \<Longrightarrow> (of_nat i :: u8) \<noteq> FAT_BAD_DESC"
proof
  assume i: "i < 16" "unat (of_nat i :: u8) = i" and "(of_nat i :: u8) = FAT_BAD_DESC"
  then have "unat (of_nat i :: u8) = 255" by simp
  then show False using i by simp
qed

lemma get_free_fd_run:
  assumes "good blocks s" and "i = first_free (fat_private_file_desc s)" and "i < MAX_FILE_DESC"
  shows "fat_private_get_free_fd s = Some (Inr (of_nat i, s\<lparr>fat_private_file_desc :=
    (fat_private_file_desc s)[i := (fat_private_file_desc s ! i)\<lparr>is_free := False\<rparr>]\<rparr>))"
  using assms good_length [OF assms(1)] by (simp add: fat_private_get_free_fd_def upd_pfd_def bnd_def)

context live_device
begin

text \<open>What follows the lookup, when the entry found is that of a file.\<close>

lemma open_found:
  assumes S: "fat_state blocks ready s" and geo: "cluster_geometry (fat_info s)"
    and i: "i = first_free (fat_private_file_desc s)" "i < MAX_FILE_DESC"
    and find: "fat_private_find_file C dir name mode (s\<lparr>fat_private_file_desc :=
        (fat_private_file_desc s)[i := (fat_private_file_desc s ! i)\<lparr>is_free := False\<rparr>]\<rparr>) = Some (Inr (Some w, t))"
    and t: "at_disk blocks ready (s\<lparr>fat_private_file_desc :=
        (fat_private_file_desc s)[i := (fat_private_file_desc s ! i)\<lparr>is_free := False\<rparr>]\<rparr>) B t" "mirrored (fat_info s) B"
    and e: "entry_file (fat_info s) B cs (fst w)"
  obtains u where "fat_open_file C dir name mode s = Some (Inr (of_nat i, u))"
    "file_step blocks ready s i (init_desc (fat_info s) (fat_entry (fat_info s) B) (found_desc w (fat_private_file_desc s ! i)))
       (last_error s) B u" "fat_state blocks ready u"
proof -
  let ?ds = "fat_private_file_desc s"
  have g: "good blocks s" using S by (simp add: fat_state_def)
  have len: "length ?ds = MAX_FILE_DESC" using good_length [OF g] .
  have il: "i < length ?ds" using len i(2) by simp
  note eq = at_disk_simps [OF t(1), simplified]
  let ?d = "found_desc w (?ds ! i)"
  let ?t = "t\<lparr>fat_private_file_desc := ?ds[i := ?d]\<rparr>"
  have store: "store_found i w t = Some (Inr ((), ?t))"
    using il eq(1) by (simp add: store_found_def upd_pfd_def found_desc_def)
  have St: "fat_state blocks ready ?t"
    using S at_disk_good [OF t(1)] good_desc [OF at_disk_good [OF t(1)], of "?ds[i := ?d]"] len t(2) eq
    by (simp add: fat_state_def)
  have dt: "fat_private_file_desc ?t ! i = ?d" using il by simp
  have geo_t: "cluster_geometry (fat_info ?t)" using geo eq by simp
  have e_t: "entry_file (fat_info ?t) (blocks (dev ?t)) cs (dir_entry ?d)" using e eq by (simp add: found_desc_def)
  obtain u where u: "fat_private_init_fd C i ?t = Some (Inr (True, u))"
    "file_step blocks ready ?t i (init_desc (fat_info s) (fat_entry (fat_info s) B) ?d) (last_error s) B u"
    using fat_private_init_fd_run [OF St i(2) dt e_t] eq by auto
  have step: "file_step blocks ready s i (init_desc (fat_info s) (fat_entry (fat_info s) B) ?d) (last_error s) B u"
    using u(2) eq by (simp add: file_step_def at_disk_def)
  have fd: "unat (of_nat i :: u8) = i" "(of_nat i :: u8) \<noteq> FAT_BAD_DESC"
  proof -
    show u: "unat (of_nat i :: u8) = i" using i(2) by (simp add: unat_of_nat_mod)
    then show "(of_nat i :: u8) \<noteq> FAT_BAD_DESC" using i(2) unat_bad_desc by blast
  qed
  have "fat_open_file C dir name mode s = Some (Inr (of_nat i, u))"
    using get_free_fd_run [OF g i] fd find store u(1) by (simp add: fat_open_file_def Let_def)
  moreover have "fat_state blocks ready u"
    using S file_step_simps [OF step] t(2) by (simp add: fat_state_def)
  ultimately show thesis using step that by blast
qed

lemma open_file_run:
  assumes S: "fat_state blocks ready s" and geo: "cluster_geometry (fat_info s)"
    and i: "i = first_free (fat_private_file_desc s)" "i < MAX_FILE_DESC"
    and dir: "dir_blocks (fat_info s) (ready (dev s)) (blocks (dev s)) dir bs"
    and hit: "lookup (blocks (dev s)) (to_fat_name name) (slots bs) None = Hit x" and mode: "mode AND 3 \<noteq> 3"
    and e: "entry_file (fat_info s) (blocks (dev s)) cs (decode_entry (raw (blocks (dev s)) x))"
  obtains u where "fat_open_file C dir name mode s = Some (Inr (of_nat i, u))"
    "file_step blocks ready s i (init_desc (fat_info s) (fat_entry (fat_info s) (blocks (dev s)))
       (found_desc (decode_entry (raw (blocks (dev s)) x), of_nat (32 * snd x), fst x) (fat_private_file_desc s ! i)))
       (last_error s) (blocks (dev s)) u" "fat_state blocks ready u"
proof -
  let ?B = "blocks (dev s)" and ?nm = "to_fat_name name" and ?ds = "fat_private_file_desc s"
  let ?s1 = "s\<lparr>fat_private_file_desc := ?ds[i := (?ds ! i)\<lparr>is_free := False\<rparr>]\<rparr>"
  have g: "good blocks s" and m: "mirrored (fat_info s) ?B" using S by (simp_all add: fat_state_def)
  have S1: "fat_state blocks ready ?s1" using S good_desc [OF g] good_length [OF g] by (simp add: fat_state_def)
  have L: "Hit x = lookup (blocks (dev ?s1)) ?nm (slots bs) None" using hit by simp
  have dir1: "dir_blocks (fat_info ?s1) (ready (dev ?s1)) (blocks (dev ?s1)) dir bs" using dir by simp
  obtain t where t: "searched blocks ready ?s1 (Hit x) t"
    "fat_private_find_file C dir name mode ?s1 = finish C ?B ?nm mode (Hit x) t"
    using find_file_run [OF S1 dir1 L] by auto
  let ?w = "(decode_entry (raw ?B x), of_nat (32 * snd x), fst x) :: found"
  have find: "fat_private_find_file C dir name mode ?s1 = Some (Inr (Some ?w, t))"
    using t(2) mode by (simp add: finish_def found_at_def push_bit_eq_mult mult.commute)
  have d: "at_disk blocks ready ?s1 ?B t" using t(1) by (simp add: searched_def)
  have e': "entry_file (fat_info s) ?B cs (fst ?w)" using e by simp
  show thesis using open_found [OF S geo i find d m e'] that by blast
qed

lemma create_file_run:
  assumes S: "fat_state blocks ready s" and geo: "cluster_geometry (fat_info s)"
    and i: "i = first_free (fat_private_file_desc s)" "i < MAX_FILE_DESC"
    and dir: "dir_blocks (fat_info s) (ready (dev s)) (blocks (dev s)) dir bs" "set bs \<inter> fat_region (fat_info s) = {}"
    and pre: "slots bs = pre @ x # post" "\<forall>y \<in> set pre. passed (blocks (dev s)) (to_fat_name name) y"
    and x: "raw (blocks (dev s)) x ! 0 = 0" and mode: "mode AND O_CREAT \<noteq> 0"
    and w: "w = (case find (\<lambda>y. raw (blocks (dev s)) y ! 0 = 0xe5) pre of None \<Rightarrow> x | Some y \<Rightarrow> y)"
    and B': "B' = entry_put (blocks (dev s)) w (new_entry (to_fat_name name))"
    and d': "d' = init_desc (fat_info s) (fat_entry (fat_info s) B')
      (found_desc (decode_entry (new_entry (to_fat_name name)), of_nat (32 * snd w), fst w) (fat_private_file_desc s ! i))"
  obtains u where "fat_open_file C dir name mode s = Some (Inr (of_nat i, u))"
    "file_step blocks ready s i d' (last_error s) B' u" "fat_state blocks ready u"
    "file_open (fat_info s) B' [] d' 0"
proof -
  let ?B = "blocks (dev s)" and ?nm = "to_fat_name name" and ?ds = "fat_private_file_desc s"
  let ?s1 = "s\<lparr>fat_private_file_desc := ?ds[i := (?ds ! i)\<lparr>is_free := False\<rparr>]\<rparr>"
  let ?w = "(decode_entry (new_entry ?nm), of_nat (32 * snd w), fst w) :: found"
  have g: "good blocks s" and m: "mirrored (fat_info s) ?B" using S by (simp_all add: fat_state_def)
  have S1: "fat_state blocks ready ?s1" using S good_desc [OF g] good_length [OF g] by (simp add: fat_state_def)
  define r where "r = End_mark x (find (\<lambda>y. raw ?B y ! 0 = 0xe5) pre)"
  have L: "r = lookup (blocks (dev ?s1)) ?nm (slots bs) None" unfolding pre(1) r_def using lookup_end [OF pre(2) x] by simp
  have dir1: "dir_blocks (fat_info ?s1) (ready (dev ?s1)) (blocks (dev ?s1)) dir bs" using dir(1) by simp
  have ends: "ends_at r \<noteq> None" by (simp add: r_def)
  obtain t where t: "searched blocks ready ?s1 r t"
    "fat_private_find_file C dir name mode ?s1 = finish C ?B ?nm mode r t"
    using find_file_run [OF S1 dir1 L ends] by auto
  have "w \<in> set (slots bs)"
    using pre(1) find_Some_iff [of "\<lambda>y. raw ?B y ! 0 = 0xe5" pre] by (auto simp: w split: option.splits)
  then have ok: "ready (dev ?s1) (fst w)" "snd w < 16" and out: "fst w \<notin> fat_region (fat_info s)"
    using dir by (auto simp: place_ok dir_blocks_def)
  have wf: "found_at (new_entry ?nm) (snd w) (fst w) = ?w" by (simp add: found_at_def push_bit_eq_mult mult.commute)
  obtain u where u: "create_entry C ?nm (fst x) (fst w) (snd w) t = Some (Inr (Some ?w, u))" "at_disk blocks ready ?s1 B' u"
    using create_entry_run [OF t(1) [unfolded r_def] length_to_fat_name [of name] ok] by (auto simp: B' wf)
  have find: "fat_private_find_file C dir name mode ?s1 = Some (Inr (Some ?w, u))"
    using t(2) u(1) mode by (auto simp: finish_def r_def w split: option.split)
  have m': "mirrored (fat_info s) B'" by (rule mirrored_outside [OF m]) (use out in \<open>auto simp: B' entry_put_def\<close>)
  have e: "entry_file (fat_info s) B' [] (fst ?w)" by (simp add: entry_file_def decode_new_entry)
  obtain v where v: "fat_open_file C dir name mode s = Some (Inr (of_nat i, v))"
    "file_step blocks ready s i d' (last_error s) B' v" "fat_state blocks ready v"
    using open_found [OF S geo i find u(2) m' e] unfolding d' .
  have "file_open (fat_info s) B' [] d' 0"
    unfolding d' using init_desc_open [OF geo] e by (simp add: found_desc_def)
  then show thesis using that v by blast
qed

end

lemma small_free: "first_free (fat_private_file_desc small_fs) = 0" "\<not> is_stale (fat_private_file_desc small_fs ! 0)"
proof -
  have "fat_private_file_desc small_fs = free_desc # replicate 15 free_desc"
    using replicate_Suc [of 15 free_desc] by (simp add: small_fs_def)
  then show "first_free (fat_private_file_desc small_fs) = 0" "\<not> is_stale (fat_private_file_desc small_fs ! 0)"
    by (simp_all add: free_desc_def)
qed

subsection \<open>The properties\<close>

text \<open>
  \<open>fat_open_file\<close> on a directory whose first match for the name describes a file returns the
  first free descriptor with that file open at the offset 0, its entry and the entry's place
  recorded; the card, the volume and the other descriptors are unchanged.
\<close>

theorem fat_open_file_opens:
  assumes dev: "live_device C blocks ready" and S: "fat_state blocks ready s"
    and geo: "cluster_geometry (fat_info s)"
    and i: "i = first_free (fat_private_file_desc s)" "i < MAX_FILE_DESC" "\<not> is_stale (fat_private_file_desc s ! i)"
    and dir: "dir_blocks (fat_info s) (ready (dev s)) (blocks (dev s)) dir bs"
    and pre: "slots bs = pre @ x # post" "\<forall>y \<in> set pre. passed (blocks (dev s)) (to_fat_name name) y"
    and x: "raw (blocks (dev s)) x ! 0 \<noteq> 0" "raw (blocks (dev s)) x ! 0 \<noteq> 0xe5"
      "take 11 (raw (blocks (dev s)) x) = to_fat_name name"
    and mode: "mode AND 3 \<noteq> 3"
    and e: "entry_file (fat_info s) (blocks (dev s)) cs (decode_entry (raw (blocks (dev s)) x))"
  shows "\<exists>t d'. fat_open_file C dir name mode s = Some (Inr (of_nat i, t)) \<and>
    fat_private_file_desc t = (fat_private_file_desc s)[i := d'] \<and>
    file_open (fat_info s) (blocks (dev s)) cs d' 0 \<and> \<not> is_free d' \<and> \<not> is_stale d' \<and>
    dir_entry d' = decode_entry (raw (blocks (dev s)) x) \<and>
    dir_entry_block_addr d' = fst x \<and> dir_entry_index_in_block d' = of_nat (32 * snd x) \<and>
    fat_state blocks ready t \<and> fat_info t = fat_info s \<and> blocks (dev t) = blocks (dev s) \<and>
    ready (dev t) = ready (dev s) \<and> last_error t = last_error s"
proof -
  let ?B = "blocks (dev s)" and ?ds = "fat_private_file_desc s"
  let ?w = "(decode_entry (raw ?B x), of_nat (32 * snd x), fst x) :: found"
  let ?d = "init_desc (fat_info s) (fat_entry (fat_info s) ?B) (found_desc ?w (?ds ! i))"
  have "lookup ?B (to_fat_name name) (slots bs) None = Hit x" unfolding pre(1) by (rule lookup_hit [OF pre(2) x])
  then obtain u where u: "fat_open_file C dir name mode s = Some (Inr (of_nat i, u))"
    "file_step blocks ready s i ?d (last_error s) ?B u" "fat_state blocks ready u"
    using live_device.open_file_run [OF dev S geo i(1,2) dir _ mode e] by blast
  have "file_open (fat_info s) ?B cs ?d 0" using init_desc_open [OF geo, of ?B cs "found_desc ?w (?ds ! i)"] e by (simp add: found_desc_def)
  then show ?thesis
    using u(1,3) file_step_simps [OF u(2)] i(3)
    by (intro exI [of _ u] exI [of _ ?d]) (simp add: init_desc_def found_desc_def Let_def)
qed

theorem fat_open_file_opens_witness:
  "\<exists>t d'. fat_open_file sd_ops None [0x41, 0x2e, 0x54, 0x58, 0x54, 0] 0 small_fs = Some (Inr (0, t)) \<and>
     fat_private_file_desc t = (fat_private_file_desc small_fs)[0 := d'] \<and>
     file_open small_info (sd_block small_card) [2, 3] d' 0"
proof -
  have free: "0 = first_free (fat_private_file_desc small_fs)" "\<not> is_stale (fat_private_file_desc small_fs ! 0)"
    using small_free by simp_all
  show ?thesis
    using fat_open_file_opens [OF sd.live_device_axioms small_fs_state _ free(1) _ free(2), of None "[3]" "[]" "(3, 0)"
        "map (Pair 3) [1..<16]" "[0x41, 0x2e, 0x54, 0x58, 0x54, 0]" 0 "[2, 3]",
        unfolded small_fs_simps small_raw, OF small_geometry _ small_dir small_slots(1)] small_entry_file
    by (auto simp: small_first small_names)
qed

text \<open>
  \<open>fat_open_file\<close> for a name the directory does not have: without \<open>O_CREAT\<close> it returns
  \<open>FAT_BAD_DESC\<close> with \<open>FAT_ERROR_NOT_FOUND\<close> and leaves every descriptor as it was; with \<open>O_CREAT\<close>
  the new entry is on the card and the first free descriptor has the new, empty file open.
\<close>

theorem fat_open_file_missing:
  assumes dev: "live_device C blocks ready" and S: "fat_state blocks ready s"
    and geo: "cluster_geometry (fat_info s)"
    and i: "i = first_free (fat_private_file_desc s)" "i < MAX_FILE_DESC" "\<not> is_stale (fat_private_file_desc s ! i)"
    and dir: "dir_blocks (fat_info s) (ready (dev s)) (blocks (dev s)) dir bs" "set bs \<inter> fat_region (fat_info s) = {}"
    and pre: "slots bs = pre @ x # post" "\<forall>y \<in> set pre. passed (blocks (dev s)) (to_fat_name name) y"
    and x: "raw (blocks (dev s)) x ! 0 = 0"
    and w: "w = (case find (\<lambda>y. raw (blocks (dev s)) y ! 0 = 0xe5) pre of None \<Rightarrow> x | Some y \<Rightarrow> y)"
  shows "\<exists>t. if mode AND O_CREAT = 0
    then fat_open_file C dir name mode s = Some (Inr (FAT_BAD_DESC, t)) \<and>
      fat_private_file_desc t = fat_private_file_desc s \<and> blocks (dev t) = blocks (dev s) \<and>
      last_error t = FAT_ERROR_NOT_FOUND
    else fat_open_file C dir name mode s = Some (Inr (of_nat i, t)) \<and>
      blocks (dev t) = entry_put (blocks (dev s)) w (new_entry (to_fat_name name)) \<and>
      file_open (fat_info s) (blocks (dev t)) [] (fat_private_file_desc t ! i) 0 \<and>
      dir_entry (fat_private_file_desc t ! i) = decode_entry (new_entry (to_fat_name name)) \<and>
      dir_entry_block_addr (fat_private_file_desc t ! i) = fst w \<and>
      \<not> is_free (fat_private_file_desc t ! i) \<and> fat_state blocks ready t"
proof -
  let ?B = "blocks (dev s)" and ?nm = "to_fat_name name" and ?ds = "fat_private_file_desc s"
  let ?s1 = "s\<lparr>fat_private_file_desc := ?ds[i := (?ds ! i)\<lparr>is_free := False\<rparr>]\<rparr>"
  have g: "good blocks s" and m: "mirrored (fat_info s) ?B" using S by (simp_all add: fat_state_def)
  have len: "length ?ds = MAX_FILE_DESC" using good_length [OF g] .
  have S1: "fat_state blocks ready ?s1" using S good_desc [OF g] len by (simp add: fat_state_def)
  define r where "r = End_mark x (find (\<lambda>y. raw ?B y ! 0 = 0xe5) pre)"
  have L: "r = lookup (blocks (dev ?s1)) ?nm (slots bs) None" unfolding pre(1) r_def using lookup_end [OF pre(2) x] by simp
  have dir1: "dir_blocks (fat_info ?s1) (ready (dev ?s1)) (blocks (dev ?s1)) dir bs" using dir(1) by simp
  have ends: "ends_at r \<noteq> None" by (simp add: r_def)
  obtain t where t: "searched blocks ready ?s1 r t"
    "fat_private_find_file C dir name mode ?s1 = finish C ?B ?nm mode r t"
    using live_device.find_file_run [OF dev S1 dir1 L ends] by auto
  have d: "at_disk blocks ready ?s1 ?B t" using t(1) by (simp add: searched_def)
  note eq = at_disk_simps [OF d, simplified]
  show ?thesis
  proof (cases "mode AND O_CREAT = 0")
    case True
    have free: "is_free (?ds ! i)" using first_free_free [of ?ds] i(1,2) len by simp
    have "unat (of_nat i :: u8) = i" using i(2) by (simp add: unat_of_nat_mod)
    moreover from this have "(of_nat i :: u8) \<noteq> FAT_BAD_DESC" using i(2) unat_bad_desc by blast
    moreover have "?ds[i := (?ds ! i)\<lparr>is_free := True\<rparr>] = ?ds" using free by (cases "?ds ! i") (simp add: list_update_same_conv len i(2))
    moreover have "fat_private_find_file C dir name mode ?s1 = Some (Inr (None, t\<lparr>last_error := FAT_ERROR_NOT_FOUND\<rparr>))"
      using t(2) True by (simp add: finish_def r_def set_last_error_def)
    ultimately show ?thesis
      using True get_free_fd_run [OF g i(1,2)] i(2) len eq
      by (intro exI [of _ "t\<lparr>last_error := FAT_ERROR_NOT_FOUND, fat_private_file_desc := ?ds\<rparr>"])
        (simp add: fat_open_file_def Let_def upd_pfd_def)
  next
    case False
    let ?B' = "entry_put ?B w (new_entry ?nm)"
    let ?d = "init_desc (fat_info s) (fat_entry (fat_info s) ?B')
      (found_desc (decode_entry (new_entry ?nm), of_nat (32 * snd w), fst w) (?ds ! i))"
    obtain v where v: "fat_open_file C dir name mode s = Some (Inr (of_nat i, v))"
      "file_step blocks ready s i ?d (last_error s) ?B' v" "fat_state blocks ready v" "file_open (fat_info s) ?B' [] ?d 0"
      using live_device.create_file_run [OF dev S geo i(1,2) dir pre x False w refl refl] .
    note eqv = file_step_simps [OF v(2)]
    have dv: "fat_private_file_desc v ! i = ?d" using eqv(1) len i(2) by simp
    show ?thesis
      using v(1,3,4) eqv(4) False unfolding if_False
      by (intro exI [of _ v]) (simp add: dv, simp add: init_desc_def found_desc_def Let_def)
  qed
qed

theorem fat_open_file_missing_witness:
  "\<exists>t. fat_open_file sd_ops None [0x42, 0x2e, 0x54, 0x58, 0x54, 0] O_CREAT small_fs = Some (Inr (0, t)) \<and>
     file_open small_info (sd_block (dev t)) [] (fat_private_file_desc t ! 0) 0 \<and>
     slice_at (sd_block (dev t) 3) 32 11 = [0x42] @ replicate 7 0x20 @ [0x54, 0x58, 0x54]"
proof -
  let ?nm = "[0x42] @ replicate 7 0x20 @ [0x54, 0x58, 0x54] :: bytes"
  have w: "(3, 1) = (case find (\<lambda>y. raw (sd_block small_card) y ! 0 = 0xe5) [(3, 0)] of None \<Rightarrow> (3, 1) | Some y \<Rightarrow> y)"
    by (simp add: small_raw small_first)
  have pre: "\<forall>y \<in> set [(3, 0)]. passed (sd_block small_card) ?nm y"
    using small_first(4) by (simp add: passed_def small_raw small_first)
  have one: "(O_CREAT AND O_CREAT = 0) = False" by simp
  have out: "set [3] \<inter> fat_region small_info = {}" by (auto simp: fat_region_def small_info_def)
  have free: "0 = first_free (fat_private_file_desc small_fs)" "0 < (16 :: nat)" "\<not> is_stale (fat_private_file_desc small_fs ! 0)"
    using small_free by simp_all
  have raw: "raw (sd_block small_card) (3, 1) ! 0 = 0" by (simp add: small_raw [unfolded One_nat_def])
  have put: "slice_at (entry_put (sd_block small_card) (3, 1) (new_entry ?nm) 3) 32 11 = ?nm"
    by (simp add: entry_put_def new_entry_def slice_at_def splice_at_def)
  note W = fat_open_file_missing [OF sd.live_device_axioms small_fs_state _ free, of None "[3]" "[(3, 0)]" "(3, 1)"
      "map (Pair 3) [2..<16]" "[0x42, 0x2e, 0x54, 0x58, 0x54, 0]" "(3, 1)" O_CREAT,
      unfolded small_fs_simps small_names one if_False fst_conv snd_conv,
      OF small_geometry small_dir out small_slots(2) pre raw w]
  then show ?thesis using put by auto
qed

end
