(* ===== verification/FatPersist.thy ===== *)
theory FatPersist
  imports FatClose FatOpen
begin

section \<open>What has been written is found again (lib/fat/fat.c)\<close>

text \<open>
  The operations put together: a file of the root directory is written and closed; opened again by
  its name and read from the start it has the bytes written. It rests on the separation of the
  volume's areas: the FAT, the root directory and the clusters of the data area do not overlap.
\<close>

subsection \<open>The entry of an open file\<close>

text \<open>The descriptor \<open>d\<close> belongs to the slot \<open>x\<close>, whose entry is up to date or marked to be written.\<close>

definition at_place :: "(u32 \<Rightarrow> bytes) \<Rightarrow> place \<Rightarrow> FileDescriptor \<Rightarrow> bool" where
  "at_place B x d \<longleftrightarrow> dir_entry_block_addr d = fst x \<and> unat (dir_entry_index_in_block d) = 32 * snd x \<and>
     take 11 (raw B x) = de_filename (dir_entry d) \<and>
     (dir_entry_modified d \<or> decode_entry (raw B x) = dir_entry d)"

lemma raw_store:
  assumes len: "length (B (fst x)) = 512" and x: "snd x < 16" "snd y < 16" and e: "length e = 32"
  shows "raw (entry_put B x e) y = (if y = x then e else raw B y)"
proof (cases "fst y = fst x")
  case True
  show ?thesis
  proof (cases "snd y = snd x")
    case True
    then have "y = x" using \<open>fst y = fst x\<close> by (simp add: prod_eq_iff)
    then show ?thesis
      using slice_splice_same [of "32 * snd x" e "B (fst x)"] len x(1) e by (simp add: raw_def entry_put_def)
  next
    case False
    then have "y \<noteq> x" by auto
    moreover have "raw (entry_put B x e) y ! j = raw B y ! j" if "j < 32" for j
      using that False len x e nth_splice_at [of "32 * snd x" e "B (fst x)" "32 * snd y + j"] \<open>fst y = fst x\<close>
      by (simp add: raw_def entry_put_def) linarith
    moreover have "length (raw (entry_put B x e) y) = 32" "length (raw B y) = 32"
      using len x e \<open>fst y = fst x\<close> by (simp_all add: raw_def entry_put_def)
    ultimately show ?thesis by (simp add: list_eq_iff_nth_eq)
  qed
qed (auto simp: raw_def entry_put_def)

lemma raw_same: "B' (fst y) = B (fst y) \<Longrightarrow> raw B' y = raw B y"
  by (simp add: raw_def)

lemma edited_entry: "edited d d' \<Longrightarrow> de_filename (dir_entry d') = de_filename (dir_entry d)"
proof -
  assume "edited d d'"
  then have "(dir_entry d')\<lparr>de_cluster_lo := 0, de_size := 0\<rparr> = (dir_entry d)\<lparr>de_cluster_lo := 0, de_size := 0\<rparr>"
    by (simp add: edited_def)
  from arg_cong [OF this, of de_filename] show ?thesis by simp
qed

text \<open>The data area lies behind the root directory.\<close>

lemma file_blocks_above:
  assumes vol: "volume_ok fi rdy B" and "\<forall>c \<in> set cs. data_cluster fi c" and "b \<in> set (file_blocks fi cs)"
  shows "unat (data_offset fi) \<le> unat b"
proof -
  obtain c where "c \<in> set cs" "b \<in> set (blocks_of fi c)" using assms(3) by (auto simp: file_blocks_concat)
  then show ?thesis using blocks_of_unat [OF vol] assms(2) by fastforce
qed

lemma at_place_slot:
  assumes "live_device C blocks ready" and "ready D (fst x)" and "snd x < 16" and "at_place (blocks D) x d"
  shows "length (de_filename (dir_entry d)) = 11" and "length (blocks D (fst x)) = 512"
proof -
  show len: "length (blocks D (fst x)) = 512" using live_device.block_len [OF assms(1,2)] by simp
  then have "length (raw (blocks D) x) = 32" using assms(3) by (simp add: raw_def)
  then have "length (take 11 (raw (blocks D) x)) = 11" by simp
  then show "length (de_filename (dir_entry d)) = 11" using assms(4) by (simp add: at_place_def del: length_take)
qed

text \<open>After closing, the slot on the card has the descriptor's entry, whether it had to be written or not.\<close>

lemma close_entry:
  assumes dev: "live_device C blocks ready" and S: "good blocks s" and fd: "unat fd < MAX_FILE_DESC"
    and d: "fat_private_file_desc s ! unat fd = d" "\<not> is_stale d"
    and pl: "at_place (blocks (dev s)) x d" and x: "ready (dev s) (fst x)" "snd x < 16"
  obtains u e B' where "fat_close C fd s = Some (Inr (True, u))"
    "file_step blocks ready s (unat fd) (d\<lparr>is_free := True, is_stale := False\<rparr>) e B' u"
    "decode_entry (raw B' x) = dir_entry d" "take 11 (raw B' x) = de_filename (dir_entry d)"
    "\<forall>y. snd y < 16 \<and> y \<noteq> x \<longrightarrow> raw B' y = raw (blocks (dev s)) y" "\<forall>b. b \<noteq> fst x \<longrightarrow> B' b = blocks (dev s) b"
proof (cases "dir_entry_modified d")
  case True
  let ?B = "blocks (dev s)" and ?e = "encode_entry (dir_entry d)"
  note nm = at_place_slot [OF dev x pl]
  have idx: "32 * snd x = unat (dir_entry_index_in_block d)" "32 * snd x + 32 \<le> 512" and ad: "fst x = dir_entry_block_addr d"
    using pl x(2) by (simp_all add: at_place_def)
  have e: "length ?e = 32" using nm(1) by simp
  obtain u where u: "fat_close C fd s = Some (Inr (True, u))"
    "file_step blocks ready s (unat fd) (d\<lparr>is_free := True, is_stale := False\<rparr>) (last_error s) (entry_put ?B x ?e) u"
    using live_device.fat_close_run [OF dev S fd d(1) True d(2) nm(1) ad x(1) idx] by (auto simp: entry_put_def)
  have raw: "raw (entry_put ?B x ?e) y = (if y = x then ?e else raw ?B y)" if "snd y < 16" for y
    using raw_store [of ?B x y ?e] nm(2) x(2) that e by simp
  have "take 11 ?e = de_filename (dir_entry d)" using nm(1) by (simp add: encode_entry_def)
  then show thesis
    using that [OF u] raw [OF x(2)] raw decode_encode_entry [OF nm(1)] by (simp add: entry_put_def)
next
  case False
  let ?u = "s\<lparr>fat_private_file_desc := (fat_private_file_desc s)[unat fd := d\<lparr>is_free := True, is_stale := False\<rparr>]\<rparr>"
  have "fat_close C fd s = Some (Inr (True, ?u))"
    using fat_close_without_write [OF good_length [OF S] fd d(1), of C] False by simp
  moreover have "file_step blocks ready s (unat fd) (d\<lparr>is_free := True, is_stale := False\<rparr>) (last_error s) (blocks (dev s)) ?u"
    using good_desc [OF S] good_length [OF S] by (simp add: file_step_def at_disk_def)
  ultimately show thesis using that pl False by (simp add: at_place_def)
qed

subsection \<open>The property\<close>

text \<open>The root directory has its blocks \<open>bs\<close> between the FAT and the data area; the name is at the slot \<open>x\<close>.\<close>

definition root_slot :: "FatInfo \<Rightarrow> (u32 \<Rightarrow> bool) \<Rightarrow> (u32 \<Rightarrow> bytes) \<Rightarrow> bytes \<Rightarrow> place \<Rightarrow> u32 list \<Rightarrow> bool" where
  "root_slot fi rdy B nm x bs \<longleftrightarrow> dir_blocks fi rdy B None bs \<and>
     (\<forall>b \<in> set bs. b \<notin> fat_region fi \<and> unat b < unat (data_offset fi)) \<and> lookup B nm (slots bs) None = Hit x"

lemma lookup_cong:
  "\<forall>y \<in> set xs. raw B' y ! 0 = raw B y ! 0 \<and> take 11 (raw B' y) = take 11 (raw B y) \<Longrightarrow>
   lookup B' nm xs sl = lookup B nm xs sl"
  by (induction xs arbitrary: sl) simp_all

lemma root_slot_keeps:
  assumes r: "root_slot fi rdy B nm x bs" and same: "\<forall>y. snd y < 16 \<and> fst y \<in> set bs \<and> y \<noteq> x \<longrightarrow> raw B' y = raw B y"
    and name: "take 11 (raw B' x) = take 11 (raw B x)"
  shows "root_slot fi rdy B' nm x bs"
proof -
  have "raw B' y ! 0 = raw B y ! 0 \<and> take 11 (raw B' y) = take 11 (raw B y)" if "y \<in> set (slots bs)" for y
  proof (cases "y = x")
    case True
    have "raw B' x ! 0 = take 11 (raw B' x) ! 0" "raw B x ! 0 = take 11 (raw B x) ! 0" by simp_all
    then show ?thesis using True name by metis
  next
    case False
    then have "raw B' y = raw B y" using that same place_ok [of y bs] by blast
    then show ?thesis by simp
  qed
  then have "lookup B' nm (slots bs) None = lookup B nm (slots bs) None" by (intro lookup_cong) blast
  then show ?thesis using r by (simp add: root_slot_def dir_blocks_def)
qed

text \<open>A write keeps the slot: the root directory is apart from the FAT and from the file's clusters.\<close>

lemma write_keeps_slot:
  assumes vol: "volume_ok fi rdy B" and root: "root_slot fi rdy B nm x bs" and ext: "extended fi B cs B1 cs1"
    and data: "\<forall>c \<in> set cs1. data_cluster fi c" and ed: "edited d d1" and pl: "at_place B x d"
  shows "at_place B1 x d1" and "root_slot fi rdy B1 nm x bs" and "fst x \<notin> fat_region fi \<union> set (file_blocks fi cs1)"
    and "rdy (fst x)" and "snd x < 16"
proof -
  have "x \<in> set (slots bs)" using root lookup_ends(1) by (fastforce simp: root_slot_def)
  then have x: "fst x \<in> set bs" "snd x < 16" by (simp_all add: place_ok)
  then show "snd x < 16" "rdy (fst x)" using root by (simp_all add: root_slot_def dir_blocks_def)
  have apart: "b \<notin> fat_region fi \<union> set (file_blocks fi cs1)" if "b \<in> set bs" for b
    using root that file_blocks_above [OF vol data, of b] by (fastforce simp: root_slot_def)
  from this [OF x(1)] show "fst x \<notin> fat_region fi \<union> set (file_blocks fi cs1)" .
  have "B1 b = B b" if "b \<in> set bs" for b using ext apart [OF that] unfolding extended_def by blast
  then have raw: "raw B1 y = raw B y" if "fst y \<in> set bs" for y using that by (intro raw_same) blast
  then show "root_slot fi rdy B1 nm x bs" using x(1) by (intro root_slot_keeps [OF root]) auto
  show "at_place B1 x d1" using pl ed edited_entry [OF ed] raw [OF x(1)] by (auto simp: at_place_def edited_def)
qed

text \<open>The closed file's entry describes the file that was open.\<close>

lemma closed_file:
  assumes same: "\<forall>b. b \<noteq> fst x \<longrightarrow> B2 b = B1 b" and x: "fst x \<notin> fat_region fi \<union> set (file_blocks fi cs)"
    and open': "file_open fi B1 cs d q" and m: "mirrored fi B1"
  shows "mirrored fi B2" and "file_data fi B2 cs = file_data fi B1 cs" and "entry_file fi B2 cs (dir_entry d)"
proof -
  have out: "B2 b = B1 b" if "b \<in> fat_region fi \<union> set (file_blocks fi cs)" for b using that same x by metis
  then show "mirrored fi B2" by (intro mirrored_outside [OF m]) blast
  show "file_data fi B2 cs = file_data fi B1 cs" by (rule file_data_cong) (use out in blast)
  have "fat_entry fi B2 c = fat_entry fi B1 c" if "in_fat fi c" for c using that out by (intro fat_entry_outside) blast+
  then have "cs = [] \<or> chain fi B2 cs"
    using open' chain_cong [of fi B1 cs B2] chain_data [of fi B1 cs] by (auto simp: file_open_def data_cluster_def)
  then show "entry_file fi B2 cs (dir_entry d)" using open' by (auto simp: file_open_def entry_file_def file_size_def)
qed

lemma first_free_closed:
  assumes "i < length ds" and "is_free d" and "\<not> is_stale d" and "\<forall>e \<in> set ds. is_free e \<longrightarrow> \<not> is_stale e"
  shows "first_free (ds[i := d]) < length ds" and "\<not> is_stale (ds[i := d] ! first_free (ds[i := d]))"
proof -
  let ?j = "first_free (ds[i := d])"
  have "is_free (ds[i := d] ! i)" using assms(1,2) by simp
  then have "?j \<le> i" using first_free_least [of i "ds[i := d]"] by (metis not_le)
  then show j: "?j < length ds" using assms(1) by simp
  then have "is_free (ds[i := d] ! ?j)" using first_free_free [of "ds[i := d]"] by simp
  then show "\<not> is_stale (ds[i := d] ! ?j)" using assms(3,4) j by (cases "?j = i") simp_all
qed

text \<open>Opening by name and reading from the start.\<close>

lemma open_and_read:
  assumes dev: "live_device C blocks ready" and S: "fat_state blocks ready u" and geo: "cluster_geometry (fat_info u)"
    and j: "j = first_free (fat_private_file_desc u)" "j < MAX_FILE_DESC" "\<not> is_stale (fat_private_file_desc u ! j)"
    and root: "root_slot (fat_info u) (ready (dev u)) (blocks (dev u)) (to_fat_name name) x bs"
    and e: "entry_file (fat_info u) (blocks (dev u)) cs (decode_entry (raw (blocks (dev u)) x))"
    and rdy: "file_ready (fat_info u) (ready (dev u)) cs" and room: "unat k \<le> length buf"
    and m: "m = min (unat k) (unat (de_size (decode_entry (raw (blocks (dev u)) x))))"
  obtains v w where "fat_open_file C None name 0 u = Some (Inr (of_nat j, v))"
    "fat_read C (of_nat j) buf k v = Some (Inr ((of_nat m, splice_at buf 0 (take m (file_data (fat_info u) (blocks (dev u)) cs))), w))"
proof -
  let ?fi = "fat_info u" and ?B = "blocks (dev u)"
  let ?f = "found_desc (decode_entry (raw ?B x), of_nat (32 * snd x), fst x) (fat_private_file_desc u ! j)"
  let ?d = "init_desc ?fi (fat_entry ?fi ?B) ?f"
  have dir: "dir_blocks ?fi (ready (dev u)) ?B None bs" and hit: "lookup ?B (to_fat_name name) (slots bs) None = Hit x"
    using root by (simp_all add: root_slot_def)
  have mode: "(0 :: u8) AND 3 \<noteq> 3" by simp
  obtain v where v: "fat_open_file C None name 0 u = Some (Inr (of_nat j, v))"
    "file_step blocks ready u j ?d (last_error u) ?B v" "fat_state blocks ready v"
    using live_device.open_file_run [OF dev S geo j(1,2) dir hit mode e] .
  note eq = file_step_simps [OF v(2)]
  have uj: "unat (of_nat j :: u8) = j" using j(2) by (simp add: unat_of_nat_mod)
  have fd: "unat (of_nat j :: u8) < MAX_FILE_DESC" using uj j(2) by simp
  have "good blocks u" using S by (simp add: fat_state_def)
  then have "j < length (fat_private_file_desc u)" using good_length j(2) by metis
  then have d: "fat_private_file_desc v ! unat (of_nat j :: u8) = ?d" using eq(1) uj by simp
  have live: "\<not> is_free ?d" "\<not> is_stale ?d" and size: "file_size ?d = unat (de_size (decode_entry (raw ?B x)))"
    using j(3) by (simp_all add: init_desc_def found_desc_def Let_def file_size_def)
  have f: "file_open ?fi ?B cs ?d 0" using init_desc_open [OF geo, of ?B cs ?f] e by (simp add: found_desc_def)
  have m': "m = min (unat k) (file_size ?d - 0)" using m size by simp
  obtain w where "fat_read C (of_nat j) buf k v = Some (Inr ((of_nat m, splice_at buf 0 (slice_at (file_data ?fi ?B cs) 0 m)), w))"
    using live_device.fat_read_run [OF dev v(3) _ fd d live _ _ room m', unfolded eq(2,4,5), OF geo f rdy] by blast
  then show thesis using that [OF v(1)] by (simp add: slice_at_def)
qed

text \<open>The size after a write.\<close>

lemma written_size:
  assumes dev: "live_device C blocks ready" and f: "file_open (fat_info s) (blocks (dev s)) cs d p"
    and rdy: "file_ready (fat_info s) (ready (dev s)) cs" and n: "n \<le> unat len"
    and w: "written blocks ready s i cs d p (take n src) t cs1 d1" and src: "unat len \<le> length src"
    and rdy1: "file_ready (fat_info s) (ready (dev t)) cs1"
  shows "file_size d1 = max (file_size d) (p + n)"
proof -
  have lens: "\<forall>b \<in> set (file_blocks (fat_info s) cs1). length (blocks (dev t) b) = 512"
    "\<forall>b \<in> set (file_blocks (fat_info s) cs). length (blocks (dev s) b) = 512"
    using rdy rdy1 live_device.block_len [OF dev] by (auto simp: file_ready_def)
  have "length (take n src) = n" using n src by simp
  moreover have "file_open (fat_info s) (blocks (dev t)) cs1 d1 (p + length (take n src))"
    "file_bytes (fat_info s) (blocks (dev t)) cs1 d1 = splice_at (file_bytes (fat_info s) (blocks (dev s)) cs d) p (take n src)"
    using w by (simp_all add: written_def)
  moreover have "p \<le> file_size d" using f by (simp add: file_open_def)
  ultimately show ?thesis
    using file_bytes_length [OF f lens(2)] file_bytes_length [OF _ lens(1)] by (auto simp: splice_at_def dest: arg_cong [of _ _ length])
qed

lemma write_close_reopen_run:
  assumes dev: "live_device C blocks ready" and S: "fat_state blocks ready s"
    and vol: "volume_ok (fat_info s) (ready (dev s)) (blocks (dev s))"
    and fd: "unat fd < MAX_FILE_DESC" and d: "fat_private_file_desc s ! unat fd = d"
    and live: "\<not> is_free d" "\<not> is_stale d"
    and f: "file_open (fat_info s) (blocks (dev s)) cs d p" and rdy: "file_ready (fat_info s) (ready (dev s)) cs"
    and len: "unat len \<le> length src" "unat len \<le> 65024" "p + unat len < 4294967296"
    and root: "root_slot (fat_info s) (ready (dev s)) (blocks (dev s)) (to_fat_name name) x bs"
    and pl: "at_place (blocks (dev s)) x d"
    and fresh: "\<forall>e \<in> set (fat_private_file_desc s). is_free e \<longrightarrow> \<not> is_stale e"
    and room: "unat k \<le> length buf"
  shows "\<exists>n t u j v m w. fat_write C fd src len s = Some (Inr (of_nat n, t)) \<and> n \<le> unat len \<and>
    (n < unat len \<longrightarrow> (\<forall>c. in_fat (fat_info s) c \<longrightarrow> fat_entry (fat_info s) (blocks (dev t)) c \<noteq> 0)) \<and>
    fat_close C fd t = Some (Inr (True, u)) \<and> fat_open_file C None name 0 u = Some (Inr (j, v)) \<and>
    m = min (unat k) (max (file_size d) (p + n)) \<and> fat_read C j buf k v = Some (Inr ((of_nat m, splice_at buf 0
      (take m (splice_at (file_bytes (fat_info s) (blocks (dev s)) cs d) p (take n src)))), w))"
proof -
  let ?fi = "fat_info s" and ?B = "blocks (dev s)"
  let ?new = "\<lambda>n. splice_at (file_bytes ?fi ?B cs d) p (take n src)"
  have g: "good blocks s" and geo: "cluster_geometry ?fi" using S vol by (simp_all add: fat_state_def volume_ok_def)
  obtain n t d1 cs1 where t: "fat_write C fd src len s = Some (Inr (of_nat n, t))" "n \<le> unat len"
    "written blocks ready s (unat fd) cs d p (take n src) t cs1 d1"
    "n < unat len \<longrightarrow> (\<forall>c. \<not> free_cluster (fat_info s) (blocks (dev t)) c)"
    using fat_write_run [OF dev S vol fd d live f rdy len] by blast
  let ?B1 = "blocks (dev t)"
  have step1: "file_step blocks ready s (unat fd) d1 (last_error s) ?B1 t" and ed: "edited d d1"
    and ext: "extended ?fi ?B cs ?B1 cs1" and open1: "\<exists>q. file_open ?fi ?B1 cs1 d1 q" and bytes: "file_bytes ?fi ?B1 cs1 d1 = ?new n"
    using t(3) by (auto simp: written_def)
  note eq1 = file_step_simps [OF step1]
  obtain q where q: "file_open ?fi ?B1 cs1 d1 q" using open1 by blast
  have data: "\<forall>c \<in> set cs1. data_cluster ?fi c" using q chain_data by (auto simp: file_open_def)
  note slot = write_keeps_slot [OF vol root ext data ed pl]
  have d1: "fat_private_file_desc t ! unat fd = d1" "\<not> is_stale d1"
    using eq1(1) good_length [OF g] fd ed live(2) by (simp_all add: edited_def)
  obtain u e B2 where u: "fat_close C fd t = Some (Inr (True, u))"
    "file_step blocks ready t (unat fd) (d1\<lparr>is_free := True, is_stale := False\<rparr>) e B2 u"
    "decode_entry (raw B2 x) = dir_entry d1" "take 11 (raw B2 x) = de_filename (dir_entry d1)"
    "\<forall>y. snd y < 16 \<and> y \<noteq> x \<longrightarrow> raw B2 y = raw ?B1 y" "\<forall>b. b \<noteq> fst x \<longrightarrow> B2 b = ?B1 b"
    using close_entry [OF dev eq1(6) fd d1 slot(1), unfolded eq1(5), OF slot(4,5)] .
  note eq2 = file_step_simps [OF file_step_trans [OF step1 u(2)]]
  have mirror: "mirrored ?fi ?B1" using ext by (simp add: extended_def)
  note closed = closed_file [OF u(6) slot(3) q mirror]
  have Su: "fat_state blocks ready u" using S eq2 closed(1) by (simp add: fat_state_def)
  have root2: "root_slot ?fi (ready (dev s)) B2 (to_fat_name name) x bs"
    using u(4,5) slot(1) by (intro root_slot_keeps [OF slot(2)]) (auto simp: at_place_def)
  have rdy1: "file_ready ?fi (ready (dev s)) cs1" by (rule extended_ready [OF vol ext rdy])
  define j where "j = first_free (fat_private_file_desc u)"
  have il: "unat fd < length (fat_private_file_desc s)" using good_length [OF g] fd by simp
  have j: "j < MAX_FILE_DESC" "\<not> is_stale (fat_private_file_desc u ! j)"
    using first_free_closed [OF il _ _ fresh] good_length [OF g] unfolding j_def eq2(1) by simp_all
  let ?m = "min (unat k) (unat (de_size (decode_entry (raw B2 x))))"
  obtain v w where v: "fat_open_file C None name 0 u = Some (Inr (of_nat j, v))"
    "fat_read C (of_nat j) buf k v = Some (Inr ((of_nat ?m, splice_at buf 0 (take ?m (file_data ?fi B2 cs1))), w))"
    using open_and_read [OF dev Su _ j_def j, of name x bs cs1 k buf ?m, unfolded eq2(2,4,5), OF geo root2 _ rdy1 room refl]
      closed(3) unfolding u(3) by blast
  have size: "file_size d1 = max (file_size d) (p + n)"
    using written_size [OF dev f rdy t(2,3) len(1)] rdy1 by (simp add: eq1(5))
  have m: "?m = min (unat k) (max (file_size d) (p + n))" unfolding u(3) using size by (simp add: file_size_def)
  then have "take ?m (file_data ?fi B2 cs1) = take ?m (file_bytes ?fi ?B1 cs1 d1)"
    unfolding closed(2) file_bytes_def using size by simp
  then show ?thesis using t(1,2) t(4) [unfolded free_cluster_def] u(1) v m unfolding bytes by metis
qed

text \<open>
  C3: A file of the root directory survives being closed: after writing to it from the offset \<open>p\<close> on,
  closing it, opening it again by its name and reading from the start, the bytes read are those of the
  file as it was before with the bytes written in place. Fewer bytes than asked for are written only
  when no cluster is free any more.
\<close>

theorem write_close_reopen_read:
  assumes dev: "live_device C blocks ready" and S: "fat_state blocks ready s"
    and vol: "volume_ok (fat_info s) (ready (dev s)) (blocks (dev s))"
    and fd: "unat fd < MAX_FILE_DESC" and d: "fat_private_file_desc s ! unat fd = d"
    and live: "\<not> is_free d" "\<not> is_stale d"
    and f: "file_open (fat_info s) (blocks (dev s)) cs d p" and rdy: "file_ready (fat_info s) (ready (dev s)) cs"
    and len: "unat len \<le> length src" "unat len \<le> 65024" "p + unat len < 4294967296"
    and root: "root_slot (fat_info s) (ready (dev s)) (blocks (dev s)) (to_fat_name name) x bs"
    and pl: "at_place (blocks (dev s)) x d"
    and fresh: "\<forall>e \<in> set (fat_private_file_desc s). is_free e \<longrightarrow> \<not> is_stale e"
    and room: "unat k \<le> length buf"
  shows "\<exists>n t u j v m w. fat_write C fd src len s = Some (Inr (of_nat n, t)) \<and> n \<le> unat len \<and>
    (n < unat len \<longrightarrow> (\<forall>c. in_fat (fat_info s) c \<longrightarrow> fat_entry (fat_info s) (blocks (dev t)) c \<noteq> 0)) \<and>
    fat_close C fd t = Some (Inr (True, u)) \<and> fat_open_file C None name 0 u = Some (Inr (j, v)) \<and>
    m = min (unat k) (max (file_size d) (p + n)) \<and> fat_read C j buf k v = Some (Inr ((of_nat m, splice_at buf 0
      (take m (splice_at (file_bytes (fat_info s) (blocks (dev s)) cs d) p (take n src)))), w))"
  using assms by (rule write_close_reopen_run)

lemma small_root: "root_slot small_info (sd_ready small_card) (sd_block small_card) (to_fat_name [0x41, 0x2e, 0x54, 0x58, 0x54, 0]) (3, 0) [3]"
proof -
  have "lookup (sd_block small_card) (to_fat_name [0x41, 0x2e, 0x54, 0x58, 0x54, 0]) (slots [3]) None = Hit (3, 0)"
    unfolding small_slots(1) by (simp add: small_raw small_first small_names)
  moreover have "fat_region small_info = {1, 2}" by (auto simp: fat_region_def small_info_def)
  ultimately show ?thesis using small_dir by (simp add: root_slot_def small_info_def)
qed

lemma open_fs_fresh: "e \<in> set (fat_private_file_desc open_fs) \<Longrightarrow> \<not> is_stale e"
proof -
  have "set (fat_private_file_desc open_fs) \<subseteq> insert (fat_private_file_desc open_fs ! 0) (set (fat_private_file_desc small_fs))"
    unfolding open_fs_desc by (auto simp: open_fs_def dest!: set_update_subset_insert [THEN subsetD])
  then show "e \<in> set (fat_private_file_desc open_fs) \<Longrightarrow> \<not> is_stale e"
    using open_fs_file by (auto simp: small_fs_def free_desc_def)
qed

theorem write_close_reopen_read_witness:
  "\<exists>n t u j v w. n \<le> 3 \<and> fat_write sd_ops 0 (replicate 3 0x63) 3 open_fs = Some (Inr (of_nat n, t)) \<and>
     fat_close sd_ops 0 t = Some (Inr (True, u)) \<and>
     fat_open_file sd_ops None [0x41, 0x2e, 0x54, 0x58, 0x54, 0] 0 u = Some (Inr (j, v)) \<and>
     fat_read sd_ops j (replicate 5 0) 5 v = Some (Inr ((5, replicate n 0x63 @ replicate (5 - n) 0x61), w))"
proof -
  obtain d where d: "fat_private_file_desc open_fs ! 0 = d" "\<not> is_free d" "\<not> is_stale d"
    "file_open small_info (sd_block small_card) [2, 3] d 0" "file_size d = 600"
    using open_fs_file by blast
  have pl: "at_place (sd_block small_card) (3, 0) d"
    unfolding d(1) [symmetric] using small_first by (simp add: at_place_def open_fs_desc small_raw init_desc_def Let_def free_desc_def)
  have bytes: "take 5 (file_bytes small_info (sd_block small_card) [2, 3] d) = replicate 5 0x61"
    using d(5) by (simp add: file_bytes_def small_data)
  have read: "take 5 (splice_at (file_bytes small_info (sd_block small_card) [2, 3] d) 0 (take n (replicate 3 0x63))) =
      replicate n 0x63 @ replicate (5 - n) 0x61" if "n \<le> 3" for n
  proof -
    let ?F = "file_bytes small_info (sd_block small_card) [2, 3] d"
    have "take (5 - n) (drop n ?F) = drop n (take 5 ?F)" by (simp add: drop_take)
    then show ?thesis using that unfolding bytes by (simp add: splice_at_def min_absorb1)
  qed
  have len: "unat (3 :: u16) = 3" "unat (5 :: u16) = 5" by simp_all
  have hyps: "0 < MAX_FILE_DESC" "3 \<le> length (replicate 3 (0x63 :: u8))" "(3 :: nat) \<le> 65024" "(3 :: nat) < 4294967296"
    "5 \<le> length (replicate 5 (0 :: u8))" by simp_all
  have fresh: "\<forall>e \<in> set (fat_private_file_desc open_fs). is_free e \<longrightarrow> \<not> is_stale e" using open_fs_fresh by blast
  note W = write_close_reopen_read [OF sd.live_device_axioms open_fs_state, of 0 d "[2, 3]" 0 3 "replicate 3 0x63"
    "[0x41, 0x2e, 0x54, 0x58, 0x54, 0]" "(3, 0)" "[3]" 5 "replicate 5 0", unfolded open_fs_simps len add_0_left unat_0 d(5),
    OF small_volume hyps(1) d(1-4) small_file_ready hyps(2-4) small_root pl fresh hyps(5)]
  obtain n t u j v m w where n: "fat_write sd_ops 0 (replicate 3 0x63) 3 open_fs = Some (Inr (of_nat n, t))" "n \<le> 3"
    "fat_close sd_ops 0 t = Some (Inr (True, u))"
    "fat_open_file sd_ops None [0x41, 0x2e, 0x54, 0x58, 0x54, 0] 0 u = Some (Inr (j, v))"
    "m = min 5 (max 600 n)" "fat_read sd_ops j (replicate 5 0) 5 v = Some (Inr ((of_nat m, splice_at (replicate 5 0) 0
       (take m (splice_at (file_bytes small_info (sd_block small_card) [2, 3] d) 0 (take n (replicate 3 0x63))))), w))"
    using W by blast
  have m: "m = 5" using n(5) by simp
  have "fat_read sd_ops j (replicate 5 0) 5 v = Some (Inr ((5, replicate n 0x63 @ replicate (5 - n) 0x61), w))"
    using n(6) unfolding m read [OF n(2)] using n(2) by (simp add: splice_at_def)
  then show ?thesis using n(1-4) by blast
qed

end
