(* ===== verification/FatCreate.thy ===== *)
theory FatCreate
  imports FatPersist
begin

section \<open>A new file (lib/fat/fat.c)\<close>

text \<open>
  Creating a file by \<open>fat_open_file\<close> with \<open>O_CREAT\<close>, writing to it, closing it, opening it by its name and reading
  it: the entry that the creation puts into the root directory is the one the later lookup finds.
\<close>

subsection \<open>The slot of the new entry\<close>

text \<open>The slot taken: the first deleted one before the end mark \<open>x\<close>, or else the end mark.\<close>

definition new_slot :: "(u32 \<Rightarrow> bytes) \<Rightarrow> place list \<Rightarrow> place \<Rightarrow> place" where
  "new_slot B pre x = (case find (\<lambda>y. raw B y ! 0 = 0xe5) pre of None \<Rightarrow> x | Some y \<Rightarrow> y)"

lemma new_slot_split:
  assumes pre: "\<forall>y \<in> set pre. passed B nm y" and x: "raw B x ! 0 = 0"
  obtains pre' post' where "pre @ x # post = pre' @ new_slot B pre x # post'"
    "\<forall>y \<in> set pre'. passed B nm y \<and> y \<noteq> new_slot B pre x"
proof (cases "find (\<lambda>y. raw B y ! 0 = 0xe5) pre")
  case None
  have "y \<noteq> x" if "y \<in> set pre" for y using that pre x by (auto simp: passed_def)
  then show thesis using that [of pre post] None pre by (simp add: new_slot_def)
next
  case (Some w)
  then obtain j where j: "j < length pre" "w = pre ! j" "raw B w ! 0 = 0xe5" "\<forall>i<j. raw B (pre ! i) ! 0 \<noteq> 0xe5"
    by (auto simp: find_Some_iff)
  have "\<forall>y \<in> set (take j pre). passed B nm y \<and> y \<noteq> w"
    using pre j in_set_takeD by (fastforce simp: in_set_conv_nth)
  moreover have "pre @ x # post = take j pre @ w # (drop (Suc j) pre @ x # post)"
    using id_take_nth_drop [OF j(1)] j(2) by (metis append.assoc append_Cons)
  moreover have "new_slot B pre x = w" using Some by (simp add: new_slot_def)
  ultimately show thesis using that [of "take j pre"] by metis
qed

lemma new_entry_raw:
  assumes "length (B (fst w)) = 512" and "snd w < 16" and "snd y < 16" and "length nm = 11"
  shows "raw (entry_put B w (new_entry nm)) y = (if y = w then new_entry nm else raw B y)"
  using raw_store [of B w y "new_entry nm"] assms by (simp add: new_entry_def)

lemma new_entry_name: "length nm = 11 \<Longrightarrow> take 11 (new_entry nm) = nm" "nm \<noteq> [] \<Longrightarrow> new_entry nm ! 0 = nm ! 0"
  by (simp_all add: new_entry_def nth_append)

text \<open>After the creation the root directory has the name at the slot taken.\<close>

lemma created_root_slot:
  assumes dir: "dir_blocks fi rdy B None bs" and apart: "\<forall>b \<in> set bs. b \<notin> fat_region fi \<and> unat b < unat (data_offset fi)"
    and pre: "slots bs = pre @ x # post" "\<forall>y \<in> set pre. passed B nm y" and x: "raw B x ! 0 = 0"
    and nm: "length nm = 11" "nm ! 0 \<noteq> 0" "nm ! 0 \<noteq> 0xe5" and len: "\<forall>b \<in> set bs. length (B b) = 512"
    and w: "w = new_slot B pre x"
  shows "root_slot fi rdy (entry_put B w (new_entry nm)) nm w bs" "raw (entry_put B w (new_entry nm)) w = new_entry nm"
    "fst w \<in> set bs" "snd w < 16"
proof -
  let ?B = "entry_put B w (new_entry nm)"
  obtain pre' post' where p: "slots bs = pre' @ w # post'" "\<forall>y \<in> set pre'. passed B nm y \<and> y \<noteq> w"
    using new_slot_split [OF pre(2) x, of post] unfolding pre(1) w by metis
  have "w \<in> set (slots bs)" using p(1) by simp
  then show wb: "fst w \<in> set bs" "snd w < 16" by (simp_all add: place_ok)
  have l: "length (B (fst w)) = 512" using len wb(1) by blast
  have raw: "raw ?B y = (if y = w then new_entry nm else raw B y)" if "snd y < 16" for y
    using new_entry_raw [of B w y nm] l wb(2) that nm(1) by simp
  show rw: "raw ?B w = new_entry nm" using raw [OF wb(2)] by simp
  have "nm \<noteq> []" using nm(1) by auto
  then have hit: "raw ?B w ! 0 \<noteq> 0" "raw ?B w ! 0 \<noteq> 0xe5" "take 11 (raw ?B w) = nm"
    unfolding rw new_entry_name(1) [OF nm(1)] new_entry_name(2) [OF \<open>nm \<noteq> []\<close>] using nm by simp_all
  have "passed ?B nm y" if "y \<in> set pre'" for y
  proof -
    have "y \<in> set (slots bs)" using that p(1) by simp
    then have "raw ?B y = raw B y" using raw [of y] p(2) that by (simp add: place_ok)
    then show ?thesis using p(2) that by (simp add: passed_def)
  qed
  then have "lookup ?B nm (slots bs) None = Hit w" unfolding p(1) by (intro lookup_hit [OF _ hit]) blast
  then show "root_slot fi rdy ?B nm w bs" using dir apart by (simp add: root_slot_def dir_blocks_def)
qed

lemma volume_ok_outside:
  assumes "volume_ok fi rdy B" and "\<And>b. b \<in> fat_region fi \<Longrightarrow> B' b = B b"
  shows "volume_ok fi rdy B'"
proof -
  have "free_cluster fi B' c = free_cluster fi B c" for c
    using fat_entry_outside [of fi c B' B] assms(2) by (auto simp: free_cluster_def)
  then show ?thesis using assms(1) by (simp add: volume_ok_def)
qed

subsection \<open>The property\<close>

text \<open>
  C4: A new file keeps what is written to it: \<open>fat_open_file\<close> with \<open>O_CREAT\<close> and a name the root directory does not have,
  \<open>fat_write\<close>, \<open>fat_close\<close>, \<open>fat_open_file\<close> with the same name and \<open>fat_read\<close> give back exactly the bytes written, whether
  the entry took the place of a deleted one or of the end mark. Fewer bytes than asked for are written only when no cluster
  is free any more.
\<close>

theorem create_write_close_reopen_read:
  assumes dev: "live_device C blocks ready" and S: "fat_state blocks ready s"
    and vol: "volume_ok (fat_info s) (ready (dev s)) (blocks (dev s))"
    and i: "first_free (fat_private_file_desc s) < MAX_FILE_DESC"
    and fresh: "\<forall>e \<in> set (fat_private_file_desc s). is_free e \<longrightarrow> \<not> is_stale e"
    and dir: "dir_blocks (fat_info s) (ready (dev s)) (blocks (dev s)) None bs"
      "\<forall>b \<in> set bs. b \<notin> fat_region (fat_info s) \<and> unat b < unat (data_offset (fat_info s))"
    and pre: "slots bs = pre @ x # post" "\<forall>y \<in> set pre. passed (blocks (dev s)) (to_fat_name name) y"
    and x: "raw (blocks (dev s)) x ! 0 = 0" and mode: "mode AND O_CREAT \<noteq> 0"
    and nm: "to_fat_name name ! 0 \<noteq> 0" "to_fat_name name ! 0 \<noteq> 0xe5"
    and len: "unat len \<le> length src" "unat len \<le> 65024" and room: "unat k \<le> length buf"
  shows "\<exists>fd t n u v j w m y. fat_open_file C None name mode s = Some (Inr (fd, t)) \<and>
    fat_write C fd src len t = Some (Inr (of_nat n, u)) \<and> n \<le> unat len \<and>
    (n < unat len \<longrightarrow> (\<forall>c. in_fat (fat_info s) c \<longrightarrow> fat_entry (fat_info s) (blocks (dev u)) c \<noteq> 0)) \<and>
    fat_close C fd u = Some (Inr (True, v)) \<and> fat_open_file C None name 0 v = Some (Inr (j, w)) \<and>
    m = min (unat k) n \<and> fat_read C j buf k w = Some (Inr ((of_nat m, splice_at buf 0 (take m src)), y))"
proof -
  let ?fi = "fat_info s" and ?B = "blocks (dev s)" and ?ds = "fat_private_file_desc s" and ?nm = "to_fat_name name"
  define i where "i = first_free ?ds"
  define p where "p = new_slot ?B pre x"
  define B' where "B' = entry_put ?B p (new_entry ?nm)"
  define d where "d = init_desc ?fi (fat_entry ?fi B')
    (found_desc (decode_entry (new_entry ?nm), of_nat (32 * snd p), fst p) (?ds ! i))"
  have g: "good blocks s" and geo: "cluster_geometry ?fi" using S vol by (simp_all add: fat_state_def volume_ok_def)
  have il: "i < length ?ds" "i < MAX_FILE_DESC" using good_length [OF g] assms(4) by (simp_all add: i_def)
  have apart: "set bs \<inter> fat_region ?fi = {}" using dir(2) by blast
  obtain t where t: "fat_open_file C None name mode s = Some (Inr (of_nat i, t))"
    "file_step blocks ready s i d (last_error s) B' t" "fat_state blocks ready t" "file_open ?fi B' [] d 0"
    using live_device.create_file_run [OF dev S geo i_def il(2) dir(1) apart pre x mode p_def [unfolded new_slot_def] B'_def d_def] .
  have lens: "\<forall>b \<in> set bs. length (?B b) = 512"
    using dir(1) live_device.block_len [OF dev] by (auto simp: dir_blocks_def)
  note slot = created_root_slot [OF dir pre x length_to_fat_name [of name] nm lens p_def, folded B'_def]
  have vol': "volume_ok ?fi (ready (dev s)) B'"
    by (rule volume_ok_outside [OF vol]) (use slot(3) dir(2) in \<open>auto simp: B'_def entry_put_def\<close>)
  note eq = file_step_simps [OF t(2)]
  have fd: "unat (of_nat i :: u8) = i" using il(2) by (simp add: unat_of_nat_mod)
  have dt: "fat_private_file_desc t ! unat (of_nat i :: u8) = d" using eq(1) il(1) fd by simp
  have free: "is_free (?ds ! i)" using first_free_free [of ?ds] il(1) by (simp add: i_def)
  then have live: "\<not> is_free d" "\<not> is_stale d"
    using fresh il(1) by (simp_all add: d_def init_desc_def found_desc_def Let_def)
  have idx: "unat (of_nat (32 * snd p) :: u16) = 32 * snd p" using slot(4) by (simp only: unat_of_nat_mod) simp
  have place: "at_place B' p d"
    using slot(2) new_entry_name(1) [of ?nm] idx
    by (simp add: at_place_def d_def init_desc_def found_desc_def Let_def decode_new_entry)
  have fresh': "\<forall>e \<in> set (fat_private_file_desc t). is_free e \<longrightarrow> \<not> is_stale e"
    using fresh live(1) set_update_subset_insert [of ?ds i d] unfolding eq(1) by blast
  have size: "file_size d = 0" "file_bytes ?fi B' [] d = []"
    using t(4) by (simp_all add: file_open_def file_bytes_def)
  have rdy: "file_ready ?fi (ready (dev s)) []" by (simp add: file_ready_def file_blocks_def)
  have l: "unat (of_nat i :: u8) < MAX_FILE_DESC" "0 + unat len < 4294967296" using fd il(2) len(2) by simp_all
  have new: "splice_at [] 0 (take n src) = take n src" for n by (simp add: splice_at_def)
  obtain n u v j w m y where r: "fat_write C (of_nat i) src len t = Some (Inr (of_nat n, u))" "n \<le> unat len"
    "n < unat len \<longrightarrow> (\<forall>c. in_fat ?fi c \<longrightarrow> fat_entry ?fi (blocks (dev u)) c \<noteq> 0)"
    "fat_close C (of_nat i) u = Some (Inr (True, v))" "fat_open_file C None name 0 v = Some (Inr (j, w))"
    "m = min (unat k) n" "fat_read C j buf k w = Some (Inr ((of_nat m, splice_at buf 0 (take m (take n src))), y))"
    using write_close_reopen_run [OF dev t(3) _ l(1) dt live _ _ len l(2) _ _ fresh' room, of "[]" name p bs,
      unfolded eq(2,4,5) size new max_0L add_0, OF vol' t(4) rdy slot(1) place] by blast
  have "take m (take n src) = take m src" using r(6) by (simp add: min_absorb1)
  then show ?thesis using t(1) r by metis
qed

theorem create_write_close_reopen_read_witness:
  "\<exists>fd t n u v j w y. fat_open_file sd_ops None [0x42, 0x2e, 0x54, 0x58, 0x54, 0] O_CREAT small_fs = Some (Inr (fd, t)) \<and>
     fat_write sd_ops fd [0x63, 0x64, 0x65] 3 t = Some (Inr (of_nat n, u)) \<and> n \<le> 3 \<and>
     fat_close sd_ops fd u = Some (Inr (True, v)) \<and>
     fat_open_file sd_ops None [0x42, 0x2e, 0x54, 0x58, 0x54, 0] 0 v = Some (Inr (j, w)) \<and>
     fat_read sd_ops j (replicate 3 0) 3 w = Some (Inr ((of_nat n, splice_at (replicate 3 0) 0 (take n [0x63, 0x64, 0x65])), y))"
proof -
  let ?name = "[0x42, 0x2e, 0x54, 0x58, 0x54, 0] :: bytes"
  let ?nm = "[0x42] @ replicate 7 0x20 @ [0x54, 0x58, 0x54] :: bytes"
  have pre: "\<forall>y \<in> set [(3, 0)]. passed (sd_block small_card) ?nm y"
    using small_first(4) by (simp add: passed_def small_raw small_first)
  have out: "\<forall>b \<in> set [3]. b \<notin> fat_region small_info \<and> unat b < unat (data_offset small_info)"
    using small_root by (simp add: root_slot_def)
  have raw: "raw (sd_block small_card) (3, 1) ! 0 = 0" by (simp add: small_raw [unfolded One_nat_def])
  have mode: "O_CREAT AND O_CREAT \<noteq> 0" by simp
  have nm: "?nm ! 0 \<noteq> 0" "?nm ! 0 \<noteq> 0xe5" by simp_all
  have free: "first_free (fat_private_file_desc small_fs) < MAX_FILE_DESC" using small_free(1) by simp
  have fresh: "\<forall>e \<in> set (fat_private_file_desc small_fs). is_free e \<longrightarrow> \<not> is_stale e"
    by (simp add: small_fs_def free_desc_def)
  have len: "unat (3 :: u16) = 3" by simp
  have room: "(3 :: nat) \<le> length [0x63, 0x64, 0x65 :: u8]" "(3 :: nat) \<le> 65024" "3 \<le> length (replicate 3 (0 :: u8))" by simp_all
  note W = create_write_close_reopen_read [OF sd.live_device_axioms small_fs_state, of "[3]" "[(3, 0)]" "(3, 1)" "map (Pair 3) [2..<16]"
    ?name O_CREAT 3 "[0x63, 0x64, 0x65]" 3 "replicate 3 0", unfolded small_fs_simps small_names len,
    OF small_volume free fresh small_dir out small_slots(2) pre raw mode nm room]
  obtain fd t n u v j w m y where r: "fat_open_file sd_ops None ?name O_CREAT small_fs = Some (Inr (fd, t))"
    "fat_write sd_ops fd [0x63, 0x64, 0x65] 3 t = Some (Inr (of_nat n, u))" "n \<le> 3"
    "fat_close sd_ops fd u = Some (Inr (True, v))" "fat_open_file sd_ops None ?name 0 v = Some (Inr (j, w))" "m = min 3 n"
    "fat_read sd_ops j (replicate 3 0) 3 w = Some (Inr ((of_nat m, splice_at (replicate 3 0) 0 (take m [0x63, 0x64, 0x65])), y))"
    using W by blast
  have "m = n" using r(3,6) by simp
  then show ?thesis using r(1-5,7) by blast
qed

end
