(* ===== verification/FatSafe.thy ===== *)
theory FatSafe
  imports FatOpen FatClose FatSeek
begin

section \<open>Calls on any volume (lib/fat/fat.c)\<close>

text \<open>
  What the operations promise when the card may fail at any time and the volume on it is not
  sound: no access outside of the arrays, and no descriptor but the caller's changes. A file
  allocation table with a cycle may keep them from returning, so the statements are partial.
\<close>

subsection \<open>Invariants that allow a change of one descriptor\<close>

text \<open>The entry of a descriptor lies within a block, and has the eleven bytes of a name.\<close>

definition entry_in_block :: "FileDescriptor \<Rightarrow> bool" where
  "entry_in_block d \<longleftrightarrow> unat (dir_entry_index_in_block d) + DIR_ENTRY_SIZE \<le> CARD_BLOCK_SIZE \<and>
     length (de_filename (dir_entry d)) = 11"

locale desc_invariant = disk_invariant C I for C :: "'d card_ops" and I :: "'d fs \<Rightarrow> bool" +
  fixes own :: nat and ok :: "FileDescriptor \<Rightarrow> bool"
  assumes I_index: "I s \<Longrightarrow> own < length (fat_private_file_desc s)"
    and I_ok: "I s \<Longrightarrow> ok (fat_private_file_desc s ! own)"
    and I_desc: "I s \<Longrightarrow> ok d \<Longrightarrow> I (s\<lparr>fat_private_file_desc := (fat_private_file_desc s)[own := d]\<rparr>)"
begin

lemma keeps_get_desc:
  assumes fd: "unat fd = own"
  shows "I s \<Longrightarrow> wlp (get_desc fd) (\<lambda>_. I) s"
  unfolding get_desc_def fd by (auto simp: wp_simps I_index I_rules)

lemma I_desc_error: "I s \<Longrightarrow> ok d \<Longrightarrow>
    I (s\<lparr>last_error := e, fat_private_file_desc := (fat_private_file_desc s)[own := d]\<rparr>)"
  using I_desc [OF I_error, of s d e] by simp

end

text \<open>The layers below leave the descriptor itself alone.\<close>

sublocale desc_invariant \<subseteq> here: disk_invariant C "\<lambda>s. I s \<and> fat_private_file_desc s ! own = d" for d
  by unfold_locales (auto intro: I_read I_dev I_tag I_error I_buffer simp: I_size)

text \<open>The operations that keep the entry of the descriptor where it is.\<close>

locale entry_invariant = desc_invariant C I own entry_in_block
  for C :: "'d card_ops" and I :: "'d fs \<Rightarrow> bool" and own :: nat
begin

lemmas entry_simps = I_index I_ok [unfolded entry_in_block_def] entry_in_block_def

lemma keeps_seek_begin: "I s \<Longrightarrow> wlp (seek_begin C own) (\<lambda>_. I) s"
  by (auto simp: seek_begin_def wp_simps entry_simps
      intro!: I_desc wlp_mono [OF keeps_read_fat_entry])

lemma keeps_init_fd: "I s \<Longrightarrow> wlp (fat_private_init_fd C own) (\<lambda>_. I) s"
  by (auto simp: fat_private_init_fd_def wp_simps entry_simps
      intro!: I_desc keeps_seek_begin)

lemma keeps_seek_advance: "I s \<Longrightarrow> wlp (seek_advance C own n) (\<lambda>_. I) s"
  by (auto simp: seek_advance_def wp_simps entry_simps
      intro!: I_desc wlp_mono [OF keeps_read_fat_entry])

lemma keeps_truncate_tail: "I s \<Longrightarrow> wlp (truncate_tail C own) (\<lambda>_. I) s"
  by (auto simp: truncate_tail_def wp_simps Let_def entry_simps
      intro!: I_desc wlp_mono [OF keeps_write_fat_entry] wlp_mono [OF keeps_free_cluster_chain])

lemma keeps_seek_end_loop: "I s \<Longrightarrow> wlp (seek_end_loop C own) (\<lambda>_. I) s"
proof -
  have "D = C \<longrightarrow> i = own \<longrightarrow> I s \<longrightarrow> (\<exists>a t. r = Inr (a, t) \<and> I t)"
    if "seek_end_loop D i s = Some r" for D :: "'d card_ops" and i s r
  proof (rule seek_end_loop.raw_induct [OF _ that], intro impI)
    fix f :: "'d card_ops \<Rightarrow> nat \<Rightarrow> ('d fs, bool) cmd" and D i s r
    assume IH: "\<And>D i s r. f D i s = Some r \<Longrightarrow> D = C \<longrightarrow> i = own \<longrightarrow> I s \<longrightarrow> (\<exists>a t. r = Inr (a, t) \<and> I t)"
      and body: "bnd (pfd i) (\<lambda>d.
        if next_cluster d < FAT_MIN_LAST_CLUSTER then
          andthen (upd_pfd i (\<lambda>d. d\<lparr>cur_cluster := next_cluster d\<rparr>))
          (bnd (read_fat_entry D (next_cluster d)) (\<lambda>n.
           andthen (upd_pfd i (\<lambda>d. d\<lparr>next_cluster := n\<rparr>))
           (if n = 0 then ret False else f D i)))
        else ret True) s = Some r"
      and D: "D = C" "i = own" and s: "I s"
    have f: "I t \<Longrightarrow> wlp (f C own) (\<lambda>_. I) t" for t
      using IH unfolding wlp_iff by blast
    have "wlp (bnd (pfd own) (\<lambda>d.
        if next_cluster d < FAT_MIN_LAST_CLUSTER then
          andthen (upd_pfd own (\<lambda>d. d\<lparr>cur_cluster := next_cluster d\<rparr>))
          (bnd (read_fat_entry C (next_cluster d)) (\<lambda>n.
           andthen (upd_pfd own (\<lambda>d. d\<lparr>next_cluster := n\<rparr>))
           (if n = 0 then ret False else f C own)))
        else ret True)) (\<lambda>_. I) s"
      using s by (auto simp: wp_simps entry_simps
          intro!: I_desc f wlp_mono [OF keeps_read_fat_entry])
    with body D show "\<exists>a t. r = Inr (a, t) \<and> I t"
      unfolding wlp_iff by auto
  qed
  then show "I s \<Longrightarrow> wlp (seek_end_loop C own) (\<lambda>_. I) s"
    unfolding wlp_iff by blast
qed

lemma keeps_seek_loop: "I s \<Longrightarrow> wlp (seek_loop C own b off) (\<lambda>_. I) s"
proof -
  have "D = C \<longrightarrow> i = own \<longrightarrow> I s \<longrightarrow> (\<exists>a t. r = Inr (a, t) \<and> I t)"
    if "seek_loop D i b off s = Some r" for D :: "'d card_ops" and i b off s r
  proof (rule seek_loop.raw_induct [OF _ that], intro impI)
    fix f :: "'d card_ops \<Rightarrow> nat \<Rightarrow> u16 \<Rightarrow> u32 \<Rightarrow> ('d fs, u32 option) cmd" and D i b off s r
    assume IH: "\<And>D i b off s r. f D i b off s = Some r \<Longrightarrow>
        D = C \<longrightarrow> i = own \<longrightarrow> I s \<longrightarrow> (\<exists>a t. r = Inr (a, t) \<and> I t)"
      and body: "(if ucast b < off then
        bnd (pfd i) (\<lambda>d.
        andthen (upd_pfd i (\<lambda>d. d\<lparr>cur_cluster := next_cluster d\<rparr>))
        (bnd (read_fat_entry D (next_cluster d)) (\<lambda>n.
         andthen (upd_pfd i (\<lambda>d. d\<lparr>next_cluster := n\<rparr>))
         (if n = 0 then ret None else f D i b (off - ucast b))))) s
        else ret (Some off) s) = Some r"
      and D: "D = C" "i = own" and s: "I s"
    have f: "I t \<Longrightarrow> wlp (f C own b off) (\<lambda>_. I) t" for b off t
      using IH unfolding wlp_iff by blast
    have "wlp (if ucast b < off then
        bnd (pfd own) (\<lambda>d.
        andthen (upd_pfd own (\<lambda>d. d\<lparr>cur_cluster := next_cluster d\<rparr>))
        (bnd (read_fat_entry C (next_cluster d)) (\<lambda>n.
         andthen (upd_pfd own (\<lambda>d. d\<lparr>next_cluster := n\<rparr>))
         (if n = 0 then ret None else f C own b (off - ucast b)))))
        else ret (Some off)) (\<lambda>_. I) s"
      using s by (auto simp: wp_simps entry_simps
          intro!: I_desc f wlp_mono [OF keeps_read_fat_entry])
    with body D show "\<exists>a t. r = Inr (a, t) \<and> I t"
      unfolding wlp_iff by (auto split: if_splits)
  qed
  then show "I s \<Longrightarrow> wlp (seek_loop C own b off) (\<lambda>_. I) s"
    unfolding wlp_iff by blast
qed

lemma keeps_fat_seek_end:
  assumes fd: "unat fd = own"
  shows "I s \<Longrightarrow> wlp (fat_seek_end C fd) (\<lambda>_. I) s"
  unfolding fat_seek_end_def Let_def fd
  by (auto simp: wp_simps entry_simps
      intro!: wlp_mono [OF keeps_get_desc [OF fd]] wlp_mono [OF keeps_seek_end_loop] I_desc)

lemma keeps_fat_seek:
  assumes fd: "unat fd = own"
  shows "I s \<Longrightarrow> wlp (fat_seek C fd off) (\<lambda>_. I) s"
  unfolding fat_seek_def Let_def fd
  by (auto simp: wp_simps entry_simps split: option.splits
      intro!: wlp_mono [OF keeps_get_desc [OF fd]] wlp_mono [OF keeps_seek_begin] wlp_mono [OF keeps_seek_loop]
        I_desc keeps_fat_seek_end [OF fd])

lemma keeps_fat_truncate:
  assumes fd: "unat fd = own"
  shows "I s \<Longrightarrow> wlp (fat_truncate C fd) (\<lambda>_. I) s"
  unfolding fat_truncate_def Let_def fd
  by (auto simp: wp_simps entry_simps split: option.splits
      intro!: wlp_mono [OF keeps_get_desc [OF fd]] wlp_mono [OF keeps_free_cluster_chain]
        wlp_mono [OF keeps_find_parent_cluster] keeps_truncate_tail I_desc)

lemma keeps_fat_close:
  assumes fd: "unat fd = own"
  shows "I s \<Longrightarrow> wlp (fat_close C fd) (\<lambda>_. I) s"
  unfolding fat_close_def fd
  by (auto simp: wp_simps entry_simps I_rules
      intro!: wlp_mono [OF keeps_cache] wlp_mono [OF keeps_flush_cache] I_desc I_desc_error I_buffer)

end

subsection \<open>Reading from a position in the file\<close>

text \<open>The bytes of the last cluster from the current block on, as \<open>fat_action\<close> computes them.\<close>

definition left_over :: "FileDescriptor \<Rightarrow> u16" where
  "left_over d = last_cluster_len d - push_bit 9 (ucast (block_in_cluster d))"

text \<open>The position is within a block and, in the last block of the file, not behind its end.\<close>

definition placed :: "FileDescriptor \<Rightarrow> bool" where
  "placed d \<longleftrightarrow> unat (index_in_block d) < CARD_BLOCK_SIZE \<and>
     (FAT_MIN_LAST_CLUSTER \<le> next_cluster d \<and> left_over d \<le> 512 \<longrightarrow> index_in_block d \<le> left_over d)"

text \<open>A transfer of \<open>n\<close> bytes from there stays within the block and the file.\<close>

definition fits_in :: "FileDescriptor \<Rightarrow> u16 \<Rightarrow> bool" where
  "fits_in d n \<longleftrightarrow> unat (index_in_block d) + unat n \<le> CARD_BLOCK_SIZE \<and>
     (FAT_MIN_LAST_CLUSTER \<le> next_cluster d \<and> left_over d \<le> 512 \<longrightarrow>
       unat (index_in_block d) + unat n \<le> unat (left_over d))"

lemma fits_in_plus: "fits_in d n \<Longrightarrow> unat (index_in_block d + n) = unat (index_in_block d) + unat n"
  by (subst unat_plus_if_size) (simp add: fits_in_def word_size)

lemma chunk_fits:
  assumes p: "placed d" and i: "fat_private_file_desc s ! i = d" "i < length (fat_private_file_desc s)"
  shows "wlp (next_chunk i False len) (\<lambda>n t. t = s \<and> fits_in d n \<and> n \<le> len) s"
proof -
  define q where "q = (if FAT_MIN_LAST_CLUSTER \<le> next_cluster d \<and> left_over d \<le> 512
    then left_over d - index_in_block d else 512 - index_in_block d)"
  have q: "fits_in d q"
    using p unfolding placed_def fits_in_def q_def
    by (auto simp: unat_sub word_le_nat_alt)
  have "fits_in d (if len < q then len else q)"
    using q unfolding fits_in_def by (auto simp: word_less_nat_alt)
  then show ?thesis
    using i by (auto simp: next_chunk_def wp_simps Let_def q_def left_over_def)
qed

lemma placed_start: "index_in_block d = 0 \<Longrightarrow> placed d"
  by (simp add: placed_def)

lemma placed_after:
  assumes "fits_in d n" and "index_in_block d + n \<noteq> 512"
  shows "placed (d\<lparr>index_in_block := index_in_block d + n, abs_offset := a\<rparr>)"
  using assms fits_in_plus [OF assms(1)]
  by (auto simp: placed_def fits_in_def left_over_def word_le_nat_alt word_unat_eq_iff)

locale place_invariant = desc_invariant C I own placed
  for C :: "'d card_ops" and I :: "'d fs \<Rightarrow> bool" and own :: nat
begin

lemma keeps_seek_advance_fits:
  assumes s: "I s" and n: "fits_in (fat_private_file_desc s ! own) n"
  shows "wlp (seek_advance C own n) (\<lambda>_. I) s"
  using s placed_after [OF n]
  by (auto simp: seek_advance_def wp_simps I_index placed_start
      intro!: I_desc wlp_mono [OF here.keeps_read_fat_entry])

lemma keeps_read_loop:
  assumes "I s" and "pos + unat len \<le> length data"
  shows "wlp (fat_action_loop C own False data pos len result) (\<lambda>r t. I t \<and> length (snd r) = length data) s"
proof -
  have "D = C \<longrightarrow> i = own \<longrightarrow> \<not> w \<longrightarrow> pos + unat len \<le> length data \<longrightarrow> I s \<longrightarrow>
      (\<exists>a t. r = Inr (a, t) \<and> I t \<and> length (snd a) = length data)"
    if "fat_action_loop D i w data pos len result s = Some r" for D :: "'d card_ops" and i w data pos len result s r
  proof (rule fat_action_loop.raw_induct [OF _ that], intro impI)
    fix f :: "'d card_ops \<Rightarrow> nat \<Rightarrow> bool \<Rightarrow> bytes \<Rightarrow> nat \<Rightarrow> u16 \<Rightarrow> u16 \<Rightarrow> ('d fs, u16 \<times> bytes) cmd"
      and D i w data pos len result s r
    let ?body = "\<lambda>D i w. bnd (next_chunk i w len) (\<lambda>chunk_len.
         bnd (pfd i) (\<lambda>d.
         if chunk_len = 0 then
           andthen (if abs_offset d = de_size (dir_entry d) then set_last_error FAT_EOF else ret ()) (ret (result, data))
         else
           or_return (cache D (block_addr d)) (result, data)
           (bnd (transfer D w (unat (index_in_block d)) data pos (unat chunk_len)) (\<lambda>x.
            if \<not> fst x then ret (result, snd x)
            else
              or_return (seek_advance D i chunk_len) (result, snd x)
              (f D i w (snd x) (pos + unat chunk_len) (len - chunk_len) (result + chunk_len))))))"
    assume IH: "\<And>D i w data pos len result s r. f D i w data pos len result s = Some r \<Longrightarrow>
        D = C \<longrightarrow> i = own \<longrightarrow> \<not> w \<longrightarrow> pos + unat len \<le> length data \<longrightarrow> I s \<longrightarrow>
        (\<exists>a t. r = Inr (a, t) \<and> I t \<and> length (snd a) = length data)"
      and body: "(if len \<noteq> 0 then
        or_return (first_cluster D i w) (result, data)
        (or_return (append_cluster D i w) (result, data) (?body D i w)) s
        else ret (result, data) s) = Some r"
      and D: "D = C" "i = own" "\<not> w" and fits: "pos + unat len \<le> length data" and s: "I s"
    have w: "w = False" using D(3) by simp
    let ?Q = "\<lambda>r t. I t \<and> length (snd r) = length data"
    let ?d = "fat_private_file_desc s ! own"
    have f: "wlp (f C own False xs p n q) ?Q t" if "I t" "p + unat n \<le> length xs" "length xs = length data" for xs p n q t
      unfolding wlp_iff using IH [of C own False xs p n q t] that by auto
    have chunk: "wlp (next_chunk own False len) (\<lambda>n t. t = s \<and> fits_in ?d n \<and> n \<le> len) s"
      using chunk_fits [OF I_ok [OF s] refl I_index [OF s]] .
    have "wlp (?body C own False) ?Q s"
    proof (rule wlp_bndI [OF chunk], elim conjE)
      fix n t
      assume t: "t = s" and n: "fits_in ?d n" "n \<le> len"
      have un: "unat (len - n) = unat len - unat n" "unat n \<le> unat len"
        using n(2) by (simp_all add: unat_sub word_le_nat_alt)
      have adv: "I u \<Longrightarrow> fat_private_file_desc u ! own = ?d \<Longrightarrow> wlp (seek_advance C own n) (\<lambda>_. I) u" for u
        using keeps_seek_advance_fits n(1) by simp
      have room: "unat (index_in_block ?d) + unat n \<le> CARD_BLOCK_SIZE" using n(1) by (simp add: fits_in_def)
      show "wlp (bnd (pfd own) (\<lambda>d. if n = 0 then
           andthen (if abs_offset d = de_size (dir_entry d) then set_last_error FAT_EOF else ret ()) (ret (result, data))
         else or_return (cache C (block_addr d)) (result, data)
           (bnd (transfer C False (unat (index_in_block d)) data pos (unat n)) (\<lambda>x.
            if \<not> fst x then ret (result, snd x)
            else or_return (seek_advance C own n) (result, snd x)
              (f C own False (snd x) (pos + unat n) (len - n) (result + n)))))) ?Q t"
        unfolding t using s fits un room
        by (auto simp: wp_simps I_index I_size I_error transfer_def intro!: f wlp_mono [OF adv] wlp_mono [OF here.keeps_cache])
    qed
    then have "wlp (if len \<noteq> 0 then
        or_return (first_cluster C own False) (result, data)
        (or_return (append_cluster C own False) (result, data) (?body C own False))
        else ret (result, data)) ?Q s"
      using s by (simp add: first_cluster_def append_cluster_def wp_simps I_index)
    moreover have "(if len \<noteq> 0 then
        or_return (first_cluster C own False) (result, data)
        (or_return (append_cluster C own False) (result, data) (?body C own False))
        else ret (result, data)) s = Some r"
      using body unfolding D(1,2) w by (cases "len = 0") simp_all
    ultimately show "\<exists>a t. r = Inr (a, t) \<and> I t \<and> length (snd a) = length data"
      unfolding wlp_iff by blast
  qed
  with assms show ?thesis
    unfolding wlp_iff by blast
qed

lemma keeps_fat_read:
  assumes fd: "unat fd = own" and s: "I s" and len: "unat len \<le> length dst"
  shows "wlp (fat_read C fd dst len) (\<lambda>r t. I t \<and> length (snd r) = length dst) s"
  unfolding fat_read_def fat_action_def fd
  using s len by (auto simp: wp_simps intro!: wlp_mono [OF keeps_get_desc [OF fd]] keeps_read_loop)

end

subsection \<open>Looking a name up\<close>

definition found_in_block :: "found \<Rightarrow> bool" where
  "found_in_block r \<longleftrightarrow> length (de_filename (fst r)) = 11 \<and> unat (fst (snd r)) + DIR_ENTRY_SIZE \<le> CARD_BLOCK_SIZE"

definition slot_in_block :: "slot \<Rightarrow> bool" where
  "slot_in_block w \<longleftrightarrow> (\<forall>b i. w = Some (b, i) \<longrightarrow> i < 16)"

lemma found_at_in_block: "length xs = DIR_ENTRY_SIZE \<Longrightarrow> i < 16 \<Longrightarrow> found_in_block (found_at xs i b)"
proof -
  assume i: "i < 16"
  have "push_bit 5 (of_nat i) = (of_nat (32 * i) :: u16)" by (simp add: push_bit_eq_mult mult.commute)
  moreover have "unat (of_nat (32 * i) :: u16) = 32 * i" using i by (subst unat_of_nat_mod) simp
  ultimately have "unat (push_bit 5 (of_nat i :: u16)) = 32 * i" by simp
  then show "length xs = DIR_ENTRY_SIZE \<Longrightarrow> found_in_block (found_at xs i b)"
    using i by (simp add: found_in_block_def found_at_def decode_entry_def)
qed

abbreviation found_ok :: "found option \<Rightarrow> bool" where
  "found_ok \<equiv> pred_option found_in_block"

context disk_invariant
begin

lemma keeps_create_entry:
  assumes "length fat_name = 11" and "si < 16"
  shows "I s \<Longrightarrow> wlp (create_entry C fat_name b sb si) (\<lambda>r t. I t \<and> found_ok r) s"
  using assms
  by (auto simp: create_entry_def wp_simps I_size I_buffer found_at_in_block
      intro!: wlp_mono [OF keeps_cache] wlp_mono [OF keeps_flush_cache] I_buffer)

lemma keeps_find_in_block:
  assumes "length fat_name = 11" and "slot_in_block slot" and "i + n \<le> 16" and "I s"
  shows "wlp (find_in_block C fat_name mode b i n slot) (\<lambda>w t. I t \<and>
    (case w of Return r \<Rightarrow> found_ok r | Go slot' \<Rightarrow> slot_in_block slot')) s"
  using assms(2,3,4)
proof (induction n arbitrary: i slot)
  case 0
  then show ?case by (simp add: wlp_def)
next
  case (Suc n)
  have c: "si < 16 \<Longrightarrow> wlp (create_entry C fat_name b sb si) (\<lambda>r t. I t \<and> found_ok r) s" for sb si
    using keeps_create_entry [OF assms(1) _ Suc.prems(3)] .
  have *: "slot = Some (sb, si) \<Longrightarrow> si < 16" for sb si using Suc.prems by (simp add: slot_in_block_def)
  have IH: "wlp (find_in_block C fat_name mode b (Suc i) n w) (\<lambda>w t. I t \<and>
    (case w of Return r \<Rightarrow> found_ok r | Go slot' \<Rightarrow> slot_in_block slot')) s" if "slot_in_block w" for w
    using Suc.IH [OF that] Suc.prems by simp
  have new: "slot_in_block (if slot = None then Some (b, i) else slot)"
    using Suc.prems by (simp add: slot_in_block_def)
  show ?case
    using Suc.prems IH [OF new] IH [OF Suc.prems(1)]
    by (auto simp: wp_simps I_size I_error found_at_in_block split: option.splits
        intro!: wlp_mono [OF c] dest: *)
qed

lemma keeps_find_in_cluster:
  assumes name: "length fat_name = 11"
  shows "slot_in_block slot \<Longrightarrow> I s \<Longrightarrow> wlp (find_in_cluster C fat_name mode b n slot) (\<lambda>w t. I t \<and>
    (case w of Return r \<Rightarrow> found_ok r | Go x \<Rightarrow> slot_in_block (snd x))) s"
proof (induction n arbitrary: b slot s)
  case 0
  then show ?case by (simp add: wlp_def)
next
  case (Suc n)
  have blk: "I t \<Longrightarrow> wlp (find_in_block C fat_name mode b 0 16 slot) (\<lambda>w t. I t \<and>
    (case w of Return r \<Rightarrow> found_ok r | Go slot' \<Rightarrow> slot_in_block slot')) t" for t
    using keeps_find_in_block [OF name Suc.prems(1)] by simp
  show ?case
    using Suc.prems Suc.IH
    by (auto simp: wp_simps split: flow.splits intro!: wlp_mono [OF keeps_cache] wlp_mono [OF blk])
qed

lemma keeps_find_loop:
  assumes "length fat_name = 11" and "slot_in_block slot" and "I s"
  shows "wlp (find_loop C fat_name mode root b cluster slot) (\<lambda>r t. I t \<and> found_ok r) s"
proof -
  have "D = C \<longrightarrow> length nm = 11 \<longrightarrow> slot_in_block slot \<longrightarrow> I s \<longrightarrow> (\<exists>a t. r = Inr (a, t) \<and> I t \<and> found_ok a)"
    if "find_loop D nm m rt b c slot s = Some r" for D :: "'d card_ops" and nm m rt b c slot s r
  proof (rule find_loop.raw_induct [OF _ that], intro impI)
    fix f :: "'d card_ops \<Rightarrow> bytes \<Rightarrow> u8 \<Rightarrow> bool \<Rightarrow> u32 \<Rightarrow> u16 \<Rightarrow> slot \<Rightarrow> ('d fs, found option) cmd"
      and D nm m rt b c slot s r
    let ?scan = "\<lambda>D. bnd (gets fat_info) (\<lambda>fi.
        bnd (if rt then ret c else read_fat_entry D c) (\<lambda>c'.
        if \<not> rt \<and> c' = 0 then ret None
        else bnd (find_in_cluster D nm m (if rt then b else cluster_addr fi c) (unat (sectors_per_cluster fi)) slot) (\<lambda>w.
          case w of Return r \<Rightarrow> ret r | Go x \<Rightarrow> f D nm m rt (fst x) c' (snd x))))"
    let ?miss = "andthen (set_last_error (if m AND O_CREAT \<noteq> 0 then FAT_ERROR_DIR_FULL else FAT_ERROR_NOT_FOUND)) (ret None)"
    assume IH: "\<And>D nm m rt b c slot s r. f D nm m rt b c slot s = Some r \<Longrightarrow>
        D = C \<longrightarrow> length nm = 11 \<longrightarrow> slot_in_block slot \<longrightarrow> I s \<longrightarrow> (\<exists>a t. r = Inr (a, t) \<and> I t \<and> found_ok a)"
      and body: "(if rt \<or> c < FAT_MIN_LAST_CLUSTER then ?scan D s else ?miss s) = Some r"
      and D: "D = C" and name: "length nm = 11" and slot: "slot_in_block slot" and s: "I s"
    have f: "slot_in_block slot \<Longrightarrow> I t \<Longrightarrow> wlp (f C nm m q b c slot) (\<lambda>r t. I t \<and> found_ok r) t"
      for q b c slot t
      using IH [of C nm] name unfolding wlp_iff by blast
    have "wlp (?scan C) (\<lambda>r t. I t \<and> found_ok r) s"
      using s slot
      by (auto simp: wp_simps split: flow.splits
          intro!: f wlp_mono [OF keeps_read_fat_entry] wlp_mono [OF keeps_find_in_cluster [OF name slot]])
    moreover have "wlp ?miss (\<lambda>r t. I t \<and> found_ok r) s" using s by (simp add: wp_simps I_error)
    ultimately show "\<exists>a t. r = Inr (a, t) \<and> I t \<and> found_ok a"
      using body unfolding D wlp_iff by (cases "rt \<or> c < FAT_MIN_LAST_CLUSTER") simp_all
  qed
  with assms show ?thesis
    unfolding wlp_iff by blast
qed

lemma keeps_find_file: "I s \<Longrightarrow> wlp (fat_private_find_file C dir name mode) (\<lambda>r t. I t \<and> found_ok r) s"
  unfolding fat_private_find_file_def Let_def
  by (auto simp: wp_simps slot_in_block_def intro!: keeps_find_loop)

end

text \<open>Opening works on a descriptor whose entry may still be anything.\<close>

subsection \<open>Listing a directory\<close>

text \<open>The position is that of an entry.\<close>

definition at_entry :: "FileDescriptor \<Rightarrow> bool" where
  "at_entry d \<longleftrightarrow> (\<exists>k < 16. unat (index_in_block d) = DIR_ENTRY_SIZE * k)"

lemma at_entry_start: "index_in_block d = 0 \<Longrightarrow> at_entry d"
  by (auto simp: at_entry_def)

lemma at_entry_room: "at_entry d \<Longrightarrow> unat (index_in_block d) + DIR_ENTRY_SIZE \<le> CARD_BLOCK_SIZE"
  by (auto simp: at_entry_def)

lemma at_entry_after:
  assumes d: "at_entry d" and e: "index_in_block d + 32 \<noteq> 512"
  shows "at_entry (d\<lparr>index_in_block := index_in_block d + 32, abs_offset := a\<rparr>)"
proof -
  obtain k where k: "k < 16" "unat (index_in_block d) = DIR_ENTRY_SIZE * k"
    using d by (auto simp: at_entry_def)
  have s: "unat (index_in_block d + 32) = DIR_ENTRY_SIZE * Suc k"
    using k by (subst unat_plus_if_size) (simp add: word_size)
  then have "Suc k \<noteq> 16" using e by (auto simp: word_unat_eq_iff)
  then show ?thesis using k s by (auto simp: at_entry_def intro!: exI [of _ "Suc k"])
qed

locale dir_invariant = desc_invariant C I own at_entry
  for C :: "'d card_ops" and I :: "'d fs \<Rightarrow> bool" and own :: nat
begin

lemma keeps_seek_advance_entry:
  assumes s: "I s"
  shows "wlp (seek_advance C own 32) (\<lambda>_. I) s"
  using s at_entry_after [OF I_ok [OF s]]
  by (auto simp: seek_advance_def wp_simps I_index at_entry_start
      intro!: I_desc wlp_mono [OF here.keeps_read_fat_entry])

lemma keeps_next_entry_loop:
  assumes "I s"
  shows "wlp (next_entry_loop C own dst skip) (\<lambda>_. I) s"
proof -
  have "D = C \<longrightarrow> i = own \<longrightarrow> I s \<longrightarrow> (\<exists>a t. r = Inr (a, t) \<and> I t)"
    if "next_entry_loop D i dst skip s = Some r" for D :: "'d card_ops" and i dst skip s r
  proof (rule next_entry_loop.raw_induct [OF _ that], intro impI)
    fix f :: "'d card_ops \<Rightarrow> nat \<Rightarrow> FatDirEntry \<Rightarrow> u8 \<Rightarrow> ('d fs, bool \<times> FatDirEntry) cmd" and D i dst skip s r
    let ?body = "\<lambda>D i. bnd (pfd i) (\<lambda>d.
     or_return (cache D (block_addr d)) (False, dst)
     (bnd (peek_bytes (unat (index_in_block d)) DIR_ENTRY_SIZE) (\<lambda>xs.
      or_return (seek_advance D i 32) (False, decode_entry xs)
      (if xs ! 0 = 0 then ret (False, decode_entry xs)
       else if xs ! 0 = 0xe5 then f D i (decode_entry xs) skip
       else if de_attrs (decode_entry xs) = 0x0f then f D i (decode_entry xs) skip
       else if de_attrs (decode_entry xs) AND skip \<noteq> 0 then f D i (decode_entry xs) skip
       else ret (True, decode_entry xs)))))"
    assume IH: "\<And>D i dst skip s r. f D i dst skip s = Some r \<Longrightarrow> D = C \<longrightarrow> i = own \<longrightarrow> I s \<longrightarrow> (\<exists>a t. r = Inr (a, t) \<and> I t)"
      and body: "?body D i s = Some r" and D: "D = C" "i = own" and s: "I s"
    have f: "I t \<Longrightarrow> wlp (f C own dst skip) (\<lambda>_. I) t" for dst t
      using IH unfolding wlp_iff by blast
    have "wlp (?body C own) (\<lambda>_. I) s"
      using s at_entry_room [OF I_ok [OF s]]
      by (auto simp: wp_simps I_index I_size Let_def intro!: f wlp_mono [OF keeps_seek_advance_entry] wlp_mono [OF keeps_cache])
    then show "\<exists>a t. r = Inr (a, t) \<and> I t"
      using body unfolding D wlp_iff by blast
  qed
  with assms show ?thesis
    unfolding wlp_iff by blast
qed

lemma keeps_next_dir_entry:
  assumes fd: "unat fd = own"
  shows "I s \<Longrightarrow> wlp (fat_get_next_dir_entry C fd dst skip) (\<lambda>_. I) s"
  unfolding fat_get_next_dir_entry_def fd
  by (auto simp: wp_simps I_error intro!: keeps_next_entry_loop wlp_mono [OF keeps_get_desc [OF fd]])

end

subsection \<open>Only one descriptor changes\<close>

definition only_changes :: "nat \<Rightarrow> 'd fs \<Rightarrow> 'd fs \<Rightarrow> bool" where
  "only_changes i s t \<longleftrightarrow> wf_fs t \<and> fat_info t = fat_info s \<and>
     (\<forall>j < MAX_FILE_DESC. j \<noteq> i \<longrightarrow> fat_private_file_desc t ! j = fat_private_file_desc s ! j)"

text \<open>Seen from \<open>s\<close>, only descriptor \<open>i\<close> has changed, and it satisfies \<open>ok\<close>.\<close>

definition own_frame :: "(FileDescriptor \<Rightarrow> bool) \<Rightarrow> nat \<Rightarrow> 'd fs \<Rightarrow> 'd fs \<Rightarrow> bool" where
  "own_frame ok i s t \<longleftrightarrow> only_changes i s t \<and> i < MAX_FILE_DESC \<and> ok (fat_private_file_desc t ! i)"

lemmas frame_defs = own_frame_def only_changes_def wf_fs_def

context sized_card
begin

lemma own_frame_invariant: "desc_invariant C (own_frame ok i s0) i ok"
  by unfold_locales (auto simp: frame_defs dest: read_len)

end

sublocale sized_card \<subseteq> entry: entry_invariant C "own_frame entry_in_block i s0" i for i s0
  unfolding entry_invariant_def by (rule own_frame_invariant)

sublocale sized_card \<subseteq> place: place_invariant C "own_frame placed i s0" i for i s0
  unfolding place_invariant_def by (rule own_frame_invariant)

sublocale sized_card \<subseteq> dir: dir_invariant C "own_frame at_entry i s0" i for i s0
  unfolding dir_invariant_def by (rule own_frame_invariant)

context sized_card
begin

lemmas seek_any = entry.keeps_fat_seek
lemmas seek_end_any = entry.keeps_fat_seek_end
lemmas truncate_any = entry.keeps_fat_truncate
lemmas close_any = entry.keeps_fat_close
lemmas read_any = place.keeps_fat_read
lemmas listing_any = dir.keeps_next_dir_entry

end

lemma own_frame_start: "wf_fs s \<Longrightarrow> i < MAX_FILE_DESC \<Longrightarrow> ok (fat_private_file_desc s ! i) \<Longrightarrow> own_frame ok i s s"
  by (simp add: frame_defs)

subsection \<open>Opening\<close>

text \<open>A descriptor as \<open>fat_private_init_fd\<close> leaves it.\<close>

definition opened :: "FileDescriptor \<Rightarrow> bool" where
  "opened d \<longleftrightarrow> \<not> is_free d \<and> entry_in_block d \<and> index_in_block d = 0"

lemma opened_ready: "opened d \<Longrightarrow> entry_in_block d \<and> placed d \<and> at_entry d"
  by (simp add: opened_def placed_start at_entry_start)

context sized_card
begin

lemma init_fd_opens:
  assumes s: "own_frame (\<lambda>d. \<not> is_free d \<and> entry_in_block d) i s0 s"
  shows "wlp (fat_private_init_fd C i) (\<lambda>_. own_frame opened i s0) s"
proof -
  have read: "own_frame opened i s0 u \<Longrightarrow> wlp (read_fat_entry C c) (\<lambda>_. own_frame opened i s0) u" for u c
    by (rule disk_invariant.keeps_read_fat_entry [OF desc_invariant.axioms(1) [OF own_frame_invariant]])
  have i: "i < length (fat_private_file_desc s)" using s by (simp add: frame_defs)
  show ?thesis
    using s i unfolding fat_private_init_fd_def seek_begin_def
    by (auto simp: wp_simps frame_defs opened_def entry_in_block_def intro!: wlp_mono [OF read])
qed

lemma open_file_opens:
  assumes wf: "wf_fs s" and i: "i = first_free (fat_private_file_desc s)"
  shows "wlp (fat_open_file C dir name mode) (\<lambda>fd t. only_changes i s t \<and>
    (if fd = FAT_BAD_DESC then i < MAX_FILE_DESC \<longrightarrow> is_free (fat_private_file_desc t ! i)
     else unat fd = i \<and> own_frame opened i s t)) s" (is "wlp _ ?Q _")
proof (cases "i < MAX_FILE_DESC")
  case False
  then have "i = MAX_FILE_DESC" using wf i first_free_le [of "fat_private_file_desc s"] by (simp add: wf_fs_def)
  then show ?thesis
    using wf i by (simp add: fat_open_file_def fat_private_get_free_fd_def wp_simps only_changes_def wf_fs_def)
next
  case True
  then have u: "unat (of_nat i :: u8) = i" by (simp add: unat_of_nat_mod)
  have bad: "(of_nat i :: u8) \<noteq> FAT_BAD_DESC" using unat_bad_desc [OF True u] .
  let ?s1 = "s\<lparr>fat_private_file_desc := (fat_private_file_desc s)[i := (fat_private_file_desc s ! i)\<lparr>is_free := False\<rparr>]\<rparr>"
  have s1: "own_frame (\<lambda>d. \<not> is_free d) i s ?s1" using wf True by (simp add: frame_defs)
  have len: "own_frame ok i s t \<Longrightarrow> i < length (fat_private_file_desc t)" for ok t by (simp add: frame_defs)
  have fail: "own_frame ok i s t \<Longrightarrow> wlp (andthen (upd_pfd i (\<lambda>d. d\<lparr>is_free := True\<rparr>)) (ret FAT_BAD_DESC)) ?Q t" for ok t
    using len by (auto simp: wp_simps frame_defs)
  note find = disk_invariant.keeps_find_file [OF desc_invariant.axioms(1) [OF own_frame_invariant] s1]
  have stored: "own_frame (\<lambda>d. \<not> is_free d) i s t \<Longrightarrow> found_in_block w \<Longrightarrow>
      wlp (store_found i w) (\<lambda>_. own_frame (\<lambda>d. \<not> is_free d \<and> entry_in_block d) i s) t" for w t
    using len by (auto simp: store_found_def wp_simps frame_defs found_in_block_def entry_in_block_def)
  have done': "own_frame opened i s t \<Longrightarrow> ?Q (of_nat i) t" for t
    using bad u by (auto simp: own_frame_def)
  have found: "wlp (bnd (fat_private_find_file C dir name mode) (\<lambda>r. case r of
          None \<Rightarrow> andthen (upd_pfd i (\<lambda>d. d\<lparr>is_free := True\<rparr>)) (ret FAT_BAD_DESC)
        | Some w \<Rightarrow> andthen (store_found i w) (bnd (fat_private_init_fd C i) (\<lambda>ok. if ok then ret (of_nat i)
            else andthen (upd_pfd i (\<lambda>d. d\<lparr>is_free := True\<rparr>)) (ret FAT_BAD_DESC))))) ?Q ?s1"
  proof (rule wlp_bndI [OF find], elim conjE)
    fix r t
    assume t: "own_frame (\<lambda>d. \<not> is_free d) i s t" and r: "found_ok r"
    show "wlp (case r of None \<Rightarrow> andthen (upd_pfd i (\<lambda>d. d\<lparr>is_free := True\<rparr>)) (ret FAT_BAD_DESC)
        | Some w \<Rightarrow> andthen (store_found i w) (bnd (fat_private_init_fd C i) (\<lambda>ok. if ok then ret (of_nat i)
            else andthen (upd_pfd i (\<lambda>d. d\<lparr>is_free := True\<rparr>)) (ret FAT_BAD_DESC)))) ?Q t"
    proof (cases r)
      case None
      then show ?thesis using fail [OF t] by simp
    next
      case (Some w)
      then have w: "found_in_block w" using r by simp
      have ini: "wlp (bnd (fat_private_init_fd C i) (\<lambda>ok. if ok then ret (of_nat i)
          else andthen (upd_pfd i (\<lambda>d. d\<lparr>is_free := True\<rparr>)) (ret FAT_BAD_DESC))) ?Q u"
        if "own_frame (\<lambda>d. \<not> is_free d \<and> entry_in_block d) i s u" for u
        by (rule wlp_bndI [OF init_fd_opens [OF that]]) (use fail done' in \<open>simp add: wlp_ret\<close>)
      show ?thesis unfolding Some option.case by (rule wlp_bndI [OF stored [OF t w] ini])
    qed
  qed
  have "wlp fat_private_get_free_fd (\<lambda>fd t. fd = of_nat i \<and> t = ?s1) s"
    using wf i True by (simp add: fat_private_get_free_fd_def wp_simps wf_fs_def)
  then show ?thesis
    unfolding fat_open_file_def Let_def
    by (rule wlp_bndI) (use bad u found in \<open>simp only: if_False\<close>)
qed

end

subsection \<open>A position behind the end\<close>

context live_device
begin

text \<open>The difference to the end of the last block wraps around.\<close>

lemma read_overruns:
  assumes S: "fat_state blocks ready s"
    and fd: "unat fd < MAX_FILE_DESC" and d: "fat_private_file_desc s ! unat fd = d"
    and live: "\<not> is_free d" "\<not> is_stale d"
    and last: "FAT_MIN_LAST_CLUSTER \<le> next_cluster d" and behind: "left_over d < index_in_block d"
    and idx: "unat (index_in_block d) < CARD_BLOCK_SIZE" and rdy: "ready (dev s) (block_addr d)"
    and len: "CARD_BLOCK_SIZE < unat (index_in_block d) + unat len"
  shows "fat_read C fd dst len s = Some (Inl Overrun)"
proof -
  let ?i = "unat fd" and ?q = "left_over d - index_in_block d"
  define n where "n = (if len < ?q then len else ?q)"
  have g: "good blocks s" using S by (simp add: fat_state_def)
  have il: "?i < length (fat_private_file_desc s)" using good_length [OF g] fd by simp
  have "left_over d \<le> 512" using behind idx by (simp add: word_less_nat_alt word_le_nat_alt)
  then have chunk: "next_chunk ?i False len s = Some (Inr (n, s))"
    using il d last by (simp add: next_chunk_def pfd_def Let_def left_over_def n_def)
  have "unat ?q = unat (left_over d) + 65536 - unat (index_in_block d)"
    using behind by (simp add: unat_sub_if_size word_size word_less_nat_alt)
  then have q: "CARD_BLOCK_SIZE < unat (index_in_block d) + unat ?q" using idx by linarith
  have n: "CARD_BLOCK_SIZE < unat (index_in_block d) + unat n"
    using len q unfolding n_def by (cases "len < ?q") simp_all
  then have n0: "n \<noteq> 0" using idx by auto
  obtain t where t: "cache C (block_addr d) s = Some (Inr (True, t))" "at_disk blocks ready s (blocks (dev s)) t"
    using cache_run [OF g rdy] by metis
  have "length (cache_block t) = CARD_BLOCK_SIZE" using at_disk_good [OF t(2)] by (simp add: good_def wf_fs_def)
  then have tr: "transfer C False (unat (index_in_block d)) dst 0 (unat n) t = Some (Inl Overrun)"
    using n by (simp add: transfer_def peek_bytes_def)
  have "len \<noteq> 0" using len idx by auto
  moreover have "first_cluster C ?i False s = Some (Inr (True, s))" "append_cluster C ?i False s = Some (Inr (True, s))"
    "pfd ?i s = Some (Inr (d, s))"
    using il d by (simp_all add: first_cluster_def append_cluster_def pfd_def)
  ultimately have "fat_action_loop C ?i False dst 0 len 0 s = Some (Inl Overrun)"
    using t(1) tr chunk n0 by (subst fat_action_loop.simps) simp
  then show ?thesis
    using get_desc_live [OF S fd d live] by (simp add: fat_read_def fat_action_def)
qed

text \<open>The same when a write is so long that its end wraps around.\<close>

lemma write_overruns:
  assumes S: "fat_state blocks ready s"
    and fd: "unat fd < MAX_FILE_DESC" and d: "fat_private_file_desc s ! unat fd = d"
    and live: "\<not> is_free d" "\<not> is_stale d"
    and last: "FAT_MIN_LAST_CLUSTER \<le> next_cluster d" "cur_cluster d \<noteq> 0" "left_over d \<le> 512"
      "block_in_cluster d \<noteq> sectors_per_cluster (fat_info s)"
    and idx: "index_in_block d \<le> left_over d" and rdy: "ready (dev s) (block_addr d)"
    and len: "512 < unat len" "65536 \<le> unat (index_in_block d) + unat len" "unat len \<le> length src"
  shows "fat_write C fd src len s = Some (Inl Overrun)"
proof -
  let ?i = "unat fd"
  have g: "good blocks s" using S by (simp add: fat_state_def)
  have il: "?i < length (fat_private_file_desc s)" using good_length [OF g] fd by simp
  have idx': "unat (index_in_block d) \<le> 512" using idx last(3) by (simp add: word_le_nat_alt)
  have "unat (len + index_in_block d) = unat (index_in_block d) + unat len - 65536"
    using len(2) by (simp add: unat_plus_if_size word_size)
  then have wrap: "\<not> 512 < len + index_in_block d" using idx' unat_u16 [of len] by (simp add: word_less_nat_alt)
  have "unat (left_over d - index_in_block d) \<le> 512" using idx last(3) by (simp add: unat_sub word_le_nat_alt)
  then have less: "left_over d - index_in_block d < len" using len(1) by (simp add: word_less_nat_alt)
  obtain d' where chunk: "next_chunk ?i True len s = Some (Inr (len,
      s\<lparr>fat_private_file_desc := (fat_private_file_desc s)[?i := d']\<rparr>))"
    and d': "block_addr d' = block_addr d" "index_in_block d' = index_in_block d"
    using il d last wrap less
    by (simp add: next_chunk_def pfd_def upd_pfd_def Let_def left_over_def bnd_def)
  let ?u = "s\<lparr>fat_private_file_desc := (fat_private_file_desc s)[?i := d']\<rparr>"
  have u: "good blocks ?u" "ready (dev ?u) (block_addr d)" using g rdy by (simp_all add: good_def wf_fs_def coherent_def)
  obtain t where t: "cache C (block_addr d) ?u = Some (Inr (True, t))" "at_disk blocks ready ?u (blocks (dev ?u)) t"
    using cache_run [OF u] by metis
  have size: "length (cache_block t) = CARD_BLOCK_SIZE" using at_disk_good [OF t(2)] by (simp add: good_def wf_fs_def)
  have tr: "transfer C True (unat (index_in_block d)) src 0 (unat len) t = Some (Inl Overrun)"
    using len size by (simp add: transfer_def poke_bytes_def bnd_def)
  have pre: "first_cluster C ?i True s = Some (Inr (True, s))" "append_cluster C ?i True s = Some (Inr (True, s))"
    "pfd ?i ?u = Some (Inr (d', ?u))" "len \<noteq> 0"
    using il d last len(1) by (auto simp: first_cluster_def append_cluster_def pfd_def)
  have "fat_action_loop C ?i True src 0 len 0 s = Some (Inl Overrun)"
    using pre t(1) tr chunk d' by (subst fat_action_loop.simps) simp
  then show ?thesis
    using get_desc_live [OF S fd d live] by (simp add: fat_write_def fat_action_def bnd_def)
qed

text \<open>Seeking in a file of one cluster, whatever its size is said to be.\<close>

lemma seek_one_cluster:
  assumes S: "fat_state blocks ready s" and geo: "cluster_geometry (fat_info s)"
    and fd: "unat fd < MAX_FILE_DESC" and d: "fat_private_file_desc s ! unat fd = d"
    and live: "\<not> is_free d" "\<not> is_stale d"
    and c: "chain (fat_info s) (blocks (dev s)) [de_cluster_lo (dir_entry d)]"
    and off: "unat off \<le> cluster_bytes (fat_info s)" "off \<le> de_size (dir_entry d)"
    and r: "r = settle (fat_info s) (unat off) off (begin_desc (fat_info s) (fat_entry (fat_info s) (blocks (dev s))) d)"
  obtains t where "fat_seek C fd off s = Some (Inr (True, t))"
    "file_step blocks ready s (unat fd) r (last_error s) (blocks (dev s)) t"
proof -
  let ?fi = "fat_info s" and ?B = "blocks (dev s)" and ?i = "unat fd"
  let ?c = "de_cluster_lo (dir_entry d)" and ?b = "begin_desc (fat_info s) (fat_entry (fat_info s) (blocks (dev s))) d"
  have g: "good blocks s" using S by (simp add: fat_state_def)
  have il: "?i < length (fat_private_file_desc s)" using good_length [OF g] fd by simp
  have m: "cluster_bytes ?fi \<le> 32768" using spc_bounds [OF geo] by (simp add: cluster_bytes_def)
  then have w: "unat off \<le> 32768" using off(1) by simp
  obtain t1 where t1: "seek_begin C ?i s = Some (Inr (True, t1))" "file_step blocks ready s ?i ?b (last_error s) ?B t1"
    by (rule seek_begin_run [OF S fd d, of "[?c]"]) (use c in simp_all)
  note up = file_step_upd [OF _ il g]
  note t2 = up [OF t1(2), of "\<lambda>d. d\<lparr>abs_offset := off\<rparr>"]
  have loop: "seek_loop C ?i (ucast (sectors_per_cluster ?fi) * 512) off u = Some (Inr (Some off, u))" for u
    using off(1) bytes_per_cluster [OF geo] m by (subst seek_loop.simps) (simp add: word_less_nat_alt unat_ucast_mod)
  let ?h = "\<lambda>d. let bic = ucast (drop_bit 9 off) in
     d\<lparr>block_in_cluster := bic, index_in_block := ucast off AND 511,
       block_addr := cluster_addr ?fi (cur_cluster d) + ucast bic\<rparr>"
  have "?h (?b\<lparr>abs_offset := off\<rparr>) = r"
    unfolding Let_def offset_words [OF w] r by (simp add: settle_def)
  note t3 = up [OF t2(2), of ?h, unfolded this]
  show thesis
    by (rule that [OF _ t3(2)])
      (use get_desc_live [OF S fd d live] t1(1) t2(1) t3(1) off(2) loop
        file_step_simps(2) [OF t1(2)] file_step_simps(2) [OF t2(2)]
       in \<open>simp add: fat_seek_def Let_def linorder_not_less [symmetric]\<close>)
qed

end

subsection \<open>The properties\<close>

text \<open>
  C8: \<open>fat_open_file\<close> on any card that keeps to the size of the buffer, whatever is on it and
  whichever transfers fail: it accesses no array out of bounds, and if it returns only the first free
  descriptor may have changed. When it returns \<open>FAT_BAD_DESC\<close> that descriptor is free again;
  otherwise it is the one returned, not free, at the start of a block and with its entry within a
  block of the directory, which is what the calls below ask for (\<open>opened_ready\<close>).
\<close>

theorem fat_open_file_any_volume:
  assumes "sized_card C" and "wf_fs s" and "i = first_free (fat_private_file_desc s)"
  shows "wlp (fat_open_file C dir name mode) (\<lambda>fd t. only_changes i s t \<and>
    (if fd = FAT_BAD_DESC then i < MAX_FILE_DESC \<longrightarrow> is_free (fat_private_file_desc t ! i)
     else unat fd = i \<and> own_frame opened i s t)) s"
  by (rule sized_card.open_file_opens [OF assms])

theorem fat_open_file_any_volume_witness:
  "\<exists>t. fat_open_file sd_ops None [0x41, 0x2e, 0x54, 0x58, 0x54, 0] 0 small_fs = Some (Inr (0, t)) \<and>
     own_frame opened 0 small_fs t"
proof -
  have "wf_fs small_fs" using small_fs_good by (simp add: good_def)
  note W = fat_open_file_any_volume [OF sd.sized_card_axioms this, of 0, OF small_free(1) [symmetric],
      of None "[0x41, 0x2e, 0x54, 0x58, 0x54, 0]" 0]
  obtain t where t: "fat_open_file sd_ops None [0x41, 0x2e, 0x54, 0x58, 0x54, 0] 0 small_fs = Some (Inr (0, t))"
    using fat_open_file_opens_witness by blast
  with wlpD [OF W t] show ?thesis by simp
qed

text \<open>
  C7: The calls on an open file, on any card that keeps to the size of the buffer and on any volume: as
  long as the descriptor's entry lies within a block, seeking, truncating and closing access no array
  out of bounds and change no descriptor but their own, whose entry stays within a block; reading a
  file from a position within it, and listing a directory from the start of an entry, access neither
  the cache nor the caller's buffer out of bounds, change no other descriptor and leave such a
  position.
\<close>

theorem calls_any_volume:
  assumes C: "sized_card C" and wf: "wf_fs s" and fd: "unat fd < MAX_FILE_DESC"
    and d: "d = fat_private_file_desc s ! unat fd"
  shows "(entry_in_block d \<longrightarrow>
      wlp (fat_seek C fd off) (\<lambda>_. own_frame entry_in_block (unat fd) s) s \<and>
      wlp (fat_seek_end C fd) (\<lambda>_. own_frame entry_in_block (unat fd) s) s \<and>
      wlp (fat_truncate C fd) (\<lambda>_. own_frame entry_in_block (unat fd) s) s \<and>
      wlp (fat_close C fd) (\<lambda>_. own_frame entry_in_block (unat fd) s) s) \<and>
    (placed d \<and> unat len \<le> length dst \<longrightarrow>
      wlp (fat_read C fd dst len) (\<lambda>r t. own_frame placed (unat fd) s t \<and> length (snd r) = length dst) s) \<and>
    (at_entry d \<longrightarrow>
      wlp (fat_get_next_dir_entry C fd e skip) (\<lambda>_. own_frame at_entry (unat fd) s) s)"
proof (intro conjI impI)
  note start = own_frame_start [OF wf fd, folded d]
  show "wlp (fat_seek C fd off) (\<lambda>_. own_frame entry_in_block (unat fd) s) s" if "entry_in_block d"
    using sized_card.seek_any [OF C refl start [of entry_in_block, OF that]] .
  show "wlp (fat_seek_end C fd) (\<lambda>_. own_frame entry_in_block (unat fd) s) s" if "entry_in_block d"
    using sized_card.seek_end_any [OF C refl start [of entry_in_block, OF that]] .
  show "wlp (fat_truncate C fd) (\<lambda>_. own_frame entry_in_block (unat fd) s) s" if "entry_in_block d"
    using sized_card.truncate_any [OF C refl start [of entry_in_block, OF that]] .
  show "wlp (fat_close C fd) (\<lambda>_. own_frame entry_in_block (unat fd) s) s" if "entry_in_block d"
    using sized_card.close_any [OF C refl start [of entry_in_block, OF that]] .
  show "wlp (fat_read C fd dst len) (\<lambda>r t. own_frame placed (unat fd) s t \<and> length (snd r) = length dst) s"
    if "placed d \<and> unat len \<le> length dst"
    using that by (intro sized_card.read_any [OF C refl start [of placed]]) simp_all
  show "wlp (fat_get_next_dir_entry C fd e skip) (\<lambda>_. own_frame at_entry (unat fd) s) s" if "at_entry d"
    using sized_card.listing_any [OF C refl start [of at_entry, OF that]] .
qed

text \<open>
  A volume that is not sound: the entry promises 700 bytes, the chain has one cluster of 512. The
  file is open at its start.
\<close>

definition broken_desc :: FileDescriptor where
  "broken_desc = init_desc small_info (fat_entry small_info (sd_block small_card))
     (free_desc\<lparr>is_free := False, dir_entry := small_entry\<lparr>de_cluster_lo := 3, de_size := 700\<rparr>\<rparr>)"

definition broken_fs :: "sd_card fs" where
  "broken_fs = small_fs\<lparr>fat_private_file_desc := (fat_private_file_desc small_fs)[0 := broken_desc]\<rparr>"

lemma broken_fs_simps:
  "fat_info broken_fs = small_info" "dev broken_fs = small_card" "fat_private_file_desc broken_fs ! 0 = broken_desc"
  "de_cluster_lo (dir_entry broken_desc) = 3" "de_size (dir_entry broken_desc) = 700"
  "\<not> is_free broken_desc" "\<not> is_stale broken_desc" "index_in_block broken_desc = 0"
  "dir_entry_index_in_block broken_desc = 0" "length (de_filename (dir_entry broken_desc)) = 11"
  by (simp_all add: broken_fs_def small_fs_def broken_desc_def init_desc_def Let_def free_desc_def small_entry_def)

lemma broken_last: "last_cluster_len broken_desc = 188"
  by (simp add: broken_desc_def init_desc_def Let_def free_desc_def init_last_len_def cluster_mask_def small_info_def)

lemma broken_chain: "chain small_info (sd_block small_card) [3]"
  using small_entry_file by (auto simp: entry_file_def)

lemma broken_fs_state: "fat_state sd_block sd_ready broken_fs"
  using small_fs_state by (simp add: fat_state_def good_def wf_fs_def coherent_def broken_fs_def)

theorem calls_any_volume_witness:
  "\<exists>t. fat_seek sd_ops 0 300 broken_fs = Some (Inr (True, t)) \<and> own_frame entry_in_block 0 broken_fs t"
proof -
  have wf: "wf_fs broken_fs" using broken_fs_state by (simp add: fat_state_def good_def)
  have d: "entry_in_block broken_desc" "placed broken_desc" "at_entry broken_desc"
    by (simp_all add: entry_in_block_def placed_start at_entry_start broken_fs_simps)
  note W = calls_any_volume [OF sd.sized_card_axioms wf, of 0 broken_desc 300 0 "[]" small_entry 0,
      unfolded unat_0 broken_fs_simps(3)]
  obtain t where "fat_seek sd_ops 0 300 broken_fs = Some (Inr (True, t))"
    by (rule sd.seek_one_cluster [OF broken_fs_state, of 0 broken_desc 300])
      (simp_all add: broken_fs_simps small_geometry broken_chain [simplified] small_cluster_bytes)
  with W d show ?thesis by (auto simp: wlp_def)
qed

text \<open>
  C37: On a volume whose directory gives a file more bytes than its only cluster holds, \<open>fat_seek\<close>
  accepts an offset behind the end of the last block, and the \<open>fat_read\<close> that follows subtracts the
  offset in the block from the smaller length of that block: the difference wraps around, and a
  request of more bytes than the block has left reads behind the end of \<open>cache_block\<close>.
\<close>

theorem fat_read_broken_volume:
  assumes dev: "live_device C blocks ready" and S: "fat_state blocks ready s"
    and geo: "cluster_geometry (fat_info s)"
    and fd: "unat fd < MAX_FILE_DESC" and d: "fat_private_file_desc s ! unat fd = d"
    and live: "\<not> is_free d" "\<not> is_stale d"
    and c: "chain (fat_info s) (blocks (dev s)) [de_cluster_lo (dir_entry d)]"
    and off: "unat off \<le> cluster_bytes (fat_info s)" "off \<le> de_size (dir_entry d)"
    and behind: "512 * (unat off div 512) \<le> unat (last_cluster_len d)" "unat (last_cluster_len d) < unat off"
    and rdy: "ready (dev s) (cluster_addr (fat_info s) (de_cluster_lo (dir_entry d)) + of_nat (unat off div 512))"
    and len: "512 < unat off mod 512 + unat len"
  shows "\<exists>t. fat_seek C fd off s = Some (Inr (True, t)) \<and> fat_read C fd dst len t = Some (Inl Overrun)"
proof -
  let ?fi = "fat_info s" and ?B = "blocks (dev s)" and ?i = "unat fd"
  let ?c = "de_cluster_lo (dir_entry d)" and ?b = "begin_desc (fat_info s) (fat_entry (fat_info s) (blocks (dev s))) d"
  define r where "r = settle ?fi (unat off) off ?b"
  have g: "good blocks s" using S by (simp add: fat_state_def)
  have il: "?i < length (fat_private_file_desc s)" using good_length [OF g] fd by simp
  have w: "unat off \<le> 32768" using off(1) spc_bounds [OF geo] by (simp add: cluster_bytes_def)
  obtain t where t: "fat_seek C fd off s = Some (Inr (True, t))" "file_step blocks ready s ?i r (last_error s) ?B t"
    using live_device.seek_one_cluster [OF dev S geo fd d live c off r_def] .
  note eq = file_step_simps [OF t(2)]
  have dt: "fat_private_file_desc t ! ?i = r" using eq(1) il by simp
  have c0: "?c \<noteq> 0" "FAT_MIN_LAST_CLUSTER \<le> fat_entry ?fi ?B ?c" using c by (auto simp: data_cluster_def)
  have lo: "left_over r = last_cluster_len d - of_nat (512 * (unat off div 512))"
  proof -
    have "push_bit 9 (of_nat (unat off div 512)) = (of_nat (512 * (unat off div 512)) :: u16)"
      by (simp add: push_bit_eq_mult mult.commute)
    moreover have "(ucast (of_nat (unat off div 512) :: u8) :: u16) = of_nat (unat off div 512)"
      using w div_le_mono [of "unat off" 32768 512] by (simp add: ucast_of_nat_unat [of "of_nat _ :: u8"] unat_of_nat_mod)
    ultimately show ?thesis by (simp add: left_over_def r_def settle_def begin_desc_def Let_def)
  qed
  have q: "unat (of_nat (512 * (unat off div 512)) :: u16) = 512 * (unat off div 512)"
    using w div_times_less_eq_dividend [of "unat off" 512] by (subst unat_of_nat_mod) simp
  have ul: "unat (left_over r) = unat (last_cluster_len d) - 512 * (unat off div 512)"
    unfolding lo using behind(1) q by (simp add: unat_sub word_le_nat_alt)
  have ui: "unat (index_in_block r) = unat off mod 512"
    by (simp add: r_def settle_def unat_of_nat_mod)
  have "left_over r < index_in_block r"
    using ul ui behind mod_mult_div_eq [of "unat off" 512] unfolding word_less_nat_alt by linarith
  then have "fat_read C fd dst len t = Some (Inl Overrun)"
    using live c0 ui rdy len eq
    by (intro live_device.read_overruns [OF dev _ fd dt])
      (simp_all add: file_step_state [OF S t(2)] r_def settle_def begin_desc_def Let_def)
  with t(1) show ?thesis by blast
qed

text \<open>
  In the last block of a file a write whose length and offset in the block add up to 65536 or more
  is not cut at the end of the block, as the sum wraps around: the bytes are copied over the end of
  \<open>cache_block\<close>.
\<close>

theorem fat_write_wraps:
  assumes dev: "live_device C blocks ready" and S: "fat_state blocks ready s"
    and fd: "unat fd < MAX_FILE_DESC" and d: "fat_private_file_desc s ! unat fd = d"
    and live: "\<not> is_free d" "\<not> is_stale d"
    and last: "FAT_MIN_LAST_CLUSTER \<le> next_cluster d" "cur_cluster d \<noteq> 0" "left_over d \<le> 512"
      "block_in_cluster d \<noteq> sectors_per_cluster (fat_info s)"
    and idx: "index_in_block d \<le> left_over d" and rdy: "ready (dev s) (block_addr d)"
    and len: "512 < unat len" "65536 \<le> unat (index_in_block d) + unat len" "unat len \<le> length src"
  shows "fat_write C fd src len s = Some (Inl Overrun)"
  by (rule live_device.write_overruns [OF dev S fd d live last idx rdy len])

theorem fat_write_wraps_example:
  "fat_write sd_ops 0 (replicate 65535 0) 65535
     (broken_fs\<lparr>fat_private_file_desc := (fat_private_file_desc broken_fs)[0 := broken_desc\<lparr>index_in_block := 1\<rparr>]\<rparr>) =
   Some (Inl Overrun)" (is "fat_write _ _ _ _ ?s = _")
proof -
  have n: "FAT_MIN_LAST_CLUSTER \<le> next_cluster broken_desc" "cur_cluster broken_desc \<noteq> 0"
    "block_in_cluster broken_desc = 0" "block_addr broken_desc = 5"
    using broken_chain by (simp_all add: broken_desc_def init_desc_def Let_def cluster_addr_def small_info_def)
  have l: "left_over (broken_desc\<lparr>index_in_block := 1\<rparr>) = 188"
    by (simp add: left_over_def broken_last n)
  have "fat_state sd_block sd_ready ?s"
    using broken_fs_state by (simp add: fat_state_def good_def wf_fs_def coherent_def)
  moreover have "length (fat_private_file_desc broken_fs) = 16"
    using broken_fs_state by (simp add: fat_state_def good_def wf_fs_def)
  moreover have "sectors_per_cluster small_info \<noteq> 0" by (simp add: small_info_def)
  ultimately show ?thesis
    by (intro fat_write_wraps [OF sd.live_device_axioms, of ?s 0 "broken_desc\<lparr>index_in_block := 1\<rparr>"])
      (simp_all add: l n broken_fs_simps small_ready)
qed

theorem fat_read_broken_volume_witness:
  "\<exists>t. fat_seek sd_ops 0 300 broken_fs = Some (Inr (True, t)) \<and>
     fat_read sd_ops 0 (replicate 300 0) 300 t = Some (Inl Overrun)"
proof -
  have "cluster_addr small_info 3 = 5" by (simp add: cluster_addr_def small_info_def)
  then show ?thesis
    using fat_read_broken_volume [OF sd.live_device_axioms broken_fs_state, of 0 broken_desc 300 300 "replicate 300 0"]
    by (simp add: broken_fs_simps broken_last small_geometry broken_chain [simplified] small_cluster_bytes small_ready)
qed

end
