(* ===== verification/FatList.thy ===== *)
theory FatList
  imports FatOpen FatSeek
begin

section \<open>Listing a directory (lib/fat/fat.c)\<close>

text \<open>
  \<open>fat_get_next_dir_entry\<close> returns one entry after the other of an open directory, without those that
  are deleted, part of a long name, or have an attribute of the mask. The descriptor stands at a slot of
  the same sequence of slots in which names are looked up.
\<close>

subsection \<open>The position\<close>

text \<open>The descriptor \<open>d\<close> stands at the slot number \<open>k\<close> of the directory with the blocks \<open>bs\<close>.\<close>

definition dir_pos :: "FatInfo \<Rightarrow> (u32 \<Rightarrow> bytes) \<Rightarrow> u16 list \<Rightarrow> u32 list \<Rightarrow> FileDescriptor \<Rightarrow> nat \<Rightarrow> bool" where
  "dir_pos fi B cs bs d k \<longleftrightarrow> k \<le> 16 * length bs \<and>
     (if is_root d then bs = run_of (root_dir_block fi) (length bs) \<and>
        block_addr d = root_dir_block fi + of_nat (k div 16) \<and> index_in_block d = of_nat (32 * (k mod 16))
      else chain fi B cs \<and> bs = file_blocks fi cs \<and> pos_at fi B cs d (k div 16) (32 * (k mod 16)))"

lemma nth_run_of: "k < n \<Longrightarrow> run_of b n ! k = b + of_nat k"
  by (simp add: run_of_def)

lemma nth_slots: "k < 16 * length bs \<Longrightarrow> slots bs ! k = (bs ! (k div 16), k mod 16)"
proof (induction bs arbitrary: k)
  case (Cons b bs)
  show ?case
  proof (cases "k < 16")
    case False
    then have "k div 16 = Suc ((k - 16) div 16)" "k mod 16 = (k - 16) mod 16" by (simp_all add: le_div_geq le_mod_geq)
    then show ?thesis using Cons.IH [of "k - 16"] Cons.prems False by (simp add: slots_Cons nth_append)
  qed (simp add: slots_Cons nth_append)
qed simp

lemma length_slots [simp]: "length (slots bs) = 16 * length bs"
  by (induction bs) (simp_all add: slots_Cons, simp add: slots_def)

lemma dir_pos_here:
  assumes "dir_pos fi B cs bs d k" and "k < 16 * length bs"
  shows "block_addr d = fst (slots bs ! k)" and "index_in_block d = of_nat (32 * snd (slots bs ! k))"
    and "unat (index_in_block d) = 32 * snd (slots bs ! k)"
proof -
  have k: "k div 16 < length bs" using assms(2) by (simp add: less_mult_imp_div_less mult.commute)
  show a: "block_addr d = fst (slots bs ! k)"
  proof (cases "is_root d")
    case True
    then have "bs ! (k div 16) = block_addr d" using assms(1) nth_run_of [OF k] by (metis dir_pos_def)
    then show ?thesis by (simp add: nth_slots [OF assms(2)])
  next
    case False
    then show ?thesis using assms k by (simp add: dir_pos_def pos_at_def nth_slots)
  qed
  show i: "index_in_block d = of_nat (32 * snd (slots bs ! k))"
    using assms by (auto simp: dir_pos_def pos_at_def nth_slots split: if_splits)
  show "unat (index_in_block d) = 32 * snd (slots bs ! k)"
    unfolding i nth_slots [OF assms(2)] unat_of_nat_mod by simp
qed

lemma slot_next:
  "(32 * (k mod 16) + 32) div 512 = (if k mod 16 = 15 then 1 else 0)" "(32 * (k mod 16) + 32) mod 512 = 32 * (Suc k mod 16)"
  "Suc k div 16 = k div 16 + (if k mod 16 = 15 then 1 else 0)"
  by (simp_all add: div_Suc mod_Suc)

lemma dir_pos_next:
  assumes p: "dir_pos fi B cs bs d k" and k: "k < 16 * length bs" and geo: "cluster_geometry fi"
  shows "dir_pos fi B cs bs (advance_desc fi (fat_entry fi B) 32 d) (Suc k)"
proof (cases "is_root d")
  case True
  have i: "unat (index_in_block d) = 32 * (k mod 16)" using dir_pos_here(3) [OF p k] by (simp add: nth_slots [OF k])
  have "index_in_block d + 32 = 512 \<longleftrightarrow> k mod 16 = 15"
  proof -
    have "unat (index_in_block d + 32) = 32 * (k mod 16) + 32" using i unat_plus_of_nat [of "index_in_block d" 32] by simp
    then show ?thesis by (auto simp: word_unat_eq_iff)
  qed
  then show ?thesis using True p k slot_next [of k] by (auto simp: dir_pos_def advance_desc_def Let_def mod_Suc)
next
  case False
  then have q: "k div 16 < length cs * spc fi" and at: "pos_at fi B cs d (k div 16) (32 * (k mod 16))" and ch: "chain fi B cs"
    and bs: "bs = file_blocks fi cs"
    using p k by (auto simp: dir_pos_def less_mult_imp_div_less mult.commute)
  have "pos_at fi B cs (advance_desc fi (fat_entry fi B) (of_nat 32) d) (k div 16 + (32 * (k mod 16) + 32) div 512) ((32 * (k mod 16) + 32) mod 512)"
    using pos_advance [OF at ch geo q _ False, of 32] by simp
  moreover have "\<not> is_root (advance_desc fi (fat_entry fi B) 32 d)" using False by (simp add: advance_desc_def Let_def)
  ultimately show ?thesis using k ch bs unfolding slot_next(1,2) slot_next(3) [symmetric] by (simp add: dir_pos_def)
qed

subsection \<open>One entry\<close>

text \<open>What is not returned. \<open>fat_get_next_dir_entry\<close> looks at the first byte and at the attributes.\<close>

definition hidden :: "(u32 \<Rightarrow> bytes) \<Rightarrow> u8 \<Rightarrow> place \<Rightarrow> bool" where
  "hidden B msk y \<longleftrightarrow> (let e = decode_entry (raw B y) in
     raw B y ! 0 = 0xe5 \<or> de_attrs e = 0x0f \<or> de_attrs e AND msk \<noteq> 0)"

context live_device
begin

text \<open>One turn of the loop: the slot is copied and the descriptor moves to the next one.\<close>

lemma list_turn:
  assumes S: "fat_state blocks ready s" and geo: "cluster_geometry (fat_info s)"
    and i: "i < MAX_FILE_DESC" and d: "fat_private_file_desc s ! i = d"
    and p: "dir_pos (fat_info s) (blocks (dev s)) cs bs d k" and k: "k < 16 * length bs"
    and rdy: "\<forall>b \<in> set bs. ready (dev s) b"
    and y: "y = slots bs ! k" "e = decode_entry (raw (blocks (dev s)) y)"
  obtains t where "next_entry_loop C i dst msk s =
      (if raw (blocks (dev s)) y ! 0 = 0 then Some (Inr ((False, e), t))
       else if hidden (blocks (dev s)) msk y then next_entry_loop C i e msk t
       else Some (Inr ((True, e), t)))"
    "file_step blocks ready s i (advance_desc (fat_info s) (fat_entry (fat_info s) (blocks (dev s))) 32 d) (last_error s)
      (blocks (dev s)) t"
proof -
  let ?fi = "fat_info s" and ?B = "blocks (dev s)" and ?d = "advance_desc (fat_info s) (fat_entry (fat_info s) (blocks (dev s))) 32 d"
  have g: "good blocks s" and lay: "fat_layout ?fi (ready (dev s))" using S by (simp_all add: fat_state_def)
  have il: "i < length (fat_private_file_desc s)" using good_length [OF g] i by simp
  note here = dir_pos_here [OF p k]
  have slot: "fst y \<in> set bs" "snd y < 16" using nth_mem [of k "slots bs"] k place_ok [of y bs] y(1) by simp_all
  then have rb: "ready (dev s) (block_addr d)" using rdy here(1) y(1) by simp
  obtain t where t: "cache C (block_addr d) s = Some (Inr (True, t))" "at_disk blocks ready s ?B t"
    "cache_block t = ?B (block_addr d)"
    using cache_run [OF g rb] .
  note eq = at_disk_simps [OF t(2)]
  have len: "length (cache_block t) = 512" using at_disk_good [OF t(2)] by (simp add: good_def wf_fs_def)
  have raw: "slice_at (cache_block t) (unat (index_in_block d)) 32 = raw ?B y" "unat (index_in_block d) + 32 \<le> 512"
    using t(3) here slot(2) y(1) by (simp_all add: raw_def)
  have nx: "in_fat ?fi (next_cluster d) \<and> fat_entry ?fi ?B (next_cluster d) \<noteq> 0"
    if "\<not> is_root d" "next_cluster d < FAT_MIN_LAST_CLUSTER"
  proof -
    have "chain ?fi ?B cs" "next_cluster d \<in> set cs" using p that next_member by (auto simp: dir_pos_def)
    then show ?thesis using chain_data chain_member_entry by (auto simp: data_cluster_def)
  qed
  have "wp (seek_advance C i 32) (\<lambda>ok u. ok \<and> at_disk blocks ready (t\<lparr>fat_private_file_desc :=
      (fat_private_file_desc t)[i := advance_desc (fat_info t) (fat_entry (fat_info t) (blocks (dev t))) 32 d]\<rparr>)
      (blocks (dev t)) u) t"
    using at_disk_good [OF t(2)] lay i d nx by (intro seek_advance_wp) (simp_all add: eq)
  from wp_True [OF this] obtain u where u: "seek_advance C i 32 t = Some (Inr (True, u))"
    "at_disk blocks ready (t\<lparr>fat_private_file_desc := (fat_private_file_desc s)[i := ?d]\<rparr>) ?B u"
    unfolding eq by metis
  have "file_step blocks ready s i ?d (last_error s) ?B u" using u(2) t(2) by (simp add: file_step_def at_disk_def)
  moreover have "next_entry_loop C i dst msk s =
      (if raw ?B y ! 0 = 0 then Some (Inr ((False, e), u))
       else if hidden ?B msk y then next_entry_loop C i e msk u else Some (Inr ((True, e), u)))"
    using d il t(1) u(1) raw len y(2)
    by (subst next_entry_loop.simps) (simp add: pfd_def bnd_def peek_bytes_def hidden_def Let_def)
  ultimately show thesis using that by blast
qed

lemma next_entry_run:
  assumes "fat_state blocks ready s" and "cluster_geometry (fat_info s)"
    and "i < MAX_FILE_DESC" and "fat_private_file_desc s ! i = d"
    and "dir_pos (fat_info s) (blocks (dev s)) cs bs d k" and "\<forall>b \<in> set bs. ready (dev s) b"
    and "drop k (slots bs) = sk @ y # post"
    and "\<forall>z \<in> set sk. raw (blocks (dev s)) z ! 0 \<noteq> 0 \<and> hidden (blocks (dev s)) msk z"
    and "raw (blocks (dev s)) y ! 0 = 0 \<or> \<not> hidden (blocks (dev s)) msk y"
  shows "\<exists>t d'. next_entry_loop C i dst msk s =
      Some (Inr ((raw (blocks (dev s)) y ! 0 \<noteq> 0, decode_entry (raw (blocks (dev s)) y)), t)) \<and>
    file_step blocks ready s i d' (last_error s) (blocks (dev s)) t \<and> moved d d' \<and>
    dir_pos (fat_info s) (blocks (dev s)) cs bs d' (Suc (k + length sk))"
  using assms
proof (induction sk arbitrary: s d k dst)
  case Nil
  have k: "k < 16 * length bs" "y = slots bs ! k"
    using Nil(7) by (metis append_Nil drop_eq_Nil length_slots list.distinct(1) not_le,
      metis append_Nil drop_eq_Nil list.distinct(1) not_le hd_drop_conv_nth list.sel(1))
  obtain t where "next_entry_loop C i dst msk s =
      (if raw (blocks (dev s)) y ! 0 = 0 then Some (Inr ((False, decode_entry (raw (blocks (dev s)) y)), t))
       else if hidden (blocks (dev s)) msk y then next_entry_loop C i (decode_entry (raw (blocks (dev s)) y)) msk t
       else Some (Inr ((True, decode_entry (raw (blocks (dev s)) y)), t)))"
    "file_step blocks ready s i (advance_desc (fat_info s) (fat_entry (fat_info s) (blocks (dev s))) 32 d) (last_error s)
      (blocks (dev s)) t"
    using list_turn [OF Nil(1-5) k(1) Nil(6) k(2) refl] by blast
  then show ?case using Nil(9) moved_advance dir_pos_next [OF Nil(5) k(1) Nil(2)]
    by (intro exI [of _ t] exI [of _ "advance_desc (fat_info s) (fat_entry (fat_info s) (blocks (dev s))) 32 d"]) auto
next
  case (Cons z sk)
  let ?d = "advance_desc (fat_info s) (fat_entry (fat_info s) (blocks (dev s))) 32 d"
  have k: "k < 16 * length bs" "z = slots bs ! k" "drop (Suc k) (slots bs) = sk @ y # post"
  proof -
    show "k < 16 * length bs" using Cons.prems(7) by (metis append_Cons drop_eq_Nil length_slots list.distinct(1) not_le)
    then have "slots bs ! k # drop (Suc k) (slots bs) = z # sk @ y # post"
      using Cons_nth_drop_Suc [of k "slots bs"] Cons.prems(7) by simp
    then show "z = slots bs ! k" "drop (Suc k) (slots bs) = sk @ y # post" by simp_all
  qed
  obtain t where t: "next_entry_loop C i dst msk s =
      (if raw (blocks (dev s)) z ! 0 = 0 then Some (Inr ((False, decode_entry (raw (blocks (dev s)) z)), t))
       else if hidden (blocks (dev s)) msk z then next_entry_loop C i (decode_entry (raw (blocks (dev s)) z)) msk t
       else Some (Inr ((True, decode_entry (raw (blocks (dev s)) z)), t)))"
    "file_step blocks ready s i ?d (last_error s) (blocks (dev s)) t"
    using list_turn [OF Cons.prems(1-5) k(1) Cons.prems(6) k(2) refl] by blast
  note eq = file_step_simps [OF t(2)]
  have g: "good blocks s" using Cons.prems(1) by (simp add: fat_state_def)
  have dt: "fat_private_file_desc t ! i = ?d" unfolding eq(1) using good_length [OF g] Cons.prems(3) by simp
  have hid: "\<forall>z \<in> set sk. raw (blocks (dev s)) z ! 0 \<noteq> 0 \<and> hidden (blocks (dev s)) msk z" using Cons.prems(8) by simp
  obtain u d' where u: "next_entry_loop C i (decode_entry (raw (blocks (dev s)) z)) msk t =
      Some (Inr ((raw (blocks (dev s)) y ! 0 \<noteq> 0, decode_entry (raw (blocks (dev s)) y)), u))"
    "file_step blocks ready t i d' (last_error s) (blocks (dev s)) u" "moved ?d d'"
    "dir_pos (fat_info s) (blocks (dev s)) cs bs d' (Suc (Suc k + length sk))"
    using Cons.IH [OF file_step_state [OF Cons.prems(1) t(2)] _ Cons.prems(3) dt, of "Suc k" "decode_entry (raw (blocks (dev s)) z)", unfolded eq,
      OF Cons.prems(2) dir_pos_next [OF Cons.prems(5) k(1) Cons.prems(2)] Cons.prems(6) k(3) hid Cons.prems(9)] by blast
  show ?case using t(1) u Cons.prems(8) file_step_trans [OF t(2) u(2)] moved_trans [OF moved_advance u(3)]
    by (intro exI [of _ u] exI [of _ d']) simp
qed

end

subsection \<open>The whole directory\<close>

text \<open>The loop of a caller: at most \<open>n\<close> calls, up to the first that gives no entry.\<close>

fun list_dir :: "'d card_ops \<Rightarrow> u8 \<Rightarrow> FatDirEntry \<Rightarrow> u8 \<Rightarrow> nat \<Rightarrow> ('d fs, FatDirEntry list) cmd" where
  "list_dir C fd dst msk 0 = ret []"
| "list_dir C fd dst msk (Suc n) =
     bnd (fat_get_next_dir_entry C fd dst msk) (\<lambda>r.
     if fst r then bnd (list_dir C fd (snd r) msk n) (\<lambda>es. ret (snd r # es)) else ret [])"

lemma first_visible:
  "filter (\<lambda>y. \<not> P y) ys = v # vs \<Longrightarrow> \<exists>sk rest. ys = sk @ v # rest \<and> (\<forall>z \<in> set sk. P z) \<and> \<not> P v \<and> filter (\<lambda>y. \<not> P y) rest = vs"
  by (auto simp: filter_eq_Cons_iff)

context live_device
begin

lemma get_next_run:
  assumes S: "fat_state blocks ready s" and geo: "cluster_geometry (fat_info s)"
    and fd: "unat fd < MAX_FILE_DESC" and d: "fat_private_file_desc s ! unat fd = d" and live: "\<not> is_free d" "\<not> is_stale d"
    and p: "dir_pos (fat_info s) (blocks (dev s)) cs bs d k" and rdy: "\<forall>b \<in> set bs. ready (dev s) b"
    and sl: "drop k (slots bs) = sk @ y # post"
    and sk: "\<forall>z \<in> set sk. raw (blocks (dev s)) z ! 0 \<noteq> 0 \<and> hidden (blocks (dev s)) msk z"
    and y: "raw (blocks (dev s)) y ! 0 = 0 \<or> \<not> hidden (blocks (dev s)) msk y"
  obtains t d' where "fat_get_next_dir_entry C fd dst msk s =
      Some (Inr ((raw (blocks (dev s)) y ! 0 \<noteq> 0, decode_entry (raw (blocks (dev s)) y)), t))"
    "file_step blocks ready s (unat fd) d' FAT_ERROR_OK (blocks (dev s)) t" "moved d d'"
    "dir_pos (fat_info s) (blocks (dev s)) cs bs d' (Suc (k + length sk))"
proof -
  let ?s = "s\<lparr>last_error := FAT_ERROR_OK\<rparr>"
  have g: "good blocks ?s" using S by (simp add: fat_state_def good_def wf_fs_def coherent_def)
  have S': "fat_state blocks ready ?s" using S g by (simp add: fat_state_def)
  have "fat_get_next_dir_entry C fd dst msk s = next_entry_loop C (unat fd) dst msk ?s"
    using get_desc_live [OF S fd d live] by (simp add: fat_get_next_dir_entry_def set_last_error_def modify_def bnd_def)
  moreover obtain t d' where "next_entry_loop C (unat fd) dst msk ?s =
      Some (Inr ((raw (blocks (dev s)) y ! 0 \<noteq> 0, decode_entry (raw (blocks (dev s)) y)), t))"
    "file_step blocks ready ?s (unat fd) d' FAT_ERROR_OK (blocks (dev s)) t" "moved d d'"
    "dir_pos (fat_info s) (blocks (dev s)) cs bs d' (Suc (k + length sk))"
    using next_entry_run [OF S' _ fd, of d cs bs k sk y post msk dst] geo d p rdy sl sk y by auto
  ultimately show thesis using that by (simp add: file_step_def at_disk_def)
qed

lemma list_dir_run:
  assumes "fat_state blocks ready s" and "cluster_geometry (fat_info s)"
    and "unat fd < MAX_FILE_DESC" and "fat_private_file_desc s ! unat fd = d" and "\<not> is_free d" "\<not> is_stale d"
    and "dir_pos (fat_info s) (blocks (dev s)) cs bs d k" and "\<forall>b \<in> set bs. ready (dev s) b"
    and "drop k (slots bs) = used @ x # post" and "raw (blocks (dev s)) x ! 0 = 0"
    and "\<forall>y \<in> set used. raw (blocks (dev s)) y ! 0 \<noteq> 0"
    and "length (filter (\<lambda>y. \<not> hidden (blocks (dev s)) msk y) used) < n"
  shows "\<exists>t d'. list_dir C fd dst msk n s =
      Some (Inr (map (\<lambda>y. decode_entry (raw (blocks (dev s)) y)) (filter (\<lambda>y. \<not> hidden (blocks (dev s)) msk y) used), t)) \<and>
    file_step blocks ready s (unat fd) d' FAT_ERROR_OK (blocks (dev s)) t"
  using assms
proof (induction n arbitrary: s d k used dst)
  case (Suc n)
  let ?B = "blocks (dev s)"
  show ?case
  proof (cases "filter (\<lambda>y. \<not> hidden ?B msk y) used")
    case Nil
    then have sk: "\<forall>z \<in> set used. raw ?B z ! 0 \<noteq> 0 \<and> hidden ?B msk z" using Suc.prems(11) by (auto simp: filter_empty_conv)
    obtain t d' where "fat_get_next_dir_entry C fd dst msk s = Some (Inr ((raw ?B x ! 0 \<noteq> 0, decode_entry (raw ?B x)), t))"
      "file_step blocks ready s (unat fd) d' FAT_ERROR_OK ?B t"
      using get_next_run [OF Suc.prems(1-9) sk] Suc.prems(10) by blast
    then show ?thesis using Nil Suc.prems(10) by (intro exI [of _ t] exI [of _ d']) (simp add: bnd_def)
  next
    case (Cons v vs)
    obtain sk rest where v: "used = sk @ v # rest" "\<forall>z \<in> set sk. hidden ?B msk z" "\<not> hidden ?B msk v"
      "filter (\<lambda>y. \<not> hidden ?B msk y) rest = vs"
      using first_visible [OF Cons] by blast
    have sl: "drop k (slots bs) = sk @ v # (rest @ x # post)" using Suc.prems(9) v(1) by simp
    have sk: "\<forall>z \<in> set sk. raw ?B z ! 0 \<noteq> 0 \<and> hidden ?B msk z" and v0: "raw ?B v ! 0 \<noteq> 0" using Suc.prems(11) v(1,2) by auto
    obtain t d' where t: "fat_get_next_dir_entry C fd dst msk s = Some (Inr ((raw ?B v ! 0 \<noteq> 0, decode_entry (raw ?B v)), t))"
      "file_step blocks ready s (unat fd) d' FAT_ERROR_OK ?B t" "moved d d'"
      "dir_pos (fat_info s) ?B cs bs d' (Suc (k + length sk))"
      using get_next_run [OF Suc.prems(1-8) sl sk] v(3) by blast
    note eq = file_step_simps [OF t(2)]
    have g: "good blocks s" using Suc.prems(1) by (simp add: fat_state_def)
    have dt: "fat_private_file_desc t ! unat fd = d'" unfolding eq(1) using good_length [OF g] Suc.prems(3) by simp
    have live: "\<not> is_free d'" "\<not> is_stale d'" using t(3) Suc.prems(5,6) by (simp_all add: moved_def)
    have sl': "drop (Suc (k + length sk)) (slots bs) = rest @ x # post"
    proof -
      have "drop (Suc (length sk)) (drop k (slots bs)) = rest @ x # post" unfolding sl by simp
      then show ?thesis by (simp add: add.commute)
    qed
    have rest: "\<forall>y \<in> set rest. raw ?B y ! 0 \<noteq> 0" "length (filter (\<lambda>y. \<not> hidden ?B msk y) rest) < n"
      using Suc.prems(11,12) v Cons by auto
    obtain u d'' where u: "list_dir C fd (decode_entry (raw ?B v)) msk n t =
        Some (Inr (map (\<lambda>y. decode_entry (raw ?B y)) (filter (\<lambda>y. \<not> hidden ?B msk y) rest), u))"
      "file_step blocks ready t (unat fd) d'' FAT_ERROR_OK ?B u"
      using Suc.IH [OF file_step_state [OF Suc.prems(1) t(2)] _ Suc.prems(3) dt live, of "Suc (k + length sk)" rest "decode_entry (raw ?B v)",
        unfolded eq, OF Suc.prems(2) t(4) Suc.prems(8) sl' Suc.prems(10) rest] by blast
    then show ?thesis using t(1) v0 Cons v(4) file_step_trans [OF t(2) u(2)] by (intro exI [of _ u] exI [of _ d'']) (simp add: bnd_def)
  qed
qed simp

subsection \<open>Opening\<close>

text \<open>\<open>fat_open_dir\<close> gives a descriptor at the first slot of the directory.\<close>

lemma dir_pos_root: "dir_pos fi B [] (run_of (root_dir_block fi) n) (d\<lparr>is_root := True, block_addr := root_dir_block fi,
    block_in_cluster := 0, index_in_block := 0, abs_offset := 0, dir_entry_modified := False\<rparr>) 0"
  by (simp add: dir_pos_def run_of_def)

lemma dir_pos_begin:
  assumes geo: "cluster_geometry fi" and ch: "chain fi B cs" and e: "de_cluster_lo (dir_entry d) = hd cs"
  shows "dir_pos fi B cs (file_blocks fi cs) (init_desc fi (fat_entry fi B) d) 0"
proof -
  have ne: "cs \<noteq> []" using chain_nonempty [OF ch] .
  then have nz: "hd cs \<noteq> 0" using chain_data [OF ch, of "hd cs"] by (auto simp: data_cluster_def)
  then show ?thesis using ne ch e spc_bounds [OF geo] nth_file_blocks [of 0 cs fi]
    by (simp add: dir_pos_def pos_at_def init_desc_def Let_def hd_conv_nth)
qed

lemma open_dir_run:
  assumes S: "fat_state blocks ready s" and geo: "cluster_geometry (fat_info s)"
    and i: "i = first_free (fat_private_file_desc s)" "i < MAX_FILE_DESC"
    and dir: "dir_blocks (fat_info s) (ready (dev s)) (blocks (dev s)) dir bs"
  obtains t d cs where "fat_open_dir C dir s = Some (Inr (of_nat i, t))"
    "file_step blocks ready s i d (last_error s) (blocks (dev s)) t"
    "dir_pos (fat_info s) (blocks (dev s)) cs bs d 0" "\<not> is_free d" "is_stale d = is_stale (fat_private_file_desc s ! i)"
proof -
  let ?fi = "fat_info s" and ?B = "blocks (dev s)" and ?ds = "fat_private_file_desc s"
  have g: "good blocks s" using S by (simp add: fat_state_def)
  have len: "length ?ds = MAX_FILE_DESC" using good_length [OF g] .
  have il: "i < length ?ds" using len i(2) by simp
  have fd: "unat (of_nat i :: u8) = i" "(of_nat i :: u8) \<noteq> FAT_BAD_DESC"
  proof -
    show u: "unat (of_nat i :: u8) = i" using i(2) by (simp add: unat_of_nat_mod)
    then show "(of_nat i :: u8) \<noteq> FAT_BAD_DESC" using i(2) unat_bad_desc by blast
  qed
  have at: "file_step blocks ready s i d (last_error s) ?B (s\<lparr>fat_private_file_desc := ?ds[i := d]\<rparr>)" for d
    using at_disk_refl [OF good_desc [OF g, of "?ds[i := d]"]] len by (simp add: file_step_def at_disk_def)
  show thesis
  proof (cases "dir = None \<or> de_cluster_lo (the dir) = 0")
    case True
    let ?d = "(?ds ! i)\<lparr>is_free := False, is_root := True, block_addr := root_dir_block ?fi,
      block_in_cluster := 0, index_in_block := 0, abs_offset := 0, dir_entry_modified := False\<rparr>"
    obtain n where "bs = run_of (root_dir_block ?fi) n" using True dir by (auto simp: dir_blocks_def)
    then have p: "dir_pos ?fi ?B [] bs ?d 0" using dir_pos_root [of ?fi ?B n "(?ds ! i)\<lparr>is_free := False\<rparr>"] by simp
    have "fat_open_dir C dir s = Some (Inr (of_nat i, s\<lparr>fat_private_file_desc := ?ds[i := ?d]\<rparr>))"
      using True get_free_fd_run [OF g i] fd il
      by (cases dir) (auto simp: fat_open_dir_def fat_private_init_root_dir_def Let_def upd_pfd_def bnd_def)
    then show thesis by (rule that [OF _ at p]) simp_all
  next
    case False
    then obtain e where e: "dir = Some e" "de_cluster_lo e \<noteq> 0" by auto
    obtain cs where cs: "chain ?fi ?B cs" "hd cs = de_cluster_lo e" "bs = file_blocks ?fi cs"
      using e dir by (auto simp: dir_blocks_def)
    let ?d = "(?ds ! i)\<lparr>is_free := False, dir_entry := e\<rparr>" and ?r = "init_desc ?fi (fat_entry ?fi ?B)"
    let ?u = "s\<lparr>fat_private_file_desc := ?ds[i := ?d]\<rparr>"
    have u: "fat_state blocks ready ?u" "fat_private_file_desc ?u ! i = ?d"
      using S good_desc [OF g, of "?ds[i := ?d]"] len il by (simp_all add: fat_state_def)
    have "de_cluster_lo (dir_entry ?d) = 0 \<or>
        chain (fat_info ?u) (blocks (dev ?u)) cs \<and> de_cluster_lo (dir_entry ?d) \<in> set cs"
      using cs chain_nonempty [OF cs(1)] hd_in_set [of cs] by simp
    from init_fd_run [OF u(1) i(2) u(2) this] obtain t where t: "fat_private_init_fd C i ?u = Some (Inr (True, t))"
      "file_step blocks ready ?u i (?r ?d) (last_error s) ?B t" by auto
    have "fat_open_dir C dir s = Some (Inr (of_nat i, t))"
      using get_free_fd_run [OF g i] fd il e t(1) by (simp add: fat_open_dir_def Let_def upd_pfd_def bnd_def)
    moreover have "dir_pos ?fi ?B cs bs (?r ?d) 0"
      unfolding cs(3) using cs(2) by (intro dir_pos_begin [OF geo cs(1)]) simp
    ultimately show thesis using t(2) that by (simp add: file_step_def init_desc_def Let_def)
  qed
qed

end

subsection \<open>The property\<close>

text \<open>
  C14: A directory opened with \<open>fat_open_dir\<close> and read with \<open>fat_get_next_dir_entry\<close> until that returns
  false gives the entries of its slots up to the end mark, in their order, without the deleted
  ones, the parts of long names, and those with an attribute of the mask; each once. Nothing but the
  descriptor changes.
\<close>

theorem list_directory:
  assumes dev: "live_device C blocks ready" and S: "fat_state blocks ready s"
    and geo: "cluster_geometry (fat_info s)"
    and i: "i = first_free (fat_private_file_desc s)" "i < MAX_FILE_DESC" "\<not> is_stale (fat_private_file_desc s ! i)"
    and dir: "dir_blocks (fat_info s) (ready (dev s)) (blocks (dev s)) dir bs"
    and sl: "slots bs = used @ x # post" "\<forall>y \<in> set used. raw (blocks (dev s)) y ! 0 \<noteq> 0" "raw (blocks (dev s)) x ! 0 = 0"
    and n: "length used < n"
  shows "\<exists>t d'. bnd (fat_open_dir C dir) (\<lambda>fd. list_dir C fd dst msk n) s =
      Some (Inr (map (\<lambda>y. decode_entry (raw (blocks (dev s)) y)) (filter (\<lambda>y. \<not> hidden (blocks (dev s)) msk y) used), t)) \<and>
    file_step blocks ready s i d' FAT_ERROR_OK (blocks (dev s)) t"
proof -
  let ?B = "blocks (dev s)"
  obtain t d cs where t: "fat_open_dir C dir s = Some (Inr (of_nat i, t))"
    "file_step blocks ready s i d (last_error s) ?B t" "dir_pos (fat_info s) ?B cs bs d 0" "\<not> is_free d" "\<not> is_stale d"
    using live_device.open_dir_run [OF dev S geo i(1,2) dir] i(3) by metis
  note eq = file_step_simps [OF t(2)]
  have fd: "unat (of_nat i :: u8) = i" using i(2) by (simp add: unat_of_nat_mod)
  have "good blocks s" using S by (simp add: fat_state_def)
  then have dt: "fat_private_file_desc t ! i = d" unfolding eq(1) by (simp add: good_length i(2))
  have St: "fat_state blocks ready t" using file_step_state [OF S t(2)] .
  have rdy: "\<forall>b \<in> set bs. ready (dev s) b" using dir by (simp add: dir_blocks_def)
  have n': "length (filter (\<lambda>y. \<not> hidden ?B msk y) used) < n" using n length_filter_le le_less_trans by blast
  have "drop 0 (slots bs) = used @ x # post" using sl(1) by simp
  then obtain u d' where u: "list_dir C (of_nat i) dst msk n t =
      Some (Inr (map (\<lambda>y. decode_entry (raw ?B y)) (filter (\<lambda>y. \<not> hidden ?B msk y) used), u))"
    "file_step blocks ready t i d' FAT_ERROR_OK ?B u"
    using live_device.list_dir_run [OF dev St, of "of_nat i" d cs bs 0 used x post msk n dst, unfolded eq(2-5) fd,
        OF geo i(2) dt t(4,5,3) rdy _ sl(3,2) n'] by blast
  show ?thesis using t(1) u(1) file_step_trans [OF t(2) u(2)] by (intro exI [of _ u] exI [of _ d']) (simp add: bnd_def)
qed

theorem list_directory_witness:
  "\<exists>t. bnd (fat_open_dir sd_ops None) (\<lambda>fd. list_dir sd_ops fd small_entry 0x08 16) small_fs = Some (Inr ([small_entry], t))"
proof -
  have free: "0 = first_free (fat_private_file_desc small_fs)" "\<not> is_stale (fat_private_file_desc small_fs ! 0)"
    using small_free by simp_all
  have vis: "\<not> hidden (sd_block small_card) 0x08 (3, 0)"
    by (simp add: hidden_def small_raw small_first Let_def) (simp add: small_entry_def)
  show ?thesis
    using list_directory [OF sd.live_device_axioms small_fs_state _ free(1) _ free(2), where dir = None and bs = "[3]" and used = "[(3, 0)]" and x = "(3, 1)"
        and post = "map (Pair 3) [2..<16]" and n = 16 and dst = small_entry and msk = "0x08", unfolded small_fs_simps, OF small_geometry _ small_dir small_slots(2)] vis
    by (auto simp: small_raw [unfolded One_nat_def] small_first)
qed

end
