(* ===== verification/FatMount.thy ===== *)
theory FatMount
  imports FatDesc FatRead FatDir
begin

section \<open>Mounting a volume, and descriptors from before (lib/fat/fat.c)\<close>

text \<open>
  A boot sector whose numbers fit makes \<open>fat_mount\<close> establish what every operation on files relies
  on: \<open>fat_state\<close> and \<open>cluster_geometry\<close>. Descriptors that were open before are refused by every
  operation afterwards.
\<close>

subsection \<open>A sane boot sector\<close>

definition first_fat :: "BPB \<Rightarrow> nat" where
  "first_fat b = unat (bpb_n_hidden_sectors b) + unat (bpb_n_reserved_sectors b)"

definition root_start :: "BPB \<Rightarrow> nat" where
  "root_start b = first_fat b + 2 * unat (bpb_sectors_per_fat b)"

definition data_start :: "BPB \<Rightarrow> nat" where
  "data_start b = root_start b + (unat (bpb_n_dir_entries b) + 15) div 16"

definition sectors :: "BPB \<Rightarrow> nat" where
  "sectors b = (if bpb_total_sectors b = 0 then unat (bpb_large_sectors b) else unat (bpb_total_sectors b))"

text \<open>
  FAT16 with two FATs and clusters of up to 64 blocks; the sector count is compared with
  \<open>data_start\<close>, which counts the hidden sectors, as the code does.
\<close>

definition sane_bpb :: "BPB \<Rightarrow> bool" where
  "sane_bpb b \<longleftrightarrow> bpb_bytes_per_sector b = 512 \<and> bpb_n_fats b = 2 \<and>
     unat (bpb_sectors_per_cluster b) \<in> {1, 2, 4, 8, 16, 32, 64} \<and>
     unat (bpb_sectors_per_fat b) \<le> 256 \<and> unat (bpb_n_dir_entries b) + 15 < 65536 \<and>
     data_start b \<le> sectors b \<and>
     4085 \<le> (sectors b - data_start b) div unat (bpb_sectors_per_cluster b) \<and>
     (sectors b - data_start b) div unat (bpb_sectors_per_cluster b) < 65525"

definition bpb_info :: "BPB \<Rightarrow> FatInfo \<Rightarrow> FatInfo" where
  "bpb_info b fi = fi\<lparr>fat0_offset := of_nat (first_fat b),
     fat1_offset := of_nat (first_fat b + unat (bpb_sectors_per_fat b)),
     root_dir_block := of_nat (root_start b), data_offset := of_nat (data_start b),
     n_dir_entries := bpb_n_dir_entries b,
     n_clusters := of_nat ((sectors b - data_start b) div unat (bpb_sectors_per_cluster b)),
     sectors_per_fat := bpb_sectors_per_fat b,
     log_sectors_per_cluster := log_loop 0 (bpb_sectors_per_cluster b),
     sectors_per_cluster := bpb_sectors_per_cluster b\<rparr>"

lemma log_exact:
  "unat n \<in> {1, 2, 4, 8, 16, 32, 64} \<Longrightarrow>
   unat (log_loop 0 n) \<le> 6 \<and> unat n = 2 ^ unat (log_loop 0 n)"
proof -
  assume n: "unat n \<in> {1, 2, 4, 8, 16, 32, 64}"
  then have "n \<in> {1, 2, 4, 8, 16, 32, 64}" by (auto simp: word_unat_eq_iff)
  moreover have "log_loop 0 1 = 0" "log_loop 0 2 = 1" "log_loop 0 4 = 2" "log_loop 0 8 = 3" "log_loop 0 16 = 4"
    "log_loop 0 32 = 5" "log_loop 0 64 = 6"
    by code_simp+
  ultimately show ?thesis by (elim insertE emptyE) simp_all
qed

lemma sane_geometry: "sane_bpb b \<Longrightarrow> cluster_geometry (bpb_info b fi)"
  using log_exact [of "bpb_sectors_per_cluster b"] by (simp add: sane_bpb_def cluster_geometry_def spc_def bpb_info_def)

lemma sectors_bound: "sectors b < 4294967296"
  using unat_u32 [of "bpb_large_sectors b"] unat_u16 [of "bpb_total_sectors b"] by (simp add: sectors_def)

lemma mount_bpb_sane:
  assumes "sane_bpb b"
  shows "mount_bpb b s = Some (Inr (True, s\<lparr>fat_info := bpb_info b (fat_info s)\<rparr>))"
proof -
  let ?spf = "unat (bpb_sectors_per_fat b)" and ?n = "unat (bpb_sectors_per_cluster b)"
  have a: "bpb_n_hidden_sectors b + ucast (bpb_n_reserved_sectors b) = of_nat (first_fat b)"
    by (simp add: first_fat_def)
  have r: "of_nat (first_fat b) + ucast (bpb_sectors_per_fat b) + ucast (bpb_sectors_per_fat b) = (of_nat (root_start b) :: u32)"
    by (simp add: root_start_def)
  have "unat (bpb_n_dir_entries b + 15) = unat (bpb_n_dir_entries b) + 15"
    using assms unat_plus_of_nat [of "bpb_n_dir_entries b" 15] by (simp add: sane_bpb_def)
  then have "unat (drop_bit 4 (bpb_n_dir_entries b + 15)) = (unat (bpb_n_dir_entries b) + 15) div 16"
    unfolding unat_drop_bit_eq by (simp add: drop_bit_eq_div)
  then have d: "of_nat (root_start b) + ucast (drop_bit 4 (bpb_n_dir_entries b + 15)) = (of_nat (data_start b) :: u32)"
    unfolding ucast_of_nat_unat [of "drop_bit 4 (bpb_n_dir_entries b + 15)"] by (simp add: data_start_def)
  define ds where "ds = (if bpb_total_sectors b = 0 then bpb_large_sectors b else ucast (bpb_total_sectors b)) - of_nat (data_start b)"
  have tot: "(if bpb_total_sectors b = 0 then bpb_large_sectors b else ucast (bpb_total_sectors b)) = of_nat (sectors b)"
    by (simp add: sectors_def)
  have ds: "unat ds = sectors b - data_start b"
  proof -
    have "data_start b \<le> sectors b" using assms by (simp add: sane_bpb_def)
    then have "ds = of_nat (sectors b - data_start b)" by (simp add: ds_def tot of_nat_diff)
    then show ?thesis using sectors_bound [of b] by (simp add: unat_of_nat_mod)
  qed
  let ?lg = "log_loop 0 (bpb_sectors_per_cluster b)"
  have "?n = 2 ^ unat ?lg" using log_exact [of "bpb_sectors_per_cluster b"] assms by (simp add: sane_bpb_def)
  then have n: "unat (drop_bit (unat ?lg) ds) = (sectors b - data_start b) div ?n"
    unfolding unat_drop_bit_eq ds by (simp add: drop_bit_eq_div)
  then have "\<not> drop_bit (unat ?lg) ds < 4085" "drop_bit (unat ?lg) ds < 65525"
    "(ucast (drop_bit (unat ?lg) ds) :: u16) = of_nat ((sectors b - data_start b) div ?n)"
    unfolding ucast_of_nat_unat [of "drop_bit (unat ?lg) ds"]
    using assms by (simp_all add: sane_bpb_def word_less_nat_alt not_less del: drop_bit_eq_div)
  then show ?thesis
    using assms a r d unfolding sane_bpb_def
    by (simp add: mount_bpb_def mount_rest_def Let_def upd_info_def bpb_info_def ds_def [symmetric] del: drop_bit_eq_div)
qed

subsection \<open>The mount\<close>

text \<open>The two FATs the boot sector describes can be transferred and agree.\<close>

definition fats_ok :: "BPB \<Rightarrow> (u32 \<Rightarrow> bool) \<Rightarrow> (u32 \<Rightarrow> bytes) \<Rightarrow> bool" where
  "fats_ok b rdy B \<longleftrightarrow> (\<forall>i < unat (bpb_sectors_per_fat b).
     rdy (of_nat (first_fat b + i)) \<and> rdy (of_nat (first_fat b + unat (bpb_sectors_per_fat b) + i)) \<and>
     B (of_nat (first_fat b + unat (bpb_sectors_per_fat b) + i)) = B (of_nat (first_fat b + i)))"

lemma sane_layout:
  assumes sane: "sane_bpb b" and fats: "fats_ok b rdy B"
  shows "fat_layout (bpb_info b fi) rdy" and "mirrored (bpb_info b fi) B"
    and "unat (fat0_offset (bpb_info b fi)) = first_fat b"
    and "unat (fat1_offset (bpb_info b fi)) = first_fat b + unat (bpb_sectors_per_fat b)"
    and "unat (root_dir_block (bpb_info b fi)) = root_start b"
    and "unat (data_offset (bpb_info b fi)) = data_start b"
proof -
  have "data_start b < 4294967296" using sane sectors_bound [of b] unfolding sane_bpb_def by linarith
  moreover have "root_start b \<le> data_start b" "first_fat b + 2 * unat (bpb_sectors_per_fat b) = root_start b"
    by (simp_all add: data_start_def root_start_def)
  ultimately show off: "unat (fat0_offset (bpb_info b fi)) = first_fat b"
    "unat (fat1_offset (bpb_info b fi)) = first_fat b + unat (bpb_sectors_per_fat b)"
    "unat (root_dir_block (bpb_info b fi)) = root_start b" "unat (data_offset (bpb_info b fi)) = data_start b"
    by (simp_all add: bpb_info_def unat_of_nat_mod del: of_nat_add of_nat_Suc add_2_eq_Suc)
  show "fat_layout (bpb_info b fi) rdy"
    using sane fats off unfolding fat_layout_def sane_bpb_def fats_ok_def
    by (simp add: data_start_def root_start_def) (simp add: bpb_info_def)
  show "mirrored (bpb_info b fi) B" using fats by (simp add: mirrored_def fats_ok_def bpb_info_def)
qed

context live_device
begin

lemma fat_mount_run:
  assumes wf: "wf_fs s" and init: "op_init C (dev s) = Some (0, d0)"
    and p: "p = part_rel_sector (decode_partition (blocks d0 0) 446)" and rdy: "ready d0 0" "ready d0 p"
    and b: "b = decode_bpb (blocks d0 p)" and sane: "sane_bpb b" and fats: "fats_ok b (ready d0) (blocks d0)"
  obtains t where "fat_mount C s = Some (Inr (True, t))" "fat_state blocks ready t"
    "fat_info t = bpb_info b (fat_info s)" "fat_private_file_desc t = map mark_stale (fat_private_file_desc s)"
    "blocks (dev t) = blocks d0" "ready (dev t) = ready d0" "last_error t = last_error s"
proof -
  let ?s0 = "s\<lparr>cache_block_addr := INVALID_BLOCK_ADDR, fat_private_file_desc := map mark_stale (fat_private_file_desc s)\<rparr>"
  let ?s1 = "?s0\<lparr>dev := d0\<rparr>"
  have g: "good blocks ?s1" using wf by (simp add: good_def wf_fs_def coherent_def)
  have r0: "ready (dev ?s1) 0" using rdy by simp
  obtain t where t: "cache C 0 ?s1 = Some (Inr (True, t))" "at_disk blocks ready ?s1 (blocks (dev ?s1)) t"
    "cache_block t = blocks (dev ?s1) 0"
    using cache_run [OF g r0] by blast
  note eqt = at_disk_simps [OF t(2), simplified]
  have rp: "ready (dev t) p" using rdy eqt by simp
  obtain u where u: "cache C p t = Some (Inr (True, u))" "at_disk blocks ready t (blocks (dev t)) u"
    "cache_block u = blocks (dev t) p"
    using cache_run [OF at_disk_good [OF t(2)] rp] by blast
  note equ = at_disk_simps [OF u(2)]
  have bpb: "decode_bpb (cache_block u) = b" using u(3) eqt b by simp
  let ?t = "u\<lparr>fat_info := bpb_info b (fat_info u)\<rparr>"
  have run: "fat_mount C s = Some (Inr (True, ?t))"
    using init t(1,3) u(1) bpb mount_bpb_sane [OF sane, of u] p
    by (simp add: fat_mount_def card_init_def bnd_def)
  have "good blocks ?t" using at_disk_good [OF u(2)] by (simp add: good_def wf_fs_def coherent_def)
  then have "fat_state blocks ready ?t"
    using sane_layout(1,2) [OF sane fats, of "fat_info u"] equ eqt by (simp add: fat_state_def)
  then show thesis using run that [of ?t] equ eqt by simp
qed

end

subsection \<open>Descriptors that are refused\<close>

lemma get_desc_refused:
  assumes "i < length (fat_private_file_desc s)" and "unat fd = i" and "fat_private_file_desc s ! i = d"
    and "is_free d \<or> is_stale d"
  shows "get_desc fd s = Some (Inr (None, s\<lparr>last_error :=
    (if is_free d then FAT_ERROR_BAD_DESCRIPTOR else FAT_ERROR_STALE_DESCRIPTOR)\<rparr>))"
  using assms by (auto simp: get_desc_def pfd_def set_last_error_def bnd_def)

lemmas desc_ops = fat_read_def fat_write_def fat_action_def fat_seek_def fat_seek_end_def fat_truncate_def
  fat_tell_def fat_get_size_def fat_get_dir_entry_def fat_get_next_dir_entry_def

text \<open>Every operation that starts with \<open>get_desc\<close> fails at once.\<close>

definition refused :: "'d card_ops \<Rightarrow> u8 \<Rightarrow> u8 \<Rightarrow> 'd fs \<Rightarrow> bool" where
  "refused C fd e s \<longleftrightarrow> (\<forall>buf len off dst skip. let t = s\<lparr>last_error := e\<rparr> in
     fat_read C fd buf len s = Some (Inr ((0, buf), t)) \<and> fat_write C fd buf len s = Some (Inr (0, t)) \<and>
     fat_seek C fd off s = Some (Inr (False, t)) \<and> fat_seek_end C fd s = Some (Inr (False, t)) \<and>
     fat_truncate C fd s = Some (Inr (False, t)) \<and> fat_tell fd s = Some (Inr (0xffffffff, t)) \<and>
     fat_get_size fd s = Some (Inr (0xffffffff, t)) \<and> fat_get_dir_entry fd s = Some (Inr (None, t)) \<and>
     fat_get_next_dir_entry C fd dst skip s = Some (Inr ((False, dst), t)))"

lemma refusedI:
  assumes "unat fd < length (fat_private_file_desc s)" and "fat_private_file_desc s ! unat fd = d"
    and "is_free d \<or> is_stale d"
  shows "refused C fd (if is_free d then FAT_ERROR_BAD_DESCRIPTOR else FAT_ERROR_STALE_DESCRIPTOR) s"
  using get_desc_refused [OF assms(1) refl assms(2,3)] by (simp add: refused_def desc_ops Let_def)

subsection \<open>The properties\<close>

text \<open>
  C15: On a card with a partition whose boot sector is sane and whose two FATs agree, \<open>fat_mount\<close>
  succeeds and establishes what reading, writing and opening need: the state of the FAT layer and
  a valid cluster size, with the areas of the volume one behind the other where the boot sector
  puts them; every descriptor that was open is stale.
\<close>

theorem fat_mount_establishes_state:
  assumes dev: "live_device C blocks ready"
    and wf: "wf_fs s" and init: "op_init C (dev s) = Some (0, d0)"
    and p: "p = part_rel_sector (decode_partition (blocks d0 0) 446)" and rdy: "ready d0 0" "ready d0 p"
    and b: "b = decode_bpb (blocks d0 p)" and sane: "sane_bpb b" and fats: "fats_ok b (ready d0) (blocks d0)"
  shows "\<exists>t. fat_mount C s = Some (Inr (True, t)) \<and> fat_state blocks ready t \<and> cluster_geometry (fat_info t) \<and>
    unat (fat0_offset (fat_info t)) = first_fat b \<and>
    unat (fat1_offset (fat_info t)) = first_fat b + unat (bpb_sectors_per_fat b) \<and>
    unat (root_dir_block (fat_info t)) = root_start b \<and> unat (data_offset (fat_info t)) = data_start b \<and>
    spc (fat_info t) = unat (bpb_sectors_per_cluster b) \<and>
    fat_private_file_desc t = map mark_stale (fat_private_file_desc s) \<and> blocks (dev t) = blocks d0"
proof -
  obtain t where t: "fat_mount C s = Some (Inr (True, t))" "fat_state blocks ready t"
    "fat_info t = bpb_info b (fat_info s)" "fat_private_file_desc t = map mark_stale (fat_private_file_desc s)"
    "blocks (dev t) = blocks d0"
    using live_device.fat_mount_run [OF dev wf init p rdy b sane fats] by metis
  have "spc (bpb_info b (fat_info s)) = unat (bpb_sectors_per_cluster b)" by (simp add: spc_def bpb_info_def)
  then show ?thesis
    using t sane_geometry [OF sane, of "fat_info s"] sane_layout(3-6) [OF sane fats, of "fat_info s"] by (intro exI [of _ t]) simp
qed

lemma boot_start:
  "first_fat (decode_bpb (sd_block boot_card 1)) = 2" "data_start (decode_bpb (sd_block boot_card 1)) = 35"
  "sectors (decode_bpb (sd_block boot_card 1)) = 4200"
  by (simp_all add: boot_blocks(2) first_fat_def data_start_def root_start_def sectors_def)

lemma boot_sane: "sane_bpb (decode_bpb (sd_block boot_card 1))"
  unfolding sane_bpb_def boot_start by (simp add: boot_blocks(2))

lemma boot_bpb_info: "bpb_info (decode_bpb (sd_block boot_card 1)) fi = boot_info"
proof -
  have "log_loop 0 1 = 0" by (simp add: log_loop.simps)
  then show ?thesis unfolding bpb_info_def boot_start
    by (simp add: boot_blocks(2) boot_info_def root_start_def first_fat_def)
qed

theorem fat_mount_establishes_state_witness:
  "\<exists>t. fat_mount sd_ops boot_fs = Some (Inr (True, t)) \<and> fat_state sd_block sd_ready t \<and>
     cluster_geometry (fat_info t) \<and> unat (data_offset (fat_info t)) = 35"
proof -
  let ?b = "decode_bpb (sd_block boot_card 1)" and ?d0 = "boot_card\<lparr>initialised := True\<rparr>"
  note bpb = boot_blocks(2) and start = boot_start
  have fats: "fats_ok ?b (sd_ready ?d0) (sd_block boot_card)"
  proof -
    have "sd_ready ?d0 (of_nat k) \<and> sd_block boot_card (of_nat k) = replicate 512 0" if "2 \<le> k" "k < 100" for k
    proof -
      have u: "unat (of_nat k :: u32) = k" using that by (simp add: unat_of_nat_mod)
      have "(of_nat k :: u32) \<noteq> 0" "(of_nat k :: u32) \<noteq> 1" using u that by (auto dest: arg_cong [of _ _ unat])
      then show ?thesis
        using u that by (simp add: sd_ready_def boot_card_def sd_block_def word_less_nat_alt)
    qed
    then show ?thesis unfolding fats_ok_def start by (simp add: bpb del: of_nat_add of_nat_Suc add_2_eq_Suc)
  qed
  have "wf_fs boot_fs" by (simp add: wf_fs_def boot_fs_def small_fs_def)
  moreover have "op_init sd_ops (dev boot_fs) = Some (0, ?d0)" by (simp add: boot_fs_def sd_ops_def boot_card_def)
  ultimately show ?thesis
    using fat_mount_establishes_state [OF sd.live_device_axioms, of boot_fs ?d0 1 ?b, unfolded start(2) sd_block_initialised]
      boot_blocks(1) boot_sane fats
    by (auto simp: boot_fs_def sd_ready_def boot_card_def)
qed

text \<open>
  C39: Whatever the card does during a mount, afterwards every operation but
  \<open>fat_close\<close> on a descriptor that was open before fails with \<open>FAT_ERROR_STALE_DESCRIPTOR\<close>, and on one that was free with
  \<open>FAT_ERROR_BAD_DESCRIPTOR\<close>; neither touches the card, the cache or the descriptor table.
\<close>

theorem remount_refuses_descriptors:
  assumes C: "sized_card C" and wf: "wf_fs s"
  shows "wlp (fat_mount C) (\<lambda>ok t. \<forall>fd. unat fd < MAX_FILE_DESC \<longrightarrow>
    refused C fd (if is_free (fat_private_file_desc s ! unat fd) then FAT_ERROR_BAD_DESCRIPTOR
      else FAT_ERROR_STALE_DESCRIPTOR) t) s"
proof (rule wlp_mono [OF sized_card.fat_mount_wlp [OF C wf]], intro allI impI, elim conjE)
  fix t :: "'a fs" and fd :: u8
  assume t: "fat_private_file_desc t = map mark_stale (fat_private_file_desc s)" and fd: "unat fd < MAX_FILE_DESC"
  have len: "unat fd < length (fat_private_file_desc s)" using wf fd by (simp add: wf_fs_def)
  then have d: "fat_private_file_desc t ! unat fd = mark_stale (fat_private_file_desc s ! unat fd)"
    "unat fd < length (fat_private_file_desc t)"
    using t by simp_all
  show "refused C fd (if is_free (fat_private_file_desc s ! unat fd) then FAT_ERROR_BAD_DESCRIPTOR
      else FAT_ERROR_STALE_DESCRIPTOR) t"
  proof (cases "is_free (fat_private_file_desc s ! unat fd)")
    case True
    then show ?thesis using refusedI [OF d(2,1), of C] by (simp add: mark_stale_simps)
  next
    case False
    then have "is_stale (fat_private_file_desc t ! unat fd)" "\<not> is_free (fat_private_file_desc t ! unat fd)"
      unfolding d(1) by (simp_all add: mark_stale_simps)
    then show ?thesis using refusedI [OF d(2) refl, of C] False by simp
  qed
qed

theorem remount_refuses_descriptors_witness:
  "\<exists>t. fat_mount sd_ops boot_fs = Some (Inr (True, t)) \<and> refused sd_ops 0 FAT_ERROR_STALE_DESCRIPTOR t \<and>
     refused sd_ops 1 FAT_ERROR_BAD_DESCRIPTOR t"
proof -
  have wf: "wf_fs boot_fs" by (simp add: wf_fs_def boot_fs_def small_fs_def)
  have W: "wlp (fat_mount sd_ops) (\<lambda>ok t. \<forall>fd. unat fd < MAX_FILE_DESC \<longrightarrow>
    refused sd_ops fd (if is_free (fat_private_file_desc boot_fs ! unat fd) then FAT_ERROR_BAD_DESCRIPTOR
      else FAT_ERROR_STALE_DESCRIPTOR) t) boot_fs"
    by (intro remount_refuses_descriptors [OF sd.sized_card_axioms wf])
  obtain t where t: "fat_mount sd_ops boot_fs = Some (Inr (True, t))" using boot_mount by blast
  with W have R: "unat fd < MAX_FILE_DESC \<longrightarrow>
    refused sd_ops fd (if is_free (fat_private_file_desc boot_fs ! unat fd) then FAT_ERROR_BAD_DESCRIPTOR
      else FAT_ERROR_STALE_DESCRIPTOR) t" for fd
    by (simp add: wlp_def)
  from R [of 0] R [of 1] t show ?thesis by (auto simp: boot_fs_def free_desc_def)
qed

end
