(* ===== verification/FatPath.thy ===== *)
theory FatPath
  imports FatDir
begin

section \<open>Paths (lib/fat/path.c)\<close>

text \<open>
  \<open>fat_find_path\<close> walks an absolute path from the root directory, component by component, in
  one descriptor; \<open>fat_open_path\<close> makes the result ready for reading and writing. The local
  array \<open>filename\<close> has thirteen bytes: a longer component is written past its end, the fault
  \<open>Overrun\<close>.
\<close>

definition CH_SLASH :: u8 where "CH_SLASH = 0x2f"

text \<open>\<open>copy_first_entry\<close>: the bytes copied (without the terminator) and the pointer returned.\<close>

fun copy_first_entry :: "bytes \<Rightarrow> bytes \<times> bytes" where
  "copy_first_entry [] = ([], [])"
| "copy_first_entry (c # cs) =
     (if c = 0 \<or> c = CH_SLASH then ([], c # cs)
      else (c # fst (copy_first_entry cs), snd (copy_first_entry cs)))"

lemma length_copy_first_entry: "length (snd (copy_first_entry cs)) \<le> length cs"
  by (induction cs) auto

definition FILENAME_BUF :: nat where "FILENAME_BUF = 8 + 3 + 1 + 1"

function walk :: "'d card_ops \<Rightarrow> nat \<Rightarrow> u8 \<Rightarrow> bytes \<Rightarrow> ('d fs, bool) cmd" where
  "walk C i mode path =
     (if deref path = 0 then ret True
      else if deref path = CH_SLASH then walk C i mode (tl path)
      else
        (let name = fst (copy_first_entry path); rest = snd (copy_first_entry path);
             cur_mode = (if deref rest = 0 then mode else 0)
         in
         if FILENAME_BUF < length name + 1 then abort Overrun
         else
           bnd (pfd i) (\<lambda>d.
           bnd (fat_private_find_file C (Some (dir_entry d)) name cur_mode) (\<lambda>r.
           case r of
             None \<Rightarrow> andthen (upd_pfd i (\<lambda>d. d\<lparr>is_free := True\<rparr>)) (ret False)
           | Some w \<Rightarrow> andthen (store_found i w) (walk C i mode rest)))))"
  by pat_completeness auto
termination
proof (relation "measure (\<lambda>(C, i, mode, path). length path)")
  fix C :: "'d card_ops" and i mode and path :: bytes
  assume "deref path \<noteq> 0"
  then show "((C, i, mode, tl path), C, i, mode, path) \<in> measure (\<lambda>(C, i, mode, path). length path)"
    by (cases path) (auto simp: deref_def)
next
  fix C :: "'d card_ops" and i mode and path name rest :: bytes
  assume "deref path \<noteq> 0" "deref path \<noteq> CH_SLASH" "rest = snd (copy_first_entry path)"
  then show "((C, i, mode, rest), C, i, mode, path) \<in> measure (\<lambda>(C, i, mode, path). length path)"
    by (cases path) (auto simp: deref_def less_Suc_eq_le length_copy_first_entry)
qed auto

declare walk.simps [simp del]

definition fat_find_path :: "'d card_ops \<Rightarrow> bytes \<Rightarrow> u8 \<Rightarrow> ('d fs, u8) cmd" where
  "fat_find_path C path mode =
     (if deref path \<noteq> CH_SLASH then
        andthen (set_last_error FAT_ERROR_RELATIVE_PATH) (ret FAT_BAD_DESC)
      else
        bnd fat_private_get_free_fd (\<lambda>fd.
        if fd = FAT_BAD_DESC then ret FAT_BAD_DESC
        else
          andthen (upd_pfd (unat fd) (\<lambda>d. d\<lparr>dir_entry := (dir_entry d)\<lparr>de_cluster_lo := 0,
             de_attrs := FAT_FILE_ATTR_DIRECTORY\<rparr>\<rparr>))
          (or_return (walk C (unat fd) mode path) FAT_BAD_DESC (ret fd))))"

definition fat_open_path :: "'d card_ops \<Rightarrow> bytes \<Rightarrow> u8 \<Rightarrow> ('d fs, u8) cmd" where
  "fat_open_path C path mode =
     bnd (fat_find_path C path mode) (\<lambda>fd.
     if fd = FAT_BAD_DESC then ret FAT_BAD_DESC
     else
       (let i = unat fd in
        bnd (pfd i) (\<lambda>d.
        if de_attrs (dir_entry d) AND FAT_FILE_ATTR_DIRECTORY \<noteq> 0 \<and> de_cluster_lo (dir_entry d) = 0 then
          andthen (fat_private_init_root_dir i) (ret fd)
        else
          bnd (fat_private_init_fd C i) (\<lambda>ok.
          if ok then ret fd
          else andthen (upd_pfd i (\<lambda>d. d\<lparr>is_free := True\<rparr>)) (ret FAT_BAD_DESC)))))"

end
