(* ===== verification/FatWalk.thy ===== *)
theory FatWalk
  imports FatPath FatOpen
begin

section \<open>Opening a file by its path (lib/fat/path.c)\<close>

text \<open>
  A path is a list of names, \<open>components\<close>. \<open>resolves\<close> follows them from one directory entry to the
  next through \<open>lookup\<close>; \<open>fat_find_path\<close> computes it, and \<open>fat_open_path\<close> opens what it finds.
\<close>

subsection \<open>The components of a path\<close>

fun pieces :: "bytes \<Rightarrow> bytes list" where
  "pieces [] = [[]]"
| "pieces (c # cs) =
     (if c = 0 then [[]]
      else if c = CH_SLASH then [] # pieces cs
      else (c # hd (pieces cs)) # tl (pieces cs))"

definition components :: "bytes \<Rightarrow> bytes list" where
  "components path = filter (\<lambda>nm. nm \<noteq> []) (pieces path)"

lemma pieces_first:
  "pieces cs = fst (copy_first_entry cs) #
     (if deref (snd (copy_first_entry cs)) = CH_SLASH then pieces (tl (snd (copy_first_entry cs))) else [])"
  by (induction cs) (auto simp: deref_def CH_SLASH_def)

lemma components_end: "deref path = 0 \<Longrightarrow> components path = []"
  by (cases path) (auto simp: components_def deref_def)

lemma components_slash: "deref path = CH_SLASH \<Longrightarrow> components path = components (tl path)"
  by (cases path) (auto simp: components_def deref_def CH_SLASH_def)

lemma components_name:
  assumes "deref path \<noteq> 0" and "deref path \<noteq> CH_SLASH"
  shows "components path = fst (copy_first_entry path) # components (snd (copy_first_entry path))"
proof -
  let ?r = "snd (copy_first_entry path)"
  have stop: "deref ?r = 0 \<or> deref ?r = CH_SLASH" by (induction path) (auto simp: deref_def)
  have "fst (copy_first_entry path) \<noteq> []" using assms by (cases path) (auto simp: deref_def)
  moreover have "components ?r = filter (\<lambda>nm. nm \<noteq> []) (if deref ?r = CH_SLASH then pieces (tl ?r) else [])"
    using stop components_end [of ?r] components_slash [of ?r] by (auto simp: components_def)
  ultimately show ?thesis unfolding components_def by (subst pieces_first) simp
qed

subsection \<open>Following a path\<close>

text \<open>The entry at a slot; \<open>names fi rdy B e nm x\<close>: in the directory of \<open>e\<close> the name is at \<open>x\<close>.\<close>

definition found_place :: "(u32 \<Rightarrow> bytes) \<Rightarrow> place \<Rightarrow> found" where
  "found_place B x = found_at (raw B x) (snd x) (fst x)"

definition names :: "FatInfo \<Rightarrow> (u32 \<Rightarrow> bool) \<Rightarrow> (u32 \<Rightarrow> bytes) \<Rightarrow> FatDirEntry \<Rightarrow> bytes \<Rightarrow> place \<Rightarrow> bool" where
  "names fi rdy B e nm x \<longleftrightarrow>
     (\<exists>bs. dir_blocks fi rdy B (Some e) bs \<and> lookup B (to_fat_name nm) (slots bs) None = Hit x)"

inductive resolves :: "FatInfo \<Rightarrow> (u32 \<Rightarrow> bool) \<Rightarrow> (u32 \<Rightarrow> bytes) \<Rightarrow> found \<Rightarrow> bytes list \<Rightarrow> found \<Rightarrow> bool"
  for fi rdy B where
  here: "resolves fi rdy B w [] w"
| down: "names fi rdy B (fst w) nm x \<Longrightarrow> resolves fi rdy B (found_place B x) nms w' \<Longrightarrow>
    resolves fi rdy B w (nm # nms) w'"

inductive_cases resolves_nil: "resolves fi rdy B w [] w'"
inductive_cases resolves_cons: "resolves fi rdy B w (nm # nms) w'"

definition short :: "bytes \<Rightarrow> bool" where
  "short nm \<longleftrightarrow> length nm < FILENAME_BUF"

text \<open>The descriptor the walk starts with: its entry turned into that of the root directory.\<close>

definition root_found :: "FileDescriptor \<Rightarrow> found" where
  "root_found d = ((dir_entry d)\<lparr>de_cluster_lo := 0, de_attrs := FAT_FILE_ATTR_DIRECTORY\<rparr>,
     dir_entry_index_in_block d, dir_entry_block_addr d)"

lemma found_desc_twice: "found_desc w (found_desc w' d) = found_desc w d"
  by (simp add: found_desc_def)

lemma found_desc_fix: "found_desc w d = d \<Longrightarrow> dir_entry d = fst w \<and> \<not> is_free d"
proof -
  have "dir_entry (found_desc w d) = fst w" "\<not> is_free (found_desc w d)" by (simp_all add: found_desc_def)
  then show "found_desc w d = d \<Longrightarrow> dir_entry d = fst w \<and> \<not> is_free d" by simp
qed

context live_device
begin

text \<open>One name: the entry found is stored in the descriptor.\<close>

lemma find_name:
  assumes S: "fat_state blocks ready s" and i: "i < MAX_FILE_DESC" and d: "fat_private_file_desc s ! i = d"
    and nm: "names (fat_info s) (ready (dev s)) (blocks (dev s)) (dir_entry d) nm x" and live: "\<not> is_free d"
    and mode: "mode AND 3 \<noteq> 3"
  obtains t where "bnd (fat_private_find_file C (Some (dir_entry d)) nm mode) (\<lambda>r. case r of
       None \<Rightarrow> k | Some w \<Rightarrow> andthen (store_found i w) h) s = h t"
    "file_step blocks ready s i (found_desc (found_place (blocks (dev s)) x) d) (last_error s) (blocks (dev s)) t"
proof -
  let ?B = "blocks (dev s)" and ?w = "found_place (blocks (dev s)) x" and ?ds = "fat_private_file_desc s"
  obtain bs where bs: "dir_blocks (fat_info s) (ready (dev s)) ?B (Some (dir_entry d)) bs"
    "Hit x = lookup ?B (to_fat_name nm) (slots bs) None"
    using nm by (auto simp: names_def)
  obtain t where t: "searched blocks ready s (Hit x) t"
    "fat_private_find_file C (Some (dir_entry d)) nm mode s = finish C ?B (to_fat_name nm) mode (Hit x) t"
    using find_file_run [OF S bs] by auto
  have at: "at_disk blocks ready s ?B t" using t(1) by (simp add: searched_def)
  note eq = at_disk_simps [OF at]
  have find: "fat_private_find_file C (Some (dir_entry d)) nm mode s = Some (Inr (Some ?w, t))"
    using t(2) mode by (simp add: finish_def found_place_def)
  have g: "good blocks s" using S by (simp add: fat_state_def)
  have il: "i < length ?ds" using good_length [OF g] i by simp
  let ?u = "t\<lparr>fat_private_file_desc := ?ds[i := found_desc ?w d]\<rparr>"
  have "found_desc ?w d = d\<lparr>dir_entry := fst ?w, dir_entry_index_in_block := fst (snd ?w), dir_entry_block_addr := snd (snd ?w)\<rparr>"
    using live by (cases d) (simp add: found_desc_def)
  then have "store_found i ?w t = Some (Inr ((), ?u))"
    using il eq(1) d by (simp add: store_found_def upd_pfd_def)
  then have "bnd (fat_private_find_file C (Some (dir_entry d)) nm mode) (\<lambda>r. case r of
       None \<Rightarrow> k | Some w \<Rightarrow> andthen (store_found i w) h) s = h ?u"
    using find by (simp add: bnd_def)
  moreover have "file_step blocks ready s i (found_desc ?w d) (last_error s) ?B ?u"
    using good_desc [OF at_disk_good [OF at], of "?ds[i := found_desc ?w d]"] good_length [OF g] eq
    by (simp add: file_step_def at_disk_def)
  ultimately show thesis using that by blast
qed

lemma walk_prefix:
  assumes "resolves fi rdy B w nms w'" and "components path = nms @ rest" and "\<forall>nm \<in> set nms. short nm"
    and "fat_state blocks ready s" and "fat_info s = fi" "ready (dev s) = rdy" "blocks (dev s) = B"
    and "i < MAX_FILE_DESC" and "fat_private_file_desc s ! i = d" and "found_desc w d = d"
    and "mode AND 3 = 3 \<longrightarrow> rest \<noteq> []"
  shows "\<exists>t path'. walk C i mode path s = walk C i mode path' t \<and> components path' = rest \<and>
    file_step blocks ready s i (found_desc w' d) (last_error s) B t"
  using assms
proof (induction "length path" arbitrary: path nms w s d rule: less_induct)
  case less
  have g: "good blocks s" using less.prems(4) by (simp add: fat_state_def)
  have stop: ?case if "nms = []"
  proof -
    have "w' = w" using less.prems(1) that by (auto elim: resolves_nil)
    then show ?thesis
      using file_step_refl [OF g less.prems(9)] less.prems(2,7,10) that by (intro exI [of _ s] exI [of _ path]) simp
  qed
  consider "deref path = 0" | "deref path = CH_SLASH" "deref path \<noteq> 0" | "deref path \<noteq> 0" "deref path \<noteq> CH_SLASH" by blast
  then show ?case
  proof cases
    case 1
    then show ?thesis using stop components_end less.prems(2) by simp
  next
    case 2
    then have "length (tl path) < length path" by (cases path) (auto simp: deref_def)
    moreover have "walk C i mode path s = walk C i mode (tl path) s" using 2 by (subst walk.simps) simp
    ultimately show ?thesis
      using less.hyps [of "tl path" w nms s d] less.prems components_slash [OF 2(1)] by simp
  next
    case 3
    let ?r = "snd (copy_first_entry path)" and ?nm = "fst (copy_first_entry path)"
    show ?thesis
    proof (cases nms)
      case Nil
      then show ?thesis using stop by simp
    next
      case (Cons nm nms1)
      then have nm: "nm = ?nm" "components ?r = nms1 @ rest"
        using less.prems(2) components_name [OF 3] by simp_all
      obtain x where x: "names fi rdy B (fst w) nm x" "resolves fi rdy B (found_place B x) nms1 w'"
        using less.prems(1) Cons by (auto elim: resolves_cons)
      have e: "dir_entry d = fst w" and live: "\<not> is_free d"
        using found_desc_fix [OF less.prems(10)] by simp_all
      have sh: "\<not> FILENAME_BUF < length nm + 1" using less.prems(3) Cons by (simp add: short_def)
      let ?m = "if deref ?r = 0 then mode else 0"
      have m: "?m AND 3 \<noteq> 3" using nm(2) components_end [of ?r] less.prems(11) by auto
      have run: "walk C i mode path s = bnd (fat_private_find_file C (Some (dir_entry d)) nm ?m) (\<lambda>r. case r of
          None \<Rightarrow> andthen (upd_pfd i (\<lambda>d. d\<lparr>is_free := True\<rparr>)) (ret False)
        | Some w \<Rightarrow> andthen (store_found i w) (walk C i mode ?r)) s"
        using 3 sh nm(1) g good_length [OF g] less.prems(8,9) by (subst walk.simps) (simp add: Let_def pfd_def bnd_def)
      obtain t where t: "walk C i mode path s = walk C i mode ?r t"
        "file_step blocks ready s i (found_desc (found_place B x) d) (last_error s) B t"
        using find_name [OF less.prems(4,8,9) _ live m, of nm x] x(1) less.prems(5,6,7) e unfolding run by auto
      note eq = file_step_simps [OF t(2)]
      have St: "fat_state blocks ready t" using file_step_state [OF less.prems(4)] t(2) less.prems(7) by auto
      have il: "i < length (fat_private_file_desc s)" using good_length [OF g] less.prems(8) by simp
      have "length ?r < length path" using 3 length_copy_first_entry [of "tl path"] by (cases path) (auto simp: deref_def less_Suc_eq_le)
      then obtain u path' where u: "walk C i mode ?r t = walk C i mode path' u" "components path' = rest"
        "file_step blocks ready t i (found_desc w' (found_desc (found_place B x) d)) (last_error t) B u"
        using less.hyps [of ?r "found_place B x" nms1 t "found_desc (found_place B x) d"] x(2) nm(2) St eq less.prems Cons il
        by (auto simp: found_desc_twice)
      then show ?thesis
        using t file_step_trans [OF t(2) u(3)] eq(3) by (auto simp: found_desc_twice)
    qed
  qed
qed

lemma walk_done: "components path = [] \<Longrightarrow> walk C i mode path s = Some (Inr (True, s))"
proof (induction path)
  case (Cons c cs)
  then show ?case
    using components_name [of "c # cs"] components_slash [of "c # cs"] by (subst walk.simps) (auto simp: deref_def)
qed (subst walk.simps, simp add: deref_def)

lemma walk_skip:
  "components path = nm # others \<Longrightarrow> \<exists>p. walk C i mode path s = walk C i mode p s \<and> deref p \<noteq> 0 \<and>
     deref p \<noteq> CH_SLASH \<and> fst (copy_first_entry p) = nm \<and> components (snd (copy_first_entry p)) = others"
proof (induction path)
  case Nil
  then show ?case by (simp add: components_def)
next
  case (Cons c cs)
  show ?case
  proof (cases "deref (c # cs) = CH_SLASH")
    case True
    then have "walk C i mode (c # cs) s = walk C i mode cs s" by (subst walk.simps) (simp add: CH_SLASH_def)
    then show ?thesis using Cons components_slash [OF True] by simp
  next
    case False
    have "deref (c # cs) \<noteq> 0" using Cons.prems components_end by auto
    with False show ?thesis using components_name [OF _ False] Cons.prems by (intro exI [of _ "c # cs"]) simp
  qed
qed

lemma find_path_run:
  assumes S: "fat_state blocks ready s" and p: "deref path = CH_SLASH"
    and i: "i = first_free (fat_private_file_desc s)" "i < MAX_FILE_DESC"
    and w: "resolves (fat_info s) (ready (dev s)) (blocks (dev s)) (root_found (fat_private_file_desc s ! i)) nms w"
    and c: "components path = nms @ rest" "\<forall>nm \<in> set nms. short nm" and mode: "mode AND 3 = 3 \<longrightarrow> rest \<noteq> []"
  obtains t path' where "components path' = rest"
    "fat_find_path C path mode s = or_return (walk C i mode path') FAT_BAD_DESC (ret (of_nat i)) t"
    "file_step blocks ready s i (found_desc w (fat_private_file_desc s ! i)) (last_error s) (blocks (dev s)) t"
proof -
  let ?ds = "fat_private_file_desc s"
  let ?r = "root_found (?ds ! i)"
  let ?d = "found_desc ?r (?ds ! i)"
  let ?s1 = "s\<lparr>fat_private_file_desc := ?ds[i := ?d]\<rparr>"
  have g: "good blocks s" using S by (simp add: fat_state_def)
  have il: "i < length ?ds" using good_length [OF g] i(2) by simp
  have u: "unat (of_nat i :: u8) = i" using i(2) by (simp add: unat_of_nat_mod)
  have nb: "(of_nat i :: u8) \<noteq> FAT_BAD_DESC" using unat_bad_desc u i(2) by simp
  have r: "?d = (?ds ! i)\<lparr>is_free := False, dir_entry := (dir_entry (?ds ! i))\<lparr>de_cluster_lo := 0, de_attrs := FAT_FILE_ATTR_DIRECTORY\<rparr>\<rparr>"
    by (cases "?ds ! i") (simp add: found_desc_def root_found_def)
  have run: "fat_find_path C path mode s = or_return (walk C i mode path) FAT_BAD_DESC (ret (of_nat i)) ?s1"
    using get_free_fd_run [OF g i] p u nb il r by (simp add: fat_find_path_def upd_pfd_def bnd_def modify_def)
  have g1: "good blocks ?s1" using good_desc [OF g] good_length [OF g] by simp
  have S1: "fat_state blocks ready ?s1" using S g1 by (simp add: fat_state_def)
  have step1: "file_step blocks ready s i ?d (last_error s) (blocks (dev s)) ?s1"
    using g1 by (simp add: file_step_def at_disk_def)
  have w1: "resolves (fat_info ?s1) (ready (dev ?s1)) (blocks (dev ?s1)) ?r nms w" using w by simp
  have d1: "fat_private_file_desc ?s1 ! i = ?d" using il by simp
  obtain t path' where t: "walk C i mode path ?s1 = walk C i mode path' t" "components path' = rest"
    "file_step blocks ready ?s1 i (found_desc w ?d) (last_error ?s1) (blocks (dev ?s1)) t"
    using walk_prefix [OF w1 c S1 refl refl refl i(2) d1 found_desc_twice mode] by blast
  show thesis
    using that [OF t(2) _] run t(1) file_step_trans [OF step1 t(3)] by (simp add: found_desc_twice bnd_def)
qed

lemma open_path_run:
  assumes S: "fat_state blocks ready s" and geo: "cluster_geometry (fat_info s)"
    and i: "i = first_free (fat_private_file_desc s)" "i < MAX_FILE_DESC"
    and path: "deref path = CH_SLASH" "\<forall>nm \<in> set (components path). short nm"
    and w: "resolves (fat_info s) (ready (dev s)) (blocks (dev s)) (root_found (fat_private_file_desc s ! i))
      (components path) w"
    and mode: "mode AND 3 \<noteq> 3"
    and e: "entry_file (fat_info s) (blocks (dev s)) cs (fst w)" "de_attrs (fst w) AND FAT_FILE_ATTR_DIRECTORY = 0"
  obtains t where "fat_open_path C path mode s = Some (Inr (of_nat i, t))"
    "file_step blocks ready s i (init_desc (fat_info s) (fat_entry (fat_info s) (blocks (dev s)))
       (found_desc w (fat_private_file_desc s ! i))) (last_error s) (blocks (dev s)) t"
proof -
  let ?B = "blocks (dev s)" and ?ds = "fat_private_file_desc s" and ?fi = "fat_info s"
  let ?d = "found_desc w (?ds ! i)"
  have g: "good blocks s" using S by (simp add: fat_state_def)
  have il: "i < length ?ds" using good_length [OF g] i(2) by simp
  have u: "unat (of_nat i :: u8) = i" using i(2) by (simp add: unat_of_nat_mod)
  have nb: "(of_nat i :: u8) \<noteq> FAT_BAD_DESC" using unat_bad_desc u i(2) by simp
  have c: "components path = components path @ []" and m: "mode AND 3 = 3 \<longrightarrow> ([] :: bytes list) \<noteq> []" using mode by simp_all
  obtain t path' where t: "components path' = []"
    "fat_find_path C path mode s = or_return (walk C i mode path') FAT_BAD_DESC (ret (of_nat i)) t"
    "file_step blocks ready s i ?d (last_error s) ?B t"
    using find_path_run [OF S path(1) i(1,2) w c path(2) m] .
  note eq = file_step_simps [OF t(3)]
  have St: "fat_state blocks ready t" using file_step_state [OF S t(3)] .
  have find: "fat_find_path C path mode s = Some (Inr (of_nat i, t))"
    using t(2) walk_done [OF t(1)] by (simp add: bnd_def)
  have d: "fat_private_file_desc t ! i = ?d" "i < length (fat_private_file_desc t)" using eq(1) il by simp_all
  have geo_t: "cluster_geometry (fat_info t)" and e_t: "entry_file (fat_info t) (blocks (dev t)) cs (dir_entry ?d)"
    using geo e eq by (simp_all add: found_desc_def)
  let ?d' = "init_desc ?fi (fat_entry ?fi ?B) ?d"
  obtain v where v: "fat_private_init_fd C i t = Some (Inr (True, v))"
    "file_step blocks ready t i ?d' (last_error t) ?B v"
    using fat_private_init_fd_run [OF St i(2) d(1) e_t] unfolding eq by metis
  have step: "file_step blocks ready s i ?d' (last_error s) ?B v"
    using file_step_trans [OF t(3) v(2)] unfolding eq .
  have "fat_open_path C path mode s = Some (Inr (of_nat i, v))"
    using find nb u d v(1) e(2) by (simp add: fat_open_path_def pfd_def bnd_def Let_def found_desc_def)
  then show thesis using that step by blast
qed

end

subsection \<open>The properties\<close>

text \<open>
  C13: \<open>fat_open_path\<close> on an absolute path whose names, looked up one after the other from the root
  directory, lead to the entry of a file returns the first free descriptor with that file
  open at offset 0 and with its entry and the entry's place; the card and the other descriptors are
  unchanged.
\<close>

theorem fat_open_path_opens:
  assumes dev: "live_device C blocks ready" and S: "fat_state blocks ready s"
    and geo: "cluster_geometry (fat_info s)"
    and i: "i = first_free (fat_private_file_desc s)" "i < MAX_FILE_DESC" "\<not> is_stale (fat_private_file_desc s ! i)"
    and path: "deref path = CH_SLASH" "\<forall>nm \<in> set (components path). short nm"
    and w: "resolves (fat_info s) (ready (dev s)) (blocks (dev s)) (root_found (fat_private_file_desc s ! i))
      (components path) w"
    and mode: "mode AND 3 \<noteq> 3"
    and e: "entry_file (fat_info s) (blocks (dev s)) cs (fst w)" "de_attrs (fst w) AND FAT_FILE_ATTR_DIRECTORY = 0"
  shows "\<exists>t d'. fat_open_path C path mode s = Some (Inr (of_nat i, t)) \<and>
    fat_private_file_desc t = (fat_private_file_desc s)[i := d'] \<and>
    file_open (fat_info s) (blocks (dev s)) cs d' 0 \<and> \<not> is_free d' \<and> \<not> is_stale d' \<and>
    (dir_entry d', dir_entry_index_in_block d', dir_entry_block_addr d') = w \<and>
    fat_state blocks ready t \<and> fat_info t = fat_info s \<and> blocks (dev t) = blocks (dev s) \<and>
    ready (dev t) = ready (dev s) \<and> last_error t = last_error s"
proof -
  let ?B = "blocks (dev s)" and ?fi = "fat_info s" and ?d = "found_desc w (fat_private_file_desc s ! i)"
  let ?d' = "init_desc ?fi (fat_entry ?fi ?B) ?d"
  obtain t where t: "fat_open_path C path mode s = Some (Inr (of_nat i, t))"
    "file_step blocks ready s i ?d' (last_error s) ?B t"
    using live_device.open_path_run [OF dev S geo i(1,2) path w mode e] .
  have "file_open ?fi ?B cs ?d' 0" using init_desc_open [OF geo, of ?B cs ?d] e(1) by (simp add: found_desc_def)
  then show ?thesis
    using t(1) file_step_simps [OF t(2)] file_step_state [OF S t(2)] i(3)
    by (intro exI [of _ t] exI [of _ ?d']) (simp add: init_desc_def found_desc_def Let_def)
qed

text \<open>
  When a name of the path is missing in the directory reached so far, and it is not one to be
  created, \<open>fat_find_path\<close> returns \<open>FAT_BAD_DESC\<close> with \<open>FAT_ERROR_NOT_FOUND\<close>, and the descriptor it
  used is free again; the card is unchanged.
\<close>

theorem fat_find_path_missing:
  assumes dev: "live_device C blocks ready" and S: "fat_state blocks ready s"
    and i: "i = first_free (fat_private_file_desc s)" "i < MAX_FILE_DESC"
    and path: "deref path = CH_SLASH" "components path = nms @ nm # others" "\<forall>n \<in> set (nms @ [nm]). short n"
    and w: "resolves (fat_info s) (ready (dev s)) (blocks (dev s)) (root_found (fat_private_file_desc s ! i)) nms w"
    and bs: "dir_blocks (fat_info s) (ready (dev s)) (blocks (dev s)) (Some (fst w)) bs"
      "lookup (blocks (dev s)) (to_fat_name nm) (slots bs) None = End_mark x sl"
    and mode: "others \<noteq> [] \<or> mode AND O_CREAT = 0"
  shows "\<exists>t d'. fat_find_path C path mode s = Some (Inr (FAT_BAD_DESC, t)) \<and>
    fat_private_file_desc t = (fat_private_file_desc s)[i := d'] \<and> is_free d' \<and>
    last_error t = FAT_ERROR_NOT_FOUND \<and> fat_info t = fat_info s \<and> blocks (dev t) = blocks (dev s)"
proof -
  let ?B = "blocks (dev s)" and ?ds = "fat_private_file_desc s" and ?d = "found_desc w (fat_private_file_desc s ! i)"
  have g: "good blocks s" using S by (simp add: fat_state_def)
  have il: "i < length ?ds" using good_length [OF g] i(2) by simp
  have sh: "\<forall>n \<in> set nms. short n" "\<not> FILENAME_BUF < length nm + 1" using path(3) by (auto simp: short_def)
  obtain t path' where t: "components path' = nm # others"
    "fat_find_path C path mode s = or_return (walk C i mode path') FAT_BAD_DESC (ret (of_nat i)) t"
    "file_step blocks ready s i ?d (last_error s) ?B t"
    using live_device.find_path_run [OF dev S path(1) i w path(2) sh(1), of mode] by blast
  note eq = file_step_simps [OF t(3)]
  have St: "fat_state blocks ready t" using file_step_state [OF S t(3)] .
  obtain p where p: "walk C i mode path' t = walk C i mode p t" "deref p \<noteq> 0" "deref p \<noteq> CH_SLASH"
    "fst (copy_first_entry p) = nm" "components (snd (copy_first_entry p)) = others"
    using live_device.walk_skip [OF dev t(1), of i mode t] by blast
  let ?m = "if deref (snd (copy_first_entry p)) = 0 then mode else 0"
  have m: "?m AND O_CREAT = 0" using mode p(5) components_end [of "snd (copy_first_entry p)"] by auto
  have bs_t: "dir_blocks (fat_info t) (ready (dev t)) (blocks (dev t)) (Some (fst w)) bs"
    "End_mark x sl = lookup (blocks (dev t)) (to_fat_name nm) (slots bs) None"
    using bs unfolding eq by simp_all
  obtain v where v: "searched blocks ready t (End_mark x sl) v"
    "fat_private_find_file C (Some (fst w)) nm ?m t = finish C ?B (to_fat_name nm) ?m (End_mark x sl) v"
    using live_device.find_file_run [OF dev St bs_t, of ?m] eq by auto
  note eqv = at_disk_simps [OF v(1) [unfolded searched_def, THEN conjunct1]]
  let ?v = "v\<lparr>last_error := FAT_ERROR_NOT_FOUND, fat_private_file_desc := ?ds[i := ?d\<lparr>is_free := True\<rparr>]\<rparr>"
  have "walk C i mode p t = Some (Inr (False, ?v))"
    using p(2-4) sh(2) v(2) m eq(1) eqv(1) il
    by (subst walk.simps) (simp add: Let_def pfd_def bnd_def finish_def set_last_error_def upd_pfd_def found_desc_def modify_def)
  then have "fat_find_path C path mode s = Some (Inr (FAT_BAD_DESC, ?v))"
    using t(2) p(1) by (simp add: bnd_def)
  then show ?thesis using eq eqv by (intro exI [of _ ?v] exI [of _ "?d\<lparr>is_free := True\<rparr>"]) simp
qed

text \<open>
  The names of a path are copied to a local array of thirteen bytes without a check: when the walk
  gets to a name of more than twelve bytes, \<open>fat_find_path\<close> stores behind the array's end.
\<close>

theorem fat_find_path_overrun:
  assumes dev: "live_device C blocks ready" and S: "fat_state blocks ready s"
    and i: "i = first_free (fat_private_file_desc s)" "i < MAX_FILE_DESC"
    and path: "deref path = CH_SLASH" "components path = nms @ nm # others" "\<forall>n \<in> set nms. short n"
    and long: "12 < length nm"
    and w: "resolves (fat_info s) (ready (dev s)) (blocks (dev s)) (root_found (fat_private_file_desc s ! i)) nms w"
  shows "fat_find_path C path mode s = Some (Inl Overrun)"
proof -
  obtain t path' where t: "components path' = nm # others"
    "fat_find_path C path mode s = or_return (walk C i mode path') FAT_BAD_DESC (ret (of_nat i)) t"
    using live_device.find_path_run [OF dev S path(1) i w path(2,3), of mode] by blast
  obtain p where p: "walk C i mode path' t = walk C i mode p t" "deref p \<noteq> 0" "deref p \<noteq> CH_SLASH"
    "fst (copy_first_entry p) = nm"
    using live_device.walk_skip [OF dev t(1), of i mode t] by blast
  have "walk C i mode p t = Some (Inl Overrun)"
    using p(2-4) long by (subst walk.simps) (simp add: Let_def FILENAME_BUF_def abort_def)
  then show ?thesis using t(2) p(1) by (simp add: bnd_def)
qed

text \<open>The card with one file, A.TXT, in the root directory.\<close>

lemma small_components:
  "components [0x2f, 0x2f, 0x41, 0x2e, 0x54, 0x58, 0x54] = [[0x41, 0x2e, 0x54, 0x58, 0x54]]"
  "components [0x2f, 0x42, 0x2f, 0x43] = [] @ [0x42] # [[0x43]]"
  "components (0x2f # replicate 13 0x41) = [] @ replicate 13 0x41 # []"
  by code_simp+

lemma small_path:
  assumes "de_cluster_lo (fst w0) = 0"
  shows "resolves small_info (sd_ready small_card) (sd_block small_card) w0 [[0x41, 0x2e, 0x54, 0x58, 0x54]] (small_entry, 0, 3)"
    and "dir_blocks small_info (sd_ready small_card) (sd_block small_card) (Some (fst w0)) [3]"
    and "lookup (sd_block small_card) (to_fat_name [0x42]) (slots [3]) None = End_mark (3, 1) None"
proof -
  show dir: "dir_blocks small_info (sd_ready small_card) (sd_block small_card) (Some (fst w0)) [3]"
    using small_dir assms by (simp add: dir_blocks_def)
  have nm: "to_fat_name [0x41, 0x2e, 0x54, 0x58, 0x54] = de_filename small_entry" "to_fat_name [0x42] \<noteq> de_filename small_entry"
    by code_simp+
  have "lookup (sd_block small_card) (to_fat_name [0x41, 0x2e, 0x54, 0x58, 0x54]) (slots [3]) None = Hit (3, 0)"
    unfolding small_slots(1) by (simp add: small_raw small_first nm)
  then have "names small_info (sd_ready small_card) (sd_block small_card) (fst w0) [0x41, 0x2e, 0x54, 0x58, 0x54] (3, 0)"
    using dir by (auto simp: names_def)
  from down [OF this here]
  show "resolves small_info (sd_ready small_card) (sd_block small_card) w0 [[0x41, 0x2e, 0x54, 0x58, 0x54]] (small_entry, 0, 3)"
    by (simp add: found_place_def found_at_def small_raw small_first)
  show "lookup (sd_block small_card) (to_fat_name [0x42]) (slots [3]) None = End_mark (3, 1) None"
    unfolding small_slots(2) by (simp add: small_raw small_raw(2) [unfolded One_nat_def] small_first nm nm(2) [symmetric])
qed

theorem fat_open_path_opens_witness:
  "\<exists>t d'. fat_open_path sd_ops [0x2f, 0x2f, 0x41, 0x2e, 0x54, 0x58, 0x54] 0 small_fs = Some (Inr (0, t)) \<and>
     fat_private_file_desc t = (fat_private_file_desc small_fs)[0 := d'] \<and>
     file_open small_info (sd_block small_card) [2, 3] d' 0"
proof -
  have free: "0 = first_free (fat_private_file_desc small_fs)" "\<not> is_stale (fat_private_file_desc small_fs ! 0)"
    using small_free by simp_all
  have w: "resolves small_info (sd_ready small_card) (sd_block small_card) (root_found (fat_private_file_desc small_fs ! 0))
      (components [0x2f, 0x2f, 0x41, 0x2e, 0x54, 0x58, 0x54]) (small_entry, 0, 3)"
    unfolding small_components by (rule small_path) (simp add: root_found_def)
  show ?thesis
    using fat_open_path_opens [OF sd.live_device_axioms small_fs_state _ free(1) _ free(2), unfolded small_fs_simps,
        OF small_geometry _ _ _ w, of 0 "[2, 3]"] small_entry_file
    by (auto simp: small_components short_def FILENAME_BUF_def deref_def CH_SLASH_def small_entry_def)
qed

theorem fat_find_path_missing_witness:
  "\<exists>t. fat_find_path sd_ops [0x2f, 0x42, 0x2f, 0x43] 0 small_fs = Some (Inr (FAT_BAD_DESC, t)) \<and>
     last_error t = FAT_ERROR_NOT_FOUND"
proof -
  let ?w = "root_found (fat_private_file_desc small_fs ! 0)"
  have free: "0 = first_free (fat_private_file_desc small_fs)" using small_free by simp
  have lo: "de_cluster_lo (fst ?w) = 0" by (simp add: root_found_def)
  show ?thesis
    using fat_find_path_missing [OF sd.live_device_axioms small_fs_state free, unfolded small_fs_simps,
        OF _ _ small_components(2) _ here small_path(2) [OF lo] small_path(3) [OF lo], where mode = 0]
    by (auto simp: short_def FILENAME_BUF_def deref_def CH_SLASH_def)
qed

theorem fat_find_path_overrun_witness:
  "fat_find_path sd_ops (0x2f # replicate 13 0x41) 0 small_fs = Some (Inl Overrun)"
proof -
  have free: "0 = first_free (fat_private_file_desc small_fs)" using small_free by simp
  show ?thesis
    using fat_find_path_overrun [OF sd.live_device_axioms small_fs_state free, unfolded small_fs_simps,
        OF _ _ small_components(3) _ _ here, where mode = 0]
    by (simp add: deref_def CH_SLASH_def)
qed

end
