(* ===== verification/Vga.thy ===== *)
theory Vga
  imports Prelude
begin

section \<open>The text screen and the progress bar (lib/vga.c, lib/fat/progressbar.c)\<close>

text \<open>
  The screen is two memory-mapped areas of 30 rows of 128 bytes, of which 80 are visible, each in a
  segment of 4096 bytes. The memory is a function from 16-bit addresses, so that a store beyond a row is a
  store to the bytes that follow it. A store through the pointer of the progress bar that leaves the segment of the
  characters is the fault \<open>Overrun\<close>: at \<open>0xf000\<close> begin the registers and buffers of other devices.
\<close>

type_synonym vram = "u16 \<Rightarrow> u8"

abbreviation VGA_ROWS :: nat where "VGA_ROWS \<equiv> 30"
abbreviation VGA_COLS :: nat where "VGA_COLS \<equiv> 80"
abbreviation VGA_CHAR_SEG :: u16 where "VGA_CHAR_SEG \<equiv> 0xe000"
abbreviation VGA_COLOR_SEG :: u16 where "VGA_COLOR_SEG \<equiv> 0xd000"

definition VGA_OFFSET :: "u16 \<Rightarrow> u16 \<Rightarrow> u16" where
  "VGA_OFFSET col row = col + push_bit 7 row"

text \<open>The colours of vga.h, and the byte of a cell of the colour area made of two of them.\<close>

definition colors :: "(string \<times> u16) list" where
  "colors = [
     (''BLACK'', 0), (''BLUE'', 1), (''GREEN'', 2), (''CYAN'', 3), (''RED'', 4), (''MAGENTA'', 5), (''BROWN'', 6),
     (''GRAY'', 7), (''DARK_GRAY'', 8), (''LIGHT_BLUE'', 9), (''LIGHT_GREEN'', 10), (''LIGHT_CYAN'', 11),
     (''LIGHT_RED'', 12), (''LIGHT_MAGENTA'', 13), (''YELLOW'', 14), (''WHITE'', 15)]"

definition COLOR :: "u16 \<Rightarrow> u16 \<Rightarrow> u16" where
  "COLOR fg bg = fg + push_bit 4 bg"

definition VGA_OFFSET_COL :: u16 where "VGA_OFFSET_COL = 1"
definition VGA_OFFSET_ROW :: u16 where "VGA_OFFSET_ROW = 128"

text \<open>Two colours fit into a byte and can be told apart in it.\<close>

lemma color_halves:
  "list_all (\<lambda>(_, fg). list_all (\<lambda>(_, bg). ucast (ucast (COLOR fg bg) :: u8) = COLOR fg bg \<and>
     COLOR fg bg AND 15 = fg \<and> drop_bit 4 (COLOR fg bg) = bg) colors) colors"
  by code_simp

lemma vga_offset_steps:
  "VGA_OFFSET (col + 1) row = VGA_OFFSET col row + VGA_OFFSET_COL"
  "VGA_OFFSET col (row + 1) = VGA_OFFSET col row + VGA_OFFSET_ROW"
  by (simp_all add: VGA_OFFSET_def VGA_OFFSET_COL_def VGA_OFFSET_ROW_def push_bit_eq_mult algebra_simps)

text \<open>The bytes of the area of \<open>n\<close> bytes from \<open>a\<close> on, which may not wrap around.\<close>

definition in_area :: "u16 \<Rightarrow> nat \<Rightarrow> u16 \<Rightarrow> bool" where
  "in_area a n x \<longleftrightarrow> unat a \<le> unat x \<and> unat x < unat a + n"

text \<open>\<open>memset\<close>: \<open>n\<close> stores at consecutive addresses.\<close>

fun vmemset :: "vram \<Rightarrow> u16 \<Rightarrow> u8 \<Rightarrow> nat \<Rightarrow> vram" where
  "vmemset m a v 0 = m"
| "vmemset m a v (Suc n) = vmemset (m(a := v)) (a + 1) v n"

definition vga_clear :: "u8 \<Rightarrow> (vram, unit) cmd" where
  "vga_clear color =
     andthen (modify (\<lambda>m. vmemset m VGA_CHAR_SEG 0 (VGA_ROWS * 128)))
       (modify (\<lambda>m. vmemset m VGA_COLOR_SEG color (VGA_ROWS * 128)))"

subsection \<open>The progress bar\<close>

abbreviation CHAR_EMPTY :: u8 where "CHAR_EMPTY \<equiv> 177"
abbreviation CHAR_FULL :: u8 where "CHAR_FULL \<equiv> 219"

record progressbar =
  last_x :: u16
  last_y :: u16
  offset :: u16
  max_value :: u8
  screen :: vram

definition progressbar_init :: "u8 \<Rightarrow> (progressbar, unit) cmd" where
  "progressbar_init max_value' = modify (\<lambda>p.
     let off = VGA_CHAR_SEG + VGA_OFFSET 0 (of_nat VGA_ROWS - 1) in
     p\<lparr>offset := off, screen := vmemset (screen p) off CHAR_EMPTY VGA_COLS,
       max_value := max_value', last_x := 0, last_y := 0\<rparr>)"

text \<open>The inner loop, one turn per call, and the outer loop over \<open>n\<close>.\<close>

definition fill_cell :: "(progressbar, unit) cmd" where
  "fill_cell p =
     (if in_area VGA_CHAR_SEG 4096 (offset p) then
        Some (Inr ((), p\<lparr>screen := (screen p)(offset p := CHAR_FULL), offset := offset p + 1,
          last_y := last_y p + ucast (max_value p)\<rparr>))
      else Some (Inl Overrun))"

partial_function (option) fill_loop :: "(progressbar, unit) cmd" where
  "fill_loop p =
     (if last_y p < last_x p then andthen fill_cell fill_loop p else ret () p)"

fun progress_steps :: "nat \<Rightarrow> (progressbar, unit) cmd" where
  "progress_steps 0 = ret ()"
| "progress_steps (Suc n) =
     andthen (modify (\<lambda>p. p\<lparr>last_x := last_x p + of_nat VGA_COLS\<rparr>))
     (andthen fill_loop (progress_steps n))"

definition progressbar_progress :: "u8 \<Rightarrow> (progressbar, unit) cmd" where
  "progressbar_progress n = progress_steps (unat n)"


subsection \<open>What the stores reach\<close>

lemma vmemset_area:
  "unat a + n \<le> 65536 \<Longrightarrow> vmemset m a v n x = (if in_area a n x then v else m x)"
proof (induction n arbitrary: m a)
  case (Suc n)
  show ?case
  proof (cases "n = 0")
    case False
    then have "unat (a + 1) = unat a + 1"
      using Suc.prems unat_plus_of_nat [of a 1] by simp
    with Suc show ?thesis by (auto simp: in_area_def word_unat_eq_iff)
  qed (auto simp: in_area_def word_unat_eq_iff)
qed (auto simp: in_area_def)

text \<open>
  \<open>vga_clear\<close> sets every character of the screen to 0 and every colour to the argument, and
  changes no other byte of the memory.
\<close>

theorem vga_clear_screen:
  "\<exists>m'. vga_clear color m = Some (Inr ((), m')) \<and>
     (\<forall>x. m' x = (if in_area VGA_CHAR_SEG 3840 x then 0
                  else if in_area VGA_COLOR_SEG 3840 x then color else m x))"
  by (auto simp: vga_clear_def vmemset_area in_area_def)

subsection \<open>The length of the bar\<close>

text \<open>
  After \<open>k\<close> units of \<open>max\<close>, the bar has \<open>k * 80 / max\<close> cells, rounded up: \<open>cells k m\<close>. The bar
  keeps \<open>last_y\<close>, the number of cells times \<open>max\<close>, at the first multiple not below \<open>last_x\<close>.
\<close>

definition cells :: "nat \<Rightarrow> nat \<Rightarrow> nat" where
  "cells k m = (80 * k + m - 1) div m"

definition bar_at :: "vram \<Rightarrow> nat \<Rightarrow> nat \<Rightarrow> progressbar \<Rightarrow> bool" where
  "bar_at m0 k c p \<longleftrightarrow> max_value p \<noteq> 0 \<and>
     unat (last_x p) = 80 * k \<and> unat (last_y p) = c * unat (max_value p) \<and>
     offset p = 0xEE80 + of_nat c \<and>
     (\<forall>x. screen p x = (if in_area 0xEE80 c x then CHAR_FULL
                        else if in_area 0xEE80 VGA_COLS x then CHAR_EMPTY else m0 x))"

lemma in_area_Suc:
  assumes "c < 384"
  shows "in_area 0xEE80 (Suc c) x \<longleftrightarrow> in_area 0xEE80 c x \<or> x = 0xEE80 + of_nat c"
proof -
  have "unat (0xEE80 + of_nat c :: u16) = 0xEE80 + c"
    using assms unat_plus_of_nat [of "0xEE80 :: u16" c] by simp
  then show ?thesis by (auto simp: in_area_def word_unat_eq_iff)
qed

lemma fill_cell_bar:
  assumes b: "bar_at m0 k c p" and "c < 384" and "last_y p < last_x p" and "k \<le> 256"
  shows "\<exists>q. fill_cell p = Some (Inr ((), q)) \<and> bar_at m0 k (Suc c) q \<and> max_value q = max_value p"
proof -
  have y: "unat (last_y p) = c * unat (max_value p)" "unat (last_x p) = 80 * k"
    using b by (simp_all add: bar_at_def)
  have "unat (last_y p) < 20480"
    using assms(3,4) y(2) by (simp add: word_less_nat_alt)
  moreover have "unat (ucast (max_value p) :: u16) = unat (max_value p)"
    using unat_u8 [of "max_value p"] by (simp add: unat_ucast_mod)
  ultimately have "unat (last_y p + ucast (max_value p)) = unat (last_y p) + unat (max_value p)"
    using unat_u8 [of "max_value p"] by (simp add: unat_word_ariths)
  then have "unat (last_y p + ucast (max_value p)) = Suc c * unat (max_value p)"
    using y by simp
  moreover have "in_area VGA_CHAR_SEG 4096 (offset p)"
    using b assms(2) unat_plus_of_nat [of "0xEE80 :: u16" c] by (simp add: bar_at_def in_area_def)
  ultimately show ?thesis
    using b in_area_Suc [of c] assms(2) by (simp add: bar_at_def fill_cell_def add.assoc)
qed

lemma fill_loop_run:
  assumes "bar_at m0 k c p" and "k \<le> 256" and "80 * k \<le> (c + n) * unat (max_value p)"
    and "n = 0 \<or> (c + n - 1) * unat (max_value p) < 80 * k" and "c + n \<le> 384"
  shows "\<exists>q. fill_loop p = Some (Inr ((), q)) \<and> bar_at m0 k (c + n) q \<and> max_value q = max_value p"
  using assms
proof (induction n arbitrary: c p)
  case 0
  then have "\<not> last_y p < last_x p"
    by (simp add: bar_at_def word_less_nat_alt)
  with 0 show ?case by (simp add: fill_loop.simps [of p])
next
  case (Suc n)
  have "c * unat (max_value p) \<le> (c + n) * unat (max_value p)" by simp
  also have "\<dots> < 80 * k" using Suc.prems(4) by simp
  finally have lt: "last_y p < last_x p"
    using Suc.prems(1) by (simp add: bar_at_def word_less_nat_alt)
  obtain r where r: "fill_cell p = Some (Inr ((), r))" and b: "bar_at m0 k (Suc c) r" and m: "max_value r = max_value p"
    using fill_cell_bar [OF Suc.prems(1) _ lt] Suc.prems by auto
  have "n = 0 \<or> (Suc c + n - 1) * unat (max_value p) < 80 * k" using Suc.prems(4) by simp
  then obtain q where "fill_loop r = Some (Inr ((), q))"
    "bar_at m0 k (Suc c + n) q" "max_value q = max_value p"
    using Suc.IH [OF b] Suc.prems unfolding m by auto
  with lt r show ?case by (simp add: fill_loop.simps [of p])
qed

lemma cells_ge: "0 < m \<Longrightarrow> 80 * k \<le> cells k m * m"
  unfolding cells_def using div_mult_mod_eq [of "80 * k + m - 1" m] mod_less_divisor [of m "80 * k + m - 1"]
  by linarith

lemma cells_less: "0 < m \<Longrightarrow> cells k m * m < 80 * k + m"
  unfolding cells_def using div_mult_mod_eq [of "80 * k + m - 1" m] by linarith

lemma cells_mono: "k \<le> l \<Longrightarrow> cells k m \<le> cells l m"
  by (simp add: cells_def div_le_mono)

lemma cells_0: "0 < m \<Longrightarrow> cells 0 m = 0"
  by (simp add: cells_def)

lemma cells_all: "0 < m \<Longrightarrow> cells m m = 80"
  unfolding cells_def by (intro div_nat_eqI) (simp_all add: algebra_simps)

lemma progress_steps_run:
  assumes "bar_at m0 k (cells k (unat (max_value p))) p" and "k + n \<le> 256"
    and "cells (k + n) (unat (max_value p)) \<le> 384"
  shows "\<exists>q. progress_steps n p = Some (Inr ((), q)) \<and>
    bar_at m0 (k + n) (cells (k + n) (unat (max_value p))) q \<and> max_value q = max_value p"
  using assms
proof (induction n arbitrary: k p)
  case (Suc n)
  let ?m = "unat (max_value p)" and ?p = "p\<lparr>last_x := last_x p + of_nat VGA_COLS\<rparr>"
  have m: "0 < ?m" using Suc.prems(1) by (simp add: bar_at_def unat_gt_0)
  have k: "k < 256" using Suc.prems(2) by simp
  have "unat (last_x p + of_nat VGA_COLS) = 80 * Suc k"
    using Suc.prems(1) k unat_plus_of_nat [of "last_x p" 80] by (simp add: bar_at_def)
  then have b: "bar_at m0 (Suc k) (cells k ?m) ?p"
    using Suc.prems(1) by (simp add: bar_at_def)
  define d where "d = cells (Suc k) ?m - cells k ?m"
  have d: "cells k ?m + d = cells (Suc k) ?m"
    using cells_mono [of k "Suc k" ?m] by (simp add: d_def)
  have "cells (Suc k) ?m \<le> 384"
    using cells_mono [of "Suc k" "k + Suc n" ?m] Suc.prems(3) by simp
  moreover have "(cells (Suc k) ?m - 1) * ?m < 80 * Suc k"
    using cells_less [OF m, of "Suc k"] by (simp add: diff_mult_distrib)
  ultimately obtain q where q: "fill_loop ?p = Some (Inr ((), q))"
    "bar_at m0 (Suc k) (cells (Suc k) ?m) q" "max_value q = max_value p"
    using fill_loop_run [OF b, of d] cells_ge [OF m, of "Suc k"] k unfolding d by auto
  then show ?case using Suc.IH [of "Suc k" q] Suc.prems(2,3) by simp
qed simp

text \<open>A sequence of calls of \<open>progressbar_progress\<close>.\<close>

definition progress_all :: "u8 list \<Rightarrow> (progressbar, unit) cmd" where
  "progress_all ns = foldr (\<lambda>n k. andthen (progressbar_progress n) k) ns (ret ())"

lemma progress_all_run:
  assumes "bar_at m0 k (cells k (unat (max_value p))) p"
    and "k + sum_list (map unat ns) \<le> unat (max_value p)"
  shows "\<exists>q. progress_all ns p = Some (Inr ((), q)) \<and>
    bar_at m0 (k + sum_list (map unat ns)) (cells (k + sum_list (map unat ns)) (unat (max_value p))) q"
  using assms
proof (induction ns arbitrary: k p)
  case (Cons n ns)
  let ?m = "unat (max_value p)"
  have m: "0 < ?m" using Cons.prems(1) by (simp add: bar_at_def unat_gt_0)
  have "k + unat n \<le> ?m" using Cons.prems(2) by simp
  then have "k + unat n \<le> 256" "cells (k + unat n) ?m \<le> 384"
    using cells_mono [of "k + unat n" ?m ?m] cells_all [OF m] unat_u8 [of "max_value p"] by simp_all
  then obtain q where "progress_steps (unat n) p = Some (Inr ((), q))"
    "bar_at m0 (k + unat n) (cells (k + unat n) (unat (max_value p))) q" "max_value q = max_value p"
    using progress_steps_run [OF Cons.prems(1)] by blast
  with Cons.IH [of "k + unat n" q] Cons.prems(2) show ?case
    by (simp add: progress_all_def progressbar_progress_def add.assoc)
qed (simp add: progress_all_def)

lemma progressbar_init_bar:
  assumes "m \<noteq> 0"
  shows "\<exists>q. progressbar_init m p = Some (Inr ((), q)) \<and> bar_at (screen p) 0 0 q \<and> max_value q = m"
  using assms by (auto simp: progressbar_init_def Let_def VGA_OFFSET_def bar_at_def vmemset_area in_area_def)

text \<open>
  C33: A progress bar for \<open>m\<close> units that is advanced by calls totalling \<open>t\<close> of them has exactly
  \<open>80 * t / m\<close> full cells, rounded up, in the last row of the screen, the rest of the row is
  empty, and no byte outside the row is written; the loops return.
\<close>

theorem progressbar_proportional:
  assumes "m \<noteq> 0" and "sum_list (map unat ns) = t" and "t \<le> unat m"
  shows "\<exists>q. andthen (progressbar_init m) (progress_all ns) p = Some (Inr ((), q)) \<and>
    cells t (unat m) \<le> VGA_COLS \<and>
    (\<forall>x. screen q x = (if in_area 0xEE80 (cells t (unat m)) x then CHAR_FULL
                       else if in_area 0xEE80 VGA_COLS x then CHAR_EMPTY else screen p x))"
proof -
  have m: "0 < unat m" using assms(1) by (simp add: unat_gt_0)
  obtain q where q: "progressbar_init m p = Some (Inr ((), q))" "bar_at (screen p) 0 0 q" "max_value q = m"
    using progressbar_init_bar [OF assms(1)] by blast
  then obtain r where "progress_all ns q = Some (Inr ((), r))" "bar_at (screen p) t (cells t (unat m)) r"
    using progress_all_run [of "screen p" 0 q ns] assms cells_0 [OF m] by auto
  moreover have "cells t (unat m) \<le> 80"
    using cells_mono [OF assms(3), of "unat m"] cells_all [OF m] by simp
  ultimately show ?thesis using q(1) by (auto simp: bar_at_def)
qed

definition blank_bar :: progressbar where
  "blank_bar = \<lparr>last_x = 5, last_y = 7, offset = 0, max_value = 1, screen = (\<lambda>_. 0)\<rparr>"

theorem progressbar_proportional_witness:
  "\<exists>q. andthen (progressbar_init 4) (progress_all [1, 2]) blank_bar = Some (Inr ((), q)) \<and>
     screen q 0xEE80 = CHAR_FULL \<and> screen q 0xEEBB = CHAR_FULL \<and> screen q 0xEEBC = CHAR_EMPTY"
  using progressbar_proportional [of 4 "[1, 2]" 3 blank_bar] by (auto simp: cells_def in_area_def)

text \<open>
  A bar of no units: the inner loop adds 0 to \<open>last_y\<close> and goes on to the end of the segment.
\<close>

lemma fill_loop_overruns:
  assumes "max_value p = 0" and "last_y p < last_x p" and "unat (offset p) + n = 0xF000" and "0xE000 \<le> unat (offset p)"
  shows "fill_loop p = Some (Inl Overrun)"
  using assms
proof (induction n arbitrary: p)
  case 0
  then have "fill_cell p = Some (Inl Overrun)" by (simp add: fill_cell_def in_area_def)
  with 0 show ?case by (simp add: fill_loop.simps [of p])
next
  case (Suc n)
  let ?q = "p\<lparr>screen := (screen p)(offset p := CHAR_FULL), offset := offset p + 1, last_y := last_y p + ucast (max_value p)\<rparr>"
  have "unat (offset p + 1) = unat (offset p) + 1"
    using Suc.prems(3) unat_plus_of_nat [of "offset p" 1] by simp
  then have "fill_loop ?q = Some (Inl Overrun)" using Suc.prems by (intro Suc.IH) simp_all
  moreover have "fill_cell p = Some (Inr ((), ?q))"
    using Suc.prems by (simp add: fill_cell_def in_area_def)
  ultimately show ?case using Suc.prems by (simp add: fill_loop.simps [of p])
qed

theorem progressbar_zero_overruns:
  assumes "n \<noteq> 0"
  shows "andthen (progressbar_init 0) (progressbar_progress n) p = Some (Inl Overrun)"
proof -
  obtain k where k: "unat n = Suc k"
    using assms by (metis not0_implies_Suc unat_eq_zero)
  have "fill_loop (p\<lparr>offset := 0xEE80, screen := v, max_value := 0, last_y := 0, last_x := 80\<rparr>) = Some (Inl Overrun)" for v
    by (rule fill_loop_overruns [of _ 384]) simp_all
  then show ?thesis
    using k by (simp add: progressbar_init_def progressbar_progress_def Let_def VGA_OFFSET_def)
qed

end
