(* ===== verification/FatExec.thy ===== *)
theory FatExec
  imports FatPath Vga
begin

section \<open>Loading a program (lib/fat/exec.c)\<close>

text \<open>
  \<open>fat_exec\<close> loads an APP file into the low RAM, page by page through the buffer
  \<open>loload_buf\<close>, and what exceeds 32 KiB into the high RAM at 0x8000, and starts it. The two
  RAMs are byte lists, a store past their end is the fault \<open>Overrun\<close>. \<open>max_size\<close> is the
  address of the linker's symbol \<open>__seg_ramtext_begin\<close>. \<open>lorun\<close> hands the processor to the
  program: here it records that the program was started and with which \<open>argc\<close>; the caller's
  variable arguments are not modelled.
\<close>

record 'd machine =
  files :: "'d fs"
  bar :: progressbar
  loload_buf :: bytes
  lo_ram :: bytes
  hi_ram :: bytes
  started :: "u8 option"

definition on_files :: "('d fs, 'a) cmd \<Rightarrow> ('d machine, 'a) cmd" where
  "on_files = zoom files (\<lambda>s m. m\<lparr>files := s\<rparr>)"

definition on_bar :: "(progressbar, 'a) cmd \<Rightarrow> ('d machine, 'a) cmd" where
  "on_bar = zoom bar (\<lambda>p m. m\<lparr>bar := p\<rparr>)"

text \<open>\<open>copy_to_loram\<close>: 256 bytes from the buffer to the page \<open>dst_hi\<close>.\<close>

definition copy_to_loram :: "u8 \<Rightarrow> ('d machine, unit) cmd" where
  "copy_to_loram dst_hi = (\<lambda>m.
     if 256 * unat dst_hi + length (loload_buf m) \<le> length (lo_ram m)
     then Some (Inr ((), m\<lparr>lo_ram := splice_at (lo_ram m) (256 * unat dst_hi) (loload_buf m)\<rparr>))
     else Some (Inl Overrun))"

definition lorun :: "u8 \<Rightarrow> ('d machine, unit) cmd" where
  "lorun argc = modify (\<lambda>m. m\<lparr>started := Some argc\<rparr>)"

text \<open>Reading into the two buffers.\<close>

definition read_page :: "'d card_ops \<Rightarrow> u8 \<Rightarrow> ('d machine, u16) cmd" where
  "read_page C fd =
     bnd (gets loload_buf) (\<lambda>buf.
     bnd (on_files (fat_read C fd buf 256)) (\<lambda>w.
     andthen (modify (\<lambda>m. m\<lparr>loload_buf := snd w\<rparr>)) (ret (fst w))))"

definition read_high :: "'d card_ops \<Rightarrow> u8 \<Rightarrow> u16 \<Rightarrow> ('d machine, u16) cmd" where
  "read_high C fd size' =
     bnd (gets hi_ram) (\<lambda>buf.
     bnd (on_files (fat_read C fd buf size')) (\<lambda>w.
     andthen (modify (\<lambda>m. m\<lparr>hi_ram := snd w\<rparr>)) (ret (fst w))))"

text \<open>
  The loop over the pages: \<open>size'\<close> bytes are left, \<open>n\<close> pages up to \<open>dst_hi = 0x80\<close>. It gives
  the size left, or nothing when a read failed (the caller then closes the file).
\<close>

fun load_lo :: "'d card_ops \<Rightarrow> u8 \<Rightarrow> u16 \<Rightarrow> u8 \<Rightarrow> nat \<Rightarrow> ('d machine, u16 option) cmd" where
  "load_lo C fd size' dst_hi 0 = ret (Some size')"
| "load_lo C fd size' dst_hi (Suc n) =
     (if size' \<noteq> 0 then
        bnd (read_page C fd) (\<lambda>r.
        bnd (gets (\<lambda>m. last_error (files m))) (\<lambda>e.
        if r \<noteq> 256 \<and> e \<noteq> FAT_EOF then ret None
        else
          andthen (copy_to_loram dst_hi)
          (andthen (on_bar (progressbar_progress 1))
            (load_lo C fd (size' - r) (dst_hi + 1) n))))
      else ret (Some size'))"

definition CH_APP :: bytes where "CH_APP = [0x41, 0x50, 0x50]"

definition fat_exec_fd :: "'d card_ops \<Rightarrow> u16 \<Rightarrow> u8 \<Rightarrow> u8 \<Rightarrow> ('d machine, bool) cmd" where
  "fat_exec_fd C max_size fd argc =
     (let close_false = andthen (on_files (fat_close C fd)) (ret False) in
      bnd (on_files (fat_get_dir_entry fd)) (\<lambda>r. case r of
        None \<Rightarrow> close_false
      | Some de \<Rightarrow>
          if slice_at (de_filename de) 8 3 \<noteq> CH_APP then
            andthen (on_files (fat_close C fd))
              (andthen (on_files (set_last_error FAT_EXEC_ERROR_WRONG_EXTENSION)) (ret False))
          else if ucast max_size < de_size de then
            andthen (on_files (fat_close C fd))
              (andthen (on_files (set_last_error FAT_EXEC_ERROR_FILE_TOO_LARGE)) (ret False))
          else
            (let size' = ucast (de_size de) :: u16 in
             andthen (on_bar (progressbar_init (ucast (drop_bit 8 size'))))
             (bnd (load_lo C fd size' 0 128) (\<lambda>w. case w of
                None \<Rightarrow> close_false
              | Some left \<Rightarrow>
                  bnd (if left \<noteq> 0 then
                         bnd (read_high C fd left) (\<lambda>r.
                         if r \<noteq> left then ret False
                         else andthen (on_bar (progressbar_progress (ucast (drop_bit 8 r)))) (ret True))
                       else ret True) (\<lambda>ok.
                  if ok then
                    andthen (on_files (fat_close C fd)) (andthen (lorun argc) (ret True))
                  else close_false)))))) "

definition fat_exec :: "'d card_ops \<Rightarrow> u16 \<Rightarrow> bytes \<Rightarrow> u8 \<Rightarrow> ('d machine, bool) cmd" where
  "fat_exec C max_size filename argc =
     bnd (on_files (fat_open_path C filename 0)) (\<lambda>fd.
     if fd = FAT_BAD_DESC then ret False else fat_exec_fd C max_size fd argc)"

end
