(* ===== verification/FatLoad.thy ===== *)
theory FatLoad
  imports FatWalk FatClose FatExec
begin

section \<open>Loading a program: what is in the RAM (lib/fat/exec.c)\<close>

text \<open>
  \<open>fat_exec\<close> composes the layers: it opens the file by its path, reads it page by page into the low
  RAM and the rest into the high RAM, draws the progress bar, closes the file and starts the program.
  A file of less than 256 bytes makes a bar of no units, whose first step never returns.
\<close>

subsection \<open>One page\<close>

lemma cells_one_more: "0 < m \<Longrightarrow> j \<le> m \<Longrightarrow> cells (Suc j) m \<le> 160"
proof -
  assume m: "0 < m" "j \<le> m"
  have "80 * Suc j + m - 1 < 161 * m" using m by simp
  then have "cells (Suc j) m < 161" unfolding cells_def by (simp add: div_less_iff_less_mult m)
  then show ?thesis by simp
qed

text \<open>
  \<open>loading n D j m\<close>: of the \<open>n\<close> bytes at the start of \<open>D\<close>, those of the first \<open>j\<close> pages are in the low RAM,
  and the bar shows \<open>j\<close> steps while there is more to come.
\<close>

definition loading :: "nat \<Rightarrow> bytes \<Rightarrow> nat \<Rightarrow> 'd machine \<Rightarrow> bool" where
  "loading n D j m \<longleftrightarrow> take (min n (256 * j)) (lo_ram m) = take (min n (256 * j)) D \<and>
     length (lo_ram m) = 32768 \<and> length (loload_buf m) = 256 \<and> unat (max_value (bar m)) = n div 256 \<and>
     (256 * j < n \<longrightarrow> (\<exists>m0. bar_at m0 j (cells j (n div 256)) (bar m)))"

lemma take_page:
  assumes "p + 256 \<le> length lo" and "length buf = 256" and "r \<le> 256" and "p + r \<le> length D"
    and "take p lo = take p D"
  shows "take (p + r) (splice_at lo p (splice_at buf 0 (slice_at D p r))) = take (p + r) D"
proof -
  have "take r (splice_at buf 0 (slice_at D p r)) = slice_at D p r"
    using assms(2-4) by (simp add: splice_at_def)
  moreover have "length (splice_at buf 0 (slice_at D p r)) = 256" using assms(2-4) by simp
  ultimately have "take (p + r) (splice_at lo p (splice_at buf 0 (slice_at D p r))) = take p D @ slice_at D p r"
    using assms by (simp add: splice_at_def [of lo])
  then show ?thesis by (simp add: slice_at_def take_add)
qed

lemma one_step_bar:
  assumes bar: "bar_at m0 j (cells j (n div 256)) p" and mx: "unat (max_value p) = n div 256"
    and j: "256 * j < n" "j < 128"
  obtains q where "progressbar_progress 1 p = Some (Inr ((), q))"
    "bar_at m0 (Suc j) (cells (Suc j) (n div 256)) q" "max_value q = max_value p"
proof -
  have m: "0 < n div 256" using bar mx by (metis bar_at_def unat_gt_0)
  have "j \<le> n div 256" using j(1) by (simp add: less_eq_div_iff_mult_less_eq)
  then have "cells (j + 1) (unat (max_value p)) \<le> 384" using cells_one_more [OF m] mx by fastforce
  moreover have "bar_at m0 j (cells j (unat (max_value p))) p" "j + 1 \<le> 256" using bar mx j(2) by simp_all
  ultimately obtain q where "progress_steps 1 p = Some (Inr ((), q))"
    "bar_at m0 (j + 1) (cells (j + 1) (unat (max_value p))) q" "max_value q = max_value p"
    using progress_steps_run by blast
  then show thesis using that mx by (simp add: progressbar_progress_def)
qed

text \<open>The loop.\<close>

context live_device
begin

lemma load_page:
  assumes S: "fat_state blocks ready (files m)" and geo: "cluster_geometry (fat_info (files m))"
    and fd: "unat fd < MAX_FILE_DESC" and d: "fat_private_file_desc (files m) ! unat fd = d"
    and live: "\<not> is_free d" "\<not> is_stale d"
    and f: "file_open (fat_info (files m)) (blocks (dev (files m))) cs d (256 * j)"
    and rdy: "file_ready (fat_info (files m)) (ready (dev (files m))) cs"
    and n: "n = file_size d" and D: "D = file_data (fat_info (files m)) (blocks (dev (files m))) cs" "n \<le> length D"
    and L: "loading n D j m" and j: "256 * j < n" "j < 128"
    and N: "n < 65536"
  obtains m1 d1 e where "load_lo C fd (of_nat (n - 256 * j)) (of_nat j) (Suc k) m =
      load_lo C fd (of_nat (n - min n (256 * Suc j))) (of_nat (Suc j)) k m1"
    "file_step blocks ready (files m) (unat fd) d1 e (blocks (dev (files m))) (files m1)"
    "moved d d1" "file_open (fat_info (files m)) (blocks (dev (files m))) cs d1 (min n (256 * Suc j))"
    "loading n D (Suc j) m1" "hi_ram m1 = hi_ram m"
proof -
  let ?p = "256 * j" and ?B = "blocks (dev (files m))" and ?fi = "fat_info (files m)"
  define r where "r = min 256 (n - ?p)"
  have r: "0 < r" "r \<le> 256" "?p + r = min n (256 * Suc j)" using j(1) by (auto simp: r_def)
  have len: "length (loload_buf m) = 256" "length (lo_ram m) = 32768" and mx: "unat (max_value (bar m)) = n div 256"
    using L by (simp_all add: loading_def)
  obtain m0 where bar: "bar_at m0 j (cells j (n div 256)) (bar m)" using L j(1) by (auto simp: loading_def)
  have room: "unat (256 :: u16) \<le> length (loload_buf m)" using len by simp
  have n': "r = min (unat (256 :: u16)) (file_size d - ?p)" by (simp add: r_def n)
  obtain t d1 where t: "fat_read C fd (loload_buf m) 256 (files m) =
      Some (Inr ((of_nat r, splice_at (loload_buf m) 0 (slice_at D ?p r)), t))"
    "file_step blocks ready (files m) (unat fd) d1 (if r < unat (256 :: u16) then FAT_EOF else last_error (files m)) ?B t"
    "moved d d1" "file_open ?fi ?B cs d1 (?p + r)"
    using fat_read_run [OF S geo fd d live f rdy room n'] unfolding D(1) .
  let ?buf = "splice_at (loload_buf m) 0 (slice_at D ?p r)"
  let ?lo = "splice_at (lo_ram m) ?p ?buf"
  obtain q where q: "progressbar_progress 1 (bar m) = Some (Inr ((), q))"
    "bar_at m0 (Suc j) (cells (Suc j) (n div 256)) q" "max_value q = max_value (bar m)"
    using one_step_bar [OF bar mx j] .
  let ?m1 = "m\<lparr>files := t, loload_buf := ?buf, lo_ram := ?lo, bar := q\<rparr>"
  have slice: "length (slice_at D ?p r) = r" using D(2) r(3) by simp
  have fit: "256 * unat (of_nat j :: u8) = ?p" using j(2) by (simp add: unat_of_nat_mod)
  have "unat (of_nat (n - ?p) :: u16) = n - ?p" using N unfolding unat_of_nat_mod by simp
  then have ne: "(of_nat (n - ?p) :: u16) \<noteq> 0" using j(1) by (metis unat_0 zero_less_diff less_numeral_extra(3))
  have eof: "((of_nat r :: u16) \<noteq> 256 \<and> last_error t \<noteq> FAT_EOF) = False"
    using file_step_simps(3) [OF t(2)] r(2) by (cases "r = 256") auto
  have left: "(of_nat (n - ?p) :: u16) - of_nat r = of_nat (n - min n (256 * Suc j))"
    using r(3) j(1) of_nat_diff [of r "n - ?p", where 'a = u16] by (simp add: r_def min_def split: if_splits)
  have step: "load_lo C fd (of_nat (n - ?p)) (of_nat j) (Suc k) m =
      load_lo C fd (of_nat (n - min n (256 * Suc j))) (of_nat (Suc j)) k ?m1"
  proof -
    have page: "read_page C fd m = Some (Inr (of_nat r, m\<lparr>files := t, loload_buf := ?buf\<rparr>))"
      using t(1) by (simp add: read_page_def on_files_def bnd_def)
    have copy: "copy_to_loram (of_nat j) (m\<lparr>files := t, loload_buf := ?buf\<rparr>) =
        Some (Inr ((), m\<lparr>files := t, loload_buf := ?buf, lo_ram := ?lo\<rparr>))"
      using fit len slice r(2) j(2) by (simp add: copy_to_loram_def)
    have bar1: "on_bar (progressbar_progress 1) (m\<lparr>files := t, loload_buf := ?buf, lo_ram := ?lo\<rparr>) = Some (Inr ((), ?m1))"
      using q(1) by (simp add: on_bar_def)
    show ?thesis
      using ne page copy bar1 left by (simp add: bnd_def eof add.commute del: of_nat_diff)
  qed
  have "loading n D (Suc j) ?m1"
  proof -
    have low: "take ?p (lo_ram m) = take ?p D" using L j(1) by (simp add: loading_def)
    have p: "?p + 256 \<le> length (lo_ram m)" "?p + r \<le> length D" using len(2) j(2) r(3) D(2) by simp_all
    have "take (min n (256 * Suc j)) ?lo = take (min n (256 * Suc j)) D"
      using take_page [OF p(1) len(1) r(2) p(2) low] unfolding r(3) .
    moreover have "length ?buf = 256" using len slice r(2) by simp
    moreover from this have "length ?lo = 32768" using len p(1) by simp
    moreover have "lo_ram ?m1 = ?lo" "loload_buf ?m1 = ?buf" "bar ?m1 = q" by simp_all
    moreover have "unat (max_value q) = n div 256" using q(3) mx by simp
    ultimately show ?thesis unfolding loading_def using q(2) by metis
  qed
  moreover have "files ?m1 = t" "hi_ram ?m1 = hi_ram m" by simp_all
  ultimately show thesis using that [OF step _ t(3) t(4) [unfolded r(3)]] t(2) by metis
qed

lemma load_lo_run:
  assumes "fat_state blocks ready (files m)" and "cluster_geometry (fat_info (files m))"
    and "unat fd < MAX_FILE_DESC" and "fat_private_file_desc (files m) ! unat fd = d"
    and "\<not> is_free d" "\<not> is_stale d"
    and "file_open (fat_info (files m)) (blocks (dev (files m))) cs d (min n (256 * j))"
    and "file_ready (fat_info (files m)) (ready (dev (files m))) cs"
    and "n = file_size d" and "D = file_data (fat_info (files m)) (blocks (dev (files m))) cs" "n \<le> length D"
    and "loading n D j m" and "j + k = 128" and "n < 65536"
  shows "\<exists>m' d' e. load_lo C fd (of_nat (n - min n (256 * j))) (of_nat j) k m =
      Some (Inr (Some (of_nat (n - min n 32768)), m')) \<and>
    file_step blocks ready (files m) (unat fd) d' e (blocks (dev (files m))) (files m') \<and> moved d d' \<and>
    file_open (fat_info (files m)) (blocks (dev (files m))) cs d' (min n 32768) \<and> loading n D 128 m' \<and>
    hi_ram m' = hi_ram m"
  using assms
proof (induction k arbitrary: m d j)
  case 0
  have g: "good blocks (files m)" using 0(1) by (simp add: fat_state_def)
  have j: "j = 128" using 0(13) by simp
  show ?case
    using 0(7,12) file_step_refl [OF g 0(4)] moved_refl [of d] unfolding j by (intro exI [of _ m] exI [of _ d]) auto
next
  case (Suc k)
  note S = Suc.prems(1) and d = Suc.prems(4) and n = Suc.prems(9)
  have g: "good blocks (files m)" using S by (simp add: fat_state_def)
  show ?case
  proof (cases "256 * j < n")
    case False
    then have m: "min n (256 * j) = n" "min n 32768 = n" using Suc.prems(13) by simp_all
    have "loading n D 128 m" using Suc.prems(12,13) False by (simp add: loading_def)
    then show ?thesis using m Suc.prems file_step_refl [OF g d] moved_refl by (intro exI [of _ m] exI [of _ d]) auto
  next
    case True
    then have m: "min n (256 * j) = 256 * j" and j: "j < 128" using Suc.prems(13) by simp_all
    obtain m1 d1 e where t: "load_lo C fd (of_nat (n - 256 * j)) (of_nat j) (Suc k) m =
        load_lo C fd (of_nat (n - min n (256 * Suc j))) (of_nat (Suc j)) k m1"
      "file_step blocks ready (files m) (unat fd) d1 e (blocks (dev (files m))) (files m1)"
      "moved d d1" "file_open (fat_info (files m)) (blocks (dev (files m))) cs d1 (min n (256 * Suc j))"
      "loading n D (Suc j) m1" "hi_ram m1 = hi_ram m"
      using load_page [OF Suc.prems(1-6) Suc.prems(7) [unfolded m] Suc.prems(8-12) True j Suc.prems(14)] .
    note eq = file_step_simps [OF t(2)]
    have S1: "fat_state blocks ready (files m1)" using file_step_state [OF S t(2)] .
    have d1: "fat_private_file_desc (files m1) ! unat fd = d1"
      unfolding eq(1) using good_length [OF g] Suc.prems(3) by simp
    have live: "\<not> is_free d1" "\<not> is_stale d1" "n = file_size d1"
      using t(3) Suc.prems(5,6) n moved_size [OF t(3)] by (simp_all add: moved_def)
    have jk: "Suc j + k = 128" using Suc.prems(13) by simp
    obtain m' d' e' where u: "load_lo C fd (of_nat (n - min n (256 * Suc j))) (of_nat (Suc j)) k m1 =
        Some (Inr (Some (of_nat (n - min n 32768)), m'))"
      "file_step blocks ready (files m1) (unat fd) d' e' (blocks (dev (files m))) (files m')" "moved d1 d'"
      "file_open (fat_info (files m)) (blocks (dev (files m))) cs d' (min n 32768)" "loading n D 128 m'"
      "hi_ram m' = hi_ram m1"
      using Suc.IH [OF S1 _ Suc.prems(3) d1 live(1,2) _ _ live(3) _ Suc.prems(11) t(5) jk Suc.prems(14)]
      unfolding eq using Suc.prems(2,8,10) t(4) by blast
    show ?thesis
      unfolding m using t(1,6) u file_step_trans [OF t(2) u(2)] moved_trans [OF t(3) u(3)] by auto
  qed
qed

lemma load_high_run:
  assumes S: "fat_state blocks ready (files m)" and geo: "cluster_geometry (fat_info (files m))"
    and fd: "unat fd < MAX_FILE_DESC" and d: "fat_private_file_desc (files m) ! unat fd = d"
    and live: "\<not> is_free d" "\<not> is_stale d"
    and f: "file_open (fat_info (files m)) (blocks (dev (files m))) cs d (min n 32768)"
    and rdy: "file_ready (fat_info (files m)) (ready (dev (files m))) cs"
    and n: "n = file_size d" and D: "D = file_data (fat_info (files m)) (blocks (dev (files m))) cs" "n \<le> length D"
    and L: "loading n D 128 m" and hi: "length (hi_ram m) = 32768" and N: "n < 65536"
    and left: "left = of_nat (n - min n 32768)"
  obtains m' d' e where "(if left \<noteq> 0 then bnd (read_high C fd left) (\<lambda>r. if r \<noteq> left then ret False
       else andthen (on_bar (progressbar_progress (ucast (drop_bit 8 r)))) (ret True)) else ret True) m =
      Some (Inr (True, m'))"
    "file_step blocks ready (files m) (unat fd) d' e (blocks (dev (files m))) (files m')" "moved d d'"
    "take (n - 32768) (hi_ram m') = take (n - 32768) (drop 32768 D)" "lo_ram m' = lo_ram m"
proof (cases "n \<le> 32768")
  case True
  have "good blocks (files m)" using S by (simp add: fat_state_def)
  from file_step_refl [OF this d] show thesis using that [of m d "last_error (files m)"] True left moved_refl by simp
next
  case False
  let ?B = "blocks (dev (files m))" and ?k = "n - 32768"
  have k: "min n 32768 = 32768" "unat left = ?k" "?k \<le> 32767" "0 < ?k"
    using False N unfolding left unat_of_nat_mod by simp_all
  have ne: "left \<noteq> 0" using k(2,4) by auto
  have w: "of_nat ?k = left" unfolding left k(1) ..
  have room: "unat left \<le> length (hi_ram m)" using k hi by simp
  have n': "?k = min (unat left) (file_size d - 32768)" using k n by simp
  obtain t d1 where t: "fat_read C fd (hi_ram m) left (files m) =
      Some (Inr ((of_nat ?k, splice_at (hi_ram m) 0 (slice_at D 32768 ?k)), t))"
    "file_step blocks ready (files m) (unat fd) d1 (if ?k < unat left then FAT_EOF else last_error (files m)) ?B t"
    "moved d d1"
    using fat_read_run [OF S geo fd d live f [unfolded k(1)] rdy room n'] unfolding D(1) by blast
  let ?hi = "splice_at (hi_ram m) 0 (slice_at D 32768 ?k)"
  have mx: "unat (max_value (bar m)) = n div 256" using L by (simp add: loading_def)
  obtain m0 where bar: "bar_at m0 128 (cells 128 (unat (max_value (bar m)))) (bar m)"
    using L False mx by (auto simp: loading_def)
  have high: "unat (ucast (drop_bit 8 left) :: u8) = ?k div 256"
  proof -
    have "unat (drop_bit 8 left) = ?k div 256" unfolding unat_drop_bit_eq k(2) by (simp add: drop_bit_eq_div)
    then show ?thesis using k(3) unfolding unat_ucast_mod by simp
  qed
  have sum: "128 + ?k div 256 = n div 256"
    using False div_add1_eq [of "?k" 32768 256] by simp
  have small: "n div 256 \<le> 256" using N by simp
  have "cells (n div 256) (n div 256) = 80" using False by (intro cells_all) simp
  then obtain q where "progress_steps (?k div 256) (bar m) = Some (Inr ((), q))"
    using progress_steps_run [OF bar, of "?k div 256"] sum small mx by auto
  then have "progressbar_progress (ucast (drop_bit 8 left)) (bar m) = Some (Inr ((), q))"
    by (simp add: progressbar_progress_def high)
  moreover have "read_high C fd left m = Some (Inr (left, m\<lparr>files := t, hi_ram := ?hi\<rparr>))"
    using t(1) unfolding w by (simp add: read_high_def on_files_def bnd_def)
  ultimately have "(if left \<noteq> 0 then bnd (read_high C fd left) (\<lambda>r. if r \<noteq> left then ret False
       else andthen (on_bar (progressbar_progress (ucast (drop_bit 8 r)))) (ret True)) else ret True) m =
      Some (Inr (True, m\<lparr>files := t, hi_ram := ?hi, bar := q\<rparr>))"
    using ne by (simp add: bnd_def on_bar_def)
  moreover have "take ?k ?hi = slice_at D 32768 ?k" using hi k D(2) by (simp add: splice_at_def)
  ultimately show thesis using that [of "m\<lparr>files := t, hi_ram := ?hi, bar := q\<rparr>" d1] t(2,3) by (simp add: slice_at_def)
qed

lemma exec_fd_run:
  assumes S: "fat_state blocks ready (files m)" and geo: "cluster_geometry (fat_info (files m))"
    and fd: "unat fd < MAX_FILE_DESC" and d: "fat_private_file_desc (files m) ! unat fd = d"
    and live: "\<not> is_free d" "\<not> is_stale d" and clean: "\<not> dir_entry_modified d"
    and f: "file_open (fat_info (files m)) (blocks (dev (files m))) cs d 0"
    and rdy: "file_ready (fat_info (files m)) (ready (dev (files m))) cs"
    and n: "n = file_size d" and D: "D = file_data (fat_info (files m)) (blocks (dev (files m))) cs" "n \<le> length D"
    and size: "256 \<le> n" "n \<le> unat max_size" and ext: "slice_at (de_filename (dir_entry d)) 8 3 = CH_APP"
    and ram: "length (lo_ram m) = 32768" "length (hi_ram m) = 32768" "length (loload_buf m) = 256"
  obtains m' d' e where "fat_exec_fd C max_size fd argc m = Some (Inr (True, m'))" "started m' = Some argc"
    "take (min n 32768) (lo_ram m') = take (min n 32768) D"
    "take (n - 32768) (hi_ram m') = take (n - 32768) (drop 32768 D)"
    "file_step blocks ready (files m) (unat fd) d' e (blocks (dev (files m))) (files m')" "is_free d'"
proof -
  let ?B = "blocks (dev (files m))" and ?fi = "fat_info (files m)"
  have g: "good blocks (files m)" using S by (simp add: fat_state_def)
  have N: "n < 65536" using size(2) unat_u16 [of max_size] by simp
  have sz: "ucast (de_size (dir_entry d)) = (of_nat n :: u16)" by (simp add: n file_size_def)
  have entry: "on_files (fat_get_dir_entry fd) m = Some (Inr (Some (dir_entry d), m))"
    using get_desc_live [OF S fd d live] by (simp add: on_files_def fat_get_dir_entry_def bnd_def)
  have fits: "\<not> ucast max_size < de_size (dir_entry d)"
    using size(2) n unat_u16 [of max_size] by (simp add: word_less_nat_alt file_size_def unat_ucast_mod)
  have mx: "unat (ucast (drop_bit 8 (of_nat n :: u16)) :: u8) = n div 256"
  proof -
    have "unat (of_nat n :: u16) = n" using N unfolding unat_of_nat_mod by simp
    then have "unat (drop_bit 8 (of_nat n :: u16)) = n div 256" unfolding unat_drop_bit_eq by (simp add: drop_bit_eq_div)
    then show ?thesis using N unfolding unat_ucast_mod by simp
  qed
  then have "(ucast (drop_bit 8 (of_nat n :: u16)) :: u8) \<noteq> 0" using size(1) by (metis unat_0 div_greater_zero_iff zero_less_numeral less_numeral_extra(3))
  then obtain q where q: "progressbar_init (ucast (drop_bit 8 (of_nat n :: u16))) (bar m) = Some (Inr ((), q))"
    "bar_at (screen (bar m)) 0 0 q" "max_value q = ucast (drop_bit 8 (of_nat n :: u16))"
    using progressbar_init_bar by blast
  let ?m1 = "m\<lparr>bar := q\<rparr>"
  have "cells 0 (n div 256) = 0" using size(1) by (intro cells_0) simp
  then have L: "loading n D 0 ?m1" using q(2,3) mx ram by (auto simp: loading_def)
  have S1: "fat_state blocks ready (files ?m1)" using S by simp
  obtain m2 d2 e2 where t2: "load_lo C fd (of_nat n) 0 128 ?m1 = Some (Inr (Some (of_nat (n - min n 32768)), m2))"
    "file_step blocks ready (files m) (unat fd) d2 e2 ?B (files m2)" "moved d d2"
    "file_open ?fi ?B cs d2 (min n 32768)" "loading n D 128 m2" "hi_ram m2 = hi_ram m"
    using load_lo_run [of ?m1 fd d cs n 0 D 128] S geo fd d live f rdy n D N L by auto
  note eq2 = file_step_simps [OF t2(2)]
  have S2: "fat_state blocks ready (files m2)" using file_step_state [OF S t2(2)] .
  have d2: "fat_private_file_desc (files m2) ! unat fd = d2" unfolding eq2(1) using good_length [OF g] fd by simp
  have live2: "\<not> is_free d2" "\<not> is_stale d2" "n = file_size d2"
    using t2(3) live n moved_size [OF t2(3)] by (simp_all add: moved_def)
  define left :: u16 where "left = of_nat (n - min n 32768)"
  have hi2: "length (hi_ram m2) = 32768" using t2(6) ram(2) by simp
  obtain m3 d3 e3 where t3: "(if left \<noteq> 0 then bnd (read_high C fd left) (\<lambda>r. if r \<noteq> left then ret False
       else andthen (on_bar (progressbar_progress (ucast (drop_bit 8 r)))) (ret True)) else ret True) m2 = Some (Inr (True, m3))"
    "file_step blocks ready (files m2) (unat fd) d3 e3 ?B (files m3)" "moved d2 d3"
    "take (n - 32768) (hi_ram m3) = take (n - 32768) (drop 32768 D)" "lo_ram m3 = lo_ram m2"
    using load_high_run [OF S2 _ fd d2 live2(1,2) _ _ live2(3) _ D(2) t2(5) hi2 N left_def, unfolded eq2, OF geo t2(4) rdy D(1)] .
  have step3: "file_step blocks ready (files m) (unat fd) d3 e3 ?B (files m3)" using file_step_trans [OF t2(2) t3(2)] .
  note eq3 = file_step_simps [OF step3]
  have il: "unat fd < length (fat_private_file_desc (files m))" using good_length [OF g] fd by simp
  have d3: "fat_private_file_desc (files m3) ! unat fd = d3" "\<not> dir_entry_modified d3"
    unfolding eq3(1) using il moved_trans [OF t2(3) t3(3)] clean by (simp_all add: moved_def)
  let ?d4 = "d3\<lparr>is_free := True, is_stale := False\<rparr>"
  let ?m4 = "m3\<lparr>files := (files m3)\<lparr>fat_private_file_desc := (fat_private_file_desc (files m3))[unat fd := ?d4]\<rparr>\<rparr>"
  have close: "on_files (fat_close C fd) m3 = Some (Inr (True, ?m4))"
    using fat_close_without_write [of "files m3" fd d3 C] good_length [OF eq3(6)] fd d3
    by (simp add: on_files_def)
  have "fat_exec_fd C max_size fd argc m = Some (Inr (True, ?m4\<lparr>started := Some argc\<rparr>))"
    using entry ext fits q(1) t2(1) [folded left_def] t3(1) close
    by (simp add: fat_exec_fd_def sz bnd_def on_bar_def lorun_def Let_def)
  moreover have "file_step blocks ready (files m) (unat fd) ?d4 e3 ?B ((files m3)\<lparr>fat_private_file_desc :=
      (fat_private_file_desc (files m3))[unat fd := ?d4]\<rparr>)"
    using file_step_upd(2) [OF step3 il g, of "\<lambda>d. d\<lparr>is_free := True, is_stale := False\<rparr>"] .
  moreover have "take (min n 32768) (lo_ram m3) = take (min n 32768) D" using t2(5) t3(5) by (simp add: loading_def)
  ultimately show thesis using that [of "?m4\<lparr>started := Some argc\<rparr>" ?d4 e3] t3(4) by simp
qed

lemma exec_fd_small:
  assumes S: "fat_state blocks ready (files m)" and geo: "cluster_geometry (fat_info (files m))"
    and fd: "unat fd < MAX_FILE_DESC" and d: "fat_private_file_desc (files m) ! unat fd = d"
    and live: "\<not> is_free d" "\<not> is_stale d"
    and f: "file_open (fat_info (files m)) (blocks (dev (files m))) cs d 0"
    and rdy: "file_ready (fat_info (files m)) (ready (dev (files m))) cs"
    and size: "0 < file_size d" "file_size d < 256" "file_size d \<le> unat max_size"
    and ext: "slice_at (de_filename (dir_entry d)) 8 3 = CH_APP"
    and ram: "256 \<le> length (lo_ram m)" "length (loload_buf m) = 256"
  shows "fat_exec_fd C max_size fd argc m = Some (Inl Overrun)"
proof -
  define n where "n = file_size d"
  let ?sz = "of_nat n :: u16"
  have sz: "ucast (de_size (dir_entry d)) = ?sz" by (simp add: n_def file_size_def)
  have u: "unat ?sz = n" using size(2) unfolding n_def unat_of_nat_mod by simp
  then have ne: "?sz \<noteq> 0" using size(1) by (auto simp: n_def)
  have "unat (drop_bit 8 ?sz) = 0" unfolding unat_drop_bit_eq u using size(2) by (simp add: drop_bit_eq_div n_def)
  then have zero: "ucast (drop_bit 8 ?sz) = (0 :: u8)" by (simp add: unat_eq_zero)
  have entry: "on_files (fat_get_dir_entry fd) m = Some (Inr (Some (dir_entry d), m))"
    using get_desc_live [OF S fd d live] by (simp add: on_files_def fat_get_dir_entry_def bnd_def)
  have fits: "\<not> ucast max_size < de_size (dir_entry d)"
    using size(3) unat_u16 [of max_size] by (simp add: word_less_nat_alt file_size_def unat_ucast_mod)
  obtain q where q: "progressbar_init 0 (bar m) = Some (Inr ((), q))" by (simp add: progressbar_init_def)
  then have stuck: "progressbar_progress 1 q = Some (Inl Overrun)"
    using progressbar_zero_overruns [of 1 "bar m"] by simp
  have room: "unat (256 :: u16) \<le> length (loload_buf m)" using ram(2) by simp
  have n': "n = min (unat (256 :: u16)) (file_size d - 0)" using size(2) by (simp add: n_def)
  let ?D = "file_data (fat_info (files m)) (blocks (dev (files m))) cs"
  obtain t d1 where t: "fat_read C fd (loload_buf m) 256 (files m) =
      Some (Inr ((?sz, splice_at (loload_buf m) 0 (slice_at ?D 0 n)), t))"
    "file_step blocks ready (files m) (unat fd) d1 (if n < unat (256 :: u16) then FAT_EOF else last_error (files m))
      (blocks (dev (files m))) t"
    using fat_read_run [OF S geo fd d live f rdy room n'] .
  have eof: "last_error t = FAT_EOF" using file_step_simps(3) [OF t(2)] size(2) by (simp add: n_def)
  let ?buf = "splice_at (loload_buf m) 0 (slice_at ?D 0 n)"
  have len: "length ?buf = 256" using ram(2) size(2) by (simp add: splice_at_def slice_at_def n_def)
  have "read_page C fd (m\<lparr>bar := q\<rparr>) = Some (Inr (?sz, m\<lparr>bar := q, files := t, loload_buf := ?buf\<rparr>))"
    using t(1) by (simp add: read_page_def on_files_def bnd_def)
  moreover have "copy_to_loram 0 (m\<lparr>bar := q, files := t, loload_buf := ?buf\<rparr>) =
      Some (Inr ((), m\<lparr>bar := q, files := t, loload_buf := ?buf, lo_ram := splice_at (lo_ram m) 0 ?buf\<rparr>))"
    using ram(1) len by (simp add: copy_to_loram_def)
  ultimately have "load_lo C fd ?sz 0 (Suc 127) (m\<lparr>bar := q\<rparr>) = Some (Inl Overrun)"
    unfolding load_lo.simps(2) using ne eof stuck by (simp add: bnd_def on_bar_def zoom_def)
  then show ?thesis
    using entry ext fits q zero by (simp add: fat_exec_fd_def sz bnd_def on_bar_def Let_def)
qed

end

subsection \<open>The properties\<close>

text \<open>What both theorems need of the opening.\<close>

lemma exec_open:
  assumes dev: "live_device C blocks ready" and S: "fat_state blocks ready (files m)"
    and geo: "cluster_geometry (fat_info (files m))"
    and i: "i = first_free (fat_private_file_desc (files m))" "i < MAX_FILE_DESC"
      "\<not> is_stale (fat_private_file_desc (files m) ! i)"
    and path: "deref path = CH_SLASH" "\<forall>nm \<in> set (components path). short nm"
    and w: "resolves (fat_info (files m)) (ready (dev (files m))) (blocks (dev (files m)))
      (root_found (fat_private_file_desc (files m) ! i)) (components path) w"
    and e: "entry_file (fat_info (files m)) (blocks (dev (files m))) cs (fst w)"
      "de_attrs (fst w) AND FAT_FILE_ATTR_DIRECTORY = 0"
  obtains t d where "fat_exec C max_size path argc m = fat_exec_fd C max_size (of_nat i) argc (m\<lparr>files := t\<rparr>)"
    "file_step blocks ready (files m) i d (last_error (files m)) (blocks (dev (files m))) t"
    "fat_state blocks ready t" "unat (of_nat i :: u8) = i" "fat_private_file_desc t ! i = d"
    "\<not> is_free d" "\<not> is_stale d" "\<not> dir_entry_modified d" "dir_entry d = fst w"
    "file_open (fat_info (files m)) (blocks (dev (files m))) cs d 0"
proof -
  let ?fi = "fat_info (files m)" and ?B = "blocks (dev (files m))"
  let ?f = "found_desc w (fat_private_file_desc (files m) ! i)"
  let ?d = "init_desc ?fi (fat_entry ?fi ?B) ?f"
  have mode: "(0 :: u8) AND 3 \<noteq> 3" by simp
  obtain t where t: "fat_open_path C path 0 (files m) = Some (Inr (of_nat i, t))"
    "file_step blocks ready (files m) i ?d (last_error (files m)) ?B t"
    using live_device.open_path_run [OF dev S geo i(1,2) path w mode e] .
  have u: "unat (of_nat i :: u8) = i" using i(2) by (simp add: unat_of_nat_mod)
  have g: "good blocks (files m)" using S by (simp add: fat_state_def)
  have d: "fat_private_file_desc t ! i = ?d" using file_step_simps(1) [OF t(2)] good_length [OF g] i(2) by simp
  have "fat_exec C max_size path argc m = fat_exec_fd C max_size (of_nat i) argc (m\<lparr>files := t\<rparr>)"
    using t(1) unat_bad_desc [OF _ u] i(2) by (simp add: fat_exec_def on_files_def bnd_def)
  moreover have "file_open ?fi ?B cs ?d 0" using init_desc_open [OF geo, of ?B cs ?f] e(1) by (simp add: found_desc_def)
  ultimately show thesis
    using that [OF _ t(2) file_step_state [OF S t(2)] u d] i(3) by (simp add: init_desc_def found_desc_def Let_def)
qed

text \<open>
  C12: \<open>fat_exec\<close> on the path of an APP file of at least 256 bytes that fits the memory loads its first
  32768 bytes to the start of the low RAM and the others to the high RAM, starts the program with the
  argument count given, and leaves the descriptor it used free and the card unchanged.
\<close>

theorem fat_exec_loads:
  assumes dev: "live_device C blocks ready" and S: "fat_state blocks ready (files m)"
    and geo: "cluster_geometry (fat_info (files m))"
    and i: "i = first_free (fat_private_file_desc (files m))" "i < MAX_FILE_DESC"
      "\<not> is_stale (fat_private_file_desc (files m) ! i)"
    and path: "deref path = CH_SLASH" "\<forall>nm \<in> set (components path). short nm"
    and w: "resolves (fat_info (files m)) (ready (dev (files m))) (blocks (dev (files m)))
      (root_found (fat_private_file_desc (files m) ! i)) (components path) w"
    and e: "entry_file (fat_info (files m)) (blocks (dev (files m))) cs (fst w)"
      "de_attrs (fst w) AND FAT_FILE_ATTR_DIRECTORY = 0" "slice_at (de_filename (fst w)) 8 3 = CH_APP"
    and rdy: "file_ready (fat_info (files m)) (ready (dev (files m))) cs"
    and n: "n = unat (de_size (fst w))" "256 \<le> n" "n \<le> unat max_size"
    and D: "D = take n (file_data (fat_info (files m)) (blocks (dev (files m))) cs)"
    and ram: "length (lo_ram m) = 32768" "length (hi_ram m) = 32768" "length (loload_buf m) = 256"
  shows "\<exists>m' d'. fat_exec C max_size path argc m = Some (Inr (True, m')) \<and> started m' = Some argc \<and>
    take (min n 32768) (lo_ram m') = take 32768 D \<and> take (n - 32768) (hi_ram m') = drop 32768 D \<and>
    fat_private_file_desc (files m') = (fat_private_file_desc (files m))[i := d'] \<and> is_free d' \<and>
    blocks (dev (files m')) = blocks (dev (files m))"
proof -
  let ?fi = "fat_info (files m)" and ?B = "blocks (dev (files m))" and ?X = "file_data (fat_info (files m)) (blocks (dev (files m))) cs"
  obtain t d where t: "fat_exec C max_size path argc m = fat_exec_fd C max_size (of_nat i) argc (m\<lparr>files := t\<rparr>)"
    "file_step blocks ready (files m) i d (last_error (files m)) ?B t" "fat_state blocks ready t"
    "unat (of_nat i :: u8) = i" "fat_private_file_desc t ! i = d"
    "\<not> is_free d" "\<not> is_stale d" "\<not> dir_entry_modified d" "dir_entry d = fst w" "file_open ?fi ?B cs d 0"
    using exec_open [OF dev S geo i path w e(1,2)] .
  note eq = file_step_simps(2-6) [OF t(2)]
  have M: "files (m\<lparr>files := t\<rparr>) = t" by simp
  have "\<forall>b \<in> set (file_blocks ?fi cs). length (?B b) = 512"
    using rdy live_device.block_len [OF dev] by (auto simp: file_ready_def)
  then have X: "n \<le> length ?X" using length_file_data e(1) n(1) by (auto simp: entry_file_def)
  have size: "n = file_size d" using n(1) t(9) by (simp add: file_size_def)
  have ram': "length (lo_ram (m\<lparr>files := t\<rparr>)) = 32768" "length (hi_ram (m\<lparr>files := t\<rparr>)) = 32768"
    "length (loload_buf (m\<lparr>files := t\<rparr>)) = 256"
    using ram by simp_all
  have fd: "unat (of_nat i :: u8) < MAX_FILE_DESC" "fat_private_file_desc t ! unat (of_nat i :: u8) = d" using t(4,5) i(2) by simp_all
  have ext: "slice_at (de_filename (dir_entry d)) 8 3 = CH_APP" using e(3) t(9) by simp
  obtain m' d' e' where m': "fat_exec_fd C max_size (of_nat i) argc (m\<lparr>files := t\<rparr>) = Some (Inr (True, m'))"
    "started m' = Some argc" "take (min n 32768) (lo_ram m') = take (min n 32768) ?X"
    "take (n - 32768) (hi_ram m') = take (n - 32768) (drop 32768 ?X)"
    "file_step blocks ready t (unat (of_nat i :: u8)) d' e' ?B (files m')" "is_free d'"
    using live_device.exec_fd_run [OF dev, of "m\<lparr>files := t\<rparr>" "of_nat i" d cs n ?X max_size argc, unfolded M eq,
        OF t(3) geo fd t(6-8) t(10) rdy size refl X n(2,3) ext ram'] .
  have "file_step blocks ready (files m) i d' e' ?B (files m')"
    using file_step_trans [OF t(2)] m'(5) unfolding t(4) .
  note eq' = file_step_simps [OF this]
  show ?thesis
    using t(1) m' eq' by (intro exI [of _ m'] exI [of _ d']) (simp add: D drop_take min.commute)
qed

text \<open>
  C40: An APP file of 1 to 255 bytes is not run: after its page has been read, the first step of the
  progress bar, which has been made for 0 pages, fills cells until it stores behind the end of the
  segment of the screen, in memory that is not the bar's.
\<close>

theorem fat_exec_small_overruns:
  assumes dev: "live_device C blocks ready" and S: "fat_state blocks ready (files m)"
    and geo: "cluster_geometry (fat_info (files m))"
    and i: "i = first_free (fat_private_file_desc (files m))" "i < MAX_FILE_DESC"
      "\<not> is_stale (fat_private_file_desc (files m) ! i)"
    and path: "deref path = CH_SLASH" "\<forall>nm \<in> set (components path). short nm"
    and w: "resolves (fat_info (files m)) (ready (dev (files m))) (blocks (dev (files m)))
      (root_found (fat_private_file_desc (files m) ! i)) (components path) w"
    and e: "entry_file (fat_info (files m)) (blocks (dev (files m))) cs (fst w)"
      "de_attrs (fst w) AND FAT_FILE_ATTR_DIRECTORY = 0" "slice_at (de_filename (fst w)) 8 3 = CH_APP"
    and rdy: "file_ready (fat_info (files m)) (ready (dev (files m))) cs"
    and n: "0 < de_size (fst w)" "de_size (fst w) < 256" "unat (de_size (fst w)) \<le> unat max_size"
    and ram: "256 \<le> length (lo_ram m)" "length (loload_buf m) = 256"
  shows "fat_exec C max_size path argc m = Some (Inl Overrun)"
proof -
  let ?fi = "fat_info (files m)" and ?B = "blocks (dev (files m))"
  obtain t d where t: "fat_exec C max_size path argc m = fat_exec_fd C max_size (of_nat i) argc (m\<lparr>files := t\<rparr>)"
    "file_step blocks ready (files m) i d (last_error (files m)) ?B t" "fat_state blocks ready t"
    "unat (of_nat i :: u8) = i" "fat_private_file_desc t ! i = d"
    "\<not> is_free d" "\<not> is_stale d" "\<not> dir_entry_modified d" "dir_entry d = fst w" "file_open ?fi ?B cs d 0"
    using exec_open [OF dev S geo i path w e(1,2)] .
  note eq = file_step_simps(2-6) [OF t(2)]
  have M: "files (m\<lparr>files := t\<rparr>) = t" by simp
  have size: "0 < file_size d" "file_size d < 256" "file_size d \<le> unat max_size"
    using n t(9) by (simp_all add: file_size_def word_less_nat_alt)
  have fd: "unat (of_nat i :: u8) < MAX_FILE_DESC" "fat_private_file_desc t ! unat (of_nat i :: u8) = d" using t(4,5) i(2) by simp_all
  have ext: "slice_at (de_filename (dir_entry d)) 8 3 = CH_APP" using e(3) t(9) by simp
  show ?thesis
    unfolding t(1) using live_device.exec_fd_small [OF dev, of "m\<lparr>files := t\<rparr>" "of_nat i" d cs max_size argc, unfolded M eq,
        OF t(3) geo fd t(6,7) t(10) rdy size ext] ram by simp
qed

text \<open>The small volume with one program, \<open>A.APP\<close>, in its root directory.\<close>

definition app_entry :: "u16 \<Rightarrow> u32 \<Rightarrow> FatDirEntry" where
  "app_entry c n = small_entry\<lparr>de_filename := [0x41] @ replicate 7 0x20 @ [0x41, 0x50, 0x50], de_cluster_lo := c, de_size := n\<rparr>"

definition app_card :: "FatDirEntry \<Rightarrow> sd_card" where
  "app_card e = small_card\<lparr>contents := (contents small_card)(3 := encode_entry e @ replicate 480 0)\<rparr>"

definition app_machine :: "FatDirEntry \<Rightarrow> sd_card machine" where
  "app_machine e = \<lparr>files = small_fs\<lparr>dev := app_card e\<rparr>, bar = blank_bar, loload_buf = replicate 256 0,
     lo_ram = replicate 32768 0, hi_ram = replicate 32768 0, started = None\<rparr>"

lemma app_block: "sd_block (app_card e) b = (if b = 3 then sd_block (app_card e) 3 else sd_block small_card b)"
  by (simp add: sd_block_def app_card_def small_card_def)

lemma app_ready: "sd_ready (app_card e) = sd_ready small_card"
  by (simp add: fun_eq_iff sd_ready_def app_card_def)

lemma app_fat: "fat_entry small_info (sd_block (app_card e)) c = fat_entry small_info (sd_block small_card) c" if "unat c < 256"
proof -
  have "fat_sector c = 0" using that by (simp add: fat_sector_eq fat_sec_def div_eq_0_iff)
  then have "fat0_offset small_info + fat_sector c = 1" by (simp add: small_info_def)
  then show ?thesis using app_block [of e 1] by (simp add: fat_entry_def)
qed

lemma app_state: "fat_state sd_block sd_ready (files (app_machine e))"
proof -
  have "good sd_block (files (app_machine e))"
    using small_fs_good by (simp add: good_def wf_fs_def coherent_def app_machine_def small_fs_def)
  moreover have "mirrored small_info (sd_block (app_card e))"
    using app_block [of e 1] app_block [of e 2] by (simp add: mirrored_def small_info_def) (simp add: sd_block_def small_card_def)
  ultimately show ?thesis
    using small_layout by (simp add: fat_state_def app_machine_def small_fs_simps app_ready)
qed

lemma app_simps: "fat_info (files (app_machine e)) = small_info" "dev (files (app_machine e)) = app_card e"
  "fat_private_file_desc (files (app_machine e)) = fat_private_file_desc small_fs"
  "length (lo_ram (app_machine e)) = 32768" "length (hi_ram (app_machine e)) = 32768" "length (loload_buf (app_machine e)) = 256"
  by (simp_all add: app_machine_def small_fs_simps)

lemma app_dir:
  assumes "length (de_filename e) = 11" and "de_filename e = to_fat_name nm" and "de_filename e ! 0 \<notin> {0, 0xe5}"
    and "de_cluster_lo (fst w0) = 0"
  shows "resolves small_info (sd_ready small_card) (sd_block (app_card e)) w0 [nm] (e, 0, 3)"
proof -
  have "length (encode_entry e) = 32" using assms(1) by simp
  then have raw: "raw (sd_block (app_card e)) (3, 0) = encode_entry e"
    by (simp add: raw_def sd_block_def app_card_def slice_at_def)
  have first: "encode_entry e ! 0 = de_filename e ! 0" "take 11 (encode_entry e) = de_filename e"
    using assms(1) by (simp_all add: encode_entry_def nth_append)
  have "dir_blocks small_info (sd_ready small_card) (sd_block (app_card e)) (Some (fst w0)) [3]"
    using small_dir assms(4) by (simp add: dir_blocks_def)
  moreover have "lookup (sd_block (app_card e)) (to_fat_name nm) (slots [3]) None = Hit (3, 0)"
    unfolding small_slots(1) using assms(2,3) by (simp add: raw first)
  ultimately have "names small_info (sd_ready small_card) (sd_block (app_card e)) (fst w0) nm (3, 0)"
    by (auto simp: names_def)
  from down [OF this here] show ?thesis
    using decode_encode_entry [OF assms(1)] by (simp add: found_place_def found_at_def raw)
qed

text \<open>The path \<open>/A.APP\<close>.\<close>

lemma app_path:
  "components [0x2f, 0x41, 0x2e, 0x41, 0x50, 0x50] = [[0x41, 0x2e, 0x41, 0x50, 0x50]]"
  "to_fat_name [0x41, 0x2e, 0x41, 0x50, 0x50] = de_filename (app_entry c n)"
proof -
  have "to_fat_name [0x41, 0x2e, 0x41, 0x50, 0x50] = [0x41] @ replicate 7 0x20 @ [0x41, 0x50, 0x50]" by code_simp
  then show "to_fat_name [0x41, 0x2e, 0x41, 0x50, 0x50] = de_filename (app_entry c n)" by (simp add: app_entry_def)
qed code_simp

lemma app_resolves:
  "resolves small_info (sd_ready small_card) (sd_block (app_card (app_entry c n))) (root_found (fat_private_file_desc small_fs ! 0))
     (components [0x2f, 0x41, 0x2e, 0x41, 0x50, 0x50]) (app_entry c n, 0, 3)"
  unfolding app_path(1) by (rule app_dir) (simp_all add: app_path(2) [of c n] root_found_def, simp_all add: app_entry_def)

lemma app_entry_simps: "slice_at (de_filename (app_entry c n)) 8 3 = CH_APP" "de_size (app_entry c n) = n"
  "de_cluster_lo (app_entry c n) = c" "de_attrs (app_entry c n) = 0"
  by (simp_all add: app_entry_def slice_at_def CH_APP_def small_entry_def)

lemma app_chains: "chain small_info (sd_block (app_card e)) [2, 3]" "chain small_info (sd_block (app_card e)) [3]"
  by (simp_all add: data_cluster_def small_in_fat small_fat_entries app_fat)

theorem fat_exec_loads_witness:
  "\<exists>m'. fat_exec sd_ops 0xd000 [0x2f, 0x41, 0x2e, 0x41, 0x50, 0x50] 3 (app_machine (app_entry 2 600)) = Some (Inr (True, m')) \<and>
     started m' = Some 3 \<and> take 600 (lo_ram m') = replicate 512 0x61 @ replicate 88 0x62"
proof -
  let ?e = "app_entry 2 600"
  have free: "0 = first_free (fat_private_file_desc small_fs)" "\<not> is_stale (fat_private_file_desc small_fs ! 0)"
    using small_free by simp_all
  have entry: "entry_file small_info (sd_block (app_card ?e)) [2, 3] ?e"
    using app_chains [of ?e] by (simp add: entry_file_def app_entry_simps small_cluster_bytes)
  have "file_data small_info (sd_block (app_card ?e)) [2, 3] = file_data small_info (sd_block small_card) [2, 3]"
    using app_block [of ?e 4] app_block [of ?e 5] by (simp add: file_data_def small_blocks)
  then have data: "take 600 (file_data small_info (sd_block (app_card ?e)) [2, 3]) = replicate 512 0x61 @ replicate 88 0x62"
    by (simp add: small_data)
  have n: "600 = unat (de_size ?e)" "256 \<le> (600 :: nat)" "600 \<le> unat (0xd000 :: u16)" by (simp_all add: app_entry_simps)
  show ?thesis
    using fat_exec_loads [OF sd.live_device_axioms app_state [of ?e], of 0 "[0x2f, 0x41, 0x2e, 0x41, 0x50, 0x50]" "(?e, 0, 3)" "[2, 3]"
        600 "0xd000" _ 3, unfolded app_simps app_ready fst_conv, OF small_geometry free(1) _ free(2) _ _ app_resolves entry
        _ app_entry_simps(1) small_file_ready n data [symmetric] refl refl refl]
    by (auto simp: app_path short_def FILENAME_BUF_def deref_def CH_SLASH_def app_entry_simps)
qed

theorem fat_exec_small_overruns_witness:
  "fat_exec sd_ops 0xd000 [0x2f, 0x41, 0x2e, 0x41, 0x50, 0x50] 3 (app_machine (app_entry 3 100)) =
    Some (Inl Overrun)"
proof -
  let ?e = "app_entry 3 100"
  have free: "0 = first_free (fat_private_file_desc small_fs)" "\<not> is_stale (fat_private_file_desc small_fs ! 0)"
    using small_free by simp_all
  have entry: "entry_file small_info (sd_block (app_card ?e)) [3] ?e"
    using app_chains [of ?e] by (simp add: entry_file_def app_entry_simps small_cluster_bytes)
  have rdy: "file_ready small_info (sd_ready small_card) [3]"
    using small_file_ready by (simp add: file_ready_def file_blocks_def)
  show ?thesis
    using fat_exec_small_overruns [OF sd.live_device_axioms app_state [of ?e], of 0 "[0x2f, 0x41, 0x2e, 0x41, 0x50, 0x50]" "(?e, 0, 3)" "[3]"
        "0xd000" 3, unfolded app_simps app_ready fst_conv, OF small_geometry free(1) _ free(2) _ _ app_resolves entry
        _ app_entry_simps(1) rdy]
    by (simp add: app_path short_def FILENAME_BUF_def deref_def CH_SLASH_def app_entry_simps)
qed

end
