(* ===== verification/LastError.thy ===== *)
theory LastError
  imports FatTypes
begin

section \<open>The last error (lib/fat/last_error.c)\<close>

text \<open>
  The query of \<open>last_error\<close> and its message. \<open>fat_print_last_error\<close> hands one string to
  \<open>puts\<close>; the model returns that string.
\<close>

definition fat_get_last_error :: "('d fs, u8) cmd" where
  "fat_get_last_error = gets last_error"

definition error_message :: "u8 \<Rightarrow> string" where
  "error_message e =
     (if e = FAT_ERROR_OK then ''ok''
      else if e = FAT_ERROR_NO_CARD then ''no card''
      else if e = FAT_ERROR_UNSUPPORTED_FAT_TYPE then ''unsupported FAT type''
      else if e = FAT_ERROR_UNSUPPORTED_SECTOR_SIZE then ''unsupported sector size''
      else if e = FAT_ERROR_TOO_MANY_FATS then ''too many FATs''
      else if e = FAT_ERROR_TOO_MANY_OPEN_FILES then ''too many open files''
      else if e = FAT_ERROR_NOT_A_DIR then ''not a directory''
      else if e = FAT_ERROR_CARD_REINSERTED then ''card was reinserted''
      else if e = FAT_ERROR_CARD then ''card error''
      else if e = FAT_ERROR_FS_BROKEN then ''filesystem is broken''
      else if e = FAT_ERROR_NOT_FOUND then ''not found''
      else if e = FAT_ERROR_BAD_DESCRIPTOR then ''bad descriptor''
      else if e = FAT_EOF then ''EOF''
      else if e = FAT_ERROR_RELATIVE_PATH then ''relative path''
      else if e = FAT_ERROR_IS_DIR then ''is a directory''
      else if e = FAT_ERROR_STALE_DESCRIPTOR then ''stale descriptor''
      else if e = FAT_ERROR_FILE_EXISTS then ''file exists''
      else if e = FAT_ERROR_DIR_FULL then ''directory is full''
      else if e = FAT_EXEC_ERROR_WRONG_EXTENSION then ''wrong extension''
      else if e = FAT_EXEC_ERROR_FILE_TOO_LARGE then ''file is too large''
      else ''unknown error'')"

definition fat_print_last_error :: "('d fs, string) cmd" where
  "fat_print_last_error = gets (\<lambda>s. error_message (last_error s))"

end
