(* ===== verification/Ps2.thy ===== *)
theory Ps2
  imports Prelude
begin

section \<open>The PS/2 port (lib/ps2.c, include/libsys/ps2.h)\<close>

text \<open>
  The port is two memory-mapped registers, \<open>PS2_DATA\<close> and \<open>PS2_STATUS\<close>. What the hardware does
  when they are read and written is a parameter of the model, \<open>'h ps2_port\<close> over a hardware
  state \<open>'h\<close>. \<open>ps2_read\<close> takes a byte from it, \<open>send_byte\<close> sends one and waits for its acknowledgement. The
  relation \<open>acked\<close> says what the device has to do for that, turn by turn.
\<close>

subsection \<open>The port\<close>

record 'h ps2_port =
  rd_status :: "'h \<Rightarrow> u8 \<times> 'h"
  rd_data :: "'h \<Rightarrow> u8 \<times> 'h"
  wr_status :: "u8 \<Rightarrow> 'h \<Rightarrow> 'h"
  wr_data :: "u8 \<Rightarrow> 'h \<Rightarrow> 'h"

abbreviation PS2_STATUS_HAS_DATA :: u8 where "PS2_STATUS_HAS_DATA \<equiv> 1"
abbreviation PS2_STATUS_RECV_VALID :: u8 where "PS2_STATUS_RECV_VALID \<equiv> 2"
abbreviation PS2_READ_EMPTY :: u8 where "PS2_READ_EMPTY \<equiv> 0xFF"
abbreviation PS2_CODE_RESEND :: u8 where "PS2_CODE_RESEND \<equiv> 0xFE"
abbreviation PS2_CODE_BAT_PASSED :: u8 where "PS2_CODE_BAT_PASSED \<equiv> 0xAA"
abbreviation PS2_CODE_ACK :: u8 where "PS2_CODE_ACK \<equiv> 0xFA"
abbreviation PS2_CODE_BUFFER_OVERRUN :: u8 where "PS2_CODE_BUFFER_OVERRUN \<equiv> 0x00"

definition get_status :: "'h ps2_port \<Rightarrow> ('h, u8) cmd" where
  "get_status D = (\<lambda>h. Some (Inr (rd_status D h)))"

definition get_data :: "'h ps2_port \<Rightarrow> ('h, u8) cmd" where
  "get_data D = (\<lambda>h. Some (Inr (rd_data D h)))"

definition put_status :: "'h ps2_port \<Rightarrow> u8 \<Rightarrow> ('h, unit) cmd" where
  "put_status D v = modify (wr_status D v)"

definition put_data :: "'h ps2_port \<Rightarrow> u8 \<Rightarrow> ('h, unit) cmd" where
  "put_data D v = modify (wr_data D v)"

definition ps2_read :: "'h ps2_port \<Rightarrow> ('h, u8) cmd" where
  "ps2_read D =
     bnd (get_status D) (\<lambda>status.
     if status AND PS2_STATUS_HAS_DATA \<noteq> 0 then
       (if status AND PS2_STATUS_RECV_VALID \<noteq> 0 then
          bnd (get_data D) (\<lambda>data. andthen (put_status D 0) (ret data))
        else
          andthen (put_data D PS2_CODE_RESEND) (andthen (put_status D 0) (ret PS2_READ_EMPTY)))
     else ret PS2_READ_EMPTY)"

datatype send_state = STATE_START | STATE_END | STATE_WAIT_RESPONSE

text \<open>The loop of \<open>send_byte\<close>, one turn per call.\<close>

partial_function (option) send_loop :: "'h ps2_port \<Rightarrow> u8 \<Rightarrow> send_state \<Rightarrow> ('h, bool) cmd" where
  "send_loop D byte st h =
     (if st = STATE_END then ret True
      else if st = STATE_START then
        andthen (put_data D byte) (send_loop D byte STATE_WAIT_RESPONSE)
      else
        bnd (get_status D) (\<lambda>status.
        if status AND PS2_STATUS_HAS_DATA \<noteq> 0 then
          (if status AND PS2_STATUS_RECV_VALID \<noteq> 0 then
             bnd (get_data D) (\<lambda>data.
             andthen (put_status D 0)
               (send_loop D byte (if data = PS2_CODE_ACK then STATE_END else STATE_START)))
           else
             andthen (put_data D PS2_CODE_RESEND)
             (andthen (put_status D 0) (send_loop D byte STATE_WAIT_RESPONSE)))
        else send_loop D byte STATE_WAIT_RESPONSE)) h"

definition send_byte :: "'h ps2_port \<Rightarrow> u8 \<Rightarrow> ('h, bool) cmd" where
  "send_byte D byte =
     bnd (get_status D) (\<lambda>status.
     if status AND PS2_STATUS_HAS_DATA \<noteq> 0 then ret False
     else send_loop D byte STATE_START)"

definition ps2_reset :: "'h ps2_port \<Rightarrow> ('h, bool) cmd" where
  "ps2_reset D = send_byte D 0xff"

definition ps2_set_led_mask :: "'h ps2_port \<Rightarrow> u8 \<Rightarrow> ('h, unit) cmd" where
  "ps2_set_led_mask D leds = andthen (send_byte D 0xed) (andthen (send_byte D leds) (ret ()))"

definition ps2_set_rate :: "'h ps2_port \<Rightarrow> u8 \<Rightarrow> ('h, unit) cmd" where
  "ps2_set_rate D rate = andthen (send_byte D 0xf3) (andthen (send_byte D rate) (ret ()))"

subsection \<open>The masks of the lamps and of the typematic rate\<close>

definition PS2_LED_SCROLL :: u8 where "PS2_LED_SCROLL = 1"
definition PS2_LED_NUM :: u8 where "PS2_LED_NUM = 2"
definition PS2_LED_CAPS :: u8 where "PS2_LED_CAPS = 4"

definition PS2_DELAY_250_MS :: u8 where "PS2_DELAY_250_MS = push_bit 5 0"
definition PS2_DELAY_500_MS :: u8 where "PS2_DELAY_500_MS = push_bit 5 1"
definition PS2_DELAY_750_MS :: u8 where "PS2_DELAY_750_MS = push_bit 5 2"
definition PS2_DELAY_1000_MS :: u8 where "PS2_DELAY_1000_MS = push_bit 5 3"

text \<open>The codes of the rates, with the characters per ten seconds they stand for.\<close>

definition PS2_RATES :: "(nat \<times> u8) list" where
  "PS2_RATES = [
     (300, 0), (267, 1), (240, 2), (218, 3), (207, 4), (185, 5), (171, 6), (160, 7),
     (150, 8), (133, 9), (120, 10), (109, 11), (100, 12), (92, 13), (86, 14), (80, 15),
     (75, 16), (67, 17), (60, 18), (55, 19), (50, 20), (46, 21), (43, 22), (40, 23),
     (37, 24), (33, 25), (30, 26), (27, 27), (25, 28), (23, 29), (21, 30), (20, 31)]"

text \<open>
  The codes are the numbers 0 to 31, faster rates first, so a delay and a rate share a byte without
  overlapping, and the byte has its top bit clear.
\<close>

lemma rates_ordered:
  "map snd PS2_RATES = map of_nat [0..<32]" "sorted_wrt (>) (map fst PS2_RATES)"
  by code_simp+

lemma rate_mask:
  "list_all (\<lambda>d. list_all (\<lambda>(_, r). d AND r = 0 \<and> (d OR r) AND 31 = r \<and> (d OR r) AND 96 = d \<and> \<not> bit (d OR r) 7) PS2_RATES)
    [PS2_DELAY_250_MS, PS2_DELAY_500_MS, PS2_DELAY_750_MS, PS2_DELAY_1000_MS]"
  by code_simp

subsection \<open>Sending\<close>

text \<open>
  What the port has for a driver that looks at it once: nothing, a byte that came with an error, which is asked for again, or a
  byte.
\<close>

datatype event = Nothing | Garbled | Got u8

definition look :: "'h ps2_port \<Rightarrow> 'h \<Rightarrow> event \<times> 'h" where
  "look D h = (let (status, h1) = rd_status D h in
     if status AND PS2_STATUS_HAS_DATA = 0 then (Nothing, h1)
     else if status AND PS2_STATUS_RECV_VALID = 0 then (Garbled, wr_status D 0 (wr_data D PS2_CODE_RESEND h1))
     else (let (data, h2) = rd_data D h1 in (Got data, wr_status D 0 h2)))"

text \<open>
  \<open>acked D byte n h h'\<close>: from \<open>h\<close>, where the byte has been sent, the device asks for it \<open>n\<close> more times before it
  acknowledges it, leaving \<open>h'\<close>.
\<close>

inductive acked :: "'h ps2_port \<Rightarrow> u8 \<Rightarrow> nat \<Rightarrow> 'h \<Rightarrow> 'h \<Rightarrow> bool" for D byte where
  ack: "look D h = (Got PS2_CODE_ACK, h') \<Longrightarrow> acked D byte 0 h h'"
| wait: "look D h = (w, h1) \<Longrightarrow> w = Nothing \<or> w = Garbled \<Longrightarrow> acked D byte n h1 h' \<Longrightarrow> acked D byte n h h'"
| again: "look D h = (Got v, h1) \<Longrightarrow> v \<noteq> PS2_CODE_ACK \<Longrightarrow> acked D byte n (wr_data D byte h1) h' \<Longrightarrow>
    acked D byte (Suc n) h h'"

lemmas port_simps = get_status_def get_data_def put_status_def put_data_def

lemma send_loop_start: "send_loop D byte STATE_START h = send_loop D byte STATE_WAIT_RESPONSE (wr_data D byte h)"
  by (subst send_loop.simps) (simp add: port_simps bnd_def)

lemma send_loop_end: "send_loop D byte STATE_END h = Some (Inr (True, h))"
  by (subst send_loop.simps) simp

lemma send_loop_wait:
  "send_loop D byte STATE_WAIT_RESPONSE h = (case look D h of
     (Got v, h1) \<Rightarrow> if v = PS2_CODE_ACK then Some (Inr (True, h1)) else send_loop D byte STATE_WAIT_RESPONSE (wr_data D byte h1)
   | (_, h1) \<Rightarrow> send_loop D byte STATE_WAIT_RESPONSE h1)"
  by (subst send_loop.simps)
     (simp add: look_def port_simps bnd_def split_beta send_loop_start send_loop_end)

lemma acked_sends: "acked D byte n h h' \<Longrightarrow> send_loop D byte STATE_WAIT_RESPONSE h = Some (Inr (True, h'))"
  by (induction rule: acked.induct) (subst send_loop_wait, auto)+

lemma sends_acked:
  "send_loop D byte st h = Some r \<Longrightarrow>
   (case st of
      STATE_END \<Rightarrow> r = Inr (True, h)
    | STATE_START \<Rightarrow> \<exists>n h'. r = Inr (True, h') \<and> acked D byte n (wr_data D byte h) h'
    | STATE_WAIT_RESPONSE \<Rightarrow> \<exists>n h'. r = Inr (True, h') \<and> acked D byte n h h')"
proof (induction rule: send_loop.raw_induct [rotated 1, consumes 1, case_names turn])
  case (turn loop D byte st h r)
  show ?case
  proof (cases st)
    case STATE_WAIT_RESPONSE
    obtain w h1 where l: "look D h = (w, h1)" by force
    show ?thesis
    proof (cases "w = Got PS2_CODE_ACK")
      case True
      then have "loop D byte STATE_END h1 = Some r"
        using turn(2) l STATE_WAIT_RESPONSE by (auto simp: look_def port_simps bnd_def split_beta split: if_splits)
      from turn(1) [OF this] True l STATE_WAIT_RESPONSE show ?thesis by (auto intro: acked.ack)
    next
      case False
      then consider v where "w = Got v" "v \<noteq> PS2_CODE_ACK" "loop D byte STATE_START h1 = Some r"
        | "w = Nothing \<or> w = Garbled" "loop D byte STATE_WAIT_RESPONSE h1 = Some r"
        using turn(2) l STATE_WAIT_RESPONSE by (auto simp: look_def port_simps bnd_def split_beta split: if_splits)
      then show ?thesis
        using l STATE_WAIT_RESPONSE by cases (fastforce dest!: turn(1) intro: acked.wait acked.again)+
    qed
  qed (use turn in \<open>auto simp: port_simps bnd_def dest: turn(1)\<close>)
qed

text \<open>
  C35: \<open>send_byte\<close> on any device. With a byte waiting in the port it returns false and touches nothing but the status. Otherwise
  it sends the byte and returns true in exactly the states where the device has acknowledged it, after any number of looks
  without an answer, garbled answers, and answers other than the acknowledgement, each of which makes it send the byte again;
  if no acknowledgement ever comes it never returns, and it never fails.
\<close>

theorem send_byte_acknowledged:
  "send_byte D byte h = Some r \<longleftrightarrow>
     (let (status, h1) = rd_status D h in
      if status AND PS2_STATUS_HAS_DATA \<noteq> 0 then r = Inr (False, h1)
      else \<exists>n h'. r = Inr (True, h') \<and> acked D byte n (wr_data D byte h1) h')"
proof -
  obtain status h1 where h1: "rd_status D h = (status, h1)" by force
  show ?thesis
  proof (cases "status AND PS2_STATUS_HAS_DATA = 0")
    case False
    then show ?thesis by (auto simp: send_byte_def port_simps bnd_def h1)
  next
    case True
    then have "send_byte D byte h = send_loop D byte STATE_START h1"
      by (simp add: send_byte_def port_simps bnd_def h1)
    then show ?thesis
      using True sends_acked [of D byte STATE_START h1 r] acked_sends by (auto simp: h1 send_loop_start)
  qed
qed

subsection \<open>A device that answers from a script\<close>

record scripted =
  script :: "event list"
  sent :: bytes

text \<open>A look at nothing passes the time; clearing the status takes the byte away.\<close>

definition script_port :: "scripted ps2_port" where
  "script_port = \<lparr>
     rd_status = (\<lambda>h. case script h of
         Got _ # _ \<Rightarrow> (3, h) | Garbled # _ \<Rightarrow> (1, h) | _ \<Rightarrow> (0, h\<lparr>script := tl (script h)\<rparr>)),
     rd_data = (\<lambda>h. case script h of Got v # _ \<Rightarrow> (v, h) | _ \<Rightarrow> (0, h)),
     wr_status = (\<lambda>_ h. h\<lparr>script := tl (script h)\<rparr>),
     wr_data = (\<lambda>v h. h\<lparr>sent := sent h @ [v]\<rparr>)\<rparr>"

lemma send_byte_script:
  "send_byte script_port 0xed \<lparr>script = [Nothing, Garbled, Nothing, Got 0x1c, Got 0xfa], sent = []\<rparr> =
    Some (Inr (True, \<lparr>script = [], sent = [0xed, 0xfe, 0xed]\<rparr>))"
  by (simp add: send_byte_def port_simps bnd_def script_port_def send_loop_start send_loop_wait look_def)

text \<open>
  \<open>ps2_set_led_mask\<close> does not look at the results of its two sends: when a key is hit between them, the keyboard has the
  command without its argument, and the caller does not learn it.
\<close>

lemma set_led_mask_half_sent:
  "ps2_set_led_mask script_port 4 \<lparr>script = [Nothing, Got 0xfa, Got 0x1c], sent = []\<rparr> =
    Some (Inr ((), \<lparr>script = [Got 0x1c], sent = [0xed]\<rparr>))"
  by (simp add: ps2_set_led_mask_def send_byte_def port_simps bnd_def script_port_def send_loop_start send_loop_wait look_def)

end
