(* ===== verification/Keyboard.thy ===== *)
theory Keyboard
  imports Ps2
begin

section \<open>The keyboard (lib/ps2keyboard.c)\<close>

text \<open>
  The scan code decoder is a state machine over three static variables: the prefixes seen
  (\<open>extended\<close>, \<open>release\<close>) and the mask of the modifiers held. Its tables are constant arrays,
  written as the source writes them: \<open>designated n\<close> is an initialiser with designators, the
  other elements are zero.
\<close>

subsection \<open>Key codes and tables\<close>

abbreviation PS2_KEY_RELEASE :: u8 where "PS2_KEY_RELEASE \<equiv> 128"
abbreviation PS2_KEY_NONE :: u8 where "PS2_KEY_NONE \<equiv> 0"
abbreviation PS2_KEY_A :: u8 where "PS2_KEY_A \<equiv> 65"
abbreviation PS2_KEY_B :: u8 where "PS2_KEY_B \<equiv> 66"
abbreviation PS2_KEY_C :: u8 where "PS2_KEY_C \<equiv> 67"
abbreviation PS2_KEY_D :: u8 where "PS2_KEY_D \<equiv> 68"
abbreviation PS2_KEY_E :: u8 where "PS2_KEY_E \<equiv> 69"
abbreviation PS2_KEY_F :: u8 where "PS2_KEY_F \<equiv> 70"
abbreviation PS2_KEY_G :: u8 where "PS2_KEY_G \<equiv> 71"
abbreviation PS2_KEY_H :: u8 where "PS2_KEY_H \<equiv> 72"
abbreviation PS2_KEY_I :: u8 where "PS2_KEY_I \<equiv> 73"
abbreviation PS2_KEY_J :: u8 where "PS2_KEY_J \<equiv> 74"
abbreviation PS2_KEY_K :: u8 where "PS2_KEY_K \<equiv> 75"
abbreviation PS2_KEY_L :: u8 where "PS2_KEY_L \<equiv> 76"
abbreviation PS2_KEY_M :: u8 where "PS2_KEY_M \<equiv> 77"
abbreviation PS2_KEY_N :: u8 where "PS2_KEY_N \<equiv> 78"
abbreviation PS2_KEY_O :: u8 where "PS2_KEY_O \<equiv> 79"
abbreviation PS2_KEY_P :: u8 where "PS2_KEY_P \<equiv> 80"
abbreviation PS2_KEY_Q :: u8 where "PS2_KEY_Q \<equiv> 81"
abbreviation PS2_KEY_R :: u8 where "PS2_KEY_R \<equiv> 82"
abbreviation PS2_KEY_S :: u8 where "PS2_KEY_S \<equiv> 83"
abbreviation PS2_KEY_T :: u8 where "PS2_KEY_T \<equiv> 84"
abbreviation PS2_KEY_U :: u8 where "PS2_KEY_U \<equiv> 85"
abbreviation PS2_KEY_V :: u8 where "PS2_KEY_V \<equiv> 86"
abbreviation PS2_KEY_W :: u8 where "PS2_KEY_W \<equiv> 87"
abbreviation PS2_KEY_X :: u8 where "PS2_KEY_X \<equiv> 88"
abbreviation PS2_KEY_Y :: u8 where "PS2_KEY_Y \<equiv> 89"
abbreviation PS2_KEY_Z :: u8 where "PS2_KEY_Z \<equiv> 90"
abbreviation PS2_KEY_0 :: u8 where "PS2_KEY_0 \<equiv> 48"
abbreviation PS2_KEY_1 :: u8 where "PS2_KEY_1 \<equiv> 49"
abbreviation PS2_KEY_2 :: u8 where "PS2_KEY_2 \<equiv> 50"
abbreviation PS2_KEY_3 :: u8 where "PS2_KEY_3 \<equiv> 51"
abbreviation PS2_KEY_4 :: u8 where "PS2_KEY_4 \<equiv> 52"
abbreviation PS2_KEY_5 :: u8 where "PS2_KEY_5 \<equiv> 53"
abbreviation PS2_KEY_6 :: u8 where "PS2_KEY_6 \<equiv> 54"
abbreviation PS2_KEY_7 :: u8 where "PS2_KEY_7 \<equiv> 55"
abbreviation PS2_KEY_8 :: u8 where "PS2_KEY_8 \<equiv> 56"
abbreviation PS2_KEY_9 :: u8 where "PS2_KEY_9 \<equiv> 57"
abbreviation PS2_KEY_BACKQUOTE :: u8 where "PS2_KEY_BACKQUOTE \<equiv> 96"
abbreviation PS2_KEY_DASH :: u8 where "PS2_KEY_DASH \<equiv> 45"
abbreviation PS2_KEY_EQUALS :: u8 where "PS2_KEY_EQUALS \<equiv> 61"
abbreviation PS2_KEY_LBRACE :: u8 where "PS2_KEY_LBRACE \<equiv> 91"
abbreviation PS2_KEY_RBRACE :: u8 where "PS2_KEY_RBRACE \<equiv> 93"
abbreviation PS2_KEY_SEMICOLON :: u8 where "PS2_KEY_SEMICOLON \<equiv> 59"
abbreviation PS2_KEY_QUOTE :: u8 where "PS2_KEY_QUOTE \<equiv> 34"
abbreviation PS2_KEY_BACKSLASH :: u8 where "PS2_KEY_BACKSLASH \<equiv> 92"
abbreviation PS2_KEY_PIPE :: u8 where "PS2_KEY_PIPE \<equiv> 124"
abbreviation PS2_KEY_COMMA :: u8 where "PS2_KEY_COMMA \<equiv> 44"
abbreviation PS2_KEY_DOT :: u8 where "PS2_KEY_DOT \<equiv> 46"
abbreviation PS2_KEY_SLASH :: u8 where "PS2_KEY_SLASH \<equiv> 47"
abbreviation PS2_KEY_SPACE :: u8 where "PS2_KEY_SPACE \<equiv> 32"
abbreviation PS2_KEY_ESCAPE :: u8 where "PS2_KEY_ESCAPE \<equiv> 121"
abbreviation PS2_KEY_F1 :: u8 where "PS2_KEY_F1 \<equiv> 1"
abbreviation PS2_KEY_F2 :: u8 where "PS2_KEY_F2 \<equiv> 2"
abbreviation PS2_KEY_F3 :: u8 where "PS2_KEY_F3 \<equiv> 3"
abbreviation PS2_KEY_F4 :: u8 where "PS2_KEY_F4 \<equiv> 4"
abbreviation PS2_KEY_F5 :: u8 where "PS2_KEY_F5 \<equiv> 5"
abbreviation PS2_KEY_F6 :: u8 where "PS2_KEY_F6 \<equiv> 6"
abbreviation PS2_KEY_F7 :: u8 where "PS2_KEY_F7 \<equiv> 7"
abbreviation PS2_KEY_F8 :: u8 where "PS2_KEY_F8 \<equiv> 8"
abbreviation PS2_KEY_F9 :: u8 where "PS2_KEY_F9 \<equiv> 9"
abbreviation PS2_KEY_F10 :: u8 where "PS2_KEY_F10 \<equiv> 10"
abbreviation PS2_KEY_F11 :: u8 where "PS2_KEY_F11 \<equiv> 11"
abbreviation PS2_KEY_F12 :: u8 where "PS2_KEY_F12 \<equiv> 12"
abbreviation PS2_KEY_BACKSPACE :: u8 where "PS2_KEY_BACKSPACE \<equiv> 13"
abbreviation PS2_KEY_TAB :: u8 where "PS2_KEY_TAB \<equiv> 14"
abbreviation PS2_KEY_CAPSLOCK :: u8 where "PS2_KEY_CAPSLOCK \<equiv> 15"
abbreviation PS2_KEY_ENTER :: u8 where "PS2_KEY_ENTER \<equiv> 16"
abbreviation PS2_KEY_LSHIFT :: u8 where "PS2_KEY_LSHIFT \<equiv> 17"
abbreviation PS2_KEY_RSHIFT :: u8 where "PS2_KEY_RSHIFT \<equiv> 18"
abbreviation PS2_KEY_LCTRL :: u8 where "PS2_KEY_LCTRL \<equiv> 19"
abbreviation PS2_KEY_LALT :: u8 where "PS2_KEY_LALT \<equiv> 20"
abbreviation PS2_KEY_LWIN :: u8 where "PS2_KEY_LWIN \<equiv> 21"
abbreviation PS2_KEY_RALT :: u8 where "PS2_KEY_RALT \<equiv> 22"
abbreviation PS2_KEY_RWIN :: u8 where "PS2_KEY_RWIN \<equiv> 23"
abbreviation PS2_KEY_MENU :: u8 where "PS2_KEY_MENU \<equiv> 24"
abbreviation PS2_KEY_RCTRL :: u8 where "PS2_KEY_RCTRL \<equiv> 25"
abbreviation PS2_KEY_INSERT :: u8 where "PS2_KEY_INSERT \<equiv> 26"
abbreviation PS2_KEY_DELETE :: u8 where "PS2_KEY_DELETE \<equiv> 27"
abbreviation PS2_KEY_HOME :: u8 where "PS2_KEY_HOME \<equiv> 28"
abbreviation PS2_KEY_END :: u8 where "PS2_KEY_END \<equiv> 29"
abbreviation PS2_KEY_PAGEUP :: u8 where "PS2_KEY_PAGEUP \<equiv> 30"
abbreviation PS2_KEY_PAGEDOWN :: u8 where "PS2_KEY_PAGEDOWN \<equiv> 31"
abbreviation PS2_KEY_LEFT :: u8 where "PS2_KEY_LEFT \<equiv> 97"
abbreviation PS2_KEY_RIGHT :: u8 where "PS2_KEY_RIGHT \<equiv> 98"
abbreviation PS2_KEY_UP :: u8 where "PS2_KEY_UP \<equiv> 99"
abbreviation PS2_KEY_DOWN :: u8 where "PS2_KEY_DOWN \<equiv> 100"
abbreviation PS2_KEY_NUMLOCK :: u8 where "PS2_KEY_NUMLOCK \<equiv> 101"
abbreviation PS2_KEY_NUM_DIV :: u8 where "PS2_KEY_NUM_DIV \<equiv> 102"
abbreviation PS2_KEY_NUM_MUL :: u8 where "PS2_KEY_NUM_MUL \<equiv> 103"
abbreviation PS2_KEY_NUM_SUB :: u8 where "PS2_KEY_NUM_SUB \<equiv> 104"
abbreviation PS2_KEY_NUM_ADD :: u8 where "PS2_KEY_NUM_ADD \<equiv> 105"
abbreviation PS2_KEY_NUM_ENTER :: u8 where "PS2_KEY_NUM_ENTER \<equiv> 106"
abbreviation PS2_KEY_NUM_DOT :: u8 where "PS2_KEY_NUM_DOT \<equiv> 107"
abbreviation PS2_KEY_NUM_0 :: u8 where "PS2_KEY_NUM_0 \<equiv> 108"
abbreviation PS2_KEY_NUM_1 :: u8 where "PS2_KEY_NUM_1 \<equiv> 109"
abbreviation PS2_KEY_NUM_2 :: u8 where "PS2_KEY_NUM_2 \<equiv> 110"
abbreviation PS2_KEY_NUM_3 :: u8 where "PS2_KEY_NUM_3 \<equiv> 111"
abbreviation PS2_KEY_NUM_4 :: u8 where "PS2_KEY_NUM_4 \<equiv> 112"
abbreviation PS2_KEY_NUM_5 :: u8 where "PS2_KEY_NUM_5 \<equiv> 113"
abbreviation PS2_KEY_NUM_6 :: u8 where "PS2_KEY_NUM_6 \<equiv> 114"
abbreviation PS2_KEY_NUM_7 :: u8 where "PS2_KEY_NUM_7 \<equiv> 115"
abbreviation PS2_KEY_NUM_8 :: u8 where "PS2_KEY_NUM_8 \<equiv> 116"
abbreviation PS2_KEY_NUM_9 :: u8 where "PS2_KEY_NUM_9 \<equiv> 117"
abbreviation PS2_KEY_SCROLLLOCK :: u8 where "PS2_KEY_SCROLLLOCK \<equiv> 118"
abbreviation PS2_KEY_PAUSE :: u8 where "PS2_KEY_PAUSE \<equiv> 119"
abbreviation PS2_KEY_PRINT :: u8 where "PS2_KEY_PRINT \<equiv> 120"

abbreviation PS2_MASK_CTRL :: u8 where "PS2_MASK_CTRL \<equiv> 0x01"
abbreviation PS2_MASK_ALT :: u8 where "PS2_MASK_ALT \<equiv> 0x02"
abbreviation PS2_MASK_WIN :: u8 where "PS2_MASK_WIN \<equiv> 0x04"
abbreviation PS2_MASK_SHIFT :: u8 where "PS2_MASK_SHIFT \<equiv> 0x08"
abbreviation PS2_ASCII_SCANCODE_MASK :: u16 where "PS2_ASCII_SCANCODE_MASK \<equiv> 0x8000"

definition designated :: "nat \<Rightarrow> (u8 \<times> u8) list \<Rightarrow> u8 list" where
  "designated n ps = fold (\<lambda>(i, v) xs. xs[unat i := v]) ps (replicate n 0)"

definition scancode :: "u8 list" where
  "scancode = [
     0, PS2_KEY_F9, 0, PS2_KEY_F5, PS2_KEY_F3, PS2_KEY_F1, PS2_KEY_F2, PS2_KEY_F12,
     0, PS2_KEY_F10, PS2_KEY_F8, PS2_KEY_F6, PS2_KEY_F4, PS2_KEY_TAB, PS2_KEY_BACKQUOTE, 0,
     0, PS2_KEY_LALT, PS2_KEY_LSHIFT, 0, PS2_KEY_LCTRL, PS2_KEY_Q, PS2_KEY_1, 0,
     0, 0, PS2_KEY_Z, PS2_KEY_S, PS2_KEY_A, PS2_KEY_W, PS2_KEY_2, 0,
     0, PS2_KEY_C, PS2_KEY_X, PS2_KEY_D, PS2_KEY_E, PS2_KEY_4, PS2_KEY_3, 0,
     0, PS2_KEY_SPACE, PS2_KEY_V, PS2_KEY_F, PS2_KEY_T, PS2_KEY_R, PS2_KEY_5, 0,
     0, PS2_KEY_N, PS2_KEY_B, PS2_KEY_H, PS2_KEY_G, PS2_KEY_Y, PS2_KEY_6, 0,
     0, 0, PS2_KEY_M, PS2_KEY_J, PS2_KEY_U, PS2_KEY_7, PS2_KEY_8, 0,
     0, PS2_KEY_COMMA, PS2_KEY_K, PS2_KEY_I, PS2_KEY_O, PS2_KEY_0, PS2_KEY_9, 0,
     0, PS2_KEY_DOT, PS2_KEY_SLASH, PS2_KEY_L, PS2_KEY_SEMICOLON, PS2_KEY_P, PS2_KEY_DASH, 0,
     0, 0, PS2_KEY_QUOTE, 0, PS2_KEY_LBRACE, PS2_KEY_EQUALS, 0, 0,
     PS2_KEY_CAPSLOCK, PS2_KEY_RSHIFT, PS2_KEY_ENTER, PS2_KEY_RBRACE, 0, 0, 0, 0,
     0, 0, 0, 0, 0, 0, PS2_KEY_BACKSPACE, 0,
     0, PS2_KEY_NUM_1, 0, PS2_KEY_NUM_4, PS2_KEY_NUM_7, 0, 0, 0,
     PS2_KEY_NUM_0, PS2_KEY_NUM_DOT, PS2_KEY_NUM_2, PS2_KEY_NUM_5, PS2_KEY_NUM_6, PS2_KEY_NUM_8, PS2_KEY_ESCAPE, PS2_KEY_NUMLOCK,
     PS2_KEY_F11, PS2_KEY_NUM_ADD, PS2_KEY_NUM_3, PS2_KEY_NUM_SUB, PS2_KEY_NUM_MUL, PS2_KEY_NUM_9, PS2_KEY_SCROLLLOCK, 0]
     @ [0, 0, 0, PS2_KEY_F7] @ replicate 124 0"

definition ext_keys :: "(u8 \<times> u8) list" where
  "ext_keys = [
     (0x11, PS2_KEY_RALT), (0x14, PS2_KEY_RCTRL), (0x1f, PS2_KEY_LWIN), (0x27, PS2_KEY_RWIN),
     (0x2f, PS2_KEY_MENU), (0x4a, PS2_KEY_NUM_DIV), (0x5a, PS2_KEY_NUM_ENTER), (0x69, PS2_KEY_END),
     (0x6b, PS2_KEY_LEFT), (0x6c, PS2_KEY_HOME), (0x70, PS2_KEY_INSERT), (0x71, PS2_KEY_DELETE),
     (0x72, PS2_KEY_DOWN), (0x74, PS2_KEY_RIGHT), (0x75, PS2_KEY_UP), (0x7a, PS2_KEY_PAGEDOWN),
     (0x7d, PS2_KEY_PAGEUP)]"

definition scancode_ext :: "u8 list" where
  "scancode_ext = designated 256 ext_keys"

definition ps2_keymap :: "u8 list" where
  "ps2_keymap = designated 128 [
     (PS2_KEY_A, 0x61), (PS2_KEY_B, 0x62), (PS2_KEY_C, 0x63),
     (PS2_KEY_D, 0x64), (PS2_KEY_E, 0x65), (PS2_KEY_F, 0x66),
     (PS2_KEY_G, 0x67), (PS2_KEY_H, 0x68), (PS2_KEY_I, 0x69),
     (PS2_KEY_J, 0x6a), (PS2_KEY_K, 0x6b), (PS2_KEY_L, 0x6c),
     (PS2_KEY_M, 0x6d), (PS2_KEY_N, 0x6e), (PS2_KEY_O, 0x6f),
     (PS2_KEY_P, 0x70), (PS2_KEY_Q, 0x71), (PS2_KEY_R, 0x72),
     (PS2_KEY_S, 0x73), (PS2_KEY_T, 0x74), (PS2_KEY_U, 0x75),
     (PS2_KEY_V, 0x76), (PS2_KEY_W, 0x77), (PS2_KEY_X, 0x78),
     (PS2_KEY_Y, 0x79), (PS2_KEY_Z, 0x7a), (PS2_KEY_0, 0x30),
     (PS2_KEY_1, 0x31), (PS2_KEY_2, 0x32), (PS2_KEY_3, 0x33),
     (PS2_KEY_4, 0x34), (PS2_KEY_5, 0x35), (PS2_KEY_6, 0x36),
     (PS2_KEY_7, 0x37), (PS2_KEY_8, 0x38), (PS2_KEY_9, 0x39),
     (PS2_KEY_BACKQUOTE, 0x60), (PS2_KEY_DASH, 0x2d), (PS2_KEY_EQUALS, 0x3d),
     (PS2_KEY_LBRACE, 0x5b), (PS2_KEY_RBRACE, 0x5d), (PS2_KEY_SEMICOLON, 0x3b),
     (PS2_KEY_QUOTE, 0x27), (PS2_KEY_BACKSLASH, 0x5c), (PS2_KEY_PIPE, 0x60),
     (PS2_KEY_COMMA, 0x2c), (PS2_KEY_DOT, 0x2e), (PS2_KEY_SLASH, 0x2f),
     (PS2_KEY_SPACE, 0x20), (PS2_KEY_NUM_DIV, 0x2f), (PS2_KEY_NUM_MUL, 0x2a),
     (PS2_KEY_NUM_SUB, 0x2d), (PS2_KEY_NUM_ADD, 0x2b), (PS2_KEY_NUM_DOT, 0x2e),
     (PS2_KEY_NUM_0, 0x30), (PS2_KEY_NUM_1, 0x31), (PS2_KEY_NUM_2, 0x32),
     (PS2_KEY_NUM_3, 0x33), (PS2_KEY_NUM_4, 0x34), (PS2_KEY_NUM_5, 0x35),
     (PS2_KEY_NUM_6, 0x36), (PS2_KEY_NUM_7, 0x37), (PS2_KEY_NUM_8, 0x38),
     (PS2_KEY_NUM_9, 0x39)]"

definition ps2_keymap_shift :: "u8 list" where
  "ps2_keymap_shift = designated 128 [
     (PS2_KEY_A, 0x41), (PS2_KEY_B, 0x42), (PS2_KEY_C, 0x43),
     (PS2_KEY_D, 0x44), (PS2_KEY_E, 0x45), (PS2_KEY_F, 0x46),
     (PS2_KEY_G, 0x47), (PS2_KEY_H, 0x48), (PS2_KEY_I, 0x49),
     (PS2_KEY_J, 0x4a), (PS2_KEY_K, 0x4b), (PS2_KEY_L, 0x4c),
     (PS2_KEY_M, 0x4d), (PS2_KEY_N, 0x4e), (PS2_KEY_O, 0x4f),
     (PS2_KEY_P, 0x50), (PS2_KEY_Q, 0x51), (PS2_KEY_R, 0x52),
     (PS2_KEY_S, 0x53), (PS2_KEY_T, 0x54), (PS2_KEY_U, 0x55),
     (PS2_KEY_V, 0x56), (PS2_KEY_W, 0x57), (PS2_KEY_X, 0x58),
     (PS2_KEY_Y, 0x59), (PS2_KEY_Z, 0x5a), (PS2_KEY_0, 0x29),
     (PS2_KEY_1, 0x21), (PS2_KEY_2, 0x40), (PS2_KEY_3, 0x23),
     (PS2_KEY_4, 0x24), (PS2_KEY_5, 0x25), (PS2_KEY_6, 0x5e),
     (PS2_KEY_7, 0x26), (PS2_KEY_8, 0x2a), (PS2_KEY_9, 0x28),
     (PS2_KEY_BACKQUOTE, 0x7e), (PS2_KEY_DASH, 0x5f), (PS2_KEY_EQUALS, 0x2b),
     (PS2_KEY_LBRACE, 0x7b), (PS2_KEY_RBRACE, 0x7d), (PS2_KEY_SEMICOLON, 0x3a),
     (PS2_KEY_QUOTE, 0x22), (PS2_KEY_BACKSLASH, 0x7c), (PS2_KEY_PIPE, 0x7e),
     (PS2_KEY_COMMA, 0x3c), (PS2_KEY_DOT, 0x3e), (PS2_KEY_SLASH, 0x3f),
     (PS2_KEY_SPACE, 0x20), (PS2_KEY_NUM_DIV, 0x2f), (PS2_KEY_NUM_MUL, 0x2a),
     (PS2_KEY_NUM_SUB, 0x2d), (PS2_KEY_NUM_ADD, 0x2b), (PS2_KEY_NUM_DOT, 0x2e),
     (PS2_KEY_NUM_0, 0x30), (PS2_KEY_NUM_1, 0x31), (PS2_KEY_NUM_2, 0x32),
     (PS2_KEY_NUM_3, 0x33), (PS2_KEY_NUM_4, 0x34), (PS2_KEY_NUM_5, 0x35),
     (PS2_KEY_NUM_6, 0x36), (PS2_KEY_NUM_7, 0x37), (PS2_KEY_NUM_8, 0x38),
     (PS2_KEY_NUM_9, 0x39)]"

subsection \<open>The decoder\<close>

record kbd =
  extended :: bool
  release :: u8
  ps2_modifiers_mask :: u8

text \<open>The modifier bit of a key.\<close>

definition modifier_mask :: "u8 \<Rightarrow> u8" where
  "modifier_mask result =
     (if result = PS2_KEY_RSHIFT \<or> result = PS2_KEY_LSHIFT then PS2_MASK_SHIFT
      else if result = PS2_KEY_LCTRL \<or> result = PS2_KEY_RCTRL then PS2_MASK_CTRL
      else if result = PS2_KEY_LALT \<or> result = PS2_KEY_RALT then PS2_MASK_ALT
      else if result = PS2_KEY_LWIN \<or> result = PS2_KEY_RWIN then PS2_MASK_WIN
      else 0)"

text \<open>The part of \<open>ps2_get_key_event_with_code\<close> that runs when a key code is complete.\<close>

definition key_done :: "u8 \<Rightarrow> kbd \<Rightarrow> u8 \<times> kbd" where
  "key_done result k =
     (let m = modifier_mask result;
          mods = (if release k \<noteq> 0 then ps2_modifiers_mask k AND NOT m
                  else ps2_modifiers_mask k OR m)
      in (if result \<noteq> 0 then result OR release k else result,
          k\<lparr>ps2_modifiers_mask := mods, release := 0, extended := False\<rparr>))"

definition ps2_get_key_event_with_code :: "u8 \<Rightarrow> kbd \<Rightarrow> u8 \<times> kbd" where
  "ps2_get_key_event_with_code code k =
     (if code \<noteq> PS2_READ_EMPTY then
        (if code = PS2_CODE_BAT_PASSED \<or> code = PS2_CODE_BUFFER_OVERRUN then
           (0, k\<lparr>extended := False, release := 0\<rparr>)
         else if code = 0xf0 then (0, k\<lparr>release := 0x80\<rparr>)
         else if code = 0xe0 \<or> code = 0xe1 then (0, k\<lparr>extended := True\<rparr>)
         else if extended k then key_done (scancode_ext ! unat code) k
         else key_done (scancode ! unat code) k)
      else (0, k))"

text \<open>With the port: the state is the hardware and the decoder's variables.\<close>

definition on_port :: "('h, 'a) cmd \<Rightarrow> ('h \<times> kbd, 'a) cmd" where
  "on_port = zoom fst (\<lambda>h t. (h, snd t))"

definition ps2_get_key_event :: "'h ps2_port \<Rightarrow> ('h \<times> kbd, u8) cmd" where
  "ps2_get_key_event D =
     bnd (on_port (ps2_read D)) (\<lambda>code (h, k).
     Some (Inr (fst (ps2_get_key_event_with_code code k), (h, snd (ps2_get_key_event_with_code code k)))))"

partial_function (option) wait_loop :: "'h ps2_port \<Rightarrow> u8 \<Rightarrow> ('h \<times> kbd, u8) cmd" where
  "wait_loop D result s =
     (if result = 0 \<or> result AND PS2_KEY_RELEASE \<noteq> 0 then
        bnd (ps2_get_key_event D) (\<lambda>r. wait_loop D r) s
      else ret result s)"

definition ps2_wait_key_pressed :: "'h ps2_port \<Rightarrow> ('h \<times> kbd, u8) cmd" where
  "ps2_wait_key_pressed D = wait_loop D PS2_KEY_NONE"

text \<open>The translation of an event, given the modifiers; the key maps have 128 elements.\<close>

definition ascii_of_event :: "u8 \<Rightarrow> u8 \<Rightarrow> ('s, u16) cmd" where
  "ascii_of_event mods event =
     (if event = 0 \<or> event AND PS2_KEY_RELEASE \<noteq> 0 then ret 0
      else if mods AND (PS2_MASK_WIN OR PS2_MASK_ALT OR PS2_MASK_CTRL) \<noteq> 0 then
        ret (PS2_ASCII_SCANCODE_MASK OR ucast event)
      else if 128 \<le> unat event then abort Bad_index
      else
        (let key = (if mods AND PS2_MASK_SHIFT \<noteq> 0 then ps2_keymap_shift ! unat event
                    else ps2_keymap ! unat event)
         in if key \<noteq> 0 then ret (ucast key) else ret (PS2_ASCII_SCANCODE_MASK OR ucast event)))"

definition ps2_get_ascii :: "'h ps2_port \<Rightarrow> ('h \<times> kbd, u16) cmd" where
  "ps2_get_ascii D =
     bnd (ps2_get_key_event D) (\<lambda>event.
     bnd (gets (\<lambda>(h, k). ps2_modifiers_mask k)) (\<lambda>mods.
     ascii_of_event mods event))"


subsection \<open>The tables\<close>

lemma nth_fold_update:
  fixes ps :: "(u8 \<times> 'v) list"
  shows "unat i < length xs \<Longrightarrow> fold (\<lambda>(i, v) xs. xs[unat i := v]) ps xs ! unat i =
     (case map_of (rev ps) i of None \<Rightarrow> xs ! unat i | Some v \<Rightarrow> v)"
proof (induction ps rule: rev_induct)
  case (snoc p ps)
  have len: "length (fold (\<lambda>(i, v) xs. xs[unat i := v]) ps xs) = length xs" for xs
    by (induction ps arbitrary: xs) auto
  show ?case
  proof (cases "fst p = i")
    case True
    with snoc.prems show ?thesis by (cases p) (simp add: len)
  next
    case False
    then have "unat (fst p) \<noteq> unat i" by (metis word_unat_eq_iff)
    with False snoc show ?thesis by (cases p) (simp split: option.splits)
  qed
qed simp

text \<open>An element of a table with designators is the last value designated for its index, or 0.\<close>

lemma nth_designated:
  "unat i < n \<Longrightarrow> designated n ps ! unat i = (case map_of (rev ps) i of None \<Rightarrow> 0 | Some v \<Rightarrow> v)"
  by (simp add: designated_def nth_fold_update split: option.split)

lemma designated_all:
  assumes "\<forall>p \<in> set ps. P (fst p) (snd p)" and "P i 0" and "unat i < n"
  shows "P i (designated n ps ! unat i)"
  using assms by (fastforce simp: nth_designated split: option.splits dest!: map_of_SomeD)

text \<open>The codes with a meaning of their own have no key, and key codes leave the release bit free.\<close>

definition control_code :: "u8 \<Rightarrow> bool" where
  "control_code c \<longleftrightarrow> c \<in> {0xff, 0xaa, 0x00, 0xf0, 0xe0, 0xe1}"

definition plain_key :: "u8 \<Rightarrow> u8 \<Rightarrow> bool" where
  "plain_key c key \<longleftrightarrow> key = 0 \<or> \<not> control_code c \<and> key < 0x80"

lemma scancode_rows: "tabulates plain_key 0 scancode"
  by (simp add: scancode_def plain_key_def control_code_def tabulates_replicate)

lemma length_scancode: "length scancode = 256"
  by (simp add: scancode_def)

lemma bit_7_iff: "bit (b :: u8) 7 \<longleftrightarrow> 128 \<le> unat b"
proof -
  have "bit b 7 \<longleftrightarrow> bit (unat b) 7"
    by (simp add: bit_unsigned_iff)
  also have "\<dots> \<longleftrightarrow> odd (unat b div 128)"
    by (simp add: bit_iff_odd)
  also have "\<dots> \<longleftrightarrow> 128 \<le> unat b"
  proof (cases "128 \<le> unat b")
    case True
    then have "unat b div 128 = 1" using unat_u8 [of b] by (intro div_nat_eqI) simp_all
    with True show ?thesis by simp
  qed simp
  finally show ?thesis .
qed

lemma and_0x80_iff: "(b :: u8) AND 0x80 = 0 \<longleftrightarrow> unat b < 128"
proof -
  have "b AND 0x80 = 0 \<longleftrightarrow> \<not> bit b 7"
  proof
    assume "b AND 0x80 = 0"
    then have "\<not> bit (b AND 0x80) 7" by simp
    then show "\<not> bit b 7" by (simp add: bit_and_iff)
  next
    assume b: "\<not> bit b 7"
    show "b AND 0x80 = 0"
    proof (rule bit_word_eqI)
      fix n assume "n < LENGTH(8)"
      then show "bit (b AND 0x80) n = bit 0 n"
        using b by (cases "n = 7") (auto simp: bit_and_iff bit_exp_iff [of 7, simplified])
    qed
  qed
  then show ?thesis by (simp add: bit_7_iff not_le)
qed

text \<open>What the decoder relies on in a table of key codes; it has two of them.\<close>

locale key_table =
  fixes keys :: "u8 list"
  assumes row: "plain_key c (keys ! unat c)"
begin

lemma key_not_control: "keys ! unat c \<noteq> 0 \<Longrightarrow> \<not> control_code c \<and> keys ! unat c < 0x80"
  using row [of c] by (simp add: plain_key_def)

lemma key_and_0x80: "keys ! unat (c :: u8) AND 0x80 = 0"
  using row [of c] by (auto simp: plain_key_def and_0x80_iff word_less_nat_alt)

end

interpretation plain: key_table scancode
  by unfold_locales (rule tabulates_byte [OF scancode_rows length_scancode])

lemma scancode_ext_plain: "plain_key c (scancode_ext ! unat c)"
  unfolding scancode_ext_def
  by (rule designated_all) (simp_all add: ext_keys_def plain_key_def control_code_def unat_u8)

interpretation extd: key_table scancode_ext
  by unfold_locales (rule scancode_ext_plain)

subsection \<open>Keys and their scan codes\<close>

text \<open>
  What the user does: a key, by its code and whether it is an extended one, goes down or up.
  The keyboard sends the prefix of an extended key, the prefix of a release, and the code.
\<close>

record key_action =
  ext :: bool
  code :: u8
  down :: bool

definition key_of :: "key_action \<Rightarrow> u8" where
  "key_of a = (if ext a then scancode_ext ! unat (code a) else scancode ! unat (code a))"

definition sends :: "key_action \<Rightarrow> u8 list" where
  "sends a = (if ext a then [0xe0] else []) @ (if down a then [] else [0xf0]) @ [code a]"

definition event_of :: "key_action \<Rightarrow> u8" where
  "event_of a = (if down a then key_of a else key_of a OR PS2_KEY_RELEASE)"

text \<open>
  The modifier bit of a key, by what the keyboard sends for it: shift (0x08) is 0x12 and 0x59, control
  (0x01) is 0x14 on both sides, alt (0x02) is 0x11 on both sides, and the two keys of the window system
  (0x04) are extended 0x1f and 0x27. This table names neither the key tables nor the masks of the code.
\<close>

definition modifier_of :: "bool \<Rightarrow> u8 \<Rightarrow> u8" where
  "modifier_of x c = (case map_of [((False, 0x12), 0x08), ((False, 0x59), 0x08), ((False, 0x14), 0x01), ((True, 0x14), 0x01),
     ((False, 0x11), 0x02), ((True, 0x11), 0x02), ((True, 0x1f), 0x04), ((True, 0x27), 0x04)] (x, c) of
     None \<Rightarrow> 0 | Some b \<Rightarrow> b)"

definition hold :: "key_action \<Rightarrow> u8 \<Rightarrow> u8" where
  "hold a mods = (let b = modifier_of (ext a) (code a) in if down a then mods OR b else mods AND NOT b)"

text \<open>The events reported while the codes arrive, one by one.\<close>

fun decode :: "u8 list \<Rightarrow> kbd \<Rightarrow> u8 list \<times> kbd" where
  "decode [] k = ([], k)"
| "decode (c # cs) k =
     (let (e, k') = ps2_get_key_event_with_code c k; (es, k'') = decode cs k'
      in (if e = 0 then es else e # es, k''))"

definition idle :: "u8 \<Rightarrow> kbd" where
  "idle mods = \<lparr>extended = False, release = 0, ps2_modifiers_mask = mods\<rparr>"

lemma key_plain: "key_of a \<noteq> 0 \<Longrightarrow> \<not> control_code (code a) \<and> key_of a < 0x80"
  using plain.key_not_control [of "code a"] extd.key_not_control [of "code a"]
  by (simp add: key_of_def split: if_splits)

lemma modifier_rows: "tabulates (\<lambda>c key. key = 0 \<or> modifier_mask key = modifier_of False c) 0 scancode"
  by (simp add: scancode_def modifier_mask_def modifier_of_def tabulates_replicate)

lemma modifier_of_plain: "scancode ! unat c \<noteq> 0 \<Longrightarrow> modifier_mask (scancode ! unat c) = modifier_of False c"
  using tabulates_byte [OF modifier_rows length_scancode, of c] by simp

lemma modifier_of_extended: "scancode_ext ! unat c \<noteq> 0 \<Longrightarrow> modifier_mask (scancode_ext ! unat c) = modifier_of True c"
  using designated_all [where P = "\<lambda>c key. key = 0 \<or> modifier_mask key = modifier_of True c" and ps = ext_keys
      and n = 256 and i = c, folded scancode_ext_def]
  by (simp add: ext_keys_def modifier_mask_def modifier_of_def unat_u8)

lemma decode_append: "decode (xs @ ys) k =
    (fst (decode xs k) @ fst (decode ys (snd (decode xs k))), snd (decode ys (snd (decode xs k))))"
  by (induction xs arbitrary: k) (auto simp: Let_def split: prod.splits)

lemma decode_sends:
  assumes "key_of a \<noteq> 0"
  shows "decode (sends a) (idle mods) = ([event_of a], idle (hold a mods))"
proof -
  have c: "\<not> control_code (code a)" using key_plain [OF assms] by simp
  have "key_of a OR 0x80 \<noteq> 0"
    using assms by (metis or_eq_0_iff)
  with c assms show ?thesis
    by (cases a)
      (auto simp: sends_def idle_def control_code_def ps2_get_key_event_with_code_def key_done_def
        key_of_def event_of_def hold_def modifier_of_plain modifier_of_extended Let_def split: if_splits)
qed

lemma decode_keys_all:
  "(\<And>a. a \<in> set as \<Longrightarrow> key_of a \<noteq> 0) \<Longrightarrow>
   decode (concat (map sends as)) (idle mods) = (map event_of as, idle (fold hold as mods))"
  by (induction as arbitrary: mods) (simp_all add: decode_append decode_sends)

text \<open>
  C26: The decoder inverts the keyboard's encoding. From rest, the codes of any sequence of
  presses and releases of known keys are reported as exactly these presses and releases, in
  order; the modifier mask follows them, and the decoder is at rest again.
\<close>

theorem decode_keys:
  assumes "\<forall>a \<in> set as. key_of a \<noteq> 0"
  shows "decode (concat (map sends as)) (idle mods) = (map event_of as, idle (fold hold as mods))"
  using assms by (simp add: decode_keys_all)

definition shifted_a :: "key_action list" where
  "shifted_a = [\<lparr>ext = False, code = 0x12, down = True\<rparr>, \<lparr>ext = False, code = 0x1c, down = True\<rparr>,
     \<lparr>ext = False, code = 0x1c, down = False\<rparr>, \<lparr>ext = True, code = 0x75, down = True\<rparr>,
     \<lparr>ext = False, code = 0x12, down = False\<rparr>]"

lemma scancode_examples: "scancode ! 0x12 = PS2_KEY_LSHIFT" "scancode ! 0x1c = PS2_KEY_A"
    "scancode_ext ! 0x75 = PS2_KEY_UP"
  using nth_designated [of "0x75" 256] by (simp_all add: scancode_def scancode_ext_def ext_keys_def)

theorem decode_keys_witness:
  "decode [0x12, 0x1c, 0xf0, 0x1c, 0xe0, 0x75, 0xf0, 0x12] (idle 0) =
     ([PS2_KEY_LSHIFT, PS2_KEY_A, PS2_KEY_A + 0x80, PS2_KEY_UP, PS2_KEY_LSHIFT + 0x80], idle 0)"
  using decode_keys [of shifted_a 0]
  by (simp add: shifted_a_def sends_def key_of_def event_of_def hold_def modifier_of_def scancode_examples)

text \<open>The decoder's variables.\<close>

definition kbd_ok :: "kbd \<Rightarrow> bool" where
  "kbd_ok k \<longleftrightarrow> ps2_modifiers_mask k AND NOT 0x0f = 0 \<and> (release k = 0 \<or> release k = 0x80)"

lemma modifier_mask_bits: "modifier_mask key AND NOT 0x0f = 0"
  by (simp add: modifier_mask_def)

lemma low_bits_or: "a AND m = 0 \<Longrightarrow> b AND m = 0 \<Longrightarrow> (a OR b) AND m = (0 :: u8)"
  by (simp add: bit.conj_disj_distrib2)

lemma low_bits_and: "a AND m = 0 \<Longrightarrow> (a AND b) AND m = (0 :: u8)"
  by (metis and.assoc and.commute bit.conj_zero_left)

lemma key_done_ok:
  assumes "kbd_ok k" and "key AND 0x80 = 0" and "key_done key k = (e, k')"
  shows "kbd_ok k' \<and> (e AND PS2_KEY_RELEASE \<noteq> 0 \<longrightarrow> release k = 0x80 \<and> release k' = 0)"
  using assms low_bits_or [OF _ modifier_mask_bits, of "ps2_modifiers_mask k" key]
  by (auto simp: key_done_def kbd_ok_def Let_def low_bits_and split: if_splits)

text \<open>
  Whatever bytes arrive, the modifier mask stays within its four bits, the release flag is
  0 or 0x80, and an event has the release bit only after a release prefix.
\<close>

theorem decoder_invariant:
  assumes "kbd_ok k" and "ps2_get_key_event_with_code c k = (e, k')"
  shows "kbd_ok k' \<and> (e AND PS2_KEY_RELEASE \<noteq> 0 \<longrightarrow> release k = 0x80 \<and> release k' = 0)"
  using assms key_done_ok [OF assms(1) plain.key_and_0x80, of c e k'] key_done_ok [OF assms(1) extd.key_and_0x80, of c e k']
  by (auto simp: ps2_get_key_event_with_code_def kbd_ok_def split: if_splits)

theorem decoder_invariant_witness:
  "kbd_ok (snd (ps2_get_key_event_with_code 0x12 (idle 0x0f)))"
  using decoder_invariant [of "idle 0x0f" "0x12" "fst (ps2_get_key_event_with_code 0x12 (idle 0x0f))"]
  by (simp add: idle_def kbd_ok_def)

lemma keymap_7bit:
  fixes i :: u8
  assumes "unat i < 128"
  shows "ps2_keymap ! unat i < 0x80" and "ps2_keymap_shift ! unat i < 0x80"
proof -
  note table = designated_all [where P = "\<lambda>_ v. v < 0x80", OF _ _ assms]
  show "ps2_keymap ! unat i < 0x80"
    unfolding ps2_keymap_def by (rule table) simp_all
  show "ps2_keymap_shift ! unat i < 0x80"
    unfolding ps2_keymap_shift_def by (rule table) simp_all
qed

text \<open>
  The translation to characters is total: for every event and every modifier mask the key
  maps are read inside their 128 elements. It gives 0 exactly when nothing is pressed, and
  otherwise a 7-bit character or the key code marked as such.
\<close>

theorem ascii_total:
  "\<exists>r. ascii_of_event mods event s = Some (Inr (r, s)) \<and>
     (r = 0 \<longleftrightarrow> event = 0 \<or> event AND PS2_KEY_RELEASE \<noteq> 0) \<and>
     (r < 0x80 \<or> r = PS2_ASCII_SCANCODE_MASK OR ucast event)"
proof (cases "event AND 0x80 = 0")
  case True
  then have e: "unat event < 128" by (simp add: and_0x80_iff)
  have c: "ucast (ps2_keymap ! unat event) < (0x80 :: u16)" "ucast (ps2_keymap_shift ! unat event) < (0x80 :: u16)"
    using keymap_7bit [OF e] by (simp_all add: word_less_nat_alt unat_ucast_mod)
  have "PS2_ASCII_SCANCODE_MASK OR ucast event \<noteq> 0" by (simp add: or_eq_0_iff)
  moreover have "ucast key = (0 :: u16) \<longleftrightarrow> key = 0" for key :: u8 

  proof -
    have "unat (ucast key :: u16) = unat key" using unat_u8 [of key] by (simp add: unat_ucast_mod)
    then show ?thesis by (metis unsigned_eq_0_iff)
  qed
  ultimately show ?thesis using True e c by (simp add: ascii_of_event_def Let_def)
qed (simp add: ascii_of_event_def)

theorem ascii_total_witness:
  "\<exists>r. ascii_of_event PS2_MASK_SHIFT 0x41 () = Some (Inr (r, ())) \<and> r \<noteq> 0 \<and> (r < 0x80 \<or> r = 0x8041)"
  using ascii_total [of PS2_MASK_SHIFT "0x41" "()"] by auto

subsection \<open>With the port\<close>

text \<open>
  A port that delivers bytes: as often as the status is read with data waiting, it announces a
  valid byte, and the store that acknowledges it brings the next one.
\<close>

fun delivers :: "'h ps2_port \<Rightarrow> 'h \<Rightarrow> u8 list \<Rightarrow> bool" where
  "delivers D h [] = True"
| "delivers D h (c # cs) =
     (let (st, h1) = rd_status D h; (v, h2) = rd_data D h1
      in st AND PS2_STATUS_HAS_DATA \<noteq> 0 \<and> st AND PS2_STATUS_RECV_VALID \<noteq> 0 \<and> v = c \<and>
         delivers D (wr_status D 0 h2) cs)"

lemma delivers_read:
  "delivers D h (c # cs) \<Longrightarrow> \<exists>h'. ps2_read D h = Some (Inr (c, h')) \<and> delivers D h' cs"
  by (auto simp: ps2_read_def get_status_def get_data_def put_status_def bnd_def split: prod.splits)

lemma delivers_event:
  assumes "delivers D h (c # cs)"
  obtains h' where "ps2_get_key_event D (h, k) =
      Some (Inr (fst (ps2_get_key_event_with_code c k), h', snd (ps2_get_key_event_with_code c k)))"
    and "delivers D h' cs"
proof -
  obtain h' where h': "ps2_read D h = Some (Inr (c, h'))" "delivers D h' cs"
    using delivers_read [OF assms] by blast
  have "on_port (ps2_read D) (h, k) = Some (Inr (c, (h', k)))"
    using h'(1) by (simp add: on_port_def)
  with h'(2) that show ?thesis by (simp add: ps2_get_key_event_def)
qed

definition waiting :: "u8 \<Rightarrow> bool" where
  "waiting r \<longleftrightarrow> r = 0 \<or> r AND PS2_KEY_RELEASE \<noteq> 0"

lemma wait_loop_decode:
  assumes "delivers D h (cs @ [c])" and "waiting r"
    and "decode cs k = (es, k1)" and "\<forall>e \<in> set es. waiting e"
    and "ps2_get_key_event_with_code c k1 = (e, k2)" and "\<not> waiting e"
  shows "\<exists>h'. wait_loop D r (h, k) = Some (Inr (e, (h', k2)))"
  using assms
proof (induction cs arbitrary: h k r es)
  case Nil
  then obtain h' where "ps2_get_key_event D (h, k) = Some (Inr (e, (h', k2)))"
    using delivers_event [of D h c "[]" k] by auto
  moreover from Nil have "wait_loop D e (h', k2) = Some (Inr (e, (h', k2)))"
    by (subst wait_loop.simps) (simp add: waiting_def)
  ultimately show ?case using Nil.prems(2)
    by (subst wait_loop.simps) (simp add: waiting_def)
next
  case (Cons b cs)
  obtain e0 k0 where k0: "ps2_get_key_event_with_code b k = (e0, k0)" by force
  obtain es' where es': "decode cs k0 = (es', k1)" "es = (if e0 = 0 then es' else e0 # es')"
    using Cons.prems(3) k0 by (auto simp: Let_def split: prod.splits)
  obtain h' where h': "ps2_get_key_event D (h, k) = Some (Inr (e0, (h', k0)))" "delivers D h' (cs @ [c])"
    using delivers_event [of D h b "cs @ [c]" k] Cons.prems(1) k0 by auto
  have "waiting e0" and "\<forall>e \<in> set es'. waiting e"
    using es'(2) Cons.prems(4) by (auto simp: waiting_def split: if_splits)
  with Cons.IH [OF h'(2) _ es'(1) _ Cons.prems(5,6)] obtain h'' where
    "wait_loop D e0 (h', k0) = Some (Inr (e, (h'', k2)))" by blast
  then show ?case using h'(1) Cons.prems(2)
    by (subst wait_loop.simps) (simp add: waiting_def)
qed

lemma release_bit: "(x OR 0x80) AND 0x80 \<noteq> (0 :: u8)"
  by (simp add: bit.conj_disj_distrib2 or_eq_0_iff)

text \<open>
  \<open>ps2_wait_key_pressed\<close> returns as soon as the keyboard delivers the codes of a press: it
  skips the releases before it and gives the key pressed.
\<close>

theorem wait_key_pressed_returns:
  assumes "delivers D h (concat (map sends rs) @ sends a)"
    and "\<forall>b \<in> set rs. \<not> down b \<and> key_of b \<noteq> 0" and "down a" and "key_of a \<noteq> 0"
  shows "\<exists>h'. ps2_wait_key_pressed D (h, idle mods) =
    Some (Inr (key_of a, (h', idle (fold hold (rs @ [a]) mods))))"
proof -
  let ?m = "fold hold rs mods"
  have key: "\<not> waiting (key_of a)"
    using key_plain [OF assms(4)] assms(4) by (simp add: waiting_def and_0x80_iff word_less_nat_alt)
  obtain xs where xs: "sends a = xs @ [code a]" by (auto simp: sends_def)
  obtain k1 where k1: "decode xs (idle ?m) = ([], k1)"
    and step: "ps2_get_key_event_with_code (code a) k1 = (key_of a, idle (hold a ?m))"
  proof -
    have nil: "fst (decode xs (idle ?m)) = []"
      using xs assms(3) by (auto simp: sends_def ps2_get_key_event_with_code_def Let_def split: if_splits)
    define k1 where "k1 = snd (decode xs (idle ?m))"
    obtain e k2 where e: "ps2_get_key_event_with_code (code a) k1 = (e, k2)" by force
    have "decode (sends a) (idle ?m) = ([key_of a], idle (hold a ?m))"
      using decode_sends [OF assms(4)] assms(3) by (simp add: event_of_def)
    then have "(if e = 0 then [] else [e]) = [key_of a]" and "k2 = idle (hold a ?m)"
      using nil e by (auto simp: xs decode_append Let_def k1_def)
    then have "e = key_of a" by (simp split: if_splits)
    with nil e \<open>k2 = _\<close> show ?thesis
      using that [of k1] by (simp add: k1_def prod_eq_iff)
  qed
  have rel: "decode (concat (map sends rs)) (idle mods) = (map event_of rs, idle ?m)"
    using assms(2) by (intro decode_keys_all) auto
  have "decode (concat (map sends rs) @ xs) (idle mods) = (map event_of rs, k1)"
    by (simp add: decode_append rel k1)
  moreover have "\<forall>e \<in> set (map event_of rs). waiting e"
    using assms(2) by (auto simp: waiting_def event_of_def release_bit)
  ultimately have "\<exists>h'. wait_loop D 0 (h, idle mods) = Some (Inr (key_of a, (h', idle (hold a ?m))))"
    using wait_loop_decode [OF _ _ _ _ step key, of D h "concat (map sends rs) @ xs" 0 "idle mods"] assms(1) xs
    by (simp add: waiting_def)
  then show ?thesis by (simp add: ps2_wait_key_pressed_def)
qed

text \<open>A port whose hardware state is the queue of the bytes to come.\<close>

definition queue_port :: "u8 list ps2_port" where
  "queue_port = \<lparr>rd_status = (\<lambda>h. (if h = [] then 0 else 3, h)),
     rd_data = (\<lambda>h. (hd h, h)), wr_status = (\<lambda>v h. tl h), wr_data = (\<lambda>v h. h)\<rparr>"

lemma queue_delivers: "delivers queue_port cs cs"
  by (induction cs) (simp_all add: queue_port_def)

theorem wait_key_pressed_returns_witness:
  "\<exists>h'. ps2_wait_key_pressed queue_port ([0xf0, 0x12, 0x1c], idle PS2_MASK_SHIFT) =
    Some (Inr (PS2_KEY_A, (h', idle 0)))"
  using wait_key_pressed_returns [OF queue_delivers, of "[\<lparr>ext = False, code = 0x12, down = False\<rparr>]"
      "\<lparr>ext = False, code = 0x1c, down = True\<rparr>" PS2_MASK_SHIFT]
  by (simp add: sends_def key_of_def hold_def modifier_of_def scancode_examples)

subsection \<open>One key, one code\<close>

lemma distinct_filter_nth:
  assumes "distinct (filter P xs)" and "i < length xs" and "j < length xs" and "xs ! i = xs ! j" and "P (xs ! i)"
  shows "i = j"
proof (rule ccontr)
  have less: False if "a < b" "b < length xs" "xs ! a = xs ! b" "P (xs ! a)" for a b
  proof -
    have "xs = take a xs @ xs ! a # drop (Suc a) xs"
      using that by (intro id_take_nth_drop) simp
    then have "filter P xs = filter P (take a xs) @ xs ! a # filter P (drop (Suc a) xs)"
      using that(4) by (metis filter.simps(2) filter_append)
    then have "distinct (xs ! a # filter P (drop (Suc a) xs))"
      using assms(1) by (metis distinct_append)
    then have "xs ! a \<notin> set (drop (Suc a) xs)"
      using that(4) by simp
    moreover have "xs ! b \<in> set (drop (Suc a) xs)"
      using that by (auto simp: in_set_conv_nth intro!: exI [of _ "b - Suc a"])
    ultimately show False using that(3) by simp
  qed
  assume "i \<noteq> j"
  then show False using less [of i j] less [of j i] assms by (metis linorder_neqE_nat)
qed

lemma scancode_ext_member: "scancode_ext ! unat c \<noteq> 0 \<Longrightarrow> (c, scancode_ext ! unat c) \<in> set ext_keys"
  by (auto simp: scancode_ext_def nth_designated unat_u8 split: option.splits dest: map_of_SomeD)

lemma keys_listed_once: "distinct (filter (\<lambda>key. key \<noteq> 0) scancode @ map snd ext_keys)"
  by (simp add: scancode_def ext_keys_def)

text \<open>
  No two scan codes report the same key: a key code determines the scan code, and whether
  it has the prefix of the extended keys.
\<close>

theorem keys_distinct:
  assumes "key_of a = key_of b" and "key_of a \<noteq> 0"
  shows "ext a = ext b \<and> code a = code b"
proof -
  let ?plain = "filter (\<lambda>key. key \<noteq> 0) scancode"
  have plain: "key_of c \<in> set ?plain" if "\<not> ext c" "key_of c \<noteq> 0" for c
    using that unat_u8 [of "code c"] by (simp add: key_of_def length_scancode)
  have ext: "(code c, key_of c) \<in> set ext_keys" if "ext c" "key_of c \<noteq> 0" for c
    using that scancode_ext_member [of "code c"] by (simp add: key_of_def)
  have apart: "k \<notin> set ?plain" if "(i, k) \<in> set ext_keys" for i k
  proof -
    have "k \<in> set (map snd ext_keys)" using that by force
    then show ?thesis using keys_listed_once unfolding distinct_append by blast
  qed
  have same: "ext a = ext b"
    using plain [of a] plain [of b] apart [OF ext [of a]] apart [OF ext [of b]] assms by (cases "ext a"; cases "ext b") simp_all
  show ?thesis
  proof (cases "ext a")
    case True
    have "inj_on snd (set ext_keys)"
      using keys_listed_once by (simp add: distinct_map)
    from inj_onD [OF this, of "(code a, key_of a)" "(code b, key_of b)"]
    show ?thesis using ext [of a] ext [of b] True same assms by simp
  next
    case False
    with same assms distinct_filter_nth [of "\<lambda>key. key \<noteq> 0" scancode "unat (code a)" "unat (code b)"]
    have "unat (code a) = unat (code b)"
      using keys_listed_once unat_u8 by (simp add: key_of_def length_scancode)
    then show ?thesis using same by (metis word_unat_eq_iff)
  qed
qed

theorem keys_distinct_witness:
  "ext \<lparr>ext = True, code = 0x75, down = True\<rparr> = ext \<lparr>ext = True, code = 0x75, down = False\<rparr>"
  using keys_distinct [of "\<lparr>ext = True, code = 0x75, down = True\<rparr>" "\<lparr>ext = True, code = 0x75, down = False\<rparr>"]
  by (simp add: key_of_def scancode_examples)

end

