(* ===== verification/Crc.thy ===== *)
theory Crc
  imports Prelude
begin

section \<open>The frame check sequence (lib/crc.asm)\<close>

text \<open>
  The library's CRC-32 works byte by byte on four tables of 256 bytes, one for each byte of
  the 32-bit remainder. The locale \<open>crc_tables\<close> states what makes four tables right: row \<open>i\<close> is
  the remainder of eight steps of the bit-serial CRC from \<open>i\<close>. From that contract the routines
  are proved equal to the bit-serial CRC of the polynomial 0xEDB88320; the interpretation
  discharges it for the tables of the source.
\<close>

subsection \<open>The tables\<close>

definition crc_table_0 :: "u8 list" where
  "crc_table_0 = [
     0x00, 0x96, 0x2c, 0xba, 0x19, 0x8f, 0x35, 0xa3, 0x32, 0xa4, 0x1e, 0x88, 0x2b, 0xbd, 0x07, 0x91,
     0x64, 0xf2, 0x48, 0xde, 0x7d, 0xeb, 0x51, 0xc7, 0x56, 0xc0, 0x7a, 0xec, 0x4f, 0xd9, 0x63, 0xf5,
     0xc8, 0x5e, 0xe4, 0x72, 0xd1, 0x47, 0xfd, 0x6b, 0xfa, 0x6c, 0xd6, 0x40, 0xe3, 0x75, 0xcf, 0x59,
     0xac, 0x3a, 0x80, 0x16, 0xb5, 0x23, 0x99, 0x0f, 0x9e, 0x08, 0xb2, 0x24, 0x87, 0x11, 0xab, 0x3d,
     0x90, 0x06, 0xbc, 0x2a, 0x89, 0x1f, 0xa5, 0x33, 0xa2, 0x34, 0x8e, 0x18, 0xbb, 0x2d, 0x97, 0x01,
     0xf4, 0x62, 0xd8, 0x4e, 0xed, 0x7b, 0xc1, 0x57, 0xc6, 0x50, 0xea, 0x7c, 0xdf, 0x49, 0xf3, 0x65,
     0x58, 0xce, 0x74, 0xe2, 0x41, 0xd7, 0x6d, 0xfb, 0x6a, 0xfc, 0x46, 0xd0, 0x73, 0xe5, 0x5f, 0xc9,
     0x3c, 0xaa, 0x10, 0x86, 0x25, 0xb3, 0x09, 0x9f, 0x0e, 0x98, 0x22, 0xb4, 0x17, 0x81, 0x3b, 0xad,
     0x20, 0xb6, 0x0c, 0x9a, 0x39, 0xaf, 0x15, 0x83, 0x12, 0x84, 0x3e, 0xa8, 0x0b, 0x9d, 0x27, 0xb1,
     0x44, 0xd2, 0x68, 0xfe, 0x5d, 0xcb, 0x71, 0xe7, 0x76, 0xe0, 0x5a, 0xcc, 0x6f, 0xf9, 0x43, 0xd5,
     0xe8, 0x7e, 0xc4, 0x52, 0xf1, 0x67, 0xdd, 0x4b, 0xda, 0x4c, 0xf6, 0x60, 0xc3, 0x55, 0xef, 0x79,
     0x8c, 0x1a, 0xa0, 0x36, 0x95, 0x03, 0xb9, 0x2f, 0xbe, 0x28, 0x92, 0x04, 0xa7, 0x31, 0x8b, 0x1d,
     0xb0, 0x26, 0x9c, 0x0a, 0xa9, 0x3f, 0x85, 0x13, 0x82, 0x14, 0xae, 0x38, 0x9b, 0x0d, 0xb7, 0x21,
     0xd4, 0x42, 0xf8, 0x6e, 0xcd, 0x5b, 0xe1, 0x77, 0xe6, 0x70, 0xca, 0x5c, 0xff, 0x69, 0xd3, 0x45,
     0x78, 0xee, 0x54, 0xc2, 0x61, 0xf7, 0x4d, 0xdb, 0x4a, 0xdc, 0x66, 0xf0, 0x53, 0xc5, 0x7f, 0xe9,
     0x1c, 0x8a, 0x30, 0xa6, 0x05, 0x93, 0x29, 0xbf, 0x2e, 0xb8, 0x02, 0x94, 0x37, 0xa1, 0x1b, 0x8d]"

definition crc_table_1 :: "u8 list" where
  "crc_table_1 = [
     0x00, 0x30, 0x61, 0x51, 0xc4, 0xf4, 0xa5, 0x95, 0x88, 0xb8, 0xe9, 0xd9, 0x4c, 0x7c, 0x2d, 0x1d,
     0x10, 0x20, 0x71, 0x41, 0xd4, 0xe4, 0xb5, 0x85, 0x98, 0xa8, 0xf9, 0xc9, 0x5c, 0x6c, 0x3d, 0x0d,
     0x20, 0x10, 0x41, 0x71, 0xe4, 0xd4, 0x85, 0xb5, 0xa8, 0x98, 0xc9, 0xf9, 0x6c, 0x5c, 0x0d, 0x3d,
     0x30, 0x00, 0x51, 0x61, 0xf4, 0xc4, 0x95, 0xa5, 0xb8, 0x88, 0xd9, 0xe9, 0x7c, 0x4c, 0x1d, 0x2d,
     0x41, 0x71, 0x20, 0x10, 0x85, 0xb5, 0xe4, 0xd4, 0xc9, 0xf9, 0xa8, 0x98, 0x0d, 0x3d, 0x6c, 0x5c,
     0x51, 0x61, 0x30, 0x00, 0x95, 0xa5, 0xf4, 0xc4, 0xd9, 0xe9, 0xb8, 0x88, 0x1d, 0x2d, 0x7c, 0x4c,
     0x61, 0x51, 0x00, 0x30, 0xa5, 0x95, 0xc4, 0xf4, 0xe9, 0xd9, 0x88, 0xb8, 0x2d, 0x1d, 0x4c, 0x7c,
     0x71, 0x41, 0x10, 0x20, 0xb5, 0x85, 0xd4, 0xe4, 0xf9, 0xc9, 0x98, 0xa8, 0x3d, 0x0d, 0x5c, 0x6c,
     0x83, 0xb3, 0xe2, 0xd2, 0x47, 0x77, 0x26, 0x16, 0x0b, 0x3b, 0x6a, 0x5a, 0xcf, 0xff, 0xae, 0x9e,
     0x93, 0xa3, 0xf2, 0xc2, 0x57, 0x67, 0x36, 0x06, 0x1b, 0x2b, 0x7a, 0x4a, 0xdf, 0xef, 0xbe, 0x8e,
     0xa3, 0x93, 0xc2, 0xf2, 0x67, 0x57, 0x06, 0x36, 0x2b, 0x1b, 0x4a, 0x7a, 0xef, 0xdf, 0x8e, 0xbe,
     0xb3, 0x83, 0xd2, 0xe2, 0x77, 0x47, 0x16, 0x26, 0x3b, 0x0b, 0x5a, 0x6a, 0xff, 0xcf, 0x9e, 0xae,
     0xc2, 0xf2, 0xa3, 0x93, 0x06, 0x36, 0x67, 0x57, 0x4a, 0x7a, 0x2b, 0x1b, 0x8e, 0xbe, 0xef, 0xdf,
     0xd2, 0xe2, 0xb3, 0x83, 0x16, 0x26, 0x77, 0x47, 0x5a, 0x6a, 0x3b, 0x0b, 0x9e, 0xae, 0xff, 0xcf,
     0xe2, 0xd2, 0x83, 0xb3, 0x26, 0x16, 0x47, 0x77, 0x6a, 0x5a, 0x0b, 0x3b, 0xae, 0x9e, 0xcf, 0xff,
     0xf2, 0xc2, 0x93, 0xa3, 0x36, 0x06, 0x57, 0x67, 0x7a, 0x4a, 0x1b, 0x2b, 0xbe, 0x8e, 0xdf, 0xef]"

definition crc_table_2 :: "u8 list" where
  "crc_table_2 = [
     0x00, 0x07, 0x0e, 0x09, 0x6d, 0x6a, 0x63, 0x64, 0xdb, 0xdc, 0xd5, 0xd2, 0xb6, 0xb1, 0xb8, 0xbf,
     0xb7, 0xb0, 0xb9, 0xbe, 0xda, 0xdd, 0xd4, 0xd3, 0x6c, 0x6b, 0x62, 0x65, 0x01, 0x06, 0x0f, 0x08,
     0x6e, 0x69, 0x60, 0x67, 0x03, 0x04, 0x0d, 0x0a, 0xb5, 0xb2, 0xbb, 0xbc, 0xd8, 0xdf, 0xd6, 0xd1,
     0xd9, 0xde, 0xd7, 0xd0, 0xb4, 0xb3, 0xba, 0xbd, 0x02, 0x05, 0x0c, 0x0b, 0x6f, 0x68, 0x61, 0x66,
     0xdc, 0xdb, 0xd2, 0xd5, 0xb1, 0xb6, 0xbf, 0xb8, 0x07, 0x00, 0x09, 0x0e, 0x6a, 0x6d, 0x64, 0x63,
     0x6b, 0x6c, 0x65, 0x62, 0x06, 0x01, 0x08, 0x0f, 0xb0, 0xb7, 0xbe, 0xb9, 0xdd, 0xda, 0xd3, 0xd4,
     0xb2, 0xb5, 0xbc, 0xbb, 0xdf, 0xd8, 0xd1, 0xd6, 0x69, 0x6e, 0x67, 0x60, 0x04, 0x03, 0x0a, 0x0d,
     0x05, 0x02, 0x0b, 0x0c, 0x68, 0x6f, 0x66, 0x61, 0xde, 0xd9, 0xd0, 0xd7, 0xb3, 0xb4, 0xbd, 0xba,
     0xb8, 0xbf, 0xb6, 0xb1, 0xd5, 0xd2, 0xdb, 0xdc, 0x63, 0x64, 0x6d, 0x6a, 0x0e, 0x09, 0x00, 0x07,
     0x0f, 0x08, 0x01, 0x06, 0x62, 0x65, 0x6c, 0x6b, 0xd4, 0xd3, 0xda, 0xdd, 0xb9, 0xbe, 0xb7, 0xb0,
     0xd6, 0xd1, 0xd8, 0xdf, 0xbb, 0xbc, 0xb5, 0xb2, 0x0d, 0x0a, 0x03, 0x04, 0x60, 0x67, 0x6e, 0x69,
     0x61, 0x66, 0x6f, 0x68, 0x0c, 0x0b, 0x02, 0x05, 0xba, 0xbd, 0xb4, 0xb3, 0xd7, 0xd0, 0xd9, 0xde,
     0x64, 0x63, 0x6a, 0x6d, 0x09, 0x0e, 0x07, 0x00, 0xbf, 0xb8, 0xb1, 0xb6, 0xd2, 0xd5, 0xdc, 0xdb,
     0xd3, 0xd4, 0xdd, 0xda, 0xbe, 0xb9, 0xb0, 0xb7, 0x08, 0x0f, 0x06, 0x01, 0x65, 0x62, 0x6b, 0x6c,
     0x0a, 0x0d, 0x04, 0x03, 0x67, 0x60, 0x69, 0x6e, 0xd1, 0xd6, 0xdf, 0xd8, 0xbc, 0xbb, 0xb2, 0xb5,
     0xbd, 0xba, 0xb3, 0xb4, 0xd0, 0xd7, 0xde, 0xd9, 0x66, 0x61, 0x68, 0x6f, 0x0b, 0x0c, 0x05, 0x02]"

definition crc_table_3 :: "u8 list" where
  "crc_table_3 = [
     0x00, 0x77, 0xee, 0x99, 0x07, 0x70, 0xe9, 0x9e, 0x0e, 0x79, 0xe0, 0x97, 0x09, 0x7e, 0xe7, 0x90,
     0x1d, 0x6a, 0xf3, 0x84, 0x1a, 0x6d, 0xf4, 0x83, 0x13, 0x64, 0xfd, 0x8a, 0x14, 0x63, 0xfa, 0x8d,
     0x3b, 0x4c, 0xd5, 0xa2, 0x3c, 0x4b, 0xd2, 0xa5, 0x35, 0x42, 0xdb, 0xac, 0x32, 0x45, 0xdc, 0xab,
     0x26, 0x51, 0xc8, 0xbf, 0x21, 0x56, 0xcf, 0xb8, 0x28, 0x5f, 0xc6, 0xb1, 0x2f, 0x58, 0xc1, 0xb6,
     0x76, 0x01, 0x98, 0xef, 0x71, 0x06, 0x9f, 0xe8, 0x78, 0x0f, 0x96, 0xe1, 0x7f, 0x08, 0x91, 0xe6,
     0x6b, 0x1c, 0x85, 0xf2, 0x6c, 0x1b, 0x82, 0xf5, 0x65, 0x12, 0x8b, 0xfc, 0x62, 0x15, 0x8c, 0xfb,
     0x4d, 0x3a, 0xa3, 0xd4, 0x4a, 0x3d, 0xa4, 0xd3, 0x43, 0x34, 0xad, 0xda, 0x44, 0x33, 0xaa, 0xdd,
     0x50, 0x27, 0xbe, 0xc9, 0x57, 0x20, 0xb9, 0xce, 0x5e, 0x29, 0xb0, 0xc7, 0x59, 0x2e, 0xb7, 0xc0,
     0xed, 0x9a, 0x03, 0x74, 0xea, 0x9d, 0x04, 0x73, 0xe3, 0x94, 0x0d, 0x7a, 0xe4, 0x93, 0x0a, 0x7d,
     0xf0, 0x87, 0x1e, 0x69, 0xf7, 0x80, 0x19, 0x6e, 0xfe, 0x89, 0x10, 0x67, 0xf9, 0x8e, 0x17, 0x60,
     0xd6, 0xa1, 0x38, 0x4f, 0xd1, 0xa6, 0x3f, 0x48, 0xd8, 0xaf, 0x36, 0x41, 0xdf, 0xa8, 0x31, 0x46,
     0xcb, 0xbc, 0x25, 0x52, 0xcc, 0xbb, 0x22, 0x55, 0xc5, 0xb2, 0x2b, 0x5c, 0xc2, 0xb5, 0x2c, 0x5b,
     0x9b, 0xec, 0x75, 0x02, 0x9c, 0xeb, 0x72, 0x05, 0x95, 0xe2, 0x7b, 0x0c, 0x92, 0xe5, 0x7c, 0x0b,
     0x86, 0xf1, 0x68, 0x1f, 0x81, 0xf6, 0x6f, 0x18, 0x88, 0xff, 0x66, 0x11, 0x8f, 0xf8, 0x61, 0x16,
     0xa0, 0xd7, 0x4e, 0x39, 0xa7, 0xd0, 0x49, 0x3e, 0xae, 0xd9, 0x40, 0x37, 0xa9, 0xde, 0x47, 0x30,
     0xbd, 0xca, 0x53, 0x24, 0xba, 0xcd, 0x54, 0x23, 0xb3, 0xc4, 0x5d, 0x2a, 0xb4, 0xc3, 0x5a, 0x2d]"

subsection \<open>The routines\<close>

text \<open>The bytes of the remainder, the lowest first, and one turn of the loop of \<open>crc_update\<close>.\<close>

definition byte_of :: "nat \<Rightarrow> u32 \<Rightarrow> u8" where
  "byte_of k c = ucast (drop_bit (8 * k) c)"

definition table_step :: "u8 list \<Rightarrow> u8 list \<Rightarrow> u8 list \<Rightarrow> u8 list \<Rightarrow> u32 \<Rightarrow> u8 \<Rightarrow> u32" where
  "table_step t0 t1 t2 t3 c b =
     (let index = unat (b XOR byte_of 0 c)
      in un32 (un16 (byte_of 1 c XOR t0 ! index) (byte_of 2 c XOR t1 ! index))
              (un16 (byte_of 3 c XOR t2 ! index) (t3 ! index)))"

definition crc_step :: "u32 \<Rightarrow> u8 \<Rightarrow> u32" where
  "crc_step = table_step crc_table_0 crc_table_1 crc_table_2 crc_table_3"

definition crc_update :: "u32 \<Rightarrow> bytes \<Rightarrow> u32" where
  "crc_update crc data = foldl crc_step crc data"

fun crc_zeroes :: "u32 \<Rightarrow> nat \<Rightarrow> u32" where
  "crc_zeroes c 0 = c"
| "crc_zeroes c (Suc n) = crc_zeroes (crc_step c 0) n"

definition crc_update_zeroes :: "u32 \<Rightarrow> u16 \<Rightarrow> u32" where
  "crc_update_zeroes crc n_zeroes = crc_zeroes crc (unat n_zeroes)"

text \<open>
  \<open>crc_check_relaxed\<close>: all bytes but the last, then the last one; on an empty range the loop
  misses its end and leaves the range.
\<close>

definition CRC_RESIDUE :: u32 where "CRC_RESIDUE = 0xDEBB20E3"

definition crc_check_relaxed :: "bytes \<Rightarrow> ('s, bool) cmd" where
  "crc_check_relaxed data =
     (if data = [] then abort Overrun
      else
        (let c = crc_update 0xffffffff (butlast data)
         in if c = CRC_RESIDUE then ret True
            else ret (crc_step c (last data) = CRC_RESIDUE)))"

subsection \<open>The bit-serial CRC\<close>

definition CRC_POLY :: u32 where "CRC_POLY = 0xEDB88320"

definition bit_step :: "u32 \<Rightarrow> u32" where
  "bit_step c = (if bit c 0 then drop_bit 1 c XOR CRC_POLY else drop_bit 1 c)"

definition byte_step :: "u32 \<Rightarrow> u8 \<Rightarrow> u32" where
  "byte_step c b = (bit_step ^^ 8) (c XOR ucast b)"

definition crc_bits :: "u32 \<Rightarrow> bytes \<Rightarrow> u32" where
  "crc_bits c data = foldl byte_step c data"

subsection \<open>Linearity of the bit-serial step\<close>

lemma bit_step_xor: "bit_step (a XOR b) = bit_step a XOR bit_step b"
  by (rule bit_word_eqI) (auto simp: bit_step_def bit_xor_iff bit_drop_bit_eq)

lemma bit_steps_xor: "(bit_step ^^ n) (a XOR b) = (bit_step ^^ n) a XOR (bit_step ^^ n) b"
  by (induction n) (simp_all add: bit_step_xor)

lemma bit_steps_shift: "n \<le> m \<Longrightarrow> (\<And>i. i < m \<Longrightarrow> \<not> bit c i) \<Longrightarrow> (bit_step ^^ n) c = drop_bit n c"
proof (induction n)
  case (Suc n)
  then have "\<not> bit (drop_bit n c) 0" by (simp add: bit_drop_bit_eq)
  with Suc show ?case by (simp add: bit_step_def)
qed simp

text \<open>The remainder splits into its low byte and the rest, which eight steps only shift.\<close>

lemma byte_step_split:
  "byte_step c b = drop_bit 8 c XOR (bit_step ^^ 8) (ucast (b XOR ucast c :: u8))"
proof -
  have "c XOR ucast b = push_bit 8 (drop_bit 8 c) XOR ucast (b XOR ucast c :: u8)"
    by (rule bit_word_eqI)
      (auto simp: bit_xor_iff bit_push_bit_iff bit_drop_bit_eq bit_ucast_iff dest: bit_imp_le_length)
  then have "byte_step c b =
      (bit_step ^^ 8) (push_bit 8 (drop_bit 8 c)) XOR (bit_step ^^ 8) (ucast (b XOR ucast c :: u8))"
    by (simp only: byte_step_def bit_steps_xor)
  moreover have "(bit_step ^^ 8) (push_bit 8 (drop_bit 8 c)) = drop_bit 8 (push_bit 8 (drop_bit 8 c))"
    by (rule bit_steps_shift [of 8 8]) (simp_all add: bit_push_bit_iff)
  moreover have "drop_bit 8 (push_bit 8 (drop_bit 8 c)) = drop_bit 8 c"
    by (rule bit_word_eqI)
      (auto simp: bit_push_bit_iff bit_drop_bit_eq dest: bit_imp_le_length)
  ultimately show ?thesis by simp
qed

text \<open>Exclusive or and the shift by eight, byte by byte.\<close>

lemma un16_xor: "un16 a b XOR un16 c d = un16 (a XOR c) (b XOR d)"
  by (rule bit_word_eqI)
    (auto simp: un16_def bit_xor_iff bit_or_iff bit_push_bit_iff bit_ucast_iff dest: bit_imp_le_length)

lemma un32_xor: "un32 a b XOR un32 c d = un32 (a XOR c) (b XOR d)"
  by (rule bit_word_eqI)
    (auto simp: un32_def bit_xor_iff bit_or_iff bit_push_bit_iff bit_ucast_iff dest: bit_imp_le_length)

lemmas xor_bytes = un32_xor un16_xor

lemma un16_bytes: "ucast (drop_bit n c) = un16 (ucast (drop_bit n c)) (ucast (drop_bit (n + 8) (c :: u32)))"
  by (rule bit_word_eqI)
    (auto simp: un16_def bit_or_iff bit_push_bit_iff bit_drop_bit_eq bit_ucast_iff ac_simps)

lemma un32_halves: "c = un32 (ucast c) (ucast (drop_bit 16 c))"
  by simp

lemma shift_bytes: "drop_bit 8 (c :: u32) = un32 (un16 (byte_of 1 c) (byte_of 2 c)) (un16 (byte_of 3 c) 0)"
proof -
  have "(ucast (drop_bit 32 c) :: u8) = 0"
    by (rule bit_word_eqI) (auto simp: bit_ucast_iff bit_drop_bit_eq dest: bit_imp_le_length)
  then show ?thesis
    using un32_halves [of "drop_bit 8 c"] un16_bytes [of 8 c] un16_bytes [of 24 c]
    by (simp add: byte_of_def)
qed

subsection \<open>The contract of the tables\<close>

locale crc_tables =
  fixes t0 t1 t2 t3 :: "u8 list"
  assumes row: "i < 256 \<Longrightarrow>
    un32 (un16 (t0 ! i) (t1 ! i)) (un16 (t2 ! i) (t3 ! i)) = (bit_step ^^ 8) (of_nat i)"
begin

lemma table_step_bits: "table_step t0 t1 t2 t3 c b = byte_step c b"
proof -
  define i where "i = unat (b XOR ucast c :: u8)"
  have i: "i < 256" "of_nat i = (ucast (b XOR ucast c :: u8) :: u32)"
    using unat_u8 [of "b XOR ucast c"] by (simp_all add: i_def)
  have "table_step t0 t1 t2 t3 c b =
      drop_bit 8 c XOR un32 (un16 (t0 ! i) (t1 ! i)) (un16 (t2 ! i) (t3 ! i))"
    unfolding shift_bytes xor_bytes by (simp add: table_step_def Let_def i_def byte_of_def)
  also have "\<dots> = byte_step c b"
    by (simp add: row i byte_step_split)
  finally show ?thesis .
qed

lemma table_fold_bits: "foldl (table_step t0 t1 t2 t3) c xs = crc_bits c xs"
  by (induction xs arbitrary: c) (simp_all add: crc_bits_def table_step_bits)

end


text \<open>The source's tables meet the contract: a walk over their 256 rows, each computed.\<close>

fun rows_right :: "u32 \<Rightarrow> u8 list \<Rightarrow> u8 list \<Rightarrow> u8 list \<Rightarrow> u8 list \<Rightarrow> bool" where
  "rows_right i (a # as) (b # bs) (c # cs) (d # ds) \<longleftrightarrow>
     un32 (un16 a b) (un16 c d) = (bit_step ^^ 8) i \<and> rows_right (i + 1) as bs cs ds"
| "rows_right i as bs cs ds \<longleftrightarrow> as = [] \<and> bs = [] \<and> cs = [] \<and> ds = []"

lemma rows_rightD:
  "rows_right i as bs cs ds \<Longrightarrow> j < length as \<Longrightarrow>
   un32 (un16 (as ! j) (bs ! j)) (un16 (cs ! j) (ds ! j)) = (bit_step ^^ 8) (i + of_nat j)"
proof (induction i as bs cs ds arbitrary: j rule: rows_right.induct)
  case (1 i a as b bs c cs d ds)
  then show ?case by (cases j) (auto simp: ac_simps)
qed auto

lemma bit_step_arith: "bit_step c = (if odd c then (c div 2) XOR 0xEDB88320 else c div 2)"
  by (simp add: bit_step_def CRC_POLY_def bit_0 drop_bit_Suc)

lemma bit_steps_8: "(bit_step ^^ 8) c =
    bit_step (bit_step (bit_step (bit_step (bit_step (bit_step (bit_step (bit_step c)))))))"
  by (simp add: eval_nat_numeral)

lemma tables_right: "rows_right 0 crc_table_0 crc_table_1 crc_table_2 crc_table_3"
  by (simp add: crc_table_0_def crc_table_1_def crc_table_2_def crc_table_3_def un32_def un16_def
      bit_steps_8 bit_step_arith)

lemma length_crc_table_0: "length crc_table_0 = 256"
  by (simp add: crc_table_0_def)

interpretation crc: crc_tables crc_table_0 crc_table_1 crc_table_2 crc_table_3
  using rows_rightD [OF tables_right] by unfold_locales (simp add: length_crc_table_0)

lemma crc_step_bits: "crc_step = byte_step"
  by (simp add: fun_eq_iff crc_step_def crc.table_step_bits)

lemma crc_zeroes_bits: "crc_zeroes c n = crc_bits c (replicate n 0)"
  by (induction n arbitrary: c) (simp_all add: crc_bits_def crc_step_bits)

lemma crc_bits_append: "crc_bits c (xs @ ys) = crc_bits (crc_bits c xs) ys"
  by (simp add: crc_bits_def)

lemma crc_update_eq: "crc_update c xs = crc_bits c xs"
  by (simp add: crc_update_def crc_bits_def crc_step_bits)

lemma crc_update_zeroes_eq: "crc_update_zeroes c n = crc_bits c (replicate (unat n) 0)"
  by (simp add: crc_update_zeroes_def crc_zeroes_bits)

subsection \<open>The residue\<close>

text \<open>
  The bytes of the remainder itself shift it out, and the step is linear: so the complemented
  bytes take every remainder to the same residue.
\<close>

lemma byte_step_xor: "byte_step (c XOR d) (a XOR b) = byte_step c a XOR byte_step d b"
proof -
  have "(c XOR d) XOR ucast (a XOR b) = (c XOR ucast a) XOR (d XOR ucast b :: u32)"
    by (rule bit_word_eqI) (auto simp: bit_xor_iff bit_ucast_iff)
  then show ?thesis by (simp add: byte_step_def bit_steps_xor)
qed

lemma crc_bits_xor:
  "length xs = length ys \<Longrightarrow>
   crc_bits (c XOR d) (map2 (XOR) xs ys) = crc_bits c xs XOR crc_bits d ys"
  by (induction xs ys arbitrary: c d rule: list_induct2) (simp_all add: crc_bits_def byte_step_xor)

lemma byte_step_own: "byte_step c (ucast c) = drop_bit 8 c"
proof -
  have "(bit_step ^^ 8) 0 = 0" by (simp add: bit_steps_8 bit_step_def)
  then show ?thesis by (simp add: byte_step_split)
qed

lemma crc_bits_own: "crc_bits c (le32 c) = 0"
proof -
  have "byte_step (byte_step (byte_step (byte_step c (ucast c)) (ucast (drop_bit 8 c)))
      (ucast (drop_bit 16 c))) (ucast (drop_bit 24 c)) = drop_bit 32 c"
    by (simp add: byte_step_own byte_step_own [of "drop_bit _ c"])
  moreover have "drop_bit 32 c = 0"
    by (rule bit_word_eqI) (auto simp: bit_drop_bit_eq dest: bit_imp_le_length)
  moreover have "ucast (ucast c :: u16) = (ucast c :: u8)"
    "ucast (ucast (drop_bit 16 c) :: u16) = (ucast (drop_bit 16 c) :: u8)"
    "ucast (drop_bit 8 (ucast c :: u16)) = (ucast (drop_bit 8 c) :: u8)"
    "ucast (drop_bit 8 (ucast (drop_bit 16 c) :: u16)) = (ucast (drop_bit 24 c) :: u8)"
    by (auto intro!: bit_word_eqI simp: bit_ucast_iff bit_drop_bit_eq)
  ultimately show ?thesis by (simp add: crc_bits_def le32_def le16_def)
qed

lemma crc_bits_complement: "crc_bits c (le32 (NOT c)) = CRC_RESIDUE"
proof -
  have ff: "(0xff :: u8) = NOT 0" by simp
  have x: "le32 (NOT c) = map2 (XOR) (le32 c) [0xff, 0xff, 0xff, 0xff]"
    unfolding ff by (auto simp: le32_def le16_def intro!: bit_word_eqI
        simp: bit_ucast_iff bit_drop_bit_eq bit_xor_iff bit_not_iff)
  have "crc_bits c (map2 (XOR) (le32 c) [0xff, 0xff, 0xff, 0xff]) =
      crc_bits c (le32 c) XOR crc_bits 0 [0xff, 0xff, 0xff, 0xff]"
    using crc_bits_xor [of "le32 c" "[0xff, 0xff, 0xff, 0xff]" c 0] by simp
  moreover have "crc_bits 0 [0xff, 0xff, 0xff, 0xff] = CRC_RESIDUE"
    by (simp add: crc_bits_def byte_step_def bit_steps_8 bit_step_arith CRC_RESIDUE_def)
  ultimately show ?thesis by (simp add: x crc_bits_own)
qed

text \<open>
  C23: The table-driven routines compute the bit-serial CRC-32 of the polynomial 0xEDB88320,
  for every start value, every byte string and every number of zeroes.
\<close>

theorem crc_update_is_bitwise:
  "crc_update c data = crc_bits c data \<and> crc_update_zeroes c n = crc_bits c (replicate (unat n) 0)"
  by (simp add: crc_update_eq crc_update_zeroes_eq)

text \<open>
  A range that ends with its check sequence is accepted by \<open>crc_check_relaxed\<close>, and so is
  the range with one extra byte behind it.
\<close>

theorem crc_check_relaxed_accepts:
  "crc_check_relaxed (data @ le32 (NOT (crc_update 0xffffffff data))) s = Some (Inr (True, s)) \<and>
   crc_check_relaxed (data @ le32 (NOT (crc_update 0xffffffff data)) @ [x]) s = Some (Inr (True, s))"
proof -
  define frame where "frame = data @ le32 (NOT (crc_update 0xffffffff data))"
  have r: "crc_bits 0xffffffff frame = CRC_RESIDUE"
    by (simp add: frame_def crc_bits_append crc_update_eq crc_bits_complement)
  have ne: "frame \<noteq> []" by (simp add: frame_def le32_def le16_def)
  then have "crc_step (crc_update 0xffffffff (butlast frame)) (last frame) = crc_bits 0xffffffff frame"
    using crc_bits_append [where c = "0xffffffff" and xs = "butlast frame" and ys = "[last frame]"]
    by (simp add: crc_update_eq crc_step_bits crc_bits_def)
  with r ne have "crc_check_relaxed frame s = Some (Inr (True, s))"
    by (simp add: crc_check_relaxed_def Let_def)
  moreover have "crc_check_relaxed (frame @ [x]) s = Some (Inr (True, s))"
    using r by (simp add: crc_check_relaxed_def crc_update_eq)
  ultimately show ?thesis by (simp add: frame_def)
qed

end
