(* ===== verification/Eth.thy ===== *)
theory Eth
  imports Crc
begin

section \<open>The Ethernet transmitter (lib/eth.c, lib/bitmix.asm)\<close>

text \<open>
  The transmit buffer holds one frame of fixed length: twelve bytes of preamble, 1008 bytes of
  data and the frame check sequence, every byte permuted by the table \<open>bitmix\<close> as the hardware
  wires its data lines. \<open>eth_transmit\<close> fills in the packet, clears what is left of a longer
  predecessor, and chooses the last data byte such that the last byte of the check sequence is
  zero.
\<close>

subsection \<open>The permutation\<close>

definition bitmix :: "u8 list" where
  "bitmix = [
     0x00, 0x08, 0x04, 0x0c, 0x02, 0x0a, 0x06, 0x0e, 0x01, 0x09, 0x05, 0x0d, 0x03, 0x0b, 0x07, 0x0f,
     0x80, 0x88, 0x84, 0x8c, 0x82, 0x8a, 0x86, 0x8e, 0x81, 0x89, 0x85, 0x8d, 0x83, 0x8b, 0x87, 0x8f,
     0x40, 0x48, 0x44, 0x4c, 0x42, 0x4a, 0x46, 0x4e, 0x41, 0x49, 0x45, 0x4d, 0x43, 0x4b, 0x47, 0x4f,
     0xc0, 0xc8, 0xc4, 0xcc, 0xc2, 0xca, 0xc6, 0xce, 0xc1, 0xc9, 0xc5, 0xcd, 0xc3, 0xcb, 0xc7, 0xcf,
     0x20, 0x28, 0x24, 0x2c, 0x22, 0x2a, 0x26, 0x2e, 0x21, 0x29, 0x25, 0x2d, 0x23, 0x2b, 0x27, 0x2f,
     0xa0, 0xa8, 0xa4, 0xac, 0xa2, 0xaa, 0xa6, 0xae, 0xa1, 0xa9, 0xa5, 0xad, 0xa3, 0xab, 0xa7, 0xaf,
     0x60, 0x68, 0x64, 0x6c, 0x62, 0x6a, 0x66, 0x6e, 0x61, 0x69, 0x65, 0x6d, 0x63, 0x6b, 0x67, 0x6f,
     0xe0, 0xe8, 0xe4, 0xec, 0xe2, 0xea, 0xe6, 0xee, 0xe1, 0xe9, 0xe5, 0xed, 0xe3, 0xeb, 0xe7, 0xef,
     0x10, 0x18, 0x14, 0x1c, 0x12, 0x1a, 0x16, 0x1e, 0x11, 0x19, 0x15, 0x1d, 0x13, 0x1b, 0x17, 0x1f,
     0x90, 0x98, 0x94, 0x9c, 0x92, 0x9a, 0x96, 0x9e, 0x91, 0x99, 0x95, 0x9d, 0x93, 0x9b, 0x97, 0x9f,
     0x50, 0x58, 0x54, 0x5c, 0x52, 0x5a, 0x56, 0x5e, 0x51, 0x59, 0x55, 0x5d, 0x53, 0x5b, 0x57, 0x5f,
     0xd0, 0xd8, 0xd4, 0xdc, 0xd2, 0xda, 0xd6, 0xde, 0xd1, 0xd9, 0xd5, 0xdd, 0xd3, 0xdb, 0xd7, 0xdf,
     0x30, 0x38, 0x34, 0x3c, 0x32, 0x3a, 0x36, 0x3e, 0x31, 0x39, 0x35, 0x3d, 0x33, 0x3b, 0x37, 0x3f,
     0xb0, 0xb8, 0xb4, 0xbc, 0xb2, 0xba, 0xb6, 0xbe, 0xb1, 0xb9, 0xb5, 0xbd, 0xb3, 0xbb, 0xb7, 0xbf,
     0x70, 0x78, 0x74, 0x7c, 0x72, 0x7a, 0x76, 0x7e, 0x71, 0x79, 0x75, 0x7d, 0x73, 0x7b, 0x77, 0x7f,
     0xf0, 0xf8, 0xf4, 0xfc, 0xf2, 0xfa, 0xf6, 0xfe, 0xf1, 0xf9, 0xf5, 0xfd, 0xf3, 0xfb, 0xf7, 0xff]"

subsection \<open>The transmitter\<close>

abbreviation TX_BUF_LEN :: nat where "TX_BUF_LEN \<equiv> 1024"
abbreviation PREAMBLE_LEN :: nat where "PREAMBLE_LEN \<equiv> 12"
abbreviation FCS_LEN :: nat where "FCS_LEN \<equiv> 4"

text \<open>The state: the buffer, the static variable, and how often the transmission was started.\<close>

record eth =
  ETH_BUF :: bytes
  last_frame_len :: u16
  tx_count :: nat

text \<open>The station's address (lib/mac.asm): of one station, and not assigned by a manufacturer.\<close>

definition eth_mac :: bytes where
  "eth_mac = [0xFE, 0xFA, 0xF6, 0xF2, 0xEE, 0xEA]"

lemma eth_mac_local: "length eth_mac = 6" "\<not> bit (hd eth_mac) 0" "bit (hd eth_mac) 1"
  by code_simp+

definition mix :: "u8 \<Rightarrow> u8" where
  "mix b = bitmix ! unat b"

text \<open>A store of bytes into the transmit buffer from index \<open>i\<close> on.\<close>

definition put_buf :: "nat \<Rightarrow> bytes \<Rightarrow> (eth, unit) cmd" where
  "put_buf i xs = (\<lambda>e. if i + length xs \<le> length (ETH_BUF e)
      then Some (Inr ((), e\<lparr>ETH_BUF := splice_at (ETH_BUF e) i xs\<rparr>)) else Some (Inl Overrun))"

definition bitmix_memcpy :: "nat \<Rightarrow> bytes \<Rightarrow> (eth, unit) cmd" where
  "bitmix_memcpy dst src = put_buf dst (map mix src)"

definition eth_init :: "(eth, unit) cmd" where
  "eth_init =
     andthen (put_buf 0 (replicate (PREAMBLE_LEN - 1) (mix 0x55)))
     (andthen (put_buf (PREAMBLE_LEN - 1) [mix 0xd5])
     (andthen (put_buf PREAMBLE_LEN (replicate (TX_BUF_LEN - PREAMBLE_LEN - FCS_LEN) 0))
       (modify (\<lambda>e. e\<lparr>last_frame_len := 0\<rparr>))))"

text \<open>The check sequence: \<open>c\<close> is the remainder after the packet and the zeroes.\<close>

definition put_fcs :: "u32 \<Rightarrow> (eth, unit) cmd" where
  "put_fcs c =
     (let adj = 0xd9 XOR (ucast c :: u8); c' = crc_update c [adj] in
      andthen (put_buf (TX_BUF_LEN - 5) [mix adj])
      (andthen (put_buf (TX_BUF_LEN - 4) [NOT (mix (ucast c'))])
      (andthen (put_buf (TX_BUF_LEN - 3) [NOT (mix (ucast (drop_bit 8 c')))])
      (andthen (put_buf (TX_BUF_LEN - 2) [NOT (mix (ucast (drop_bit 16 c')))])
        (put_buf (TX_BUF_LEN - 1) [0x00])))))"

definition eth_transmit :: "bytes \<Rightarrow> u16 \<Rightarrow> (eth, unit) cmd" where
  "eth_transmit data size' =
     (if length data < unat size' then abort Overrun
      else
        (let packet = take (unat size') data in
         andthen (bitmix_memcpy PREAMBLE_LEN packet)
         (bnd (gets last_frame_len) (\<lambda>old.
          andthen (if size' < old
                   then put_buf (PREAMBLE_LEN + unat size') (replicate (unat (old - size')) 0)
                   else ret ())
          (andthen (modify (\<lambda>e. e\<lparr>last_frame_len := size'\<rparr>))
          (andthen (put_fcs (crc_update_zeroes (crc_update 0xffffffff packet)
                              (of_nat (TX_BUF_LEN - FCS_LEN - PREAMBLE_LEN - 1) - size')))
            (modify (\<lambda>e. e\<lparr>tx_count := tx_count e + 1\<rparr>))))))))"

subsection \<open>The permutation as a permutation of bits\<close>

text \<open>Each half of a byte is mirrored: bit \<open>n\<close> moves to bit \<open>n XOR 3\<close>.\<close>

definition mirror_nibbles :: "u8 \<Rightarrow> u8" where
  "mirror_nibbles b = push_bit 3 (b AND 0x11) OR push_bit 1 (b AND 0x22)
     OR drop_bit 1 (b AND 0x44) OR drop_bit 3 (b AND 0x88)"

lemma bitmix_rows: "tabulates (\<lambda>i x. x = mirror_nibbles i) 0 bitmix"
  by (simp add: bitmix_def mirror_nibbles_def)

lemma length_bitmix: "length bitmix = 256"
  by (simp add: bitmix_def)

lemma mix_mirror: "mix b = mirror_nibbles b"
  using tabulates_byte [OF bitmix_rows length_bitmix, of b] by (simp add: mix_def)

lemma less_8: "n < 8 \<Longrightarrow> n \<in> {0, 1, 2, 3, 4, 5, 6, 7 :: nat}"
  by auto

lemma bit_mirror: "n < 8 \<Longrightarrow> bit (mirror_nibbles b) n = bit b (n XOR 3)"
  unfolding mirror_nibbles_def bit_or_iff bit_and_iff bit_push_bit_iff bit_drop_bit_eq
  by (drule less_8, elim insertE) (simp_all flip: numeral_2_eq_2)

lemma xor_3: "n < 8 \<Longrightarrow> (n XOR 3 :: nat) < 8 \<and> (n XOR 3) XOR 3 = n"
  by (drule less_8, elim insertE) simp_all

lemma bit_mix: "bit (mix b) n \<longleftrightarrow> n < 8 \<and> bit b (n XOR 3)"
  using bit_mirror [of n b] bit_imp_le_length [of "mirror_nibbles b" n] by (auto simp: mix_mirror)

lemma mix_not: "mix (NOT b) = NOT (mix b)"
  by (rule bit_word_eqI) (auto simp: bit_mix bit_not_iff xor_3)

lemma mix_mix: "mix (mix b) = b"
  by (rule bit_word_eqI) (auto simp: bit_mix xor_3)

lemma mix_0: "mix 0 = 0"
  by (rule bit_word_eqI) (simp add: bit_mix)

subsection \<open>The frame in the buffer\<close>

lemma wp_put_buf [wp_simps]: "wp (put_buf i xs) Q e \<longleftrightarrow>
    i + length xs \<le> length (ETH_BUF e) \<and> Q () (e\<lparr>ETH_BUF := splice_at (ETH_BUF e) i xs\<rparr>)"
  by (simp add: wp_def put_buf_def)

definition preamble :: bytes where
  "preamble = replicate (PREAMBLE_LEN - 1) 0x55 @ [0xd5]"

text \<open>
  The invariant: the preamble is in place, and what the last packet does not reach of the data
  is zero.
\<close>

definition eth_ok :: "eth \<Rightarrow> bool" where
  "eth_ok e \<longleftrightarrow> unat (last_frame_len e) \<le> 1007 \<and>
     (\<exists>old tail. length old = unat (last_frame_len e) \<and> length tail = 5 \<and>
        ETH_BUF e = map mix preamble @ old @ replicate (1007 - unat (last_frame_len e)) 0 @ tail)"

lemma eth_okI:
  "unat (last_frame_len e) \<le> 1007 \<Longrightarrow> length old = unat (last_frame_len e) \<Longrightarrow> length tail = 5 \<Longrightarrow>
   ETH_BUF e = map mix preamble @ old @ replicate (1007 - unat (last_frame_len e)) 0 @ tail \<Longrightarrow>
   eth_ok e"
  by (auto simp: eth_ok_def)

text \<open>The frame for a packet: zeroes to the fixed length, the chosen byte, the check sequence.\<close>

definition frame_data :: "bytes \<Rightarrow> u8 \<Rightarrow> bytes" where
  "frame_data packet adj = packet @ replicate (1007 - length packet) 0 @ [adj]"

definition frame_image :: "bytes \<Rightarrow> bytes" where
  "frame_image body = preamble @ body @ le32 (NOT (crc_bits 0xffffffff body))"

lemma drop_32: "drop_bit 32 (c :: u32) = 0"
  by (rule bit_word_eqI) (auto simp: bit_drop_bit_eq dest: bit_imp_le_length)

text \<open>The chosen byte makes the top byte of the remainder 0xFF.\<close>

lemma adjusted_top: "drop_bit 24 (byte_step c (0xd9 XOR ucast c)) = 0xff"
proof -
  have "(0xd9 XOR ucast c) XOR ucast c = (0xd9 :: u8)"
    by (rule bit_word_eqI) (auto simp: bit_xor_iff)
  then have "byte_step c (0xd9 XOR ucast c) = drop_bit 8 c XOR (bit_step ^^ 8) 0xd9"
    unfolding byte_step_split by simp
  moreover have "(bit_step ^^ 8) 0xd9 = 0xFF0F6A70"
    by (simp add: bit_steps_8 bit_step_arith)
  ultimately show ?thesis by (simp add: drop_bit_xor drop_32)
qed

lemma splice_append: "splice_at (xs @ ys) (length xs + k) zs = xs @ splice_at ys k zs"
  by (simp add: splice_at_def)

lemma splice_mid:
  "length ys' = length ys \<Longrightarrow> n = length xs \<Longrightarrow> splice_at (xs @ ys @ zs) n ys' = xs @ ys' @ zs"
  by (simp add: splice_at_def)

lemma length_preamble [simp]: "length preamble = PREAMBLE_LEN"
  by (simp add: preamble_def)

lemma splice_tail:
  assumes "length xs = n"
  shows "splice_at (xs @ [a, b, c, d, e]) n [v] = xs @ [v, b, c, d, e]"
    and "splice_at (xs @ [a, b, c, d, e]) (n + 1) [v] = xs @ [a, v, c, d, e]"
    and "splice_at (xs @ [a, b, c, d, e]) (n + 2) [v] = xs @ [a, b, v, d, e]"
    and "splice_at (xs @ [a, b, c, d, e]) (n + 3) [v] = xs @ [a, b, c, v, e]"
    and "splice_at (xs @ [a, b, c, d, e]) (n + 4) [v] = xs @ [a, b, c, d, v]"
  using assms by (auto simp: splice_at_def numeral_2_eq_2 numeral_3_eq_3 eval_nat_numeral)

lemma fcs_bytes:
  assumes "adj = 0xd9 XOR ucast c"
  defines "c' \<equiv> byte_step c adj"
  shows "map mix (le32 (NOT c')) =
    [NOT (mix (ucast c')), NOT (mix (ucast (drop_bit 8 c'))), NOT (mix (ucast (drop_bit 16 c'))), 0]"
proof -
  have "le32 (NOT c') = [NOT (ucast c'), NOT (ucast (drop_bit 8 c')),
      NOT (ucast (drop_bit 16 c')), NOT (ucast (drop_bit 24 c'))]"
    by (auto simp: le32_def le16_def intro!: bit_word_eqI
        simp: bit_ucast_iff bit_drop_bit_eq bit_not_iff)
  moreover have "NOT (ucast (drop_bit 24 c')) = (0 :: u8)"
    unfolding c'_def assms(1) adjusted_top by simp
  ultimately show ?thesis by (simp add: mix_not mix_0)
qed

lemma put_fcs_wp:
  assumes "length xs = 1019" and "length tail = 5" and "ETH_BUF e = xs @ tail"
    and adj: "adj = 0xd9 XOR ucast c"
  shows "wp (put_fcs c) (\<lambda>_ t. t = e\<lparr>ETH_BUF := xs @ mix adj # map mix (le32 (NOT (byte_step c adj)))\<rparr>) e"
proof -
  obtain t0 t1 t2 t3 t4 where tail: "tail = [t0, t1, t2, t3, t4]"
    using assms(2) by (auto simp: length_Suc_conv eval_nat_numeral)
  show ?thesis
    unfolding put_fcs_def Let_def fcs_bytes [OF adj]
    using assms(1,3) tail splice_tail [OF assms(1)]
    by (simp add: wp_simps crc_update_eq crc_bits_def flip: adj)
qed

text \<open>
  Initialisation establishes the transmitter's invariant from any contents of the buffer.
\<close>

theorem eth_init_ok:
  assumes "length (ETH_BUF e) = TX_BUF_LEN"
  shows "\<exists>t. eth_init e = Some (Inr ((), t)) \<and> eth_ok t \<and> last_frame_len t = 0 \<and> tx_count t = tx_count e"
proof -
  let ?b = "ETH_BUF e" and ?p = "replicate 11 (mix 0x55)" and ?z = "replicate 1008 (0 :: u8)"
  have s1: "splice_at ?b 0 ?p = ?p @ drop 11 ?b" by (simp add: splice_at_def)
  have s2: "splice_at (?p @ drop 11 ?b) 11 [mix 0xd5] = map mix preamble @ drop 12 ?b"
    by (simp add: splice_at_def preamble_def)
  have s3: "splice_at (map mix preamble @ drop 12 ?b) 12 ?z = map mix preamble @ ?z @ drop 1020 ?b"
    by (simp add: splice_at_def)
  have "?z = replicate 1007 0 @ [0]" using replicate_add [of 1007 1 "0 :: u8"] by simp
  then have "eth_ok (e\<lparr>ETH_BUF := map mix preamble @ ?z @ drop 1020 ?b, last_frame_len := 0\<rparr>)"
    using assms by (simp add: eth_ok_def del: replicate.simps)
  then show ?thesis
    using assms by (simp add: eth_init_def put_buf_def s1 s2 s3)
qed

text \<open>The packet's copy and the clearing of what is left of its predecessor.\<close>

lemma copy_wp:
  assumes "length packet = unat n" and "unat n \<le> 1007" and ok: "eth_ok e"
  shows "wp (andthen (bitmix_memcpy PREAMBLE_LEN packet)
       (bnd (gets last_frame_len) (\<lambda>old.
        if n < old then put_buf (PREAMBLE_LEN + unat n) (replicate (unat (old - n)) 0) else ret ())))
     (\<lambda>_ t. \<exists>tail. length tail = 5 \<and> t = e\<lparr>ETH_BUF :=
        (map mix preamble @ map mix (packet @ replicate (1007 - unat n) 0)) @ tail\<rparr>) e"
proof -
  let ?l = "unat (last_frame_len e)" and ?n = "unat n" and ?P = "map mix preamble"
  obtain old tail where o: "length old = ?l" "length tail = 5" "?l \<le> 1007"
    "ETH_BUF e = ?P @ old @ replicate (1007 - ?l) 0 @ tail"
    using ok by (auto simp: eth_ok_def)
  show ?thesis
  proof (cases "n < last_frame_len e")
    case True
    then have lt: "?n < ?l" by (simp add: word_less_nat_alt)
    then have d: "unat (last_frame_len e - n) = ?l - ?n"
      by (simp add: unat_sub word_le_nat_alt)
    have z: "replicate (1007 - ?n) 0 = replicate (?l - ?n) (0 :: u8) @ replicate (1007 - ?l) 0"
      using lt o(3) by (simp flip: replicate_add)
    have b: "ETH_BUF e = ?P @ take ?n old @ drop ?n old @ replicate (1007 - ?l) 0 @ tail"
      using o(4) by (metis append_assoc append_take_drop_id)
    have s1: "splice_at (ETH_BUF e) 12 (map mix packet) =
        (?P @ map mix packet) @ drop ?n old @ replicate (1007 - ?l) 0 @ tail"
      unfolding b using assms(1) o(1) lt by (subst splice_mid) auto
    have "splice_at (splice_at (ETH_BUF e) 12 (map mix packet)) (12 + ?n) (replicate (?l - ?n) 0) =
        (?P @ map mix packet) @ replicate (?l - ?n) 0 @ replicate (1007 - ?l) 0 @ tail"
      unfolding s1 using assms(1) o(1) lt by (subst splice_mid) auto
    then show ?thesis
      using True d z lt o assms by (auto simp: wp_simps bitmix_memcpy_def mix_0 map_replicate_const)
  next
    case False
    then have le: "?l \<le> ?n" by (simp add: word_less_nat_alt)
    have z: "replicate (1007 - ?l) 0 = replicate (?n - ?l) (0 :: u8) @ replicate (1007 - ?n) 0"
      using le assms(2) by (simp flip: replicate_add)
    have "splice_at (?P @ (old @ replicate (?n - ?l) 0) @ replicate (1007 - ?n) 0 @ tail) 12 (map mix packet) =
        ?P @ map mix packet @ replicate (1007 - ?n) 0 @ tail"
      using assms(1) o(1) le by (subst splice_mid) auto
    then show ?thesis
      using False z le o assms by (auto simp: wp_simps bitmix_memcpy_def mix_0)
  qed
qed

text \<open>
  C25: \<open>eth_transmit\<close> of a packet of at most 1007 bytes leaves a complete valid frame in the
  transmit buffer, whatever was sent before: the preamble, the packet, zeroes, one chosen byte,
  and the CRC-32 of these 1008 bytes, all through the bit permutation, the last byte zero. It
  starts the transmission once and keeps the invariant.
\<close>

theorem eth_transmit_frame:
  assumes ok: "eth_ok e" and "unat n \<le> 1007" and "unat n \<le> length data"
  shows "\<exists>t adj. eth_transmit data n e = Some (Inr ((), t)) \<and>
    ETH_BUF t = map mix (frame_image (frame_data (take (unat n) data) adj)) \<and>
    last (ETH_BUF t) = 0 \<and> tx_count t = tx_count e + 1 \<and> eth_ok t"
proof -
  let ?p = "take (unat n) data" and ?z = "1007 - unat n"
  define c where "c = crc_bits 0xffffffff (?p @ replicate ?z 0)"
  define adj where "adj = 0xd9 XOR (ucast c :: u8)"
  have z: "unat (of_nat (TX_BUF_LEN - FCS_LEN - PREAMBLE_LEN - 1) - n) = ?z"
    using assms(2) by (simp add: unat_sub word_le_nat_alt)
  have p: "length ?p = unat n" using assms(3) by simp
  obtain t tail where t: "length tail = 5" "t = e\<lparr>ETH_BUF := (map mix preamble @ map mix (?p @ replicate ?z 0)) @ tail\<rparr>"
    "andthen (bitmix_memcpy PREAMBLE_LEN ?p)
       (bnd (gets last_frame_len) (\<lambda>old.
        if n < old then put_buf (PREAMBLE_LEN + unat n) (replicate (unat (old - n)) 0) else ret ())) e = Some (Inr ((), t))"
    using copy_wp [OF p assms(2) ok] unfolding wp_iff by auto
  have "wp (put_fcs c) (\<lambda>_ u. u = t\<lparr>last_frame_len := n, ETH_BUF := (map mix preamble @ map mix (?p @ replicate ?z 0))
      @ mix adj # map mix (le32 (NOT (byte_step c adj)))\<rparr>) (t\<lparr>last_frame_len := n\<rparr>)"
    using assms(2,3) t(1,2) by (intro put_fcs_wp [where tail = tail, THEN wp_mono]) (auto simp: adj_def)
  then have "put_fcs c (t\<lparr>last_frame_len := n\<rparr>) = Some (Inr ((), t\<lparr>last_frame_len := n,
      ETH_BUF := (map mix preamble @ map mix (?p @ replicate ?z 0)) @ mix adj # map mix (le32 (NOT (byte_step c adj)))\<rparr>))"
    unfolding wp_iff by auto
  moreover have "crc_update_zeroes (crc_update 0xffffffff ?p)
      (of_nat (TX_BUF_LEN - FCS_LEN - PREAMBLE_LEN - 1) - n) = c"
    unfolding crc_update_zeroes_eq crc_update_eq z c_def crc_bits_append ..
  moreover have "eth_transmit data n = andthen (andthen (bitmix_memcpy PREAMBLE_LEN ?p)
       (bnd (gets last_frame_len) (\<lambda>old.
        if n < old then put_buf (PREAMBLE_LEN + unat n) (replicate (unat (old - n)) 0) else ret ())))
     (andthen (modify (\<lambda>e. e\<lparr>last_frame_len := n\<rparr>))
       (andthen (put_fcs c) (modify (\<lambda>e. e\<lparr>tx_count := tx_count e + 1\<rparr>))))"
    using assms(3) calculation(2) by (simp add: eth_transmit_def bnd_assoc)
  ultimately have run: "eth_transmit data n e = Some (Inr ((), t\<lparr>last_frame_len := n,
      ETH_BUF := (map mix preamble @ map mix (?p @ replicate ?z 0)) @ mix adj # map mix (le32 (NOT (byte_step c adj))),
      tx_count := tx_count t + 1\<rparr>))" (is "_ = Some (Inr ((), ?u))")
    using t(3) by simp
  have img: "ETH_BUF ?u = map mix (frame_image (frame_data ?p adj))"
    using p by (simp add: frame_image_def frame_data_def c_def crc_bits_def)
  moreover have "last (ETH_BUF ?u) = 0"
    by (simp add: fcs_bytes [OF adj_def])
  moreover have "eth_ok ?u"
    using assms(2) p
    by (intro eth_okI [of _ "map mix ?p" "mix adj # map mix (le32 (NOT (byte_step c adj)))"])
      (simp_all add: mix_0)
  ultimately show ?thesis using run t(2) by auto
qed


theorem eth_init_ok_witness:
  "\<exists>t. eth_init \<lparr>ETH_BUF = replicate 1024 7, last_frame_len = 3, tx_count = 0\<rparr> = Some (Inr ((), t)) \<and>
     eth_ok t \<and> last_frame_len t = 0 \<and> tx_count t = 0"
  using eth_init_ok [of "\<lparr>ETH_BUF = replicate 1024 7, last_frame_len = 3, tx_count = 0\<rparr>"] by simp

text \<open>A long packet's remains in the buffer, and a shorter packet.\<close>

definition eth_example :: eth where
  "eth_example = \<lparr>ETH_BUF = map mix preamble @ replicate 60 0xAB @ replicate 947 0 @ [1, 2, 3, 4, 0],
     last_frame_len = 60, tx_count = 0\<rparr>"

lemma eth_example_ok: "eth_ok eth_example"
  by (rule eth_okI [of _ "replicate 60 0xAB" "[1, 2, 3, 4, 0]"]) (simp_all add: eth_example_def)

theorem eth_transmit_frame_witness:
  "\<exists>t adj. eth_transmit [1, 2, 3] 3 eth_example = Some (Inr ((), t)) \<and>
    ETH_BUF t = map mix (frame_image (frame_data [1, 2, 3] adj)) \<and>
    last (ETH_BUF t) = 0 \<and> tx_count t = 1 \<and> eth_ok t"
  using eth_transmit_frame [OF eth_example_ok, of 3 "[1, 2, 3]"] by (simp add: eth_example_def)

text \<open>
  The permutation the hardware's wiring needs is an involution and commutes with the
  complement, so the receiver that undoes it sees the bytes of the frame.
\<close>

theorem bitmix_involution: "mix (mix b) = b \<and> mix (NOT b) = NOT (mix b)"
  by (simp add: mix_mix mix_not)

text \<open>
  \<open>eth_transmit\<close> does not check its argument: a packet of more than 1012 bytes is copied past
  the end of the transmit buffer.
\<close>

theorem eth_transmit_overrun:
  assumes "eth_ok e" and "1012 < unat n" and "unat n \<le> length data"
  shows "eth_transmit data n e = Some (Inl Overrun)"
proof -
  have "length (ETH_BUF e) = TX_BUF_LEN" using assms(1) by (auto simp: eth_ok_def)
  then have "bitmix_memcpy PREAMBLE_LEN (take (unat n) data) e = Some (Inl Overrun)"
    using assms(2,3) by (simp add: bitmix_memcpy_def put_buf_def)
  with assms(3) show ?thesis by (simp add: eth_transmit_def Let_def)
qed

theorem eth_transmit_overrun_witness:
  "eth_transmit (replicate 1013 0) 1013 eth_example = Some (Inl Overrun)"
  using eth_transmit_overrun [OF eth_example_ok, of 1013 "replicate 1013 0"] by simp

end
