(* ===== verification/Ccpu.thy ===== *)
theory Ccpu
  imports Prelude
begin

section \<open>The processor, as far as the assembly sources use it\<close>

text \<open>
  The registers are the bytes \<open>a\<close>, \<open>b\<close> and the two halves \<open>pl\<close>, \<open>ph\<close> of the address register; the flags tested
  are the carry and whether a result was zero. Loads and stores go to the address in \<open>ph:pl\<close>. A jump goes to that
  address too, and leaves the address of the instruction behind it in \<open>ph:pl\<close>: so a routine finds
  its return address there, and a called routine returns by jumping to it. Only arithmetic
  sets flags: moves, loads and stores keep them; \<open>or\<close> and \<open>xor\<close> are taken to set the zero flag alone, as no routine tests
  the carry behind them. \<open>Clr\<close>, \<open>Adc0\<close> and \<open>Sbb0\<close> are \<open>mov\<close>, \<open>adc\<close> and \<open>sbb\<close> with the operand 0. The memory with what is mapped into it is a parameter.

  A routine is its list of instructions. The assembler and the linker place the \<open>i\<close>-th instruction at the address
  \<open>at i\<close>; labels are such addresses. A jump to any other address leaves the routine.
\<close>

record 'm bus =
  load :: "u16 \<Rightarrow> 'm \<Rightarrow> u8"
  store :: "u16 \<Rightarrow> u8 \<Rightarrow> 'm \<Rightarrow> 'm"

datatype reg = RA | RB | PL | PH

datatype instr = Mov reg reg | Clr reg | Ldi reg u8 | Ld reg | St reg | Inc reg | Dec reg
  | Or reg reg | Xor reg reg | Sub reg reg | Adc0 reg | Sbb0 reg | Jmp | Jnc | Jz | Jnz

record 'm cpu =
  reg_a :: u8
  reg_b :: u8
  reg_pl :: u8
  reg_ph :: u8
  carry :: bool
  zero :: bool
  mem :: 'm

fun get_reg :: "reg \<Rightarrow> 'm cpu \<Rightarrow> u8" where
  "get_reg RA c = reg_a c" | "get_reg RB c = reg_b c" | "get_reg PL c = reg_pl c" | "get_reg PH c = reg_ph c"

fun set_reg :: "reg \<Rightarrow> u8 \<Rightarrow> 'm cpu \<Rightarrow> 'm cpu" where
  "set_reg RA v c = c\<lparr>reg_a := v\<rparr>" | "set_reg RB v c = c\<lparr>reg_b := v\<rparr>"
| "set_reg PL v c = c\<lparr>reg_pl := v\<rparr>" | "set_reg PH v c = c\<lparr>reg_ph := v\<rparr>"

definition address :: "'m cpu \<Rightarrow> u16" where
  "address c = un16 (reg_pl c) (reg_ph c)"

definition set_address :: "u16 \<Rightarrow> 'm cpu \<Rightarrow> 'm cpu" where
  "set_address p c = c\<lparr>reg_pl := ucast p, reg_ph := ucast (drop_bit 8 p)\<rparr>"

abbreviation lo8 :: "u16 \<Rightarrow> u8" where "lo8 p \<equiv> ucast p"
abbreviation hi8 :: "u16 \<Rightarrow> u8" where "hi8 p \<equiv> ucast (drop_bit 8 p)"

subsection \<open>Instructions\<close>

text \<open>The instructions that do not jump.\<close>

fun exec1 :: "'m bus \<Rightarrow> instr \<Rightarrow> 'm cpu \<Rightarrow> 'm cpu" where
  "exec1 M (Mov d s) c = set_reg d (get_reg s c) c"
| "exec1 M (Clr d) c = set_reg d 0 c"
| "exec1 M (Ldi d v) c = set_reg d v c"
| "exec1 M (Ld d) c = set_reg d (load M (address c) (mem c)) c"
| "exec1 M (St s) c = c\<lparr>mem := store M (address c) (get_reg s c) (mem c)\<rparr>"
| "exec1 M (Inc d) c = set_reg d (get_reg d c + 1) c\<lparr>carry := (get_reg d c = 0xff), zero := (get_reg d c = 0xff)\<rparr>"
| "exec1 M (Dec d) c = set_reg d (get_reg d c - 1) c\<lparr>carry := (get_reg d c = 0), zero := (get_reg d c = 1)\<rparr>"
| "exec1 M (Or d s) c = (let v = get_reg d c OR get_reg s c in set_reg d v c\<lparr>zero := (v = 0)\<rparr>)"
| "exec1 M (Xor d s) c = (let v = get_reg d c XOR get_reg s c in set_reg d v c\<lparr>zero := (v = 0)\<rparr>)"
| "exec1 M (Sub d s) c = (let v = get_reg d c - get_reg s c in
    set_reg d v c\<lparr>carry := get_reg d c < get_reg s c, zero := (v = 0)\<rparr>)"
| "exec1 M (Adc0 d) c = (let v = get_reg d c + of_bool (carry c) in
    set_reg d v c\<lparr>carry := carry c \<and> get_reg d c = 0xff, zero := (v = 0)\<rparr>)"
| "exec1 M (Sbb0 d) c = (let v = get_reg d c - of_bool (carry c) in
    set_reg d v c\<lparr>carry := carry c \<and> get_reg d c = 0, zero := (v = 0)\<rparr>)"
| "exec1 M Jmp c = c"
| "exec1 M Jnc c = c"
| "exec1 M Jz c = c"
| "exec1 M Jnz c = c"

fun jumps :: "instr \<Rightarrow> 'm cpu \<Rightarrow> bool" where
  "jumps Jmp c = True"
| "jumps Jnc c = (\<not> carry c)"
| "jumps Jz c = zero c"
| "jumps Jnz c = (\<not> zero c)"
| "jumps _ c = False"

text \<open>
  One step at the instruction \<open>i\<close>: on to an instruction of the routine, or out of it with the address.
\<close>

definition step :: "'m bus \<Rightarrow> (nat \<Rightarrow> u16) \<Rightarrow> instr list \<Rightarrow> nat \<Rightarrow> 'm cpu \<Rightarrow> (nat + u16) \<times> 'm cpu" where
  "step M at code i c =
     (if length code \<le> i then (Inr (at i), c)
      else if jumps (code ! i) c then
        (case List.find (\<lambda>j. at j = address c) [0..<length code] of
           Some j \<Rightarrow> Inl j
         | None \<Rightarrow> Inr (address c), set_address (at (Suc i)) c)
      else (Inl (Suc i), exec1 M (code ! i) c))"

partial_function (option) run ::
  "'m bus \<Rightarrow> (nat \<Rightarrow> u16) \<Rightarrow> instr list \<Rightarrow> nat \<Rightarrow> 'm cpu \<Rightarrow> (u16 \<times> 'm cpu) option" where
  "run M at code i c = (case step M at code i c of (w, t) \<Rightarrow>
     (case w of Inl j \<Rightarrow> run M at code j t | Inr p \<Rightarrow> Some (p, t)))"

subsection \<open>Straight code and jumps\<close>

fun straight :: "instr \<Rightarrow> bool" where
  "straight Jmp = False" | "straight Jnc = False" | "straight Jz = False" | "straight Jnz = False" | "straight _ = True"

lemma straight_not_jumps [simp]: "straight x \<Longrightarrow> \<not> jumps x c"
  by (cases x) auto

definition exec :: "'m bus \<Rightarrow> instr list \<Rightarrow> 'm cpu \<Rightarrow> 'm cpu" where
  "exec M xs c = fold (exec1 M) xs c"

lemma exec_simps [simp]: "exec M [] c = c" "exec M (x # xs) c = exec M xs (exec1 M x c)"
  by (simp_all add: exec_def)

lemma exec_append: "exec M (xs @ ys) c = exec M ys (exec M xs c)"
  by (simp add: exec_def)

lemma run_next:
  "i < length code \<Longrightarrow> \<not> jumps (code ! i) c \<Longrightarrow> run M at code i c = run M at code (Suc i) (exec1 M (code ! i) c)"
  by (subst run.simps) (simp add: step_def)

text \<open>Code without jumps runs as a fold over its instructions.\<close>

lemma run_straight:
  "drop i code = xs @ ys \<Longrightarrow> list_all straight xs \<Longrightarrow> run M at code i c = run M at code (i + length xs) (exec M xs c)"
proof (induction xs arbitrary: i c)
  case (Cons x xs)
  have "length (drop i code) > 0" using Cons.prems(1) by simp
  then have l: "i < length code" by simp
  then have i: "code ! i = x" "drop (Suc i) code = xs @ ys"
    using Cons.prems(1) by (simp_all add: Cons_nth_drop_Suc [symmetric])
  show ?case using Cons.IH [OF i(2)] Cons.prems(2) l i(1) by (simp add: run_next)
qed simp

text \<open>The placement gives different instructions different addresses.\<close>

definition placed :: "(nat \<Rightarrow> u16) \<Rightarrow> instr list \<Rightarrow> bool" where
  "placed at code \<longleftrightarrow> distinct (map at [0..<length code])"

definition inside :: "(nat \<Rightarrow> u16) \<Rightarrow> instr list \<Rightarrow> u16 \<Rightarrow> bool" where
  "inside at code p \<longleftrightarrow> p \<in> set (map at [0..<length code])"

lemma run_jump:
  assumes "placed at code" "j < length code" "address c = at j" "i < length code" "jumps (code ! i) c"
  shows "run M at code i c = run M at code j (set_address (at (Suc i)) c)"
proof -
  have "List.find (\<lambda>k. at k = at j) [0..<length code] = Some j"
    using assms(1,2) by (fastforce simp: find_Some_iff placed_def distinct_map inj_on_def intro!: exI [of _ j])
  then show ?thesis using assms(3-) by (subst run.simps) (simp add: step_def)
qed

lemma run_leave:
  assumes "\<not> inside at code (address c)" "i < length code" "jumps (code ! i) c"
  shows "run M at code i c = Some (address c, set_address (at (Suc i)) c)"
proof -
  have "List.find (\<lambda>k. at k = address c) [0..<length code] = None"
    using assms(1) unfolding find_None_iff inside_def by (metis image_eqI list.set_map)
  then show ?thesis using assms(2-) by (subst run.simps) (simp add: step_def)
qed

subsection \<open>Addresses\<close>

text \<open>A memory without devices.\<close>

type_synonym memory = "u16 \<Rightarrow> u8"

definition memory_bus :: "memory bus" where
  "memory_bus = \<lparr>load = (\<lambda>p m. m p), store = (\<lambda>p v m. m(p := v))\<rparr>"

lemma memory_bus_simps [simp]: "load memory_bus p m = m p" "store memory_bus p v m = m(p := v)"
  by (simp_all add: memory_bus_def)

text \<open>\<open>inc pl\<close> increments the low byte of the address register and carries nothing into the high byte.\<close>

definition inc_pl :: "u16 \<Rightarrow> u16" where
  "inc_pl p = un16 (ucast p + 1) (ucast (drop_bit 8 p))"

lemma inc_pl_even: "even p \<Longrightarrow> inc_pl p = p + 1"
proof -
  assume p: "even p"
  moreover have "odd (ucast p :: u8) = odd p" by (simp add: bit_ucast_iff flip: bit_0)
  ultimately have bits: "p + 1 = p OR 1" "(ucast p :: u8) + 1 = ucast p OR 1"
    by (simp_all add: even_or_iff or_one_eq p)
  show ?thesis
    unfolding inc_pl_def bits
    by (rule bit_word_eqI) (auto simp: un16_def bit_or_iff bit_push_bit_iff bit_ucast_iff bit_drop_bit_eq bit_1_iff)
qed

lemma set_address_simps [simp]:
  "mem (set_address p c) = mem c" "reg_a (set_address p c) = reg_a c" "address (set_address p c) = p"
  by (simp_all add: address_def set_address_def)

lemma un16_inj [simp]: "un16 l h = un16 l' h' \<longleftrightarrow> l = l' \<and> h = h'"
  by (metis un16_hi un16_lo)

lemma un16_val: "unat (un16 l h) = unat l + 256 * unat h"
proof -
  have d: "push_bit 8 (ucast h :: u16) AND ucast l = 0"
    by (rule bit_word_eqI) (auto simp: bit_and_iff bit_push_bit_iff bit_ucast_iff dest: bit_imp_le_length)
  have "un16 l h = push_bit 8 (ucast h) + ucast l"
    unfolding un16_def by (rule disjunctive_add_eq_or [OF d, symmetric])
  then show ?thesis
    using unat_u8 [of l] unat_u8 [of h] by (simp add: unat_word_ariths push_bit_eq_mult unsigned_ucast_eq take_bit_eq_mod)
qed

lemmas cpu_simps = address_def set_address_def inc_pl_def [symmetric]

end
