(* ===== verification/Syscall.thy ===== *)
theory Syscall
  imports Ccpu
begin

section \<open>System calls (include/libsys/syscall.h, fat.h, lib/syscall.asm)\<close>

text \<open>
  A program outside of the operating system calls the file system through macros: each casts the address of
  \<open>syscall\<close> to a function type and passes the number of the call as the first argument. \<open>syscall\<close> jumps to
  the operating system's entry with the frame as it is, and there the function with that number takes the
  same arguments, its own first parameter being the unused number. So the type in a macro has to be the type of the
  function behind it. The first part holds the calls of the two headers and the prototypes they have to agree
  with; the second part the routine. The dispatcher at \<open>os_entry\<close> is not in this library, it is a parameter.
\<close>

subsection \<open>Calls and prototypes\<close>

datatype ctype = Tvoid | Tbool | Tchar | Tint | Tu8 | Tu16 | Tu32 | Tsize | Tentry | Tva_list
  | Tpointer (const: bool) (target: ctype)

text \<open>
  Sizes in bytes on this machine. \<open>Tentry\<close> is \<open>struct FatDirEntry\<close>; the size of a \<open>va_list\<close> is the compiler's,
  the argument \<open>va\<close>.
\<close>

fun ctype_size :: "nat \<Rightarrow> ctype \<Rightarrow> nat" where
  "ctype_size va Tvoid = 0" | "ctype_size va Tbool = 1" | "ctype_size va Tchar = 1" | "ctype_size va Tint = 2"
| "ctype_size va Tu8 = 1" | "ctype_size va Tu16 = 2" | "ctype_size va Tu32 = 4" | "ctype_size va Tsize = 2"
| "ctype_size va Tentry = 32" | "ctype_size va Tva_list = va" | "ctype_size va (Tpointer c t) = 2"

text \<open>The types \<open>const char *\<close>, \<open>void *\<close>, \<open>const void *\<close> and \<open>struct FatDirEntry *\<close>.\<close>

abbreviation Tname :: ctype where "Tname \<equiv> Tpointer True Tchar"
abbreviation Tdst :: ctype where "Tdst \<equiv> Tpointer False Tvoid"
abbreviation Tsrc :: ctype where "Tsrc \<equiv> Tpointer True Tvoid"
abbreviation Tentry_ptr :: ctype where "Tentry_ptr \<equiv> Tpointer False Tentry"

datatype signature = Signature (result: ctype) (params: "ctype list") (variadic: bool)

definition SYSCALL_FAT_OPEN_PATH :: u8 where "SYSCALL_FAT_OPEN_PATH = 0"
definition SYSCALL_FAT_READ :: u8 where "SYSCALL_FAT_READ = 1"
definition SYSCALL_FAT_WRITE :: u8 where "SYSCALL_FAT_WRITE = 2"
definition SYSCALL_FAT_CLOSE :: u8 where "SYSCALL_FAT_CLOSE = 3"
definition SYSCALL_FAT_TRUNCATE :: u8 where "SYSCALL_FAT_TRUNCATE = 4"
definition SYSCALL_FAT_SEEK_END :: u8 where "SYSCALL_FAT_SEEK_END = 5"
definition SYSCALL_FAT_GET_SIZE :: u8 where "SYSCALL_FAT_GET_SIZE = 6"
definition SYSCALL_FAT_GET_NEXT_DIR_ENTRY :: u8 where "SYSCALL_FAT_GET_NEXT_DIR_ENTRY = 7"
definition SYSCALL_FAT_MOUNT :: u8 where "SYSCALL_FAT_MOUNT = 8"
definition SYSCALL_EXEC :: u8 where "SYSCALL_EXEC = 9"
definition SYSCALL_GET_LAST_ERROR :: u8 where "SYSCALL_GET_LAST_ERROR = 11"
definition SYSCALL_REBOOT :: u8 where "SYSCALL_REBOOT = 12"
definition SYSCALL_FAT_TELL :: u8 where "SYSCALL_FAT_TELL = 13"
definition SYSCALL_FAT_SEEK :: u8 where "SYSCALL_FAT_SEEK = 14"
definition SYSCALL_PUTCHAR :: u8 where "SYSCALL_PUTCHAR = 15"
definition SYSCALL_FAT_PRINT_LAST_ERROR :: u8 where "SYSCALL_FAT_PRINT_LAST_ERROR = 16"
definition SYSCALL_GET_SHARED_MEM_PTR :: u8 where "SYSCALL_GET_SHARED_MEM_PTR = 17"
definition SYSCALL_GET_SHARED_MEM_SIZE :: u8 where "SYSCALL_GET_SHARED_MEM_SIZE = 18"

text \<open>The macros of fat.h: name, number, and the function type of the cast.\<close>

definition fat_calls :: "(string \<times> u8 \<times> signature) list" where
  "fat_calls = [
     (''fat_open_path'', SYSCALL_FAT_OPEN_PATH, Signature Tu8 [Tchar, Tname, Tu8] False),
     (''fat_read'', SYSCALL_FAT_READ, Signature Tu16 [Tchar, Tu8, Tdst, Tu16] False),
     (''fat_write'', SYSCALL_FAT_WRITE, Signature Tu16 [Tchar, Tu8, Tsrc, Tu16] False),
     (''fat_close'', SYSCALL_FAT_CLOSE, Signature Tbool [Tchar, Tu8] False),
     (''fat_truncate'', SYSCALL_FAT_TRUNCATE, Signature Tbool [Tchar, Tu8] False),
     (''fat_seek_end'', SYSCALL_FAT_SEEK_END, Signature Tbool [Tchar, Tu8] False),
     (''fat_get_size'', SYSCALL_FAT_GET_SIZE, Signature Tu32 [Tchar, Tu8] False),
     (''fat_get_next_dir_entry'', SYSCALL_FAT_GET_NEXT_DIR_ENTRY, Signature Tbool [Tchar, Tu8, Tentry_ptr, Tu8] False),
     (''fat_mount'', SYSCALL_FAT_MOUNT, Signature Tbool [Tchar] False),
     (''fat_exec'', SYSCALL_EXEC, Signature Tbool [Tchar, Tname, Tu8] True),
     (''fat_get_last_error'', SYSCALL_GET_LAST_ERROR, Signature Tu8 [Tchar] False),
     (''fat_tell'', SYSCALL_FAT_TELL, Signature Tu32 [Tchar, Tu8] False),
     (''fat_seek'', SYSCALL_FAT_SEEK, Signature Tbool [Tchar, Tu8, Tu32] False),
     (''fat_print_last_error'', SYSCALL_FAT_PRINT_LAST_ERROR, Signature Tvoid [Tchar] False)]"

text \<open>The macros of syscall.h; \<open>reboot\<close> calls \<open>syscall\<close> itself.\<close>

definition other_calls :: "(string \<times> u8 \<times> signature) list" where
  "other_calls = [
     (''reboot'', SYSCALL_REBOOT, Signature Tvoid [Tu8] False),
     (''syscall_putchar'', SYSCALL_PUTCHAR, Signature Tint [Tchar, Tint] False),
     (''get_shared_mem_ptr'', SYSCALL_GET_SHARED_MEM_PTR, Signature Tdst [Tchar] False),
     (''get_shared_mem_size'', SYSCALL_GET_SHARED_MEM_SIZE, Signature Tsize [Tchar] False)]"

text \<open>The prototypes of fat.h that the operating system sees.\<close>

definition fat_prototypes :: "(string \<times> signature) list" where
  "fat_prototypes = [
     (''fat_get_last_error'', Signature Tu8 [Tchar] False),
     (''fat_print_last_error'', Signature Tvoid [Tchar] False),
     (''fat_init'', Signature Tvoid [] False),
     (''fat_mount'', Signature Tbool [Tchar] False),
     (''fat_open_dir'', Signature Tu8 [Tentry_ptr] False),
     (''fat_get_next_dir_entry'', Signature Tbool [Tchar, Tu8, Tentry_ptr, Tu8] False),
     (''fat_open_file'', Signature Tu8 [Tentry_ptr, Tname, Tu8] False),
     (''fat_read'', Signature Tu16 [Tchar, Tu8, Tdst, Tu16] False),
     (''fat_write'', Signature Tu16 [Tchar, Tu8, Tsrc, Tu16] False),
     (''fat_truncate'', Signature Tbool [Tchar, Tu8] False),
     (''fat_seek_end'', Signature Tbool [Tchar, Tu8] False),
     (''fat_tell'', Signature Tu32 [Tchar, Tu8] False),
     (''fat_seek'', Signature Tbool [Tchar, Tu8, Tu32] False),
     (''fat_close'', Signature Tbool [Tchar, Tu8] False),
     (''fat_get_size'', Signature Tu32 [Tchar, Tu8] False),
     (''fat_get_dir_entry'', Signature Tentry_ptr [Tu8] False),
     (''fat_change_dir'', Signature Tbool [Tentry_ptr, Tname, Tentry_ptr] False),
     (''fat_exec'', Signature Tbool [Tchar, Tname, Tu8] True),
     (''fat_exec_fd'', Signature Tbool [Tchar, Tu8, Tu8, Tva_list] False),
     (''fat_find_path'', Signature Tu8 [Tname, Tu8] False),
     (''fat_open_path'', Signature Tu8 [Tchar, Tname, Tu8] False)]"

text \<open>
  Every macro of fat.h calls \<open>syscall\<close> through exactly the type of the prototype of the function of that name, whose
  first parameter takes the number; no result is larger than the eight bytes \<open>syscall\<close> copies, no parameter larger
  than the eight bytes of a frame's slot; and no two calls of the two headers have the same number. The functions behind
  the four macros of syscall.h are not in this library, so there is no prototype to compare their types with.
\<close>

lemma syscall_types_agree:
  "list_all (\<lambda>(name, nr, sig). map_of fat_prototypes name = Some sig \<and> params sig \<noteq> [] \<and> hd (params sig) = Tchar \<and>
     ctype_size va (result sig) \<le> 8 \<and> list_all (\<lambda>t. ctype_size va t \<le> 8) (params sig)) fat_calls"
  by (simp add: fat_calls_def fat_prototypes_def)

lemma syscall_numbers_distinct: "distinct (map (\<lambda>(name, nr, sig). nr) (fat_calls @ other_calls))"
  by code_simp

subsection \<open>The routine\<close>

text \<open>
  The memory is a function of the address. First what the routine does to it, then its instructions.
\<close>

definition frameb_ret_val :: u16 where "frameb_ret_val = 0xc800"

definition store2 :: "u16 \<Rightarrow> u8 \<Rightarrow> u8 \<Rightarrow> memory \<Rightarrow> memory" where
  "store2 p x y m = m(p := x, inc_pl p := y)"

definition load2 :: "u16 \<Rightarrow> memory \<Rightarrow> u8 \<times> u8" where
  "load2 p m = (m p, m (inc_pl p))"

text \<open>Two bytes of the return value, at the offset \<open>i\<close>.\<close>

definition copy_pair :: "u16 \<Rightarrow> u16 \<Rightarrow> memory \<Rightarrow> memory" where
  "copy_pair cc_ret i m = (let (a, b) = load2 (frameb_ret_val + i) m in store2 (cc_ret + i) a b m)"

text \<open>
  \<open>syscall\<close>: the return address \<open>ra\<close> is saved, the operating system runs (it need not return), eight
  bytes of its result are copied to where the compiler expects them, and the saved address is jumped to.
  \<open>cc_ret\<close> and \<open>syscall_ret\<close> are the addresses the linker gives \<open>__cc_ret\<close> and \<open>syscall_ret\<close>.
\<close>

definition syscall :: "u16 \<Rightarrow> u16 \<Rightarrow> (memory \<Rightarrow> memory option) \<Rightarrow> u16 \<Rightarrow> memory \<Rightarrow> (u16 \<times> memory) option" where
  "syscall cc_ret syscall_ret os ra m =
     map_option (\<lambda>m.
       let m = copy_pair cc_ret 6 (copy_pair cc_ret 4 (copy_pair cc_ret 2 (copy_pair cc_ret 0 m)));
           (lo, hi) = load2 syscall_ret m
       in (un16 lo hi, m))
     (os (store2 syscall_ret (ucast ra) (ucast (drop_bit 8 ra)) m))"

subsection \<open>The properties\<close>

text \<open>The eight bytes from an address on.\<close>

definition eight :: "u16 \<Rightarrow> u16 list" where
  "eight p = [p, p + 1, p + 2, p + 3, p + 4, p + 5, p + 6, p + 7]"

lemma copy_pair_even:
  "even cc_ret \<Longrightarrow> even i \<Longrightarrow> copy_pair cc_ret i m =
    m(cc_ret + i := m (frameb_ret_val + i), cc_ret + i + 1 := m (frameb_ret_val + i + 1))"
  by (simp add: copy_pair_def load2_def store2_def inc_pl_even frameb_ret_val_def)

text \<open>
  C17: When the operating system returns, having left the saved return address alone, \<open>syscall\<close> returns to its caller with
  the eight bytes of the operating system's result where the compiler expects them, and nothing else changed.
\<close>

theorem syscall_returns_result:
  assumes al: "even cc_ret" "even syscall_ret"
    and os: "os (store2 syscall_ret (ucast ra) (ucast (drop_bit 8 ra)) m) = Some m'"
    and saved: "load2 syscall_ret m' = (ucast ra, ucast (drop_bit 8 ra))"
    and apart: "set (eight cc_ret) \<inter> set (eight frameb_ret_val) = {}" "set (eight cc_ret) \<inter> {syscall_ret, syscall_ret + 1} = {}"
  shows "\<exists>t. syscall cc_ret syscall_ret os ra m = Some (ra, t) \<and>
    map t (eight cc_ret) = map m' (eight frameb_ret_val) \<and> (\<forall>p. p \<notin> set (eight cc_ret) \<longrightarrow> t p = m' p)"
proof -
  let ?t = "copy_pair cc_ret 6 (copy_pair cc_ret 4 (copy_pair cc_ret 2 (copy_pair cc_ret 0 m')))"
  have out: "?t p = m' p" if "p \<notin> set (eight cc_ret)" for p
    using that al(1) by (simp add: copy_pair_even eight_def add.assoc)
  have "map ?t (eight cc_ret) = map m' (eight frameb_ret_val)"
    using apart(1) al(1) by (simp add: copy_pair_even eight_def add.assoc)
  moreover have "load2 syscall_ret ?t = load2 syscall_ret m'"
    using apart(2) al(2) out by (auto simp: load2_def inc_pl_even)
  ultimately show ?thesis using os saved out by (intro exI [of _ ?t]) (simp add: syscall_def Let_def)
qed

theorem syscall_returns_result_witness:
  "\<exists>t. syscall 0x9000 0x9100 (\<lambda>m. Some (m(0xc800 := 0x12, 0xc801 := 0x34))) 0xb123 (\<lambda>_. 0) = Some (0xb123, t) \<and>
     t 0x9000 = 0x12 \<and> t 0x9001 = 0x34"
proof -
  have s: "inc_pl 0x9100 = 0x9101" by code_simp
  have hi: "ucast (drop_bit 8 (0xb123 :: u16)) = (0xb1 :: u8)" by code_simp
  show ?thesis
    using syscall_returns_result [of "0x9000" "0x9100" "\<lambda>m. Some (m(0xc800 := 0x12, 0xc801 := 0x34))" "0xb123" "\<lambda>_. 0"]
    by (auto simp: eight_def frameb_ret_val_def load2_def store2_def s hi)
qed

subsection \<open>The instructions\<close>

definition os_entry :: u16 where "os_entry = 0xb000"

definition copy_pair_code :: "u16 \<Rightarrow> u16 \<Rightarrow> instr list" where
  "copy_pair_code cc_ret i =
    [Ldi PH (hi8 (frameb_ret_val + i)), Ldi PL (lo8 (frameb_ret_val + i)), Ld RA, Inc PL, Ld RB,
     Ldi PH (hi8 (cc_ret + i)), Ldi PL (lo8 (cc_ret + i)), St RA, Inc PL, St RB]"

definition syscall_save :: "u16 \<Rightarrow> instr list" where
  "syscall_save syscall_ret =
    [Mov RA PL, Mov RB RA, Mov RA PH, Ldi PH (hi8 syscall_ret), Ldi PL (lo8 syscall_ret), St RB, Inc PL, St RA,
     Ldi PH (hi8 os_entry), Ldi PL (lo8 os_entry)]"

definition syscall_copy :: "u16 \<Rightarrow> u16 \<Rightarrow> instr list" where
  "syscall_copy cc_ret syscall_ret =
    copy_pair_code cc_ret 0 @ copy_pair_code cc_ret 2 @ copy_pair_code cc_ret 4 @ copy_pair_code cc_ret 6 @
    [Ldi PH (hi8 syscall_ret), Ldi PL (lo8 syscall_ret), Ld RA, Inc PL, Ld PH, Mov PL RA]"

definition syscall_code :: "u16 \<Rightarrow> u16 \<Rightarrow> instr list" where
  "syscall_code cc_ret syscall_ret =
    syscall_save syscall_ret @ [Jmp] @ syscall_copy cc_ret syscall_ret @ [Jmp]"

text \<open>
  A run of the code: up to the jump to \<open>os_entry\<close>, then the operating system on the whole processor state, from
  where it jumps to, to the end. The operating system comes back by a jump to the address it found in \<open>ph:pl\<close>.
\<close>

definition syscall_run ::
  "(nat \<Rightarrow> u16) \<Rightarrow> u16 \<Rightarrow> u16 \<Rightarrow> (memory cpu \<Rightarrow> memory cpu option) \<Rightarrow> memory cpu \<Rightarrow> (u16 \<times> memory cpu) option" where
  "syscall_run at cc_ret syscall_ret os c =
     (let code = syscall_code cc_ret syscall_ret in
      case run memory_bus at code 0 c of
        None \<Rightarrow> None
      | Some (p, t) \<Rightarrow>
          if p = os_entry \<and> address t = at 11 then
            (case os t of None \<Rightarrow> None | Some u \<Rightarrow> run memory_bus at code 11 u)
          else Some (p, t))"

lemma exec_copy_pair:
  "mem (exec memory_bus (copy_pair_code cc_ret i) c) = copy_pair cc_ret i (mem c)"
  by (simp add: copy_pair_code_def copy_pair_def load2_def store2_def cpu_simps)

lemma exec_syscall_save:
  "address (exec memory_bus (syscall_save syscall_ret) c) = os_entry"
  "mem (exec memory_bus (syscall_save syscall_ret) c) = store2 syscall_ret (reg_pl c) (reg_ph c) (mem c)"
  by (simp_all add: syscall_save_def store2_def cpu_simps)

lemma exec_syscall_copy:
  fixes cc_ret and c :: "memory cpu"
  defines "m \<equiv> copy_pair cc_ret 6 (copy_pair cc_ret 4 (copy_pair cc_ret 2 (copy_pair cc_ret 0 (mem c))))"
  shows "mem (exec memory_bus (syscall_copy cc_ret syscall_ret) c) = m"
    and "address (exec memory_bus (syscall_copy cc_ret syscall_ret) c) = un16 (fst (load2 syscall_ret m)) (snd (load2 syscall_ret m))"
  by (simp_all add: syscall_copy_def exec_append exec_copy_pair m_def load2_def cpu_simps)

lemma straight_syscall: "list_all straight (syscall_save sr)" "list_all straight (syscall_copy cc_ret sr)"
  by (simp_all add: syscall_save_def syscall_copy_def copy_pair_code_def)

lemma length_syscall: "length (syscall_save sr) = 10" "length (syscall_copy cc_ret sr) = 46"
  by (simp_all add: syscall_save_def syscall_copy_def copy_pair_code_def)

lemma run_syscall_save:
  assumes "\<not> inside at (syscall_code cc_ret sr) os_entry"
  shows "run memory_bus at (syscall_code cc_ret sr) 0 c =
    Some (os_entry, set_address (at 11) (exec memory_bus (syscall_save sr) c))"
proof -
  have "run memory_bus at (syscall_code cc_ret sr) 0 c =
      run memory_bus at (syscall_code cc_ret sr) 10 (exec memory_bus (syscall_save sr) c)"
    using run_straight [of 0 "syscall_code cc_ret sr" "syscall_save sr" "Jmp # syscall_copy cc_ret sr @ [Jmp]"]
    by (simp add: syscall_code_def straight_syscall length_syscall)
  also have "\<dots> = Some (os_entry, set_address (at 11) (exec memory_bus (syscall_save sr) c))"
    using run_leave [of at "syscall_code cc_ret sr" "exec memory_bus (syscall_save sr) c" 10] assms
    by (simp add: exec_syscall_save syscall_code_def nth_append length_syscall)
  finally show ?thesis .
qed

lemma run_syscall_copy:
  fixes cc_ret sr and u :: "memory cpu"
  defines "t \<equiv> exec memory_bus (syscall_copy cc_ret sr) u"
  assumes "\<not> inside at (syscall_code cc_ret sr) (address t)"
  shows "run memory_bus at (syscall_code cc_ret sr) 11 u = Some (address t, set_address (at 58) t)"
proof -
  have "run memory_bus at (syscall_code cc_ret sr) 11 u = run memory_bus at (syscall_code cc_ret sr) 57 t"
    using run_straight [of 11 "syscall_code cc_ret sr" "syscall_copy cc_ret sr" "[Jmp]"]
    by (simp add: syscall_code_def straight_syscall length_syscall t_def)
  also have "\<dots> = Some (address t, set_address (at 58) t)"
    using run_leave [of at "syscall_code cc_ret sr" t 57] assms(2)
    by (simp add: syscall_code_def nth_append length_syscall)
  finally show ?thesis .
qed

text \<open>
  C18: The instructions of \<open>syscall\<close> do what the routine above says, on any placement outside of \<open>os_entry\<close> and the
  address jumped back to: started with the return address in \<open>ph:pl\<close> they leave to the same address with the same
  memory, and they do not come back exactly when the operating system does not.
\<close>

theorem syscall_code_refines:
  assumes os: "\<And>t. address t = at 11 \<Longrightarrow> map_option mem (os_cpu t) = os (mem t)"
    and entry: "\<not> inside at (syscall_code cc_ret syscall_ret) os_entry"
    and home: "\<And>p m. syscall cc_ret syscall_ret os (address c) (mem c) = Some (p, m) \<Longrightarrow>
      \<not> inside at (syscall_code cc_ret syscall_ret) p"
  shows "map_option (\<lambda>(p, t). (p, mem t)) (syscall_run at cc_ret syscall_ret os_cpu c) =
    syscall cc_ret syscall_ret os (address c) (mem c)"
proof -
  let ?t = "set_address (at 11) (exec memory_bus (syscall_save syscall_ret) c)"
  have m: "mem ?t = store2 syscall_ret (ucast (address c)) (ucast (drop_bit 8 (address c))) (mem c)"
    by (simp add: exec_syscall_save address_def)
  have o: "map_option mem (os_cpu ?t) = os (store2 syscall_ret (ucast (address c)) (ucast (drop_bit 8 (address c))) (mem c))"
    unfolding m [symmetric] by (rule os) simp
  show ?thesis
  proof (cases "os_cpu ?t")
    case None
    then show ?thesis using o by (simp add: syscall_run_def syscall_def run_syscall_save [OF entry])
  next
    case (Some u)
    let ?e = "exec memory_bus (syscall_copy cc_ret syscall_ret) u"
    have res: "syscall cc_ret syscall_ret os (address c) (mem c) = Some (address ?e, mem ?e)"
      using o [symmetric] Some by (simp add: syscall_def Let_def exec_syscall_copy split_beta)
    show ?thesis
      using home [OF res] Some
      by (simp add: syscall_run_def run_syscall_save [OF entry] run_syscall_copy res)
  qed
qed

theorem syscall_code_refines_witness:
  "let at = (\<lambda>i. 0x1000 + of_nat i) :: nat \<Rightarrow> u16;
       c = \<lparr>reg_a = 0, reg_b = 0, reg_pl = 0x23, reg_ph = 0xa1, carry = False, zero = False, mem = \<lambda>_. 0\<rparr> in
   map_option (\<lambda>(p, t). (p, mem t 0x9000)) (syscall_run at 0x9000 0x9100 (\<lambda>t. Some (t\<lparr>mem := (mem t)(0xc800 := 7)\<rparr>)) c) =
     Some (0xa123, 7)"
proof -
  let ?at = "\<lambda>i. 0x1000 + of_nat i :: u16"
  let ?c = "\<lparr>reg_a = 0, reg_b = 0, reg_pl = 0x23, reg_ph = 0xa1, carry = False, zero = False, mem = \<lambda>_. 0\<rparr> :: memory cpu"
  let ?os = "\<lambda>m. Some (m(0xc800 := 7)) :: memory option"
  have v: "\<exists>m. syscall 0x9000 0x9100 ?os (address ?c) (mem ?c) = Some (0xa123, m) \<and> m 0x9000 = 7"
    by (rule exI [of _ "snd (the (syscall 0x9000 0x9100 ?os (address ?c) (mem ?c)))"]) code_simp
  then obtain m where m: "syscall 0x9000 0x9100 ?os (address ?c) (mem ?c) = Some (0xa123, m)" "m 0x9000 = 7" by blast
  have i: "\<not> inside ?at (syscall_code 0x9000 0x9100) os_entry" "\<not> inside ?at (syscall_code 0x9000 0x9100) 0xa123"
    by code_simp+
  have "map_option (\<lambda>(p, t). (p, mem t))
      (syscall_run ?at 0x9000 0x9100 (\<lambda>t. Some (t\<lparr>mem := (mem t)(0xc800 := 7)\<rparr>)) ?c) = Some (0xa123, m)"
    using syscall_code_refines [of ?at "\<lambda>t. Some (t\<lparr>mem := (mem t)(0xc800 := 7)\<rparr>)" ?os "0x9000" "0x9100" ?c] i m(1)
    by simp
  then show ?thesis using m(2) by (auto simp: Let_def)
qed

end
