(* ===== verification/LoadCode.thy ===== *)
theory LoadCode
  imports Ccpu FatExec
begin

section \<open>Loading and starting a program: the assembly routines (lib/fat/loload.asm, lib/fat/lorun.asm)\<close>

text \<open>
  The addresses below 0x8000 are the ROM or the low RAM, as the lowest bit of the segment register at 0xff02 says.
  \<open>copy_to_loram\<close> lies in the high RAM, switches the low RAM on, copies a page of 256 bytes and switches it
  off again. \<open>lorun\<close> sets the two stack pages, switches the low RAM on and jumps to address 0; when the
  program comes back it switches the low RAM off and restarts the system. What the memory does is the
  interface \<open>lo_memory\<close>; a board with two RAMs and a ROM provides it.
\<close>

subsection \<open>The code\<close>

definition SEGMENTS :: u16 where "SEGMENTS = 0xff02"
definition RET_SLOT :: u16 where "RET_SLOT = 0xc808"
definition DST_HI :: u16 where "DST_HI = 0xc800"
definition FRAME_ARGC :: u16 where "FRAME_ARGC = 0xc800"
definition FRAME_VA_HI :: u16 where "FRAME_VA_HI = 0xc809"
definition SP1_PAGE :: u16 where "SP1_PAGE = 0xfc01"
definition SP0_PAGE :: u16 where "SP0_PAGE = 0xfc00"

definition save_return :: "instr list" where
  "save_return = [Mov RA PL, Mov RB RA, Mov RA PH, Ldi PL (lo8 RET_SLOT), Ldi PH (hi8 RET_SLOT), St RB, Inc PL, St RA]"

definition set_segments :: "u8 \<Rightarrow> instr list" where
  "set_segments v = [Ldi PL (lo8 SEGMENTS), Ldi PH (hi8 SEGMENTS), Ldi RA v, St RA]"

definition copy_byte :: "u16 \<Rightarrow> u16 \<Rightarrow> instr list" where
  "copy_byte buf copy_loop =
    [Ldi PH (hi8 buf), Mov PL RA, Ld RB, Ldi PH (hi8 DST_HI), Ldi PL (lo8 DST_HI), Ld PH, Mov PL RA, St RB, Inc RA,
     Ldi PL (lo8 copy_loop), Ldi PH (hi8 copy_loop)]"

definition load_return :: "instr list" where
  "load_return = [Ldi PL (lo8 RET_SLOT), Ldi PH (hi8 RET_SLOT), Ld RA, Inc PL, Ld PH, Mov PL RA]"

text \<open>The label \<open>copy_loop\<close> is the address of the instruction 13.\<close>

definition copy_to_loram_code :: "(nat \<Rightarrow> u16) \<Rightarrow> u16 \<Rightarrow> instr list" where
  "copy_to_loram_code at buf =
    save_return @ set_segments 0xdf @ [Clr RA] @ copy_byte buf (at 13) @ [Jnc] @
    set_segments 0xde @ load_return @ [Jmp]"

text \<open>\<open>dec pl\<close> leads from \<open>SP1_PAGE\<close> to \<open>SP0_PAGE\<close>, and with the high byte of the frame to its first slot.\<close>

definition lorun_start :: "instr list" where
  "lorun_start =
    [Ldi PH (hi8 FRAME_ARGC), Ldi PL (lo8 FRAME_ARGC), Ld RB,
     Ldi PH (hi8 FRAME_VA_HI), Ldi PL (lo8 FRAME_VA_HI), Ld RA, Ldi PH (hi8 SP1_PAGE), Ldi PL (lo8 SP1_PAGE), St RA,
     Dec RA, Dec PL, St RA, Ldi PH (hi8 FRAME_ARGC), St RB] @
    set_segments 0xdf @ [Clr RA, Mov PL RA, Mov PH RA]"

definition lorun_restart :: "instr list" where
  "lorun_restart = set_segments 0xde @ [Clr RA, Mov PH RA, Mov PL RA]"

definition lorun_code :: "instr list" where
  "lorun_code = lorun_start @ [Jmp] @ lorun_restart @ [Jmp]"

subsection \<open>The memory\<close>

definition in_ram :: "u16 \<Rightarrow> bool" where
  "in_ram p \<longleftrightarrow> 0x8000 \<le> p \<and> p < 0xd000"

locale lo_memory =
  fixes M :: "'m bus"
    and lo_byte :: "'m \<Rightarrow> u16 \<Rightarrow> u8"
    and lo_on :: "'m \<Rightarrow> bool"
  assumes ram_ram: "in_ram p \<Longrightarrow> in_ram q \<Longrightarrow> load M p (store M q v m) = (if p = q then v else load M p m)"
    and ram_segments: "in_ram p \<Longrightarrow> v = 0xde \<or> v = 0xdf \<Longrightarrow> load M p (store M SEGMENTS v m) = load M p m"
    and ram_low: "in_ram p \<Longrightarrow> q < 0x8000 \<Longrightarrow> load M p (store M q v m) = load M p m"
    and low_ram: "in_ram q \<Longrightarrow> lo_byte (store M q v m) = lo_byte m"
    and low_segments: "lo_byte (store M SEGMENTS v m) = lo_byte m"
    and low_low: "q < 0x8000 \<Longrightarrow> lo_on m \<Longrightarrow> lo_byte (store M q v m) = (lo_byte m)(q := v)"
    and on_ram: "in_ram q \<Longrightarrow> lo_on (store M q v m) = lo_on m"
    and on_low: "q < 0x8000 \<Longrightarrow> lo_on (store M q v m) = lo_on m"
    and on_segments: "lo_on (store M SEGMENTS v m) = bit v 0"

text \<open>A board: its segment register, two RAMs and a ROM.\<close>

record board =
  segments :: u8
  rom :: "u16 \<Rightarrow> u8"
  low :: "u16 \<Rightarrow> u8"
  high :: "u16 \<Rightarrow> u8"

definition board_on :: "board \<Rightarrow> bool" where
  "board_on b = bit (segments b) 0"

definition board_bus :: "board bus" where
  "board_bus = \<lparr>
     load = (\<lambda>p b. if 0x8000 \<le> p then high b p else if board_on b then low b p else rom b p),
     store = (\<lambda>p v b. if p = SEGMENTS then b\<lparr>segments := v\<rparr>
       else if 0x8000 \<le> p then b\<lparr>high := (high b)(p := v)\<rparr>
       else if board_on b then b\<lparr>low := (low b)(p := v)\<rparr> else b)\<rparr>"

interpretation board: lo_memory board_bus low board_on
proof unfold_locales
qed (auto simp: board_bus_def board_on_def in_ram_def SEGMENTS_def)

subsection \<open>The copying loop\<close>

lemma in_page: "hi8 p = h \<longleftrightarrow> p = un16 (lo8 p) h"
  by (metis un16_hi un16_split)

lemma low_page: "h < 0x80 \<Longrightarrow> un16 l h < 0x8000"
  using unat_u8 [of l] by (simp add: word_less_nat_alt un16_val)

lemma ram_page: "0x80 \<le> h \<Longrightarrow> h < 0xd0 \<Longrightarrow> in_ram (un16 l h)"
  using unat_u8 [of l] by (simp add: in_ram_def word_less_nat_alt word_le_nat_alt un16_val)

lemma frame_simps [simp]:
  "in_ram RET_SLOT" "in_ram (inc_pl RET_SLOT)" "in_ram DST_HI" "RET_SLOT \<noteq> inc_pl RET_SLOT"
  "DST_HI \<noteq> RET_SLOT" "DST_HI \<noteq> inc_pl RET_SLOT"
  by code_simp+

text \<open>The page \<open>d\<close> of the low RAM from its byte \<open>i\<close> on is the buffer's, the rest and the memory above as before.\<close>

definition page_copied ::
  "'m bus \<Rightarrow> ('m \<Rightarrow> u16 \<Rightarrow> u8) \<Rightarrow> u16 \<Rightarrow> u8 \<Rightarrow> nat \<Rightarrow> 'm \<Rightarrow> 'm \<Rightarrow> bool" where
  "page_copied M lo_byte buf d i m m' \<longleftrightarrow>
     (\<forall>p. lo_byte m' p = (if hi8 p = d \<and> i \<le> unat (lo8 p) then load M (un16 (lo8 p) (hi8 buf)) m else lo_byte m p)) \<and>
     (\<forall>p. in_ram p \<longrightarrow> load M p m' = load M p m)"

lemma code_split:
  "length (copy_to_loram_code at buf) = 36"
  "drop 0 (copy_to_loram_code at buf) = (save_return @ set_segments 0xdf @ [Clr RA]) @ drop 13 (copy_to_loram_code at buf)"
  "drop 13 (copy_to_loram_code at buf) = copy_byte buf (at 13) @ drop 24 (copy_to_loram_code at buf)"
  "drop 25 (copy_to_loram_code at buf) = (set_segments 0xde @ load_return) @ drop 35 (copy_to_loram_code at buf)"
  "copy_to_loram_code at buf ! 24 = Jnc" "copy_to_loram_code at buf ! 35 = Jmp"
  by (simp_all add: copy_to_loram_code_def save_return_def set_segments_def copy_byte_def load_return_def)

lemma code_straight:
  "list_all straight (save_return @ set_segments 0xdf @ [Clr RA])" "list_all straight (copy_byte buf l)"
  "list_all straight (set_segments 0xde @ load_return)"
  by (simp_all add: save_return_def set_segments_def copy_byte_def load_return_def)

lemma code_lengths:
  "length (save_return @ set_segments 0xdf @ [Clr RA]) = 13" "length (copy_byte buf l) = 11"
  "length (set_segments 0xde @ load_return) = 10"
  by (simp_all add: save_return_def set_segments_def copy_byte_def load_return_def)

lemma code_runs:
  "run M at (copy_to_loram_code at buf) 0 c =
    run M at (copy_to_loram_code at buf) 13 (exec M (save_return @ set_segments 0xdf @ [Clr RA]) c)"
  "run M at (copy_to_loram_code at buf) 13 c = run M at (copy_to_loram_code at buf) 24 (exec M (copy_byte buf (at 13)) c)"
  "run M at (copy_to_loram_code at buf) 25 c =
    run M at (copy_to_loram_code at buf) 35 (exec M (set_segments 0xde @ load_return) c)"
  using run_straight [OF code_split(2) code_straight(1), of M at at buf c]
    run_straight [OF code_split(3) code_straight(2), of M at at buf c]
    run_straight [OF code_split(4) code_straight(3), of M at at buf c]
  unfolding code_lengths by simp_all

context lo_memory begin

lemma exec_copy_byte:
  fixes at buf c d
  defines "t \<equiv> exec M (copy_byte buf (at 13)) c"
  assumes d: "load M DST_HI (mem c) = d"
  shows "mem t = store M (un16 (reg_a c) d) (load M (un16 (reg_a c) (hi8 buf)) (mem c)) (mem c)"
    and "reg_a t = reg_a c + 1" "carry t = (reg_a c = 0xff)" "address t = at 13"
  by (simp_all add: t_def copy_byte_def cpu_simps d)

lemma page_copied_none: "page_copied M lo_byte buf d 256 m m"
proof -
  have "\<not> 256 \<le> unat x" for x :: u8 using unat_u8 [of x] by simp
  then show ?thesis by (simp add: page_copied_def)
qed

lemma page_copied_step:
  fixes a d buf
  defines "m1 m \<equiv> store M (un16 a d) (load M (un16 a (hi8 buf)) m) m"
  assumes d: "d < 0x80" and buf: "0x80 \<le> hi8 buf" "hi8 buf < 0xd0" and on: "lo_on m"
    and rest: "page_copied M lo_byte buf d (Suc (unat a)) (m1 m) m'"
  shows "page_copied M lo_byte buf d (unat a) m m'"
proof -
  have same: "load M p (m1 m) = load M p m" if "in_ram p" for p
    using that low_page [OF d] by (simp add: m1_def ram_low)
  have byte: "lo_byte (m1 m) = (lo_byte m)(un16 a d := load M (un16 a (hi8 buf)) m)"
    using low_page [OF d] on by (simp add: m1_def low_low)
  have split: "unat a \<le> unat x \<longleftrightarrow> Suc (unat a) \<le> unat x \<or> x = a" for x :: u8
    by (metis Suc_leI le_less_Suc_eq le_neq_implies_less nat_le_linear not_less_eq_eq word_unat_eq_iff)
  have other: "p \<noteq> un16 a d" if "hi8 p \<noteq> d \<or> lo8 p \<noteq> a" for p using that by auto
  show ?thesis
    using rest unfolding page_copied_def byte split by (auto simp: same ram_page [OF buf])
qed

lemma copy_loop:
  assumes "placed at (copy_to_loram_code at buf)" "d < 0x80" "0x80 \<le> hi8 buf" "hi8 buf < 0xd0"
    and "lo_on (mem c)" "load M DST_HI (mem c) = d"
  shows "\<exists>t. run M at (copy_to_loram_code at buf) 13 c = run M at (copy_to_loram_code at buf) 25 t \<and>
    lo_on (mem t) \<and> page_copied M lo_byte buf d (unat (reg_a c)) (mem c) (mem t)"
  using assms(5,6)
proof (induction "255 - unat (reg_a c)" arbitrary: c rule: less_induct)
  case less
  let ?code = "copy_to_loram_code at buf"
  let ?c = "exec M (copy_byte buf (at 13)) c"
  have r: "run M at ?code 13 c = run M at ?code 24 ?c"
    by (rule code_runs(2))
  have on: "lo_on (mem ?c)" "load M DST_HI (mem ?c) = d"
    using less.prems low_page [OF assms(2)] by (simp_all add: exec_copy_byte on_low ram_low)
  show ?case
  proof (cases "reg_a c = 0xff")
    case True
    then have "run M at ?code 24 ?c = run M at ?code 25 (exec1 M Jnc ?c)"
      by (subst run_next) (simp_all add: code_split exec_copy_byte [OF less.prems(2)])
    then show ?thesis
      using r on page_copied_step [OF assms(2-4) less.prems(1), of "reg_a c"] page_copied_none True
      by (intro exI [of _ ?c]) (simp add: exec_copy_byte [OF less.prems(2)])
  next
    case False
    let ?s = "set_address (at 25) ?c"
    have u: "unat (reg_a c + 1) = Suc (unat (reg_a c))" and lt: "unat (reg_a c) < 255"
      using False unat_u8 [of "reg_a c"] by (auto simp: word_unat_eq_iff unat_word_ariths)
    have j: "run M at ?code 24 ?c = run M at ?code 13 ?s"
      using run_jump [OF assms(1), of 13 ?c 24] False
      by (simp add: code_split exec_copy_byte [OF less.prems(2)])
    have a: "reg_a ?s = reg_a c + 1"
      by (simp add: exec_copy_byte [OF less.prems(2)])
    have "255 - unat (reg_a ?s) < 255 - unat (reg_a c)" using lt by (simp add: a u del: set_address_simps)
    then obtain t where "run M at ?code 13 ?s = run M at ?code 25 t" "lo_on (mem t)"
        "page_copied M lo_byte buf d (Suc (unat (reg_a c))) (mem ?c) (mem t)"
      using less.hyps [of ?s] on unfolding a u by auto
    then show ?thesis
      using r j page_copied_step [OF assms(2-4) less.prems(1), of "reg_a c"]
      by (intro exI [of _ t]) (simp add: exec_copy_byte [OF less.prems(2)])
  qed
qed

lemma exec_prologue:
  fixes c
  defines "t \<equiv> exec M (save_return @ set_segments 0xdf @ [Clr RA]) c"
  shows "mem t = store M SEGMENTS 0xdf (store M (inc_pl RET_SLOT) (hi8 (address c)) (store M RET_SLOT (lo8 (address c)) (mem c)))"
    and "reg_a t = 0"
  by (simp_all add: t_def save_return_def set_segments_def cpu_simps)

lemma exec_epilogue:
  fixes c
  defines "t \<equiv> exec M (set_segments 0xde @ load_return) c"
  shows "mem t = store M SEGMENTS 0xde (mem c)"
    and "address t = un16 (load M RET_SLOT (mem c)) (load M (inc_pl RET_SLOT) (mem c))"
  by (simp_all add: t_def set_segments_def load_return_def cpu_simps) (simp_all add: ram_segments)

lemma copy_to_loram_run:
  assumes "placed at (copy_to_loram_code at buf)" "\<not> inside at (copy_to_loram_code at buf) (address c)"
    and dst: "load M DST_HI (mem c) = d" "d < 0x80" and buf: "0x80 \<le> hi8 buf" "hi8 buf < 0xc8"
  shows "\<exists>t. run M at (copy_to_loram_code at buf) 0 c = Some (address c, t) \<and> \<not> lo_on (mem t) \<and>
    (\<forall>p. lo_byte (mem t) p = (if hi8 p = d then load M (un16 (lo8 p) (hi8 buf)) (mem c) else lo_byte (mem c) p)) \<and>
    (\<forall>p. in_ram p \<and> p \<notin> {RET_SLOT, inc_pl RET_SLOT} \<longrightarrow> load M p (mem t) = load M p (mem c))"
proof -
  let ?code = "copy_to_loram_code at buf"
  let ?s = "exec M (save_return @ set_segments 0xdf @ [Clr RA]) c"
  have s: "run M at ?code 0 c = run M at ?code 13 ?s"
    by (rule code_runs(1))
  have m: "lo_on (mem ?s)" "lo_byte (mem ?s) = lo_byte (mem c)"
      "\<And>p. in_ram p \<Longrightarrow> load M p (mem ?s) = (if p = RET_SLOT then lo8 (address c)
         else if p = inc_pl RET_SLOT then hi8 (address c) else load M p (mem c))"
    by (auto simp: exec_prologue on_segments low_segments low_ram ram_segments ram_ram)
  have b: "hi8 buf < 0xd0" using buf(2) by (rule less_trans) simp
  obtain t where t: "run M at ?code 13 ?s = run M at ?code 25 t"
      "page_copied M lo_byte buf d 0 (mem ?s) (mem t)"
    using copy_loop [OF assms(1) dst(2) buf(1) b m(1)] dst(1) by (auto simp: m(3) exec_prologue(2))
  let ?e = "exec M (set_segments 0xde @ load_return) t"
  have "address ?e = address c"
    using t(2) by (simp add: exec_epilogue page_copied_def m(3) frame_simps(4) [symmetric])
  moreover have "run M at ?code 25 t = Some (address ?e, set_address (at 36) ?e)"
    using run_leave [of at ?code ?e 35] assms(2) calculation by (simp add: code_runs(3) code_split)
  moreover have "un16 x (hi8 buf) \<noteq> RET_SLOT" "un16 x (hi8 buf) \<noteq> inc_pl RET_SLOT" for x
  proof -
    have "hi8 RET_SLOT = 0xc8" "hi8 (inc_pl RET_SLOT) = 0xc8" by code_simp+
    then show "un16 x (hi8 buf) \<noteq> RET_SLOT" "un16 x (hi8 buf) \<noteq> inc_pl RET_SLOT"
      using buf(2) by (metis un16_hi order_less_irrefl)+
  qed
  ultimately show ?thesis
    using s t m ram_page [OF buf(1) b]
    by (intro exI [of _ "set_address (at 36) ?e"])
       (auto simp: exec_epilogue on_segments low_segments ram_segments page_copied_def)
qed

end

subsection \<open>The page copied\<close>

text \<open>What the model of \<open>fat_exec\<close> sees of the memory: the low RAM and the buffer as byte lists.\<close>

definition seen :: "'m bus \<Rightarrow> ('m \<Rightarrow> u16 \<Rightarrow> u8) \<Rightarrow> u16 \<Rightarrow> 'm \<Rightarrow> 'd machine \<Rightarrow> bool" where
  "seen M lo_byte buf m s \<longleftrightarrow>
     lo_ram s = map (\<lambda>i. lo_byte m (of_nat i)) [0..<32768] \<and>
     loload_buf s = map (\<lambda>i. load M (buf + of_nat i) m) [0..<256]"

lemma un16_nat: "i < 65536 \<Longrightarrow> of_nat i = un16 (of_nat (i mod 256)) (of_nat (i div 256))"
  by (simp add: word_unat_eq_iff un16_val unat_of_nat)

lemma aligned_page: "lo8 buf = 0 \<Longrightarrow> i < 256 \<Longrightarrow> buf + of_nat i = un16 (of_nat i) (hi8 buf)"
proof -
  assume a: "lo8 buf = 0" "i < 256"
  then have b: "unat buf = 256 * unat (hi8 buf)" using un16_val [of "lo8 buf" "hi8 buf"] unfolding un16_split by simp
  show "buf + of_nat i = un16 (of_nat i) (hi8 buf)"
    unfolding word_unat_eq_iff using unat_u8 [of "hi8 buf"] a(2) by (simp add: un16_val unat_word_ariths unat_of_nat b)
qed

lemma page_index:
  fixes i k :: nat
  shows "i div 256 = k \<longleftrightarrow> 256 * k \<le> i \<and> i < 256 * k + 256"
    and "256 * k \<le> i \<Longrightarrow> i < 256 * k + 256 \<Longrightarrow> i - 256 * k = i mod 256"
proof -
  have e: "i = 256 * (i div 256) + i mod 256" "i mod 256 < 256" by simp_all
  show *: "i div 256 = k \<longleftrightarrow> 256 * k \<le> i \<and> i < 256 * k + 256"
  proof
    assume "256 * k \<le> i \<and> i < 256 * k + 256"
    then show "i div 256 = k" using e by linarith
  qed (use e in linarith)
  show "i - 256 * k = i mod 256" if "256 * k \<le> i" "i < 256 * k + 256"
    using that e * by linarith
qed

lemma copied_list:
  assumes "d < (0x80 :: u8)" "lo8 buf = 0"
    and "\<And>p. g p = (if hi8 p = d then h (un16 (lo8 p) (hi8 buf)) else f p)"
  shows "map (\<lambda>i. g (of_nat i)) [0..<32768] =
    splice_at (map (\<lambda>i. f (of_nat i)) [0..<32768]) (256 * unat d) (map (\<lambda>i. h (buf + of_nat i)) [0..<256])"
proof (rule nth_equalityI)
  have d: "256 * unat d + 256 \<le> 32768" using assms(1) by (simp add: word_less_nat_alt)
  then show "length (map (\<lambda>i. g (of_nat i)) [0..<32768]) =
    length (splice_at (map (\<lambda>i. f (of_nat i)) [0..<32768]) (256 * unat d) (map (\<lambda>i. h (buf + of_nat i)) [0..<256]))"
    by simp
  fix i assume "i < length (map (\<lambda>i. g (of_nat i)) [0..<32768])"
  then have i: "i < 32768" by simp
  have u: "(of_nat i :: u16) = un16 (of_nat (i mod 256)) (of_nat (i div 256))" using i by (intro un16_nat) simp
  have page: "of_nat (i div 256) = d \<longleftrightarrow> 256 * unat d \<le> i \<and> i < 256 * unat d + 256"
  proof -
    have "i div 256 < 256" using i by simp
    then have "of_nat (i div 256) = d \<longleftrightarrow> i div 256 = unat d" by (simp add: word_unat_eq_iff unat_of_nat)
    then show ?thesis by (simp add: page_index(1))
  qed
  show "map (\<lambda>i. g (of_nat i)) [0..<32768] ! i =
    splice_at (map (\<lambda>i. f (of_nat i)) [0..<32768]) (256 * unat d) (map (\<lambda>i. h (buf + of_nat i)) [0..<256]) ! i"
  proof (cases "256 * unat d \<le> i \<and> i < 256 * unat d + 256")
    case True
    then have "of_nat (i div 256) = d" "i - 256 * unat d = i mod 256" using page page_index(2) by blast+
    then show ?thesis
      using d i True aligned_page [OF assms(2), of "i mod 256"] by (simp add: nth_splice_at assms(3) u)
  next
    case False
    then show ?thesis using d i page by (auto simp: nth_splice_at assms(3) u)
  qed
qed

text \<open>
  C19: On a memory with the interface above the instructions of \<open>copy_to_loram\<close> do what the model of \<open>fat_exec\<close> takes them
  to do: called with a page below 0x80 they come back to the caller with exactly that page of the low RAM replaced by the
  buffer, the low RAM switched off, and no other byte of the memory above changed but the saved return address.
\<close>

theorem copy_to_loram_refines:
  assumes "lo_memory M lo_byte lo_on"
    and code: "placed at (copy_to_loram_code at buf)" "\<not> inside at (copy_to_loram_code at buf) (address c)"
    and dst: "load M DST_HI (mem c) < 0x80" and buf: "lo8 buf = 0" "0x80 \<le> hi8 buf" "hi8 buf < 0xc8"
    and s: "seen M lo_byte buf (mem c) s"
  shows "\<exists>t s'. run M at (copy_to_loram_code at buf) 0 c = Some (address c, t) \<and>
    copy_to_loram (load M DST_HI (mem c)) s = Some (Inr ((), s')) \<and> seen M lo_byte buf (mem t) s' \<and> \<not> lo_on (mem t) \<and>
    (\<forall>p. in_ram p \<and> p \<notin> {RET_SLOT, inc_pl RET_SLOT} \<longrightarrow> load M p (mem t) = load M p (mem c))"
proof -
  let ?d = "load M DST_HI (mem c)"
  obtain t where t: "run M at (copy_to_loram_code at buf) 0 c = Some (address c, t)" "\<not> lo_on (mem t)"
      "\<And>p. lo_byte (mem t) p = (if hi8 p = ?d then load M (un16 (lo8 p) (hi8 buf)) (mem c) else lo_byte (mem c) p)"
      "\<And>p. in_ram p \<Longrightarrow> p \<notin> {RET_SLOT, inc_pl RET_SLOT} \<Longrightarrow> load M p (mem t) = load M p (mem c)"
    using lo_memory.copy_to_loram_run [OF assms(1) code refl dst buf(2,3)] by blast
  let ?s = "s\<lparr>lo_ram := splice_at (lo_ram s) (256 * unat ?d) (loload_buf s)\<rparr>"
  have in_buf: "in_ram (buf + of_nat i)" "buf + of_nat i \<notin> {RET_SLOT, inc_pl RET_SLOT}" if "i < 256" for i
  proof -
    have "hi8 RET_SLOT = 0xc8" "hi8 (inc_pl RET_SLOT) = 0xc8" by code_simp+
    moreover have "hi8 buf < 0xd0" using buf(3) by (rule less_trans) simp
    ultimately show "in_ram (buf + of_nat i)" "buf + of_nat i \<notin> {RET_SLOT, inc_pl RET_SLOT}"
      unfolding aligned_page [OF buf(1) that] using ram_page [OF buf(2)] buf(3)
      by (simp, metis insertE empty_iff un16_hi order_less_irrefl)
  qed
  have "copy_to_loram ?d s = Some (Inr ((), ?s))"
    using s dst by (simp add: copy_to_loram_def seen_def word_less_nat_alt)
  moreover have "seen M lo_byte buf (mem t) ?s"
    using s copied_list [OF dst buf(1), of "lo_byte (mem t)" "\<lambda>p. load M p (mem c)" "lo_byte (mem c)", OF t(3)]
      t(4) in_buf by (simp add: seen_def)
  ultimately show ?thesis using t(1,2,4) by blast
qed

theorem copy_to_loram_refines_witness:
  "\<exists>t. run board_bus (\<lambda>i. 0xa000 + of_nat i) (copy_to_loram_code (\<lambda>i. 0xa000 + of_nat i) 0x9000) 0
      \<lparr>reg_a = 0, reg_b = 0, reg_pl = 0x34, reg_ph = 0xa9, carry = False, zero = False,
        mem = \<lparr>segments = 0xde, rom = \<lambda>_. 0xff, low = \<lambda>_. 0, high = (\<lambda>p. lo8 p)(DST_HI := 3)\<rparr>\<rparr> = Some (0xa934, t) \<and>
    low (mem t) 0x0305 = 5 \<and> low (mem t) 0x0405 = 0"
proof -
  let ?at = "\<lambda>i. 0xa000 + of_nat i :: u16"
  let ?m = "\<lparr>segments = 0xde, rom = \<lambda>_. 0xff, low = \<lambda>_. 0, high = (\<lambda>p. lo8 p)(DST_HI := 3)\<rparr>"
  let ?c = "\<lparr>reg_a = 0, reg_b = 0, reg_pl = 0x34, reg_ph = 0xa9, carry = False, zero = False, mem = ?m\<rparr>"
  have a: "address ?c = 0xa934" and d: "load board_bus DST_HI (mem ?c) = 3" by code_simp+
  have d': "load board_bus DST_HI (mem ?c) < 0x80" unfolding d by simp
  have code: "placed ?at (copy_to_loram_code ?at 0x9000)" "\<not> inside ?at (copy_to_loram_code ?at 0x9000) (address ?c)"
    unfolding a by code_simp+
  have buf: "lo8 0x9000 = 0" "0x80 \<le> hi8 0x9000" "hi8 0x9000 < 0xc8" by code_simp+
  obtain s0 :: "unit machine" where True by blast
  let ?s = "s0\<lparr>lo_ram := map (\<lambda>i. low (mem ?c) (of_nat i)) [0..<32768],
    loload_buf := map (\<lambda>i. load board_bus (0x9000 + of_nat i) (mem ?c)) [0..<256]\<rparr>"
  have s: "seen board_bus low 0x9000 (mem ?c) ?s" by (simp add: seen_def)
  obtain t s' where t: "run board_bus ?at (copy_to_loram_code ?at 0x9000) 0 ?c = Some (address ?c, t)"
      "copy_to_loram (load board_bus DST_HI (mem ?c)) ?s = Some (Inr ((), s'))" "seen board_bus low 0x9000 (mem t) s'"
    using copy_to_loram_refines [OF board.lo_memory_axioms code d' buf s] by blast
  have "lo_ram s' ! 0x305 = 5" "lo_ram s' ! 0x405 = 0"
    using t(2) unfolding d by (auto simp: copy_to_loram_def nth_splice_at board_bus_def DST_HI_def)
  then show ?thesis using t(1,3) unfolding a by (intro exI [of _ t]) (simp add: seen_def)
qed

subsection \<open>The program started\<close>

lemma lorun_split:
  "length lorun_code = 30" "lorun_code ! 21 = Jmp" "lorun_code ! 29 = Jmp"
  "drop 0 lorun_code = lorun_start @ drop 21 lorun_code" "drop 22 lorun_code = lorun_restart @ drop 29 lorun_code"
  "list_all straight lorun_start" "list_all straight lorun_restart" "length lorun_start = 21" "length lorun_restart = 7"
  by (simp_all add: lorun_code_def lorun_start_def lorun_restart_def set_segments_def)

lemma exec_lorun:
  "address (exec M lorun_start c) = 0" "address (exec M lorun_restart c) = 0"
  "mem (exec M lorun_restart c) = store M SEGMENTS 0xde (mem c)"
  by (simp_all add: lorun_start_def lorun_restart_def set_segments_def cpu_simps) (simp_all add: un16_def)

lemma sp_pages: "un16 (lo8 SP1_PAGE - 1) (hi8 SP1_PAGE) = SP0_PAGE" "un16 (lo8 SP1_PAGE - 1) (hi8 FRAME_ARGC) = FRAME_ARGC"
  by code_simp+

lemma exec_lorun_start:
  "mem (exec M lorun_start c) =
    store M SEGMENTS 0xdf (store M FRAME_ARGC (load M FRAME_ARGC (mem c))
      (store M SP0_PAGE (load M FRAME_VA_HI (mem c) - 1) (store M SP1_PAGE (load M FRAME_VA_HI (mem c)) (mem c))))"
  by (simp add: lorun_start_def set_segments_def address_def sp_pages)

text \<open>
  C20: On any memory \<open>lorun\<close> does four stores and no other: the page of the variable arguments to the one stack register and the
  page before it to the other, the number of arguments to the frame as the stack is mapped then, and the low RAM on; it leaves
  to address 0 with an address of its own to come back to, and coming back there means the low RAM off and address 0
  again: it never returns to its caller.
\<close>

theorem lorun_starts:
  assumes "\<not> inside at lorun_code 0"
  shows "(\<exists>t. run M at lorun_code 0 c = Some (0, t) \<and> address t = at 22 \<and>
      mem t = store M SEGMENTS 0xdf (store M FRAME_ARGC (load M FRAME_ARGC (mem c))
        (store M SP0_PAGE (load M FRAME_VA_HI (mem c) - 1) (store M SP1_PAGE (load M FRAME_VA_HI (mem c)) (mem c))))) \<and>
    (\<exists>t. run M at lorun_code 22 u = Some (0, t) \<and> mem t = store M SEGMENTS 0xde (mem u))"
proof -
  have "run M at lorun_code 0 c = run M at lorun_code 21 (exec M lorun_start c)"
    using run_straight [OF lorun_split(4,6), of M at c] by (simp add: lorun_split)
  also have "\<dots> = Some (0, set_address (at 22) (exec M lorun_start c))"
    using run_leave [of at lorun_code "exec M lorun_start c" 21] assms by (simp add: lorun_split exec_lorun)
  finally have start: "run M at lorun_code 0 c = Some (0, set_address (at 22) (exec M lorun_start c))" .
  have "run M at lorun_code 22 u = run M at lorun_code 29 (exec M lorun_restart u)"
    using run_straight [OF lorun_split(5,7), of M at u] by (simp add: lorun_split)
  also have "\<dots> = Some (0, set_address (at 30) (exec M lorun_restart u))"
    using run_leave [of at lorun_code "exec M lorun_restart u" 29] assms by (simp add: lorun_split exec_lorun)
  finally show ?thesis by (simp add: start exec_lorun_start exec_lorun)
qed

theorem lorun_starts_witness:
  "\<exists>t. run board_bus (\<lambda>i. 0xa000 + of_nat i) lorun_code 0
      \<lparr>reg_a = 0, reg_b = 0, reg_pl = 0, reg_ph = 0, carry = False, zero = False,
        mem = \<lparr>segments = 0xde, rom = \<lambda>_. 0, low = \<lambda>_. 0, high = (\<lambda>_. 0)(FRAME_ARGC := 2, FRAME_VA_HI := 0x40)\<rparr>\<rparr> = Some (0, t) \<and>
    high (mem t) SP1_PAGE = 0x40 \<and> high (mem t) SP0_PAGE = 0x3f \<and> high (mem t) FRAME_ARGC = 2 \<and> board_on (mem t)"
proof -
  let ?m = "\<lparr>segments = 0xde, rom = \<lambda>_. 0, low = \<lambda>_. 0, high = (\<lambda>_. 0)(FRAME_ARGC := 2, FRAME_VA_HI := 0x40)\<rparr>"
  let ?c = "\<lparr>reg_a = 0, reg_b = 0, reg_pl = 0, reg_ph = 0, carry = False, zero = False, mem = ?m\<rparr>"
  have i: "\<not> inside (\<lambda>i. 0xa000 + of_nat i) lorun_code 0" by code_simp
  show ?thesis
    using lorun_starts [of "\<lambda>i. 0xa000 + of_nat i" board_bus ?c ?c, OF i]
    by (auto simp: board_bus_def board_on_def SEGMENTS_def FRAME_ARGC_def FRAME_VA_HI_def SP0_PAGE_def SP1_PAGE_def)
qed

end
