(* ===== verification/CrcCode.thy ===== *)
theory CrcCode
  imports Crc Ccpu
begin

section \<open>The CRC routines, instruction by instruction (lib/crc.asm)\<close>

text \<open>
  \<open>crc_update\<close> and \<open>crc_update_zeroes\<close> on the register machine. Both are a loop over the bytes still to be taken,
  with the same turn in the middle: the index is the next byte combined with the lowest byte of the remainder, the other
  bytes move down, each combined with an entry of a table. They differ in what the bytes are: the memory between two
  pointers, or a number of zeroes. The locale \<open>crc_loop\<close> is what the loop relies on, interpreted for both.
\<close>

subsection \<open>The code\<close>

text \<open>
  All variables lie on the page \<open>0xc8\<close>, the frame of the arguments: the remainder at 0, the second and third argument at 8 and
  16, \<open>index\<close> at 24 and \<open>ret_addr\<close> at 40. \<open>T k\<close> is the page of the table \<open>k\<close>.
\<close>

abbreviation frame :: "u8 \<Rightarrow> u16" where "frame k \<equiv> un16 k 0xc8"

definition crc_save :: "instr list" where
  "crc_save = [Mov RA PL, Mov RB RA, Mov RA PH, Ldi PL 40, Ldi PH 0xc8, St RB, Inc PL, St RA]"

text \<open>\<open>crc[k] = crc[k + 1] ^ table[index]\<close>, and the four of them, from the index in \<open>a\<close> on.\<close>

definition crc_move :: "u8 \<Rightarrow> u8 \<Rightarrow> instr list" where
  "crc_move k T = [Ldi PL 24, Ld PL, Ldi PH T, Ld RA, Ldi PH 0xc8, Ldi PL (k + 1), Ld RB, Xor RA RB, Dec PL, St RA]"

definition crc_turn :: "(nat \<Rightarrow> u8) \<Rightarrow> instr list" where
  "crc_turn T =
    [Ldi PH (T 0), Mov PL RA, Ld RA, Ldi PH 0xc8, Ldi PL 1, Ld RB, Xor RA RB, Dec PL, St RA] @
    crc_move 1 (T 1) @ crc_move 2 (T 2) @
    [Ldi PL 24, Ld PL, Ldi PH (T 3), Ld RA, Ldi PH 0xc8, Ldi PL 3, St RA]"

definition crc_return :: "u16 \<Rightarrow> instr list" where
  "crc_return cc_ret =
    [Ldi PH 0xc8, Ldi PL 0, Ld RA, Inc PL, Ld RB, Ldi PH (hi8 cc_ret), Ldi PL (lo8 cc_ret), St RA, Inc PL, St RB,
     Ldi PH 0xc8, Ldi PL 2, Ld RA, Inc PL, Ld RB, Ldi PH (hi8 (cc_ret + 2)), Ldi PL (lo8 (cc_ret + 2)), St RA, Inc PL, St RB,
     Ldi PL 40, Ldi PH 0xc8, Ld RA, Inc PL, Ld PH, Mov PL RA]"

text \<open>
  The frame of both routines around the test of the loop, the loading of the index and the step to the next
  byte. The label of the loop is the address of instruction 8.
\<close>

definition crc_code :: "instr list \<Rightarrow> instr list \<Rightarrow> instr list \<Rightarrow> (nat \<Rightarrow> u8) \<Rightarrow> u16 \<Rightarrow> instr list" where
  "crc_code test index advance T cc_ret =
    crc_save @ test @ [Jz] @ (index @ crc_turn T @ advance) @ [Jmp] @ crc_return cc_ret @ [Jmp]"

text \<open>\<open>crc_update\<close>: while the second argument is not the third; the loop ends at instruction 85.\<close>

definition update_test :: "u16 \<Rightarrow> instr list" where
  "update_test loop_end =
    [Ldi PH 0xc8, Ldi PL 8, Ld RB, Ldi PL 16, Ld RA, Sub RB RA, Inc PL, Ld RA, Ldi PL 9, Ld PL, Sub RA PL, Or RA RB,
     Ldi PH (hi8 loop_end), Ldi PL (lo8 loop_end)]"

definition update_index :: "instr list" where
  "update_index =
    [Ldi PH 0xc8, Ldi PL 8, Ld RA, Inc PL, Ld PH, Mov PL RA, Ld RA, Ldi PH 0xc8, Ldi PL 0, Ld RB, Xor RA RB,
     Ldi PL 24, St RA]"

definition update_advance :: "u16 \<Rightarrow> instr list" where
  "update_advance loop =
    [Ldi PH 0xc8, Ldi PL 8, Ld RB, Inc PL, Ld RA, Inc RB, Adc0 RA, St RA, Dec PL, St RB,
     Ldi PH (hi8 loop), Ldi PL (lo8 loop)]"

definition crc_update_code :: "(nat \<Rightarrow> u16) \<Rightarrow> (nat \<Rightarrow> u8) \<Rightarrow> u16 \<Rightarrow> instr list" where
  "crc_update_code at T cc_ret = crc_code (update_test (at 85)) update_index (update_advance (at 8)) T cc_ret"

text \<open>\<open>crc_update_zeroes\<close>: while the second argument is not zero; the loop ends at instruction 71.\<close>

definition zeroes_test :: "u16 \<Rightarrow> instr list" where
  "zeroes_test loop_end =
    [Ldi PH 0xc8, Ldi PL 8, Ld RB, Inc PL, Ld RA, Or RA RB, Ldi PH (hi8 loop_end), Ldi PL (lo8 loop_end)]"

definition zeroes_index :: "instr list" where
  "zeroes_index = [Ldi PH 0xc8, Ldi PL 0, Ld RA, Ldi PL 24, St RA]"

definition zeroes_advance :: "u16 \<Rightarrow> instr list" where
  "zeroes_advance loop =
    [Ldi PH 0xc8, Ldi PL 8, Ld RB, Inc PL, Ld RA, Dec RB, Sbb0 RA, St RA, Dec PL, St RB,
     Ldi PH (hi8 loop), Ldi PL (lo8 loop)]"

definition crc_update_zeroes_code :: "(nat \<Rightarrow> u16) \<Rightarrow> (nat \<Rightarrow> u8) \<Rightarrow> u16 \<Rightarrow> instr list" where
  "crc_update_zeroes_code at T cc_ret = crc_code (zeroes_test (at 71)) zeroes_index (zeroes_advance (at 8)) T cc_ret"

subsection \<open>The turn\<close>

definition word_at :: "u16 \<Rightarrow> memory \<Rightarrow> u32" where
  "word_at p m = un32 (un16 (m p) (m (p + 1))) (un16 (m (p + 2)) (m (p + 3)))"

definition tables_at :: "(nat \<Rightarrow> u8) \<Rightarrow> memory \<Rightarrow> bool" where
  "tables_at T m \<longleftrightarrow> (\<forall>k < 4. T k \<noteq> 0xc8) \<and>
     (\<forall>x. m (un16 x (T 0)) = crc_table_0 ! unat x \<and> m (un16 x (T 1)) = crc_table_1 ! unat x \<and>
       m (un16 x (T 2)) = crc_table_2 ! unat x \<and> m (un16 x (T 3)) = crc_table_3 ! unat x)"

definition remainder :: "memory \<Rightarrow> u32" where
  "remainder m = un32 (un16 (m (frame 0)) (m (frame 1))) (un16 (m (frame 2)) (m (frame 3)))"

lemma exec_crc_turn:
  fixes c T
  defines "t \<equiv> exec memory_bus (crc_turn T) c"
  assumes tab: "tables_at T (mem c)" and i: "mem c (frame 24) = i" "reg_a c = i"
  shows "mem t = (mem c)(frame 0 := mem c (frame 1) XOR crc_table_0 ! unat i, frame 1 := mem c (frame 2) XOR crc_table_1 ! unat i,
      frame 2 := mem c (frame 3) XOR crc_table_2 ! unat i, frame 3 := crc_table_3 ! unat i)"
proof -
  have T: "T 0 \<noteq> 0xc8" "T 1 \<noteq> 0xc8" "T 2 \<noteq> 0xc8" "T 3 \<noteq> 0xc8" using tab by (simp_all add: tables_at_def)
  have v: "mem c (un16 x (T 0)) = crc_table_0 ! unat x" "mem c (un16 x (T 1)) = crc_table_1 ! unat x"
    "mem c (un16 x (T 2)) = crc_table_2 ! unat x" "mem c (un16 x (T 3)) = crc_table_3 ! unat x" for x
    using tab by (simp_all add: tables_at_def)
  show ?thesis
    by (simp add: t_def crc_turn_def crc_move_def address_def i T [unfolded One_nat_def] v [unfolded One_nat_def] Let_def xor.commute)
qed

lemma bytes_of_word:
  "byte_of 0 (un32 (un16 x0 x1) (un16 x2 x3)) = x0" "byte_of 1 (un32 (un16 x0 x1) (un16 x2 x3)) = x1"
  "byte_of 2 (un32 (un16 x0 x1) (un16 x2 x3)) = x2" "byte_of 3 (un32 (un16 x0 x1) (un16 x2 x3)) = x3"
  by (rule bit_word_eqI; simp add: byte_of_def un32_def un16_def bit_simps; auto dest: bit_imp_le_length)+

lemma remainder_turn:
  assumes i: "i = b XOR m (frame 0)" and m': "m' = m(frame 0 := m (frame 1) XOR crc_table_0 ! unat i,
      frame 1 := m (frame 2) XOR crc_table_1 ! unat i, frame 2 := m (frame 3) XOR crc_table_2 ! unat i, frame 3 := crc_table_3 ! unat i)"
    and rest: "\<And>k. k < 4 \<Longrightarrow> m'' (frame k) = m' (frame k)"
  shows "remainder m'' = crc_step (remainder m) b"
  unfolding crc_step_def table_step_def remainder_def bytes_of_word Let_def
  by (simp add: rest m' i [symmetric])

subsection \<open>The loop\<close>

text \<open>The variables' page is used by the routine alone.\<close>

definition off_frame :: "u16 \<Rightarrow> bool" where "off_frame p \<longleftrightarrow> hi8 p \<noteq> 0xc8"

text \<open>
  The contract: \<open>left m\<close> are the bytes still to be taken, \<open>ok m\<close> what the routine needs of the memory. The test
  looks only, and finds out whether there are any; the index is the first of them with the lowest byte of the remainder;
  and advancing takes it away.
\<close>

definition arguments :: "u16 \<Rightarrow> bool" where
  "arguments p \<longleftrightarrow> off_frame p \<or> p \<in> {frame 8, frame 9, frame 16, frame 17}"

lemma off_frame_frame [simp]: "\<not> off_frame (frame k)"
  by (simp add: off_frame_def)

lemma crc_parts:
  "length crc_save = 8" "length (crc_turn T) = 36" "length (crc_return cc_ret) = 26"
  "list_all straight crc_save" "list_all straight (crc_turn T)" "list_all straight (crc_return cc_ret)"
  by (simp_all add: crc_save_def crc_turn_def crc_move_def crc_return_def)

text \<open>The places of the parts of a routine.\<close>

lemma crc_code_at:
  assumes K: "K = crc_code test index advance T cc_ret" and b: "body = index @ crc_turn T @ advance"
  shows "drop 0 K = crc_save @ drop 8 K" "drop 8 K = test @ drop (8 + length test) K"
    "K ! (8 + length test) = Jz" "drop (9 + length test) K = body @ drop (9 + length test + length body) K"
    "K ! (9 + length test + length body) = Jmp"
    "drop (10 + length test + length body) K = crc_return cc_ret @ drop (36 + length test + length body) K"
    "K ! (36 + length test + length body) = Jmp" "length K = 37 + length test + length body"
proof -
  have K': "K = crc_save @ test @ [Jz] @ body @ [Jmp] @ crc_return cc_ret @ [Jmp]" using K b by (simp add: crc_code_def)
  show "drop 0 K = crc_save @ drop 8 K" "drop 8 K = test @ drop (8 + length test) K"
    "K ! (8 + length test) = Jz" "drop (9 + length test) K = body @ drop (9 + length test + length body) K"
    "K ! (9 + length test + length body) = Jmp"
    "drop (10 + length test + length body) K = crc_return cc_ret @ drop (36 + length test + length body) K"
    "K ! (36 + length test + length body) = Jmp" "length K = 37 + length test + length body"
    unfolding K' by (simp_all add: crc_parts nth_append drop_Cons')
qed

lemma exec_crc_return:
  fixes c and cc_ret
  defines "t \<equiv> exec memory_bus (crc_return cc_ret) c"
  assumes cc_ret: "even cc_ret" "\<forall>i < 4. off_frame (cc_ret + of_nat i)"
  shows "address t = un16 (mem c (frame 40)) (mem c (frame 41))" "word_at cc_ret (mem t) = remainder (mem c)"
    "\<forall>i < 4. p \<noteq> cc_ret + of_nat i \<Longrightarrow> mem t p = mem c p"
proof -
  have off: "off_frame cc_ret" "off_frame (cc_ret + 1)" "off_frame (cc_ret + 2)" "off_frame (cc_ret + 3)"
    using cc_ret(2) [rule_format, of 0] cc_ret(2) [rule_format, of 1] cc_ret(2) [rule_format, of 2] cc_ret(2) [rule_format, of 3]
    by simp_all
  then have n: "frame k \<noteq> cc_ret" "frame k \<noteq> cc_ret + 1" "frame k \<noteq> cc_ret + 2" "frame k \<noteq> cc_ret + 3"
      "cc_ret \<noteq> frame k" "cc_ret + 1 \<noteq> frame k" "cc_ret + 2 \<noteq> frame k" "cc_ret + 3 \<noteq> frame k" for k
    by (metis off_frame_frame)+
  have e: "even (cc_ret + 2)" using cc_ret(1) by simp
  have inc: "inc_pl cc_ret = cc_ret + 1" "inc_pl (cc_ret + 2) = cc_ret + 3"
    using inc_pl_even [OF cc_ret(1)] inc_pl_even [OF e] by (simp_all add: add.assoc)
  have m: "mem t = (mem c)(cc_ret := mem c (frame 0), cc_ret + 1 := mem c (frame 1), cc_ret + 2 := mem c (frame 2), cc_ret + 3 := mem c (frame 3))"
    and "address t = un16 (mem c (frame 40)) (mem c (frame 41))"
    by (simp_all add: t_def crc_return_def cpu_simps inc n)
  then show "address t = un16 (mem c (frame 40)) (mem c (frame 41))" by simp
  show "word_at cc_ret (mem t) = remainder (mem c)" by (simp add: m word_at_def remainder_def)
  show "mem t p = mem c p" if "\<forall>i < 4. p \<noteq> cc_ret + of_nat i"
    using that [rule_format, of 0] that [rule_format, of 1] that [rule_format, of 2] that [rule_format, of 3] by (simp add: m)
qed

locale crc_loop =
  fixes T :: "nat \<Rightarrow> u8" and test advance :: "u16 \<Rightarrow> instr list" and index :: "instr list"
    and left :: "memory \<Rightarrow> bytes" and ok :: "memory \<Rightarrow> bool"
  assumes code: "list_all straight (test e)" "list_all straight index" "list_all straight (advance e)"
    and tables: "ok m \<Longrightarrow> tables_at T m"
    and test: "mem (exec memory_bus (test e) c) = mem c" "address (exec memory_bus (test e) c) = e"
      "zero (exec memory_bus (test e) c) \<longleftrightarrow> left (mem c) = []"
    and index: "ok (mem c) \<Longrightarrow> left (mem c) = b # bs \<Longrightarrow> reg_a (exec memory_bus index c) = b XOR mem c (frame 0)"
      "ok (mem c) \<Longrightarrow> left (mem c) = b # bs \<Longrightarrow> mem (exec memory_bus index c) = (mem c)(frame 24 := b XOR mem c (frame 0))"
    and advance: "address (exec memory_bus (advance e) c) = e"
      "ok (mem c) \<Longrightarrow> left (mem c) = b # bs \<Longrightarrow>
        left (mem (exec memory_bus (advance e) c)) = bs \<and> ok (mem (exec memory_bus (advance e) c))"
      "p \<notin> {frame 8, frame 9} \<Longrightarrow> mem (exec memory_bus (advance e) c) p = mem c p"
    and same: "ok m \<Longrightarrow> (\<And>p. arguments p \<Longrightarrow> m' p = m p) \<Longrightarrow> left m' = left m \<and> ok m'"
begin

text \<open>One turn takes one byte.\<close>

lemma turn:
  fixes c e
  defines "t \<equiv> exec memory_bus (index @ crc_turn T @ advance e) c"
  assumes ok: "ok (mem c)" and b: "left (mem c) = b # bs"
  shows "remainder (mem t) = crc_step (remainder (mem c)) b" "left (mem t) = bs" "ok (mem t)" "address t = e"
    "off_frame p \<or> p \<in> {frame 40, frame 41} \<Longrightarrow> mem t p = mem c p"
proof -
  define c1 where "c1 = exec memory_bus index c"
  define c2 where "c2 = exec memory_bus (crc_turn T) c1"
  have t: "t = exec memory_bus (advance e) c2" by (simp add: t_def c1_def c2_def exec_append)
  let ?i = "b XOR mem c (frame 0)"
  have m1: "mem c1 = (mem c)(frame 24 := ?i)" "reg_a c1 = ?i" using index [OF ok b] by (simp_all add: c1_def)
  have "left (mem c1) = left (mem c) \<and> ok (mem c1)" by (rule same [OF ok]) (auto simp: m1 arguments_def)
  then have ok1: "left (mem c1) = b # bs" "ok (mem c1)" using b by simp_all
  have m2: "mem c2 = (mem c1)(frame 0 := mem c1 (frame 1) XOR crc_table_0 ! unat ?i, frame 1 := mem c1 (frame 2) XOR crc_table_1 ! unat ?i,
      frame 2 := mem c1 (frame 3) XOR crc_table_2 ! unat ?i, frame 3 := crc_table_3 ! unat ?i)"
    unfolding c2_def by (rule exec_crc_turn [OF tables [OF ok1(2)] _ m1(2)]) (simp add: m1)
  have "left (mem c2) = left (mem c1) \<and> ok (mem c2)" by (rule same [OF ok1(2)]) (auto simp: m2 arguments_def)
  then have ok2: "left (mem c2) = b # bs" "ok (mem c2)" using ok1 by simp_all
  show "left (mem t) = bs" "ok (mem t)" "address t = e" using advance(1,2) ok2 by (simp_all add: t)
  have "remainder (mem t) = crc_step (remainder (mem c1)) b"
  proof (rule remainder_turn [OF _ m2])
    show "?i = b XOR mem c1 (frame 0)" by (simp add: m1)
    show "mem t (frame k) = mem c2 (frame k)" if "k < 4" for k using that by (auto simp: t intro!: advance(3))
  qed
  moreover have "remainder (mem c1) = remainder (mem c)" by (simp add: remainder_def m1)
  ultimately show "remainder (mem t) = crc_step (remainder (mem c)) b" by simp
  show "mem t p = mem c p" if "off_frame p \<or> p \<in> {frame 40, frame 41}"
  proof -
    have "p \<notin> {frame 0, frame 1, frame 2, frame 3, frame 8, frame 9, frame 24}" using that by auto
    then show ?thesis using advance(3) [of p e c2] by (simp add: t m2 m1)
  qed
qed

text \<open>The loop, from the test at instruction 8 to its end at instruction \<open>j\<close>.\<close>

lemma loop:
  assumes K: "K = crc_code (test (at j)) index (advance (at 8)) T cc_ret" "placed at K"
    and j: "j = 10 + length (test (at j)) + length (index @ crc_turn T @ advance (at 8))"
    and "ok (mem c)"
  shows "\<exists>t. run memory_bus at K 8 c = run memory_bus at K j t \<and>
    remainder (mem t) = crc_update (remainder (mem c)) (left (mem c)) \<and>
    (\<forall>p. off_frame p \<or> p \<in> {frame 40, frame 41} \<longrightarrow> mem t p = mem c p)"
  using assms(4)
proof (induction "left (mem c)" arbitrary: c)
  let ?n = "length (test (at j))" and ?body = "index @ crc_turn T @ advance (at 8)"
  note part = crc_code_at [OF K(1) refl]
  let ?t = "\<lambda>c. exec memory_bus (test (at j)) c" and ?next = "set_address (at (9 + ?n))"
  have r: "run memory_bus at K 8 c = run memory_bus at K (8 + ?n) (?t c)" for c
    by (rule run_straight [OF part(2) code(1)])
  {
    case Nil
    have "zero (?t c)" using test(3) Nil(1) by simp
    then have "run memory_bus at K (8 + ?n) (?t c) = run memory_bus at K j (?next (?t c))"
      using run_jump [OF K(2), of j "?t c" "8 + ?n" memory_bus] j part(3,8) test(2) by simp
    then show ?case
      using r Nil(1) [symmetric] by (intro exI [of _ "?next (?t c)"]) (simp add: test(1) crc_update_def)
  next
    case (Cons b bs)
    let ?u = "exec memory_bus ?body (?t c)"
    have ok: "ok (mem (?t c))" "left (mem (?t c)) = b # bs" using Cons(2-) by (simp_all add: test(1))
    note t = turn [OF ok, where e = "at 8"]
    have ne: "left (mem c) \<noteq> []" using Cons(2) by (metis list.distinct(1))
    have "run memory_bus at K (8 + ?n) (?t c) = run memory_bus at K (9 + ?n) (?t c)"
      using run_next [of "8 + ?n" K "?t c" memory_bus at] part(3,8) test(3) [of "at j" c] ne by simp
    also have "\<dots> = run memory_bus at K (9 + ?n + length ?body) ?u"
      by (rule run_straight [OF part(4)]) (simp add: code crc_parts)
    also have "\<dots> = run memory_bus at K 8 (set_address (at (10 + ?n + length ?body)) ?u)"
      using run_jump [OF K(2), of 8 ?u "9 + ?n + length ?body" memory_bus] part(5,8) t(4) by (simp add: add.assoc)
    finally have loop: "run memory_bus at K 8 c = run memory_bus at K 8 (set_address (at (10 + ?n + length ?body)) ?u)"
      using r by simp
    let ?c = "set_address (at (10 + ?n + length ?body)) ?u"
    obtain v where v: "run memory_bus at K 8 ?c = run memory_bus at K j v"
      "remainder (mem v) = crc_update (remainder (mem ?c)) (left (mem ?c))"
      "\<forall>p. off_frame p \<or> p \<in> {frame 40, frame 41} \<longrightarrow> mem v p = mem ?c p"
      using Cons(1) [of ?c] t(2,3) by auto
    have "remainder (mem v) = crc_update (remainder (mem c)) (left (mem c))"
      using v(2) t(1,2) Cons(2) [symmetric] by (simp add: test(1) crc_update_def)
    moreover have "mem v p = mem c p" if "off_frame p \<or> p \<in> {frame 40, frame 41}" for p
      using v(3) [rule_format, OF that] t(5) [OF that] by (simp add: test(1))
    ultimately show ?case using loop v(1) by (intro exI [of _ v]) simp
  }
qed

lemma routine:
  assumes K: "K = crc_code (test (at j)) index (advance (at 8)) T cc_ret" "placed at K"
    and j: "j = 10 + length (test (at j)) + length (index @ crc_turn T @ advance (at 8))"
    and home: "\<not> inside at K (address c)" and ok: "ok (mem c)"
    and cc_ret: "even cc_ret" "\<forall>i < 4. off_frame (cc_ret + of_nat i)"
  shows "\<exists>t. run memory_bus at K 0 c = Some (address c, t) \<and>
    word_at cc_ret (mem t) = crc_update (remainder (mem c)) (left (mem c)) \<and>
    (\<forall>p. off_frame p \<and> (\<forall>i < 4. p \<noteq> cc_ret + of_nat i) \<longrightarrow> mem t p = mem c p)"
proof -
  note part = crc_code_at [OF K(1) refl]
  let ?s = "exec memory_bus crc_save c"
  have "run memory_bus at K 0 c = run memory_bus at K (0 + length crc_save) ?s"
    by (rule run_straight [OF part(1)]) (simp add: crc_parts)
  then have s: "run memory_bus at K 0 c = run memory_bus at K 8 ?s" by (simp add: crc_parts)
  have ms: "mem ?s = (mem c)(frame 40 := lo8 (address c), frame 41 := hi8 (address c))"
    by (simp add: crc_save_def address_def)
  have oks: "left (mem ?s) = left (mem c) \<and> ok (mem ?s)" by (rule same [OF ok]) (auto simp: ms arguments_def)
  obtain t where t: "run memory_bus at K 8 ?s = run memory_bus at K j t"
    "remainder (mem t) = crc_update (remainder (mem ?s)) (left (mem ?s))"
    "\<And>p. off_frame p \<or> p \<in> {frame 40, frame 41} \<Longrightarrow> mem t p = mem ?s p"
    using loop [OF K j, of ?s] oks by blast
  have j': "K ! (26 + j) = Jmp" "26 + j < length K" "drop j K = crc_return cc_ret @ drop (26 + j) K"
  proof -
    let ?l = "length (index @ crc_turn T @ advance (at 8))"
    have e: "10 + length (test (at j)) + ?l = j" "36 + length (test (at j)) + ?l = 26 + j" "37 + length (test (at j)) + ?l = 27 + j"
      using j by simp_all
    show "K ! (26 + j) = Jmp" "26 + j < length K" "drop j K = crc_return cc_ret @ drop (26 + j) K"
      using part(6-8) unfolding e by simp_all
  qed
  let ?u = "exec memory_bus (crc_return cc_ret) t"
  have "run memory_bus at K j t = run memory_bus at K (j + length (crc_return cc_ret)) ?u"
    by (rule run_straight [OF j'(3)]) (simp add: crc_parts)
  then have u: "run memory_bus at K j t = run memory_bus at K (26 + j) ?u" by (simp add: crc_parts add.commute)
  note ret = exec_crc_return [OF cc_ret, where c = t]
  have "address ?u = address c" using t(3) [of "frame 40"] t(3) [of "frame 41"] by (simp add: ret ms)
  then have leave: "run memory_bus at K (26 + j) ?u = Some (address c, set_address (at (27 + j)) ?u)"
    using run_leave [of at K ?u "26 + j" memory_bus] home j'(1,2) by simp
  have "remainder (mem t) = crc_update (remainder (mem c)) (left (mem c))"
    using t(2) oks by (simp add: remainder_def ms)
  moreover have "mem ?u p = mem c p" if "off_frame p" "\<forall>i < 4. p \<noteq> cc_ret + of_nat i" for p
  proof -
    have "p \<noteq> frame 40" "p \<noteq> frame 41" using that(1) by auto
    then show ?thesis using ret(3) [OF that(2)] t(3) [of p] that(1) by (simp add: ms)
  qed
  ultimately show ?thesis
    using s t(1) u leave ret(2) by (intro exI [of _ "set_address (at (27 + j)) ?u"]) simp
qed

end

subsection \<open>The bytes of the two routines\<close>

definition arg2 :: "memory \<Rightarrow> u16" where "arg2 m = un16 (m (frame 8)) (m (frame 9))"
definition arg3 :: "memory \<Rightarrow> u16" where "arg3 m = un16 (m (frame 16)) (m (frame 17))"

definition range_left :: "memory \<Rightarrow> bytes" where
  "range_left m = map (\<lambda>i. m (arg2 m + of_nat i)) [0..<unat (arg3 m - arg2 m)]"

definition range_ok :: "(nat \<Rightarrow> u8) \<Rightarrow> memory \<Rightarrow> bool" where
  "range_ok T m \<longleftrightarrow> tables_at T m \<and> (\<forall>i < unat (arg3 m - arg2 m). off_frame (arg2 m + of_nat i))"

definition zeroes_left :: "memory \<Rightarrow> bytes" where
  "zeroes_left m = replicate (unat (arg2 m)) 0"

lemma tables_at_same: "tables_at T m \<Longrightarrow> (\<And>p. off_frame p \<Longrightarrow> m' p = m p) \<Longrightarrow> tables_at T m'"
  by (simp add: tables_at_def off_frame_def)

text \<open>Counting in two bytes.\<close>

lemma un16_zero: "un16 l h = 0 \<longleftrightarrow> l OR h = 0"
proof -
  have "un16 l h = 0 \<longleftrightarrow> unat l + 256 * unat h = 0" by (simp add: word_unat_eq_iff un16_val)
  also have "\<dots> \<longleftrightarrow> l = 0 \<and> h = 0" by (simp add: unat_eq_zero)
  finally show ?thesis by (simp add: or_eq_0_iff)
qed

lemma un16_inc: "un16 (l + 1) (h + of_bool (l = 0xff)) = un16 l h + 1"
proof -
  have l: "unat (l + 1) = (if l = 0xff then 0 else unat l + 1)"
    using unat_u8 [of l] by (auto simp: word_unat_eq_iff unat_word_ariths)
  show ?thesis
    using mult_mod_right [of 256 "Suc (unat h)" 256] unat_u8 [of h] unat_u8 [of l]
    by (auto simp: word_unat_eq_iff un16_val l unat_word_ariths mod_simps)
qed

lemma un16_dec: "un16 (l - 1) (h - of_bool (l = 0)) = un16 l h - 1"
proof -
  have "un16 ((l - 1) + 1) ((h - of_bool (l = 0)) + of_bool (l - 1 = 0xff)) = un16 (l - 1) (h - of_bool (l = 0)) + 1"
    by (rule un16_inc)
  moreover have z: "(0xff :: u8) = 0 - 1" by code_simp
  moreover have "l - 1 = 0xff \<longleftrightarrow> l = 0" unfolding z by (metis diff_add_cancel)
  ultimately show ?thesis by (simp add: eq_diff_eq)
qed
lemma replicate_eq_Cons: "replicate n x = b # bs \<longleftrightarrow> (\<exists>k. n = Suc k \<and> b = x \<and> bs = replicate k x)"
  by (cases n) auto

lemma zeroes_loop:
  "crc_loop T zeroes_test zeroes_advance zeroes_index zeroes_left (tables_at T)"
proof
  fix e c
  show "list_all straight (zeroes_test e)" "list_all straight zeroes_index" "list_all straight (zeroes_advance e)"
    by (simp_all add: zeroes_test_def zeroes_index_def zeroes_advance_def)
  show "mem (exec memory_bus (zeroes_test e) c) = mem c" "address (exec memory_bus (zeroes_test e) c) = e"
    by (simp_all add: zeroes_test_def address_def Let_def)
  show "zero (exec memory_bus (zeroes_test e) c) \<longleftrightarrow> zeroes_left (mem c) = []"
    by (simp add: zeroes_test_def address_def Let_def zeroes_left_def arg2_def unat_0_iff un16_zero or.commute)
  show "address (exec memory_bus (zeroes_advance e) c) = e"
    by (simp add: zeroes_advance_def address_def Let_def)
next
  fix c :: "memory cpu" and b bs e
  assume ok: "tables_at T (mem c)" and left: "zeroes_left (mem c) = b # bs"
  show "reg_a (exec memory_bus zeroes_index c) = b XOR mem c (frame 0)"
    "mem (exec memory_bus zeroes_index c) = (mem c)(frame 24 := b XOR mem c (frame 0))"
    using left by (auto simp: zeroes_index_def address_def zeroes_left_def replicate_eq_Cons)
  let ?m = "mem (exec memory_bus (zeroes_advance e) c)"
  have m: "?m = (mem c)(frame 9 := mem c (frame 9) - of_bool (mem c (frame 8) = 0), frame 8 := mem c (frame 8) - 1)"
    by (simp add: zeroes_advance_def address_def Let_def)
  have "arg2 ?m = arg2 (mem c) - 1" by (simp add: m arg2_def un16_dec)
  moreover from left have "arg2 (mem c) \<noteq> 0" by (auto simp: zeroes_left_def)
  ultimately have "zeroes_left ?m = bs"
    using left unat_minus_one [of "arg2 (mem c)"] by (auto simp: zeroes_left_def replicate_eq_Cons)
  moreover have "tables_at T ?m" by (rule tables_at_same [OF ok]) (auto simp: m)
  ultimately show "zeroes_left ?m = bs \<and> tables_at T ?m" by simp
next
  fix p e and c :: "memory cpu"
  assume "p \<notin> {frame 8, frame 9}"
  then show "mem (exec memory_bus (zeroes_advance e) c) p = mem c p"
    by (simp add: zeroes_advance_def address_def Let_def)
next
  fix m m' :: memory
  assume ok: "tables_at T m" and same: "\<And>p. arguments p \<Longrightarrow> m' p = m p"
  show "zeroes_left m' = zeroes_left m \<and> tables_at T m'"
    using tables_at_same [OF ok, of m'] same by (simp add: zeroes_left_def arg2_def arguments_def)
qed simp_all

lemma range_loop:
  "crc_loop T update_test update_advance update_index range_left (range_ok T)"
proof
  fix e c
  show "list_all straight (update_test e)" "list_all straight update_index" "list_all straight (update_advance e)"
    by (simp_all add: update_test_def update_index_def update_advance_def)
  show "mem (exec memory_bus (update_test e) c) = mem c" "address (exec memory_bus (update_test e) c) = e"
    by (simp_all add: update_test_def address_def Let_def)
  show "zero (exec memory_bus (update_test e) c) \<longleftrightarrow> range_left (mem c) = []"
    by (simp add: update_test_def address_def Let_def range_left_def arg2_def arg3_def unat_0_iff or_eq_0_iff)
       auto
  show "address (exec memory_bus (update_advance e) c) = e"
    by (simp add: update_advance_def address_def Let_def)
next
  fix m m' :: memory
  assume ok: "range_ok T m" and same: "\<And>p. arguments p \<Longrightarrow> m' p = m p"
  have "arg2 m' = arg2 m" "arg3 m' = arg3 m" using same by (simp_all add: arg2_def arg3_def arguments_def)
  then show "range_left m' = range_left m \<and> range_ok T m'"
    using ok same tables_at_same [of T m m'] by (auto simp: range_left_def range_ok_def arguments_def)
next
  fix p e and c :: "memory cpu"
  assume "p \<notin> {frame 8, frame 9}"
  then show "mem (exec memory_bus (update_advance e) c) p = mem c p"
    by (simp add: update_advance_def address_def Let_def)
next
  fix c :: "memory cpu" and b bs e
  assume ok: "range_ok T (mem c)" and left: "range_left (mem c) = b # bs"
  define n where "n = unat (arg3 (mem c) - arg2 (mem c))"
  obtain k where n: "n = Suc k" using left by (cases n) (auto simp: range_left_def n_def [symmetric])
  then have "b = mem c (arg2 (mem c))" using left by (simp add: range_left_def n_def [symmetric] upt_conv_Cons del: upt_Suc)
  then show "reg_a (exec memory_bus update_index c) = b XOR mem c (frame 0)"
    "mem (exec memory_bus update_index c) = (mem c)(frame 24 := b XOR mem c (frame 0))"
    by (simp_all add: update_index_def address_def arg2_def Let_def)
  let ?m = "mem (exec memory_bus (update_advance e) c)"
  have m: "?m = (mem c)(frame 9 := mem c (frame 9) + of_bool (mem c (frame 8) = 0xff), frame 8 := mem c (frame 8) + 1)"
    by (simp add: update_advance_def address_def Let_def)
  have a: "arg2 ?m = arg2 (mem c) + 1" "arg3 ?m = arg3 (mem c)" by (simp_all add: m arg2_def arg3_def un16_inc)
  have "arg3 (mem c) - arg2 (mem c) \<noteq> 0" using n by (auto simp: n_def)
  then have k: "unat (arg3 ?m - (arg2 (mem c) + 1)) = k"
    using n unat_minus_one [of "arg3 (mem c) - arg2 (mem c)"] by (simp add: a n_def diff_diff_eq [symmetric])
  have off: "off_frame (arg2 (mem c) + 1 + of_nat i)" if "i < k" for i
    using ok that n by (auto simp: range_ok_def n_def [symmetric] add.assoc dest: spec [of _ "Suc i"])
  have same: "?m p = mem c p" if "off_frame p" for p using that by (auto simp: m)
  have "range_left ?m = map (\<lambda>i. mem c (arg2 (mem c) + 1 + of_nat i)) [0..<k]"
    unfolding range_left_def k a(1) using same off by simp
  moreover have "bs = map (\<lambda>i. mem c (arg2 (mem c) + of_nat i)) (map Suc [0..<k])"
    using left n by (simp add: range_left_def n_def [symmetric] upt_conv_Cons map_Suc_upt del: upt_Suc)
  moreover have "range_ok T ?m"
    using ok off tables_at_same [of T "mem c" ?m] same unfolding range_ok_def k a(1) by blast
  ultimately show "range_left ?m = bs \<and> range_ok T ?m" by (simp add: add.assoc)
qed (simp add: range_ok_def)

interpretation range: crc_loop T update_test update_advance update_index range_left "range_ok T" for T
  by (rule range_loop)

interpretation zeroes: crc_loop T zeroes_test zeroes_advance zeroes_index zeroes_left "tables_at T" for T
  by (rule zeroes_loop)

subsection \<open>The properties\<close>

text \<open>
  C24: The instructions of \<open>crc_update\<close>, on any placement and with the tables on any four pages, end and return to the
  caller with the CRC of the bytes between the two pointers as the result, whatever their number, also when the range
  wraps around the end of the memory; apart from the result they change only the page of the arguments. The range may not
  lie on that page.
\<close>

theorem crc_update_code_refines:
  assumes "placed at (crc_update_code at T cc_ret)" and "\<not> inside at (crc_update_code at T cc_ret) (address c)"
    and "range_ok T (mem c)" and "even cc_ret" and "\<forall>i < 4. off_frame (cc_ret + of_nat i)"
  shows "\<exists>t. run memory_bus at (crc_update_code at T cc_ret) 0 c = Some (address c, t) \<and>
    word_at cc_ret (mem t) = crc_update (remainder (mem c)) (range_left (mem c)) \<and>
    (\<forall>p. off_frame p \<and> (\<forall>i < 4. p \<noteq> cc_ret + of_nat i) \<longrightarrow> mem t p = mem c p)"
proof (rule range.routine [OF _ assms(1) _ assms(2-5)])
  show "crc_update_code at T cc_ret = crc_code (update_test (at 85)) update_index (update_advance (at 8)) T cc_ret"
    by (simp add: crc_update_code_def)
qed (simp add: update_test_def update_index_def update_advance_def crc_parts)

text \<open>Likewise \<open>crc_update_zeroes\<close>, for a number of zeroes.\<close>

theorem crc_update_zeroes_code_refines:
  assumes "placed at (crc_update_zeroes_code at T cc_ret)" and "\<not> inside at (crc_update_zeroes_code at T cc_ret) (address c)"
    and "tables_at T (mem c)" and "even cc_ret" and "\<forall>i < 4. off_frame (cc_ret + of_nat i)"
  shows "\<exists>t. run memory_bus at (crc_update_zeroes_code at T cc_ret) 0 c = Some (address c, t) \<and>
    word_at cc_ret (mem t) = crc_update_zeroes (remainder (mem c)) (arg2 (mem c)) \<and>
    (\<forall>p. off_frame p \<and> (\<forall>i < 4. p \<noteq> cc_ret + of_nat i) \<longrightarrow> mem t p = mem c p)"
proof -
  have "crc_update x (zeroes_left m) = crc_update_zeroes x (arg2 m)" for x m
    by (simp add: zeroes_left_def crc_update_eq crc_update_zeroes_eq)
  moreover have "crc_update_zeroes_code at T cc_ret = crc_code (zeroes_test (at 71)) zeroes_index (zeroes_advance (at 8)) T cc_ret"
    by (simp add: crc_update_zeroes_code_def)
  moreover have "71 = 10 + length (zeroes_test (at 71)) + length (zeroes_index @ crc_turn T @ zeroes_advance (at 8))"
    by (simp add: zeroes_test_def zeroes_index_def zeroes_advance_def crc_parts)
  ultimately show ?thesis using zeroes.routine [OF _ assms(1) _ assms(2-5), of 71] by simp
qed

text \<open>A memory with the tables on the pages 16 to 19 and three bytes at 0x9000, whose CRC is asked for.\<close>

definition example_memory :: memory where
  "example_memory = (\<lambda>p. if hi8 p = 16 then crc_table_0 ! unat (lo8 p) else if hi8 p = 17 then crc_table_1 ! unat (lo8 p)
     else if hi8 p = 18 then crc_table_2 ! unat (lo8 p) else if hi8 p = 19 then crc_table_3 ! unat (lo8 p) else 0)
   (0x9000 := 0x31, 0x9001 := 0x32, 0x9002 := 0x33, frame 0 := 0xff, frame 1 := 0xff, frame 2 := 0xff, frame 3 := 0xff,
    frame 8 := 0, frame 9 := 0x90, frame 16 := 3, frame 17 := 0x90)"

theorem crc_update_code_refines_witness:
  "\<exists>t. run memory_bus (\<lambda>i. 0xa000 + of_nat i) (crc_update_code (\<lambda>i. 0xa000 + of_nat i) (\<lambda>k. 16 + of_nat k) 0xc700) 0
      \<lparr>reg_a = 0, reg_b = 0, reg_pl = 0x34, reg_ph = 0xb1, carry = False, zero = False, mem = example_memory\<rparr> = Some (0xb134, t) \<and>
    word_at 0xc700 (mem t) = crc_update 0xffffffff [0x31, 0x32, 0x33]"
proof -
  let ?at = "\<lambda>i. 0xa000 + of_nat i :: u16" and ?T = "\<lambda>k. 16 + of_nat k :: u8"
  let ?c = "\<lparr>reg_a = 0, reg_b = 0, reg_pl = 0x34, reg_ph = 0xb1, carry = False, zero = False, mem = example_memory\<rparr>"
  have a: "address ?c = 0xb134" by code_simp
  have code: "placed ?at (crc_update_code ?at ?T 0xc700)" "\<not> inside ?at (crc_update_code ?at ?T 0xc700) 0xb134"
    by code_simp+
  have n: "hi8 0x9000 = 0x90" "hi8 0x9001 = 0x90" "hi8 0x9002 = 0x90" by code_simp+
  have ne: "un16 x h \<noteq> 0x9000" "un16 x h \<noteq> 0x9001" "un16 x h \<noteq> 0x9002" if "h \<noteq> 0x90" for x h
    using that n by (metis un16_hi)+
  have tables: "tables_at ?T example_memory"
  proof -
    have "\<forall>k < 4. ?T k \<noteq> 0xc8" by code_simp
    then show ?thesis by (auto simp: tables_at_def example_memory_def ne)
  qed
  have args: "arg2 example_memory = 0x9000" "arg3 example_memory = 0x9003" "remainder example_memory = 0xffffffff"
    by code_simp+
  have left: "range_left example_memory = [0x31, 0x32, 0x33]" by code_simp
  have three: "unat (0x9003 - 0x9000 :: u16) = 3" by code_simp
  have lt: "(\<forall>i < 3. Q i) \<longleftrightarrow> Q 0 \<and> Q 1 \<and> Q 2" "(\<forall>i < 4. Q i) \<longleftrightarrow> Q 0 \<and> Q 1 \<and> Q 2 \<and> Q 3" for Q :: "nat \<Rightarrow> bool"
    by (auto simp: numeral_eq_Suc less_Suc_eq)
  have "\<forall>i < 3. off_frame (0x9000 + of_nat i)" unfolding lt by code_simp
  then have off: "range_ok ?T example_memory" using tables by (simp only: range_ok_def args three simp_thms)
  have cc: "even (0xc700 :: u16)" "\<forall>i < 4. off_frame (0xc700 + of_nat i)"
    by simp (unfold lt, code_simp)
  show ?thesis
    using crc_update_code_refines [of ?at ?T "0xc700" ?c] code off cc by (auto simp: a args left)
qed

end
