(* ===== verification/Spec2Isabelle.thy ===== *)
theory Spec2Isabelle
  imports CardSim FatCreate FatSafe FatList FatMount FatLoad LastError Keyboard Eth Syscall LoadCode CrcCode
begin

text \<open>
  A verification development for the system library of the CCPU, an 8-bit computer: a FAT16 file
  system on an SD card, a PS/2 keyboard, an Ethernet transmitter, CRC-32, and a text screen.

  \<^bold>\<open>Conventions.\<close> A C function is a command (theory Prelude): from a state it never returns
  (\<open>None\<close>), performs an access outside of an object (\<open>Some (Inl f)\<close>), or returns a value in a
  new state (\<open>Some (Inr (a, s))\<close>). Integers are words of the C type's width and wrap;
  expressions that C promotes are computed at 16 bits, the width of \<open>int\<close> on this machine.
  A loop that the code bounds by a counter is a recursion over it; a loop whose end depends on the
  card's contents or on the hardware is a \<open>partial_function (option)\<close>, so that every theorem that
  such a function gives \<open>Some\<close> includes its termination.

  \<^bold>\<open>Theories and code.\<close>

  \<^item> Prelude: commands, weakest preconditions (\<open>wp_simps\<close>), words, little-endian buffers.
  \<^item> Card: include/libsys/card.h, the driver's four operations as a parameter, and what the file
    system relies on, as locales: \<open>sized_card\<close> (buffers keep 512 bytes), on it \<open>live_device\<close>
    (operations on ready blocks return without error and move exactly the block), and on that
    \<open>bounded_device\<close> (blocks behind the end are refused). The interpretation \<open>sd\<close> gives a card in memory.
  \<^item> CardSpi, CardDriver, CardSim: lib/card.asm. The routines are commands over the SPI registers; the
    locale \<open>spi_card\<close> states the conversations of the SD card's SPI mode, \<open>sized_spi_card\<close> also the answer for a block
    behind the card's end, and their \<open>sublocale\<close>s show that the driver on such a card is a \<open>live_device\<close> and a
    \<open>bounded_device\<close>, the contracts of all theorems about the file system. Nothing is said of blocks that are not on
    the card but whose index agrees with one modulo \<open>2 ^ 23\<close>: for these the driver reads the other block.
    CardSim has a card that follows the protocol, and the properties of the driver.
  \<^item> FatTypes: lib/fat/private.h and the data of include/libsys/fat/fat.h, packed layouts included.
  \<^item> FatCache: \<open>cache\<close>, \<open>flush_cache\<close>, and the requests for blocks they serve together. An access to the buffer
    behind its 512 bytes is a fault, whether of bytes or of an entry of the FAT. \<open>coherent\<close>, \<open>good\<close> and \<open>fat_state\<close> (a coherent cache and two
    equal copies of the FAT) are the invariants of the file system's state. The locale
    \<open>disk_invariant\<close> is the contract of a predicate that every access through the cache keeps.
  \<^item> FatTable: the FAT, \<open>read_fat_entry\<close> to \<open>free_cluster_chain\<close>. The abstract table is
    \<open>fat_entry\<close>, a function of the card's blocks, and \<open>chain\<close> a list of linked clusters.
  \<^item> FatDesc, FatMount: descriptors, \<open>fat_mount\<close>, and what a mount establishes.
  \<^item> FatFile: \<open>seek_begin\<close>, \<open>seek_advance\<close>, \<open>fat_action\<close>, \<open>fat_close\<close>, \<open>fat_truncate\<close>, \<open>fat_seek\<close>,
    \<open>fat_seek_end\<close>. The abstract view is in FatRead: a file is the sequence \<open>file_bytes\<close> of its
    bytes, \<open>file_open fi B cs d p\<close> says that the descriptor \<open>d\<close> stands at position \<open>p\<close> of the file with
    the chain \<open>cs\<close>. FatRead, FatWrite, FatSeek and FatClose show that each operation refines the
    operation on the sequence, and name the two situations in which it does not.
  \<^item> FatName, FatDir, FatFind, FatOpen: 8.3 names, directories; the lookup refines a search in
    the list of all slots of the directory (\<open>lookup\<close>), and opening gives \<open>file_open\<close> at 0. FatList:
    listing a directory is the filter of the same list; \<open>dir_pos\<close> is the place in it.
  \<^item> FatPersist, FatCreate: the composition of writing, closing, opening by name and reading, for a file that
    was there and for a new one.
  \<^item> FatSafe: what holds on a card that may fail and a volume that is not sound: the locale
    \<open>desc_invariant\<close> collects the invariants that allow one descriptor to change, and its three extensions
    the operations that keep the place of an entry, a position in a file and a position in a directory. Opening,
    seeking, truncating, closing, reading and listing stay within the arrays and leave the other descriptors alone
    (if they return: a cycle in the table can keep them from it); the two ways out of \<open>cache_block\<close> are theorems.
  \<^item> FatPath, FatWalk: lib/fat/path.c. The relation \<open>resolves\<close> follows the names of a path from one
    directory to the next; \<open>fat_open_path\<close> opens what it leads to.
  \<^item> FatExec, FatLoad: lib/fat/exec.c, the layers put together: what a program's file leaves in the RAM.
  \<^item> Ccpu: the instructions of the processor that the smaller assembly routines use, as steps on its registers and a
    memory. On it run Syscall (lib/syscall.asm), LoadCode (lib/fat/loload.asm, lib/fat/lorun.asm) and CrcCode
    (\<open>crc_update\<close> and \<open>crc_update_zeroes\<close> of lib/crc.asm), instruction by instruction; they refine the effects the
    other theories work with. The locale \<open>lo_memory\<close> is the memory with the low RAM switched in and out, \<open>crc_loop\<close> what
    the two loops of the CRC share.
  \<^item> LastError: messages (lib/fat/last_error.c).
  \<^item> Vga: lib/vga.c and lib/fat/progressbar.c. A store of the bar outside of the segment of the screen, where the
    registers of the hardware and the variables are, is a fault.
  \<^item> Ps2, Keyboard: lib/ps2.c and lib/ps2keyboard.c; the locale \<open>key_table\<close> is what the decoder
    relies on in a table of scan codes, interpreted for both tables of the source.
  \<^item> Crc, Eth: lib/crc.asm, lib/bitmix.asm and lib/eth.c; the locale \<open>crc_tables\<close> is what
    makes four tables right for the polynomial, interpreted for the tables of the source.
  \<^item> Syscall: include/libsys/syscall.h, the macros of fat.h, lib/syscall.asm. The calls as numbers with
    function types, and the routine that enters the operating system, by its effect and as instructions.

  \<^bold>\<open>Interaction.\<close> Keyboard uses the port of Ps2 and Eth the CRC. In the file system every layer calls
  the one before: the driver the bus, the cache the driver, the table and the directories the cache, file access the
  table, opening the directories, paths the opening, program loading the paths, file access and the
  progress bar. All share the one cache block; that is why each theorem about an operation speaks
  about the whole card, not only about the part it works on.

  \<^bold>\<open>Bounds.\<close> \<open>cluster_geometry\<close> admits 1 to 64 blocks per cluster; 128 overflow the 16 bits of
  \<open>last_cluster_len\<close>. \<open>volume_ok\<close> keeps the data area's addresses below \<open>2 ^ 32\<close> and asks that a free
  entry belongs to a cluster of the card. A write of up to 65024 bytes keeps the sums of
  \<open>next_chunk\<close> within 16 bits.

  \<^bold>\<open>Not modelled.\<close> The SD card itself (a parameter, with the conversations above), the operating
  system behind \<open>syscall\<close> (a parameter; its table of functions is not in the repository), the registers of
  lib/card.asm, of \<open>crc_check_relaxed\<close> and of lib/bitmix.asm (their loops, branches and tables are modelled), the
  receiving side of the Ethernet interface (register addresses in a header, no code), the millisecond of delay in the card driver, and
  the Makefile.
\<close>

section \<open>The whole stack\<close>

text \<open>
  C5: From power-on to the bytes of a file. On a card that follows the SPI protocol and holds a sane
  volume, \<open>fat_init\<close>, \<open>fat_mount\<close>, \<open>fat_open_path\<close> and \<open>fat_read\<close>, running on the code of the card driver,
  return the first bytes of the file the path leads to, as many as were asked for or as the file has; the
  card's content has not changed.
\<close>

theorem power_on_and_read:
  assumes card: "spi_card P rest blocks there"
    and on: "\<not> bit (ctrl_get P (dev s)) 0" "resets P (dev s) q" "boots P (spi_put P 0xff q) p" "rest p"
    and s: "wf_fs s"
    and part: "there p 0" "there p pt" "pt = part_rel_sector (decode_partition (blocks p 0) 446)"
    and bpb: "b = decode_bpb (blocks p pt)" "sane_bpb b" "fats_ok b (there p) (blocks p)"
    and fi: "fi = bpb_info b (fat_info s)"
    and path: "deref path = CH_SLASH" "\<forall>nm \<in> set (components path). short nm"
      "resolves fi (there p) (blocks p) (root_found (fat_private_file_desc s ! 0)) (components path) w"
    and mode: "mode AND 3 \<noteq> 3"
    and f: "entry_file fi (blocks p) cs (fst w)" "de_attrs (fst w) AND FAT_FILE_ATTR_DIRECTORY = 0" "file_ready fi (there p) cs"
    and n: "unat len \<le> length dst" "n = min (unat len) (unat (de_size (fst w)))"
  shows "\<exists>t. andthen fat_init (andthen (fat_mount (spi_ops P)) (bnd (fat_open_path (spi_ops P) path mode)
      (\<lambda>fd. fat_read (spi_ops P) fd dst len))) s =
      Some (Inr ((of_nat n, splice_at dst 0 (take n (file_data fi (blocks p) cs))), t)) \<and>
    fat_info t = fi \<and> blocks (dev t) = blocks p"
proof -
  let ?C = "spi_ops P" and ?rdy = "\<lambda>p b. rest p \<and> there p b" and ?ds = "fat_private_file_desc s" and ?B = "blocks p"
  have dev: "live_device ?C blocks ?rdy" using spi_card.driver_live [OF card] .
  have rdy: "?rdy p = there p" using on(4) by simp
  let ?s = "s\<lparr>fat_private_file_desc := map (\<lambda>d. d\<lparr>is_free := True, is_stale := False\<rparr>) ?ds, cache_block_addr := INVALID_BLOCK_ADDR\<rparr>"
  have ini: "fat_init s = Some (Inr ((), ?s))" by (simp add: fat_init_def)
  have wf: "wf_fs ?s" using s by (simp add: wf_fs_def)
  have up: "op_init ?C (dev ?s) = Some (0, p)"
    using card_init_reset [of P "\<lparr>bus = dev s, block_buf = []\<rparr>" q] ready_loop_run [OF on(3)] on(1,2) by (simp add: spi_ops_def call_driver_def)
  have r: "?rdy p 0" "?rdy p pt" "fats_ok b (?rdy p) ?B" using part(1,2) bpb(3) on(4) by simp_all
  obtain t where t: "fat_mount ?C ?s = Some (Inr (True, t))" "fat_state blocks ?rdy t" "fat_info t = bpb_info b (fat_info ?s)"
    "fat_private_file_desc t = map mark_stale (fat_private_file_desc ?s)" "blocks (dev t) = ?B" "?rdy (dev t) = ?rdy p"
    by (rule live_device.fat_mount_run [OF dev wf up part(3) r(1,2) bpb(1,2) r(3)])
  have info: "fat_info t = fi" using t(3) fi by simp
  let ?d = "(?ds ! 0)\<lparr>is_free := True, is_stale := False\<rparr>"
  have "?ds \<noteq> []" using s by (auto simp: wf_fs_def)
  then have d0: "fat_private_file_desc t ! 0 = ?d" "0 = first_free (fat_private_file_desc t)"
    unfolding t(4) by (cases ?ds; simp add: mark_stale_def)+
  have geo: "cluster_geometry fi" using sane_geometry [OF bpb(2)] fi by simp
  have root: "root_found ?d = root_found (?ds ! 0)" by (simp add: root_found_def)
  obtain u where u: "fat_open_path ?C path mode t = Some (Inr (of_nat 0, u))"
    "file_step blocks ?rdy t 0 (init_desc fi (fat_entry fi ?B) (found_desc w ?d)) (last_error t) ?B u"
    using live_device.open_path_run [OF dev t(2) _ d0(2), unfolded info t(5,6) rdy d0(1) root, OF geo _ path mode f(1,2)] by auto
  let ?e = "init_desc fi (fat_entry fi ?B) (found_desc w ?d)"
  have open0: "file_open fi ?B cs ?e 0" using init_desc_open [OF geo, of ?B cs "found_desc w ?d"] f(1) by (simp add: found_desc_def)
  have live: "\<not> is_free ?e" "\<not> is_stale ?e" "file_size ?e = unat (de_size (fst w))"
    by (simp_all add: init_desc_def found_desc_def Let_def file_size_def)
  note eq = file_step_simps [OF u(2)]
  have Su: "fat_state blocks ?rdy u" by (rule file_step_state [OF t(2) u(2) [folded t(5)]])
  have du: "fat_private_file_desc u ! unat (0 :: u8) = ?e" unfolding eq(1) using d0 t(4) \<open>?ds \<noteq> []\<close> by simp
  have len: "n = min (unat len) (file_size ?e - 0)" "unat (0 :: u8) < MAX_FILE_DESC" using n(2) live(3) by simp_all
  obtain v d' where v: "fat_read ?C 0 dst len u = Some (Inr ((of_nat n, splice_at dst 0 (slice_at (file_data fi ?B cs) 0 n)), v))"
    "file_step blocks ?rdy u (unat (0 :: u8)) d' (if n < unat len then FAT_EOF else last_error u) ?B v" "moved ?e d'" "file_open fi ?B cs d' (0 + n)"
    by (rule live_device.fat_read_run [OF dev Su _ len(2) du live(1,2), unfolded eq(2,4,5) info t(6) rdy,
        OF geo open0 f(3) n(1) len(1)]) blast
  have "fat_info v = fi" "blocks (dev v) = ?B" using file_step_simps [OF v(2)] eq(2) info by simp_all
  then show ?thesis using ini t(1) u(1) v(1) by (intro exI [of _ v]) (simp add: bnd_def slice_at_def)
qed
text \<open>A card with the boot sector of \<open>boot_card\<close> and the file \<open>A.TXT\<close> of five bytes, just inserted.\<close>

definition hello_entry :: FatDirEntry where
  "hello_entry = small_entry\<lparr>de_size := 5\<rparr>"

definition hello_disk :: "u32 \<Rightarrow> bytes" where
  "hello_disk b = (if b < 2 then contents boot_card b
     else if b = 2 \<or> b = 18 then [0xf8, 0xff, 0xff, 0xff, 0xff, 0xff]
     else if b = 34 then encode_entry hello_entry else if b = 35 then [0x48, 0x45, 0x4c, 0x4c, 0x4f] else [])"

definition hello_card :: sim_card where
  "hello_card = new_card hello_disk 4300"

definition hello_fs :: "sim_card fs" where
  "hello_fs = \<lparr>cache_block = replicate 512 0, cache_block_addr = 0, fat_info = small_info,
     fat_private_file_desc = replicate 16 free_desc, last_error = 0, dev = hello_card\<rparr>"

definition hello_up :: sim_card where
  "hello_up = hello_card\<lparr>rx := 0xff, boot := 0\<rparr>"

lemma hello_block: "sim_block hello_up b = take 512 (hello_disk b @ replicate 512 0)"
  by (simp add: sim_block_def hello_up_def hello_card_def new_card_def)

lemma hello_there: "sim_there hello_up b \<longleftrightarrow> unat b < 4300"
  by (auto simp: sim_there_def hello_up_def hello_card_def new_card_def word_less_nat_alt)

lemma hello_boot: "sim_block hello_up 0 = sd_block boot_card 0" "sim_block hello_up 1 = sd_block boot_card 1"
  by (simp_all add: hello_block sd_block_def hello_disk_def)

lemma hello_fats: "fats_ok (decode_bpb (sd_block boot_card 1)) (sim_there hello_up) (sim_block hello_up)"
proof -
  have "sim_block hello_up (of_nat (18 + i)) = sim_block hello_up (of_nat (2 + i))" if i: "i < 16" for i
  proof -
    have u: "unat (of_nat k :: u32) = k" if "k < 100" for k using that by (simp add: unat_of_nat_mod)
    have "(of_nat (2 + i) :: u32) = 2 \<longleftrightarrow> i = 0" "(of_nat (18 + i) :: u32) = 18 \<longleftrightarrow> i = 0"
      "(of_nat (2 + i) :: u32) \<noteq> 18" "(of_nat (18 + i) :: u32) \<noteq> 2" "\<not> (of_nat (2 + i) :: u32) < 2" "\<not> (of_nat (18 + i) :: u32) < 2"
      "(of_nat (2 + i) :: u32) \<noteq> 34" "(of_nat (18 + i) :: u32) \<noteq> 34" "(of_nat (2 + i) :: u32) \<noteq> 35" "(of_nat (18 + i) :: u32) \<noteq> 35"
      using i u [of "2 + i"] u [of "18 + i"] by (auto simp: word_unat_eq_iff word_less_nat_alt simp del: of_nat_add)
    then show ?thesis by (simp only: hello_block hello_disk_def if_False simp_thms if_cancel)
  qed
  moreover have "sim_there hello_up (of_nat k)" if "k < 100" for k
    using that by (simp add: hello_there unat_of_nat_mod)
  ultimately show ?thesis unfolding fats_ok_def boot_start by (simp add: boot_blocks(2) del: of_nat_add of_nat_Suc add_2_eq_Suc)
qed

lemma hello_file:
  shows "resolves boot_info (sim_there hello_up) (sim_block hello_up) (root_found (fat_private_file_desc hello_fs ! 0))
      (components [0x2f, 0x2f, 0x41, 0x2e, 0x54, 0x58, 0x54]) (hello_entry, 0, 34)"
    and "entry_file boot_info (sim_block hello_up) [2] hello_entry"
    and "file_blocks boot_info [2] = [35]"
proof -
  let ?B = "sim_block hello_up" and ?w = "root_found (fat_private_file_desc hello_fs ! 0)" and ?nm = "[0x41, 0x2e, 0x54, 0x58, 0x54] :: bytes"
  have raw: "raw ?B (34, 0) = encode_entry hello_entry"
  proof -
    have "length (encode_entry hello_entry) = 32" by (simp add: hello_entry_def small_entry_def)
    then show ?thesis by (simp add: raw_def hello_block hello_disk_def slice_at_def)
  qed
  have first: "take 11 (encode_entry hello_entry) = de_filename small_entry" "encode_entry hello_entry ! 0 = 0x41"
    "decode_entry (encode_entry hello_entry) = hello_entry"
  proof -
    show "decode_entry (encode_entry hello_entry) = hello_entry" by (rule decode_encode_entry) (simp add: hello_entry_def small_entry_def)
  qed (simp_all add: encode_entry_def hello_entry_def small_entry_def)
  have nm: "to_fat_name ?nm = de_filename small_entry" by code_simp
  have "[34] = run_of (root_dir_block boot_info) (1 * spc boot_info)" by (simp add: run_of_def spc_def boot_info_def)
  then have "\<exists>n. [34] = run_of (root_dir_block boot_info) (n * spc boot_info)" by (rule exI)
  then have "dir_blocks boot_info (sim_there hello_up) ?B (Some (fst ?w)) [34]"
    unfolding dir_blocks_def by (simp add: root_found_def hello_there)
  moreover have "lookup ?B (to_fat_name ?nm) (slots [34]) None = Hit (34, 0)"
    by (simp add: slots_def upt_rec raw first nm)
  ultimately have "names boot_info (sim_there hello_up) ?B (fst ?w) ?nm (34, 0)" by (auto simp: names_def)
  from down [OF this here] show "resolves boot_info (sim_there hello_up) ?B ?w (components [0x2f, 0x2f, 0x41, 0x2e, 0x54, 0x58, 0x54]) (hello_entry, 0, 34)"
    unfolding small_components by (simp add: found_place_def found_at_def raw first)
  have "fat_entry boot_info ?B 2 = 0xffff"
    by (simp add: fat_entry_def boot_info_def hello_block hello_disk_def rd16_def un16_def fat_sector_def fat_slot_def)
  then have "chain boot_info ?B [2]"
    by (simp add: data_cluster_def in_fat_def boot_info_def)
  then show "entry_file boot_info ?B [2] hello_entry"
    by (simp add: entry_file_def hello_entry_def small_entry_def cluster_bytes_def spc_def boot_info_def)
  show "file_blocks boot_info [2] = [35]" by (simp add: file_blocks_def spc_def boot_info_def cluster_addr_def)
qed

theorem power_on_and_read_witness:
  "\<exists>t. andthen fat_init (andthen (fat_mount (spi_ops sim)) (bnd (fat_open_path (spi_ops sim) [0x2f, 0x2f, 0x41, 0x2e, 0x54, 0x58, 0x54] 0)
      (\<lambda>fd. fat_read (spi_ops sim) fd (replicate 8 0) 8))) hello_fs =
    Some (Inr ((5, [0x48, 0x45, 0x4c, 0x4c, 0x4f, 0, 0, 0]), t))"
proof -
  have wf: "wf_fs hello_fs" by (simp add: wf_fs_def hello_fs_def)
  have dev: "dev hello_fs = new_card hello_disk 4300" by (simp add: hello_fs_def hello_card_def)
  have up: "spi_put sim 0xff (new_card hello_disk 4300\<lparr>rx := 1\<rparr>) = new_card hello_disk 4300\<lparr>rx := 0xff\<rparr>"
    by (simp add: sim_put_def new_card_def)
  have idle: "sim_idle hello_up" by (simp add: sim_idle_def sim_waits_def hello_up_def hello_card_def new_card_def)
  have data: "file_data boot_info (sim_block hello_up) [2] = [0x48, 0x45, 0x4c, 0x4c, 0x4f] @ replicate 507 0"
    unfolding file_data_def hello_file(3) by (simp add: hello_block hello_disk_def)
  have size: "min (unat (8 :: u16)) (unat (de_size hello_entry)) = 5" by (simp add: hello_entry_def)
  note run = power_on_and_read [OF sim.spi_card_axioms, of hello_fs, unfolded dev, OF _ new_card_resets, unfolded up, OF _ new_card_boots,
      folded hello_card_def hello_up_def, OF _ idle wf]
  have on: "\<not> bit (ctrl_get sim hello_card) 0" by (simp add: sim_def hello_card_def new_card_def)
  have part: "sim_there hello_up 0" "sim_there hello_up 1" by (simp_all add: hello_there)
  have path: "deref [0x2f, 0x2f, 0x41, 0x2e, 0x54, 0x58, 0x54] = CH_SLASH"
    "\<forall>nm \<in> set (components [0x2f, 0x2f, 0x41, 0x2e, 0x54, 0x58, 0x54]). short nm"
    unfolding small_components by (simp_all add: deref_def CH_SLASH_def short_def FILENAME_BUF_def)
  have f: "de_attrs hello_entry AND FAT_FILE_ATTR_DIRECTORY = 0" "file_ready boot_info (sim_there hello_up) [2]"
    using hello_file(3) by (simp_all add: hello_entry_def small_entry_def file_ready_def hello_there)
  show ?thesis
    using run [OF on part, unfolded hello_boot boot_blocks(1), OF refl refl boot_sane hello_fats boot_bpb_info [symmetric] path hello_file(1), of 0 "[2]" 8 "replicate 8 0" 5]
      hello_file(2) f data size by (auto simp: splice_at_def numeral_3_eq_3)
qed

end
